(* ===== verification/Prelude.thy ===== *)
theory Prelude
  imports Main "HOL-Library.Word"
begin

text \<open>
  Shared vocabulary of the development: the machine integers of the 32-bit RISC-V target
  (ilp32: \<open>char\<close> is unsigned, \<open>int\<close>, \<open>long\<close>, \<open>size_t\<close> and pointers have 32 bits), the
  byte-addressed memory that the C code reads and writes through pointers, little-endian
  16 and 32 bit accesses, and the ideal ("all at once") effects of copying and filling a
  region that the loops of the C library are compared with.

  Regions are described by offsets: address \<open>x\<close> lies in the region of \<open>n\<close> bytes at \<open>a\<close> iff
  \<open>unat (x - a) < n\<close>.  The description also makes sense for regions that wrap around the
  end of the address space, so no lemma below needs a no-wrap side condition.
\<close>

unbundle bit_operations_syntax

section \<open>Machine integers\<close>

type_synonym u8 = "8 word"
type_synonym u16 = "16 word"
type_synonym u32 = "32 word"
type_synonym u64 = "64 word"

named_theorems mem_simps \<open>reading memory after a write\<close>
named_theorems region_simps \<open>membership in a region of memory\<close>

text \<open>A string literal of the C source as its bytes, without the terminating zero.\<close>

definition lit :: "string \<Rightarrow> u8 list" where
  "lit s = map of_char s"

lemma lit_Nil [simp]: "lit [] = []"
  by (simp add: lit_def)

lemma lit_Cons [simp]: "lit (c # s) = of_char c # lit s"
  by (simp add: lit_def)

lemma length_lit [simp]: "length (lit s) = length s"
  by (simp add: lit_def)

lemma replicate_numeral:
  "replicate (numeral k) x = x # replicate (pred_numeral k) x"
  by (simp add: numeral_eq_Suc)

lemma uint_unat: "uint x = int (unat x)"
  by simp

lemma unat_lt_pow32: "unat (x :: u32) < 4294967296"
  using unsigned_less [of x] by simp

lemma unat_of_nat32: "i < 4294967296 \<Longrightarrow> unat (of_nat i :: u32) = i"
  by (rule of_nat_inverse [OF refl]) simp

lemma u32_wrap: "of_nat 4294967296 = (0 :: u32)"
  by (simp add: word_unat_eq_iff)

lemma u32_of_nat_inj:
  assumes "i < 4294967296" "j < 4294967296"
  shows "(of_nat i = (of_nat j :: u32)) = (i = j)"
  using assms by (metis unat_of_nat32)

lemma u32_offset: "a + of_nat (unat (x - a)) = (x :: u32)"
  by simp

lemma u32_eq_offset: "(x = a + of_nat j) = (unat (x - a) = j)" if "j < 4294967296" for x a :: u32
proof
  assume "x = a + of_nat j"
  then show "unat (x - a) = j" using that by (simp add: unat_of_nat32)
next
  assume "unat (x - a) = j"
  then show "x = a + of_nat j" by (metis u32_offset)
qed

lemma unat_sub32:
  "unat (p - q) = (if unat q \<le> unat p then unat p - unat q else unat p + 4294967296 - unat q)"
  for p q :: u32
  by (simp add: unat_sub_if')

lemma unat_add32:
  "unat (p + q) = (if unat p + unat q < 4294967296 then unat p + unat q
                   else unat p + unat q - 4294967296)"
  for p q :: u32
  by (simp add: unat_plus_if')

text \<open>Counting loops over \<open>size_t\<close>: up to a limit, and down to zero.\<close>

lemma unat_Suc_below: "i < n \<Longrightarrow> unat (i + 1) = Suc (unat i)" for i n :: u32
  using unat_add32 [of i 1] unat_lt_pow32 [of n] by (simp add: word_less_nat_alt)

lemma word_count_up [termination_simp, simp]: "i < n \<Longrightarrow> unat (n - (i + 1)) < unat (n - i)"
  for i n :: u32
  using unat_Suc_below [of i n] unat_sub32 [of n i] unat_sub32 [of n "i + 1"]
  by (simp add: word_less_nat_alt)

lemma word_count_down [termination_simp, simp]: "0 < n \<Longrightarrow> unat (n - 1) < unat n" for n :: u32
  by (simp add: unat_minus_one unat_gt_0 word_neq_0_conv [symmetric])

lemma unat_pred: "0 < n \<Longrightarrow> unat (n - 1) = unat n - 1" for n :: u32
  by (simp add: unat_minus_one word_neq_0_conv [symmetric])

lemma u32_zero_cases: "\<not> 0 < n \<longleftrightarrow> n = 0" for n :: u32
  by (simp add: word_gt_0)

lemma byte_mask: "0xff = (mask 8 :: u32)"
  by (simp add: mask_eq_exp_minus_1)

lemma unat_and_mask: "unat (x AND mask n) = unat x mod 2 ^ n" for x :: u32
  using and_mask_mod_2p [of x n]
  by (metis take_bit_eq_mask take_bit_eq_mod unsigned_take_bit_eq)

lemma unat_and_3: "unat (x AND 3) = unat x mod 4" for x :: u32
  using unat_and_mask [of x 2] by (simp add: mask_eq_exp_minus_1)

lemma u32_and_3_eq_0: "x AND 3 = 0 \<longleftrightarrow> 4 dvd unat x" for x :: u32
  by (metis unat_and_3 unat_eq_0 dvd_eq_mod_eq_0)

lemma unat_div4: "unat (x div 4) = unat x div 4" for x :: u32
  by (simp add: unat_div)

lemma sint_small: "sint x = int (unat x)" if "unat x < 2147483648" for x :: u32
proof -
  have "uint x < 2147483648"
    using that by (simp add: unat_eq_nat_uint nat_less_iff del: nat_uint_eq)
  then have "signed_take_bit 31 (uint x) = uint x"
    unfolding signed_take_bit_int_eq_self_iff by (simp add: order_trans [of _ 0])
  then show ?thesis by (simp add: sint_uint)
qed

lemma sint_large: "sint x = int (unat x) - 4294967296" if "\<not> unat x < 2147483648" for x :: u32
proof -
  have "\<not> uint x < 2147483648" "uint x < 4294967296"
    using that unat_lt_pow32 [of x] by (simp_all add: unat_eq_nat_uint nat_less_iff del: nat_uint_eq)
  then have "(uint x - 2147483648 + 4294967296) mod 4294967296 = uint x - 2147483648"
    unfolding mod_add_self2 by (subst mod_pos_pos_trivial) simp_all
  then have "(uint x + 2147483648) mod 4294967296 = uint x - 2147483648"
    by (simp add: add.commute)
  then have "signed_take_bit 31 (uint x) = uint x - 4294967296"
    by (simp add: signed_take_bit_eq_take_bit_shift take_bit_eq_mod)
  then show ?thesis by (simp add: sint_uint)
qed

text \<open>Bytes and half words zero-extended to words.\<close>

lemma ucast_down_up: "ucast (ucast x :: u32) = (x :: u8)"
  by (rule bit_word_eqI) (simp add: bit_simps)

lemma u8_u32_inj [simp]: "(ucast x = (ucast y :: u32)) = (x = y)" for x y :: u8
  by (metis ucast_down_up)

lemma u8_u32_0 [simp]: "(ucast x = (0 :: u32)) = (x = 0)" for x :: u8
  by (metis ucast_down_up ucast_0)

lemma unat_u8_u32 [simp]: "unat (ucast x :: u32) = unat x" for x :: u8
  using unsigned_less [of x, where ?'a = nat]
  by (simp add: unsigned_ucast_eq take_bit_nat_eq_self_iff)

lemma unat_u16_u32 [simp]: "unat (ucast x :: u32) = unat x" for x :: u16
  using unsigned_less [of x, where ?'a = nat]
  by (simp add: unsigned_ucast_eq take_bit_nat_eq_self_iff)

lemma sint_neg_iff: "sint x < 0 \<longleftrightarrow> \<not> unat x < 2147483648" for x :: u32
proof (cases "unat x < 2147483648")
  case True
  then show ?thesis unfolding sint_small [OF True] by simp
next
  case False
  then show ?thesis unfolding sint_large [OF False] using unat_lt_pow32 [of x] by linarith
qed

lemma nat_abs_sint: "nat \<bar>sint x\<bar> = (if sint x < 0 then unat (- x) else unat x)" for x :: u32
proof (cases "unat x < 2147483648")
  case True
  then show ?thesis unfolding sint_neg_iff unfolding sint_small [OF True] by simp
next
  case False
  have "unat (- x) = 4294967296 - unat x"
    using unat_sub32 [of 0 x] False by simp
  then show ?thesis
    unfolding sint_neg_iff unfolding sint_large [OF False]
    using False unat_lt_pow32 [of x] by (simp only: if_True not_False_eq_True)
qed

section \<open>Undefined behaviour\<close>

text \<open>
  What a C program must not do, as values: signed arithmetic out of range, a variadic argument
  that is missing or of another type than the format asks for, an access outside an array.
\<close>

datatype ub = Overflow | Bad_vararg | Out_of_bounds

section \<open>Memory\<close>

type_synonym mem = "u32 \<Rightarrow> u8"

text \<open>The \<open>n\<close> bytes at an address, and a run of bytes written from an address upwards.\<close>

definition bytes :: "mem \<Rightarrow> u32 \<Rightarrow> nat \<Rightarrow> u8 list" where
  "bytes m a n = map (\<lambda>i. m (a + of_nat i)) [0..<n]"

fun put_bytes :: "mem \<Rightarrow> u32 \<Rightarrow> u8 list \<Rightarrow> mem" where
  "put_bytes m a [] = m"
| "put_bytes m a (b # bs) = put_bytes (m(a := b)) (a + 1) bs"

text \<open>Little-endian loads and stores of half words and words.\<close>

definition load16 :: "mem \<Rightarrow> u32 \<Rightarrow> u16" where
  "load16 m a = word_cat (m (a + 1)) (m a)"

definition store16 :: "mem \<Rightarrow> u32 \<Rightarrow> u16 \<Rightarrow> mem" where
  "store16 m a v = m(a := ucast v, a + 1 := ucast (drop_bit 8 v))"

definition load32 :: "mem \<Rightarrow> u32 \<Rightarrow> u32" where
  "load32 m a =
     word_cat (word_cat (m (a + 3)) (m (a + 2)) :: u16) (word_cat (m (a + 1)) (m a) :: u16)"

definition store32 :: "mem \<Rightarrow> u32 \<Rightarrow> u32 \<Rightarrow> mem" where
  "store32 m a v = m(a := ucast v, a + 1 := ucast (drop_bit 8 v),
                     a + 2 := ucast (drop_bit 16 v), a + 3 := ucast (drop_bit 24 v))"

text \<open>The ideal effect of copying and of filling a region.\<close>

definition copied :: "mem \<Rightarrow> u32 \<Rightarrow> u32 \<Rightarrow> nat \<Rightarrow> mem" where
  "copied m d s n = (\<lambda>x. if unat (x - d) < n then m (s + (x - d)) else m x)"

definition filled :: "mem \<Rightarrow> u32 \<Rightarrow> nat \<Rightarrow> u8 \<Rightarrow> mem" where
  "filled m a n b = (\<lambda>x. if unat (x - a) < n then b else m x)"

subsection \<open>Byte runs\<close>

lemma length_bytes [simp]: "length (bytes m a n) = n"
  by (simp add: bytes_def)

lemma nth_bytes [simp]: "i < n \<Longrightarrow> bytes m a n ! i = m (a + of_nat i)"
  by (simp add: bytes_def)

lemma bytes_0 [simp]: "bytes m a 0 = []"
  by (simp add: bytes_def)

lemma bytes_Suc: "bytes m a (Suc n) = m a # bytes m (a + 1) n"
  by (simp add: bytes_def map_upt_Suc algebra_simps del: upt_Suc)

lemma bytes_1 [simp]: "bytes m a (Suc 0) = [m a]"
  by (simp add: bytes_Suc)

lemma bytes_numeral [simp]:
  "bytes m a (numeral k) = m a # bytes m (a + 1) (pred_numeral k)"
  by (simp add: numeral_eq_Suc bytes_Suc)

lemma bytes_add: "bytes m a (j + k) = bytes m a j @ bytes m (a + of_nat j) k"
  by (induction j arbitrary: a) (simp_all add: bytes_Suc algebra_simps)

lemma bytes_cong:
  "(\<And>i. i < n \<Longrightarrow> m (a + of_nat i) = m' (a' + of_nat i)) \<Longrightarrow> bytes m a n = bytes m' a' n"
  by (simp add: bytes_def)

lemma bytes_eq_iff:
  "bytes m a n = bytes m' a' n \<longleftrightarrow> (\<forall>i<n. m (a + of_nat i) = m' (a' + of_nat i))"
  by (auto simp: bytes_def)

lemma put_bytes_outside:
  "length bs \<le> unat (x - a) \<Longrightarrow> put_bytes m a bs x = m x"
proof (induction bs arbitrary: m a)
  case (Cons b bs)
  have "x \<noteq> a" using Cons.prems by auto
  then have "unat (x - a) \<noteq> 0" by (metis unat_eq_0 right_minus_eq)
  then have "unat (x - (a + 1)) = unat (x - a) - 1"
    by (metis diff_diff_eq unat_minus_one unat_eq_0)
  with Cons.prems have "length bs \<le> unat (x - (a + 1))" by simp
  with Cons.IH \<open>x \<noteq> a\<close> show ?case by simp
qed simp

lemma put_bytes_inside:
  "unat (x - a) < length bs \<Longrightarrow> length bs \<le> 4294967296
    \<Longrightarrow> put_bytes m a bs x = bs ! unat (x - a)"
proof (induction bs arbitrary: m a)
  case (Cons b bs)
  show ?case
  proof (cases "x = a")
    case True
    then have "length bs \<le> unat (x - (a + 1))"
      using Cons.prems by (simp add: unsigned_minus_1_eq_mask mask_eq_exp_minus_1)
    with True show ?thesis by (simp add: put_bytes_outside)
  next
    case False
    then have "unat (x - a) \<noteq> 0" by (metis unat_eq_0 right_minus_eq)
    then have *: "unat (x - (a + 1)) = unat (x - a) - 1"
      by (metis diff_diff_eq unat_minus_one unat_eq_0)
    with Cons.prems \<open>unat (x - a) \<noteq> 0\<close> have "unat (x - (a + 1)) < length bs" by simp
    with Cons \<open>unat (x - a) \<noteq> 0\<close> * show ?thesis by simp
  qed
qed simp

lemma put_bytes_append:
  "put_bytes m a (bs @ cs) = put_bytes (put_bytes m a bs) (a + of_nat (length bs)) cs"
  by (induction bs arbitrary: m a) (simp_all add: algebra_simps)

lemma put_bytes_bytes: "n \<le> 4294967296 \<Longrightarrow> put_bytes m d (bytes m s n) = copied m d s n"
  by (rule ext) (auto simp: copied_def put_bytes_inside put_bytes_outside not_less)

subsection \<open>Half words and words\<close>

lemma load16_store16 [simp, mem_simps]: "load16 (store16 m a v) a = v"
  by (rule bit_word_eqI) (auto simp: load16_def store16_def bit_simps)

lemma load32_store32 [simp, mem_simps]: "load32 (store32 m a v) a = v"
  by (rule bit_word_eqI) (auto simp: load32_def store32_def bit_simps)

lemma store16_put_bytes: "store16 m a v = put_bytes m a [ucast v, ucast (drop_bit 8 v)]"
  by (simp add: store16_def)

lemma store32_put_bytes:
  "store32 m a v = put_bytes m a
     [ucast v, ucast (drop_bit 8 v), ucast (drop_bit 16 v), ucast (drop_bit 24 v)]"
  by (simp add: store32_def algebra_simps)

lemma store16_outside [region_simps]: "2 \<le> unat (x - a) \<Longrightarrow> store16 m a v x = m x"
  by (simp add: store16_put_bytes put_bytes_outside del: put_bytes.simps)

lemma store32_outside [region_simps]: "4 \<le> unat (x - a) \<Longrightarrow> store32 m a v x = m x"
  by (simp add: store32_put_bytes put_bytes_outside del: put_bytes.simps)

text \<open>Two \<open>n\<close>-byte cells that do not overlap, wherever they lie.\<close>

definition apart :: "nat \<Rightarrow> u32 \<Rightarrow> u32 \<Rightarrow> bool" where
  "apart n a b \<longleftrightarrow> n \<le> unat (a - b) \<and> n \<le> unat (b - a)"

lemma apart_sym: "apart n a b \<Longrightarrow> apart n b a"
  by (simp add: apart_def)

lemma apart_offset:
  assumes "apart n a b" "k < n" "n \<le> 4294967296"
  shows "n \<le> unat (b + of_nat k - a)"
proof -
  have "unat (a - b) = 4294967296 - unat (b - a)" if "a \<noteq> b"
    using that unat_sub32 [of a b] unat_sub32 [of b a] unat_lt_pow32 [of a] unat_lt_pow32 [of b]
    by (auto simp: word_unat_eq_iff split: if_splits)
  moreover have "a \<noteq> b" using assms by (auto simp: apart_def)
  ultimately have le: "unat (b - a) + k < 4294967296"
    using assms unat_lt_pow32 [of "b - a"] by (auto simp: apart_def)
  then have "unat ((b - a) + of_nat k) = unat (b - a) + k"
    using assms unat_add32 [of "b - a" "of_nat k"] by (simp add: unat_of_nat32)
  moreover have "b + of_nat k - a = (b - a) + of_nat k" by simp
  ultimately have "unat (b + of_nat k - a) = unat (b - a) + k" by (simp only:)
  then show ?thesis using assms by (simp add: apart_def)
qed

lemma load32_cong:
  "(\<And>k. k < 4 \<Longrightarrow> m (a + of_nat k) = m' (a + of_nat k)) \<Longrightarrow> load32 m a = load32 m' a"
proof -
  assume *: "\<And>k. k < 4 \<Longrightarrow> m (a + of_nat k) = m' (a + of_nat k)"
  from * [of 0] * [of 1] * [of 2] * [of 3] show ?thesis by (simp add: load32_def)
qed

lemma load32_store32_apart [mem_simps]:
  "apart 4 a b \<Longrightarrow> load32 (store32 m a v) b = load32 m b"
  by (rule load32_cong) (simp add: store32_outside apart_offset)

subsection \<open>Copying and filling\<close>

lemma copied_0 [simp]: "copied m d s 0 = m"
  by (simp add: copied_def)

lemma copied_same [simp]: "copied m a a n = m"
  by (rule ext) (simp add: copied_def)

lemma filled_0 [simp]: "filled m a 0 b = m"
  by (simp add: filled_def)

lemma copied_1: "copied m d s (Suc 0) = m(d := m s)"
  by (rule ext) (auto simp: copied_def unat_eq_0)

lemma filled_1: "filled m a (Suc 0) b = m(a := b)"
  by (rule ext) (auto simp: filled_def unat_eq_0)

lemma unat_diff_offset:
  fixes x a :: u32
  assumes "i \<le> 4294967296"
  shows "unat (x - (a + of_nat i)) =
    (if i \<le> unat (x - a) then unat (x - a) - i else 4294967296 + unat (x - a) - i)"
proof (cases "i = 4294967296")
  case True
  then have "(of_nat i :: u32) = 0"
    by (simp add: word_unat_eq_iff)
  with True show ?thesis using unat_lt_pow32 [of "x - a"] by (simp del: of_nat_numeral)
next
  case False
  with assms have i: "i < 4294967296" by simp
  have "unat (x - (a + of_nat i)) = unat ((x - a) - of_nat i)" by (simp add: algebra_simps)
  also have "\<dots> = (if i \<le> unat (x - a) then unat (x - a) - i else 4294967296 + unat (x - a) - i)"
    using i by (simp add: unat_sub32 [of "x - a"] unat_of_nat32 add.commute)
  finally show ?thesis .
qed

lemma filled_step:
  assumes "i + k \<le> 4294967296"
  shows "filled (filled m a i b) (a + of_nat i) k b = filled m a (i + k) b"
  using assms unat_lt_pow32 
  by (intro ext) (auto simp: filled_def unat_diff_offset not_le split: if_splits)

text \<open>
  A forward loop has copied the first \<open>i\<close> bytes and copies the next \<open>k\<close>: the result is the
  ideal copy of \<open>i + k\<close> bytes, unless the destination lies inside the source region.  A
  backward loop has copied the last \<open>i\<close> bytes: the mirror image.
\<close>

lemma copied_forward:
  assumes ok: "d = s \<or> i + k \<le> unat (d - s)" and le: "i + k \<le> 4294967296"
  shows "copied (copied m d s i) (d + of_nat i) (s + of_nat i) k = copied m d s (i + k)"
proof (cases "d = s")
  case True
  then show ?thesis by simp
next
  case False
  with ok have e: "i + k \<le> unat (d - s)" by simp
  show ?thesis
  proof (rule ext)
    fix x
    have src: "\<not> unat (s + (x - d) - d) < i" if "i \<le> unat (x - d)" "unat (x - d) < i + k"
    proof -
      have "unat (s + (x - d) - d) = unat ((x - d) - (d - s))" by (simp add: algebra_simps)
      also have "\<dots> = 4294967296 + unat (x - d) - unat (d - s)"
        using that e unat_sub32 [of "x - d" "d - s"] by simp
      finally show ?thesis using that unat_lt_pow32 [of "d - s"] by linarith
    qed
    have pos: "s + of_nat i + (x - (d + of_nat i)) = s + (x - d)" by simp
    show "copied (copied m d s i) (d + of_nat i) (s + of_nat i) k x = copied m d s (i + k) x"
      using src le unat_lt_pow32 [of "x - d"]
      by (auto simp: copied_def unat_diff_offset pos algebra_simps split: if_splits)
  qed
qed

lemma copied_backward:
  assumes ok: "d = s \<or> i + k \<le> unat (s - d)" and le: "i + k \<le> 4294967296"
  shows "copied (copied m (d + of_nat k) (s + of_nat k) i) d s k = copied m d s (i + k)"
proof (cases "d = s")
  case True
  then show ?thesis by simp
next
  case False
  with ok have e: "i + k \<le> unat (s - d)" by simp
  show ?thesis
  proof (rule ext)
    fix x
    have src: "unat (s + (x - d) - (d + of_nat k)) \<ge> i" if "unat (x - d) < k"
    proof -
      have eq: "s + (x - d) - d = (s - d) + (x - d)" by simp
      have "i + k \<le> unat (s + (x - d) - d) \<or> unat (s + (x - d) - d) < k"
        using that e unat_add32 [of "s - d" "x - d"] unat_lt_pow32 [of "s - d"]
        unfolding eq by (auto split: if_splits)
      then show ?thesis
        using that le e unat_diff_offset [of k "s + (x - d)" d] by (auto split: if_splits)
    qed
    have inner: "copied m (d + of_nat k) (s + of_nat k) i (s + (x - d)) = m (s + (x - d))"
      if "unat (x - d) < k"
      by (simp only: copied_def) (rule if_not_P, use src [OF that] in linarith)
    have pos: "s + of_nat k + (x - (d + of_nat k)) = s + (x - d)" by simp
    show "copied (copied m (d + of_nat k) (s + of_nat k) i) d s k x = copied m d s (i + k) x"
    proof (cases "unat (x - d) < k")
      case True
      with inner show ?thesis by (simp add: copied_def [of _ d s])
    next
      case False
      with le show ?thesis by (auto simp: copied_def unat_diff_offset pos)
    qed
  qed
qed

lemma word_copy: "store32 m d (load32 m s) = copied m d s 4"
proof -
  have "[ucast (load32 m s), ucast (drop_bit 8 (load32 m s)),
         ucast (drop_bit 16 (load32 m s)), ucast (drop_bit 24 (load32 m s))] = bytes m s 4"
    by (simp add: bytes_Suc load32_def algebra_simps) (auto intro!: bit_word_eqI simp: bit_simps)
  then show ?thesis
    by (simp only: store32_put_bytes put_bytes_bytes)
qed

end
