(* ===== verification/LibcMem.thy ===== *)
theory LibcMem
  imports Prelude
begin

text \<open>
  The memory functions of the C library: \<open>memchr\<close>, \<open>memcmp\<close>, \<open>memcpy\<close>, \<open>memmove\<close> and
  \<open>memset\<close> of \<^verbatim>\<open>libc/src/string\<close>, each a state-passing function on the byte memory, with
  one recursive function per loop.  \<open>size_t\<close> is \<open>u32\<close>; the copy loops count an \<open>int\<close> down to
  zero, as the code does, so a length of \<open>2^31\<close> bytes or more turns negative there.
  A pointer that may be \<open>NULL\<close> is an option.

  The interface \<open>block_copy\<close> states what a caller of a copying routine relies on; it is
  interpreted on the models of \<open>memcpy\<close> and \<open>memmove\<close>.
\<close>

section \<open>Code\<close>

subsection \<open>memchr and memcmp\<close>

function memchr_loop :: "mem \<Rightarrow> u32 \<Rightarrow> u8 \<Rightarrow> u32 \<Rightarrow> u32 \<Rightarrow> u32 option" where
  "memchr_loop m b x i len =
     (if i < len
      then if m (b + i) = x then Some (b + i) else memchr_loop m b x (i + 1) len
      else None)"
  by pat_completeness auto
termination
  by (relation "measure (\<lambda>(m, b, x, i, len). unat (len - i))") auto

definition memchr :: "mem \<Rightarrow> u32 \<Rightarrow> u32 \<Rightarrow> u32 \<Rightarrow> u32 option" where
  "memchr m buf c len = memchr_loop m buf (ucast (c AND 0xff)) 0 len"

function memcmp_loop :: "mem \<Rightarrow> u32 \<Rightarrow> u32 \<Rightarrow> u32 \<Rightarrow> u8 \<Rightarrow> u8" where
  "memcmp_loop m su1 su2 count res =
     (if 0 < count
      then let res = m su1 - m su2 in
           if res \<noteq> 0 then res else memcmp_loop m (su1 + 1) (su2 + 1) (count - 1) res
      else res)"
  by pat_completeness auto
termination
  by (relation "measure (\<lambda>(m, su1, su2, count, res). unat count)") auto

text \<open>The difference of the two bytes is kept in a \<open>signed char\<close> and returned as an \<open>int\<close>.\<close>

definition memcmp :: "mem \<Rightarrow> u32 \<Rightarrow> u32 \<Rightarrow> u32 \<Rightarrow> int" where
  "memcmp m cs ct count = sint (memcmp_loop m cs ct count 0)"

subsection \<open>memset\<close>

text \<open>\<open>for ( ; n > 0; n-- ) *xs++ = c\<close> and its word-wise counterpart.\<close>

function set_bytes :: "mem \<Rightarrow> u32 \<Rightarrow> u32 \<Rightarrow> u8 \<Rightarrow> mem \<times> u32" where
  "set_bytes m xs n c = (if 0 < n then set_bytes (m(xs := c)) (xs + 1) (n - 1) c else (m, xs))"
  by pat_completeness auto
termination
  by (relation "measure (\<lambda>(m, xs, n, c). unat n)") auto

function set_words :: "mem \<Rightarrow> u32 \<Rightarrow> u32 \<Rightarrow> u32 \<Rightarrow> mem \<times> u32" where
  "set_words m xs n cc =
     (if 0 < n then set_words (store32 m xs cc) (xs + 4) (n - 1) cc else (m, xs))"
  by pat_completeness auto
termination
  by (relation "measure (\<lambda>(m, xs, n, c). unat n)") auto

definition memset :: "mem \<Rightarrow> u32 \<Rightarrow> u32 \<Rightarrow> u32 \<Rightarrow> mem" where
  "memset m s c count =
     (let len = (- s) AND 3;
          cc = c AND 0xff
      in if count > len
         then let count = count - len;
                  cc = cc OR push_bit 8 cc;
                  cc = cc OR push_bit 16 cc;
                  (m, xs) = set_bytes m s len (ucast c);
                  (m, xs) = set_words m xs (count div 4) cc;
                  count = count AND 3
              in fst (set_bytes m xs count (ucast c))
         else fst (set_bytes m s count (ucast c)))"

subsection \<open>memcpy and memmove\<close>

text \<open>
  \<open>for (; len > 0; len--) *d++ = *s++\<close>, the same in words, and the two loops that run
  downwards with \<open>*--d = *--s\<close>.
\<close>

function copy_up :: "mem \<Rightarrow> u32 \<Rightarrow> u32 \<Rightarrow> int \<Rightarrow> mem \<times> u32 \<times> u32" where
  "copy_up m d s len =
     (if len > 0 then copy_up (m(d := m s)) (d + 1) (s + 1) (len - 1) else (m, d, s))"
  by pat_completeness auto
termination by (relation "measure (\<lambda>(m, d, s, len). nat len)") auto

function copy_words_up :: "mem \<Rightarrow> u32 \<Rightarrow> u32 \<Rightarrow> int \<Rightarrow> mem \<times> u32 \<times> u32" where
  "copy_words_up m d s len =
     (if len > 0
      then copy_words_up (store32 m d (load32 m s)) (d + 4) (s + 4) (len - 1) else (m, d, s))"
  by pat_completeness auto
termination by (relation "measure (\<lambda>(m, d, s, len). nat len)") auto

function copy_down :: "mem \<Rightarrow> u32 \<Rightarrow> u32 \<Rightarrow> int \<Rightarrow> mem \<times> u32 \<times> u32" where
  "copy_down m d s len =
     (if len > 0
      then let d = d - 1; s = s - 1 in copy_down (m(d := m s)) d s (len - 1) else (m, d, s))"
  by pat_completeness auto
termination by (relation "measure (\<lambda>(m, d, s, len). nat len)") auto

function copy_words_down :: "mem \<Rightarrow> u32 \<Rightarrow> u32 \<Rightarrow> int \<Rightarrow> mem \<times> u32 \<times> u32" where
  "copy_words_down m d s len =
     (if len > 0
      then let d = d - 4; s = s - 4
           in copy_words_down (store32 m d (load32 m s)) d s (len - 1) else (m, d, s))"
  by pat_completeness auto
termination by (relation "measure (\<lambda>(m, d, s, len). nat len)") auto

definition memcpy :: "mem \<Rightarrow> u32 \<Rightarrow> u32 \<Rightarrow> u32 \<Rightarrow> mem" where
  "memcpy m dest src count =
     (if count = 0 \<or> dest = src then m
      else let (m, d, s, count) =
                 (if (dest OR src) AND 3 \<noteq> 0
                  then let len = (if (dest XOR src) AND 3 \<noteq> 0 \<or> count < 4
                                  then sint count else sint (4 - (dest AND 3)));
                           count = count - of_int len;
                           (m, d, s) = copy_up m dest src len
                       in (m, d, s, count)
                  else (m, dest, src, count));
               (m, d, s) = copy_words_up m d s (sint (count div 4));
               (m, d, s) = copy_up m d s (sint (count AND 3))
           in m)"

definition memmove :: "mem \<Rightarrow> u32 \<Rightarrow> u32 \<Rightarrow> u32 \<Rightarrow> mem" where
  "memmove m dest src count =
     (if count = 0 \<or> dest = src then m
      else if sint dest < sint src
      then let (m, d, s, count) =
                 (if (dest OR src) AND 3 \<noteq> 0
                  then let len = (if (dest XOR src) AND 3 \<noteq> 0 \<or> count < 4
                                  then sint count else sint (4 - (dest AND 3)));
                           count = count - of_int len;
                           (m, d, s) = copy_up m dest src len
                       in (m, d, s, count)
                  else (m, dest, src, count));
               (m, d, s) = copy_words_up m d s (sint (count div 4));
               (m, d, s) = copy_up m d s (sint (count AND 3))
           in m
      else let d = dest + count; s = src + count;
               (m, d, s, count) =
                 (if (d OR s) AND 3 \<noteq> 0
                  then let len = (if (d XOR s) AND 3 \<noteq> 0 \<or> count \<le> 4
                                  then sint count else sint (d AND 3));
                           count = count - of_int len;
                           (m, d, s) = copy_down m d s len
                       in (m, d, s, count)
                  else (m, d, s, count));
               (m, d, s) = copy_words_down m d s (sint (count div 4));
               (m, d, s) = copy_down m d s (sint (count AND 3))
           in m)"

declare memchr_loop.simps [simp del] memcmp_loop.simps [simp del] set_bytes.simps [simp del]
  set_words.simps [simp del] copy_up.simps [simp del] copy_words_up.simps [simp del]
  copy_down.simps [simp del] copy_words_down.simps [simp del]

section \<open>memset\<close>

lemma set_bytes_eq: "set_bytes m xs n c = (filled m xs (unat n) c, xs + n)"
proof (induction m xs n c rule: set_bytes.induct)
  case (1 m xs n c)
  show ?case
  proof (cases "0 < n")
    case True
    have "filled (m(xs := c)) (xs + 1) (unat n - 1) c = filled m xs (unat n) c"
      using filled_step [of 1 "unat n - 1" m xs c] True unat_lt_pow32 [of n]
      by (simp add: filled_1 word_less_nat_alt)
    with 1 [OF True] True show ?thesis
      by (subst set_bytes.simps) (simp only: if_True unat_pred, simp)
  next
    case False
    then show ?thesis by (subst set_bytes.simps) (simp add: word_gt_0)
  qed
qed

lemma store32_filled:
  assumes "ucast v = b" "ucast (drop_bit 8 v) = b" "ucast (drop_bit 16 v) = b"
    "ucast (drop_bit 24 v) = b"
  shows "store32 m a v = filled m a 4 b"
proof -
  have "store32 m a v = put_bytes m a (replicate 4 b)"
    by (simp only: store32_put_bytes assms) (simp add: numeral_eq_Suc)
  then show ?thesis
    by (auto simp: fun_eq_iff filled_def put_bytes_inside put_bytes_outside not_less
        simp del: put_bytes.simps)
qed

lemma set_words_eq:
  assumes "\<And>m a. store32 m a cc = filled m a 4 b" and "4 * unat n \<le> 4294967296"
  shows "set_words m xs n cc = (filled m xs (4 * unat n) b, xs + 4 * n)"
  using assms
proof (induction m xs n cc rule: set_words.induct)
  case (1 m xs n cc)
  show ?case
  proof (cases "0 < n")
    case True
    then have n: "unat n = Suc (unat (n - 1))" by (simp add: unat_pred word_less_nat_alt)
    have "filled (filled m xs 4 b) (xs + 4) (4 * unat (n - 1)) b = filled m xs (4 * unat n) b"
      using filled_step [of 4 "4 * unat (n - 1)" m xs b] 1 n by simp
    moreover have "set_words (store32 m xs cc) (xs + 4) (n - 1) cc =
        (filled (store32 m xs cc) (xs + 4) (4 * unat (n - 1)) b, xs + 4 + 4 * (n - 1))"
      using 1(1) [OF True] 1(2,3) n by simp
    ultimately show ?thesis
      using True 1(2) by (subst set_words.simps) (simp add: algebra_simps)
  next
    case False
    then show ?thesis by (subst set_words.simps) (simp add: word_gt_0)
  qed
qed

lemma memset_pattern:
  fixes c :: u32
  defines "cc \<equiv> c AND 0xff"
  defines "cc1 \<equiv> cc OR push_bit 8 cc"
  defines "cc2 \<equiv> cc1 OR push_bit 16 cc1"
  shows "store32 m a cc2 = filled m a 4 (ucast c)"
proof (rule store32_filled)
  have cc: "cc = c AND mask 8" by (simp only: cc_def byte_mask)
  show "ucast cc2 = (ucast c :: u8)" "ucast (drop_bit 8 cc2) = (ucast c :: u8)"
    "ucast (drop_bit 16 cc2) = (ucast c :: u8)" "ucast (drop_bit 24 cc2) = (ucast c :: u8)"
    unfolding cc2_def cc1_def cc by (rule bit_word_eqI, auto simp: bit_simps)+
qed

lemma memset_filled: "memset m s c count = filled m s (unat count) (ucast c)"
proof (cases "count > (- s) AND 3")
  case False
  then show ?thesis by (simp add: memset_def set_bytes_eq Let_def)
next
  case True
  define len where "len = (- s) AND 3"
  define k where "k = count - len"
  have k: "unat k = unat count - unat len"
    using True by (simp add: k_def len_def unat_sub32 word_less_nat_alt)
  have q: "4 * unat (k div 4) \<le> 4294967296"
    using unat_lt_pow32 [of k] by (simp add: unat_div4)
  have "unat len + 4 * unat (k div 4) + unat (k AND 3) = unat count"
    using k True by (simp add: unat_div4 unat_and_3 len_def word_less_nat_alt)
  then have sum: "4 * unat (k div 4) + (unat len + unat (k AND 3)) = unat count" by simp
  have f: "filled (filled (filled m s (unat len) b) (s + len) (4 * unat (k div 4)) b)
      (s + len + 4 * (k div 4)) (unat (k AND 3)) b = filled m s (unat count) b" for b
    using filled_step [of "unat len" "4 * unat (k div 4)" m s b]
      filled_step [of "unat len + 4 * unat (k div 4)" "unat (k AND 3)" m s b]
      sum unat_lt_pow32 [of count]
    by (simp add: add.assoc add.left_commute)
  note words = set_words_eq [OF memset_pattern q]
  show ?thesis
    using True
    by (simp only: memset_def Let_def if_True set_bytes_eq prod.case len_def [symmetric]
        k_def [symmetric] words fst_conv f)
qed

section \<open>memcpy and memmove\<close>

text \<open>
  Each loop, started where the first \<open>i\<close> bytes (upwards) or the last \<open>i\<close> bytes (downwards) are
  already in place, extends the ideal copy by its own share.
\<close>

lemma copy_up_eq:
  assumes "d = s \<or> i + k \<le> unat (d - s)" "i + k \<le> 4294967296"
  shows "copy_up (copied m d s i) (d + of_nat i) (s + of_nat i) (int k) =
    (copied m d s (i + k), d + of_nat (i + k), s + of_nat (i + k))"
  using assms
proof (induction k arbitrary: i)
  case 0
  then show ?case by (simp add: copy_up.simps)
next
  case (Suc k)
  have step: "(copied m d s i)(d + of_nat i := copied m d s i (s + of_nat i)) = copied m d s (Suc i)"
    using copied_forward [of d s i 1 m] Suc.prems by (cases "d = s") (simp_all add: copied_1)
  show ?case
    using Suc.IH [of "Suc i"] Suc.prems
    by (subst copy_up.simps) (simp add: step algebra_simps)
qed

lemma copy_words_up_eq:
  assumes "d = s \<or> i + 4 * k \<le> unat (d - s)" "i + 4 * k \<le> 4294967296"
  shows "copy_words_up (copied m d s i) (d + of_nat i) (s + of_nat i) (int k) =
    (copied m d s (i + 4 * k), d + of_nat (i + 4 * k), s + of_nat (i + 4 * k))"
  using assms
proof (induction k arbitrary: i)
  case 0
  then show ?case by (simp add: copy_words_up.simps)
next
  case (Suc k)
  have step: "store32 (copied m d s i) (d + of_nat i) (load32 (copied m d s i) (s + of_nat i)) =
      copied m d s (i + 4)"
    unfolding word_copy by (rule copied_forward) (use Suc.prems in auto)
  show ?case
    using Suc.IH [of "i + 4"] Suc.prems
    by (subst copy_words_up.simps) (simp add: step algebra_simps)
qed

lemma copy_down_Suc:
  "copy_down m (d + 1) (s + 1) (int (Suc k)) = copy_down (m(d := m s)) d s (int k)"
  by (subst copy_down.simps) simp

lemma copy_words_down_Suc:
  "copy_words_down m (d + 4) (s + 4) (int (Suc k)) =
     copy_words_down (store32 m d (load32 m s)) d s (int k)"
  by (subst copy_words_down.simps) simp

lemma copy_down_eq:
  assumes "d = s \<or> i + k \<le> unat (s - d)" "i + k \<le> 4294967296"
  shows "copy_down (copied m (d + of_nat k) (s + of_nat k) i) (d + of_nat k) (s + of_nat k) (int k)
    = (copied m d s (i + k), d, s)"
  using assms
proof (induction k arbitrary: i)
  case 0
  then show ?case by (simp add: copy_down.simps)
next
  case (Suc k)
  let ?d = "d + of_nat k" and ?s = "s + of_nat k"
  have step: "(copied m (?d + 1) (?s + 1) i)(?d := copied m (?d + 1) (?s + 1) i ?s)
      = copied m ?d ?s (Suc i)"
    using copied_backward [of ?d ?s i 1 m] Suc.prems by (cases "d = s") (simp_all add: copied_1)
  have next1: "d + of_nat (Suc k) = ?d + 1" "s + of_nat (Suc k) = ?s + 1" by simp_all
  show ?case
    using Suc.IH [of "Suc i"] Suc.prems
    unfolding next1 copy_down_Suc step by (cases "d = s") simp_all
qed

lemma copy_words_down_eq:
  assumes "d = s \<or> i + 4 * k \<le> unat (s - d)" "i + 4 * k \<le> 4294967296"
  shows "copy_words_down (copied m (d + of_nat (4 * k)) (s + of_nat (4 * k)) i)
      (d + of_nat (4 * k)) (s + of_nat (4 * k)) (int k)
    = (copied m d s (i + 4 * k), d, s)"
  using assms
proof (induction k arbitrary: i)
  case 0
  then show ?case by (simp add: copy_words_down.simps)
next
  case (Suc k)
  let ?d = "d + of_nat (4 * k)" and ?s = "s + of_nat (4 * k)"
  have step: "store32 (copied m (?d + 4) (?s + 4) i) ?d (load32 (copied m (?d + 4) (?s + 4) i) ?s)
      = copied m ?d ?s (i + 4)"
    using copied_backward [of ?d ?s i 4 m] Suc.prems by (cases "d = s") (simp_all add: word_copy)
  have next4: "d + of_nat (4 * Suc k) = ?d + 4" "s + of_nat (4 * Suc k) = ?s + 4" by simp_all
  show ?case
    using Suc.IH [of "i + 4"] Suc.prems
    unfolding next4 copy_words_down_Suc step by (cases "d = s") (simp_all add: add.assoc)
qed


subsection \<open>The three phases together\<close>

text \<open>
  The lengths the code computes: the bytes before the first word boundary (\<open>l\<close>), whole words,
  and the rest.
\<close>

lemma copy_lengths:
  fixes count :: u32
  assumes "unat count < 2147483648" "l \<le> unat count"
  defines "c \<equiv> count - of_nat l"
  shows "unat c = unat count - l" "sint (c div 4) = int (unat c div 4)"
    "sint (c AND 3) = int (unat c mod 4)" "l + 4 * (unat c div 4) + unat c mod 4 = unat count"
proof -
  show c: "unat c = unat count - l"
    using assms unat_lt_pow32 [of count] by (simp add: c_def unat_sub32 unat_of_nat32)
  with assms show "sint (c div 4) = int (unat c div 4)" "sint (c AND 3) = int (unat c mod 4)"
    by (simp_all add: sint_small unat_div4 unat_and_3)
  show "l + 4 * (unat c div 4) + unat c mod 4 = unat count"
    using c assms(2) by presburger
qed

lemma forward_phases:
  fixes count :: u32
  assumes ok: "d = s \<or> unat count \<le> unat (d - s)"
    and small: "unat count < 2147483648" and l: "l \<le> unat count"
  defines "c \<equiv> count - of_nat l"
  shows "fst (case copy_words_up (copied m d s l) (d + of_nat l) (s + of_nat l) (sint (c div 4)) of
           (m, d, s) \<Rightarrow> copy_up m d s (sint (c AND 3))) = copied m d s (unat count)"
proof -
  note len = copy_lengths [OF small l, folded c_def]
  have "copy_words_up (copied m d s l) (d + of_nat l) (s + of_nat l) (int (unat c div 4)) =
    (copied m d s (l + 4 * (unat c div 4)), d + of_nat (l + 4 * (unat c div 4)),
     s + of_nat (l + 4 * (unat c div 4)))"
    by (rule copy_words_up_eq) (use ok small len in auto)
  moreover have "copy_up (copied m d s (l + 4 * (unat c div 4))) (d + of_nat (l + 4 * (unat c div 4)))
     (s + of_nat (l + 4 * (unat c div 4))) (int (unat c mod 4)) =
    (copied m d s (unat count), d + of_nat (unat count), s + of_nat (unat count))"
    using copy_up_eq [of d s "l + 4 * (unat c div 4)" "unat c mod 4" m] ok small len
    by (simp only: len(4))
  ultimately show ?thesis by (simp only: len(2,3) prod.case fst_conv)
qed

lemma backward_phases:
  fixes count :: u32
  assumes ok: "d = s \<or> unat count \<le> unat (s - d)"
    and small: "unat count < 2147483648" and l: "l \<le> unat count"
  defines "c \<equiv> count - of_nat l"
  shows "fst (case copy_words_down (copied m (d + c) (s + c) l) (d + c) (s + c) (sint (c div 4)) of
           (m, d, s) \<Rightarrow> copy_down m d s (sint (c AND 3))) = copied m d s (unat count)"
proof -
  note len = copy_lengths [OF small l, folded c_def]
  let ?q = "unat c div 4" and ?r = "unat c mod 4"
  let ?d = "d + of_nat ?r" and ?s = "s + of_nat ?r"
  have c: "c = of_nat ?r + of_nat (4 * ?q)"
    by (metis mod_mult_div_eq of_nat_add of_nat_unat ucast_id)
  have w: "copy_words_down (copied m (?d + of_nat (4 * ?q)) (?s + of_nat (4 * ?q)) l)
      (?d + of_nat (4 * ?q)) (?s + of_nat (4 * ?q)) (int ?q) = (copied m ?d ?s (l + 4 * ?q), ?d, ?s)"
    by (rule copy_words_down_eq) (use ok small len in auto)
  have "copy_down (copied m ?d ?s (l + 4 * ?q)) ?d ?s (int ?r) = (copied m d s (unat count), d, s)"
    using copy_down_eq [of d s "l + 4 * ?q" ?r m] ok small len by (simp only: len(4))
  moreover have "d + c = ?d + of_nat (4 * ?q)" "s + c = ?s + of_nat (4 * ?q)"
    using c by (metis add.assoc)+
  ultimately show ?thesis using w by (simp only: len(2,3) prod.case fst_conv)
qed


lemma memcpy_copied:
  assumes ok: "d = s \<or> unat n \<le> unat (d - s)" and small: "unat n < 2147483648"
  shows "memcpy m d s n = copied m d s (unat n)"
proof -
  define l where "l = (if (d OR s) AND 3 = 0 then 0
    else if (d XOR s) AND 3 \<noteq> 0 \<or> n < 4 then unat n else 4 - unat (d AND 3))"
  have d3: "unat (4 - (d AND 3)) = 4 - unat (d AND 3)"
    by (simp add: unat_sub32 unat_and_3)
  have l: "l \<le> unat n"
    by (auto simp: l_def word_less_nat_alt not_less)
  have pos: "(if (d XOR s) AND 3 \<noteq> 0 \<or> n < 4 then sint n else sint (4 - (d AND 3))) = int l"
    if "(d OR s) AND 3 \<noteq> 0"
    using that small by (simp add: l_def sint_small d3)
  have up: "copy_up m d s (int l) = (copied m d s l, d + of_nat l, s + of_nat l)"
    using copy_up_eq [of d s 0 l m] ok small l by (cases "d = s") simp_all
  show ?thesis
  proof (cases "n = 0 \<or> d = s")
    case True
    then show ?thesis by (auto simp: memcpy_def)
  next
    case False
    have "(if (d OR s) AND 3 \<noteq> 0
           then case copy_up m d s (int l) of (m, d, s) \<Rightarrow> (m, d, s, n - of_int (int l))
           else (m, d, s, n)) = (copied m d s l, d + of_nat l, s + of_nat l, n - of_nat l)"
      by (simp add: up) (simp add: l_def)
    with False show ?thesis
      using forward_phases [OF ok small l, of m] pos
      by (simp only: memcpy_def Let_def if_False prod.case cong: if_cong) (auto split: prod.splits)
  qed
qed


lemma memmove_up:
  assumes ok: "d = s \<or> unat n \<le> unat (d - s)" and small: "unat n < 2147483648"
    and less: "sint d < sint s"
  shows "memmove m d s n = copied m d s (unat n)"
proof -
  have "memmove m d s n = memcpy m d s n"
    using less by (simp only: memmove_def memcpy_def if_True)
  then show ?thesis using memcpy_copied [OF ok small] by simp
qed

lemma memmove_down:
  assumes ok: "d = s \<or> unat n \<le> unat (s - d)" and small: "unat n < 2147483648"
    and less: "\<not> sint d < sint s"
  shows "memmove m d s n = copied m d s (unat n)"
proof (cases "n = 0 \<or> d = s")
  case True
  then show ?thesis by (auto simp: memmove_def)
next
  case False
  let ?d = "d + n" and ?s = "s + n"
  define l where "l = (if (?d OR ?s) AND 3 = 0 then 0
    else if (?d XOR ?s) AND 3 \<noteq> 0 \<or> n \<le> 4 then unat n else unat (?d AND 3))"
  have l: "l \<le> unat n"
    by (auto simp: l_def word_le_nat_alt not_le unat_and_3)
  have pos: "(if (?d XOR ?s) AND 3 \<noteq> 0 \<or> n \<le> 4 then sint n else sint (?d AND 3)) = int l"
    if "(?d OR ?s) AND 3 \<noteq> 0"
    using that small by (simp add: l_def sint_small unat_and_3)
  define c where "c = n - of_nat l"
  have ends: "?d = d + c + of_nat l" "?s = s + c + of_nat l" by (simp_all add: c_def)
  have "d + c = s + c \<or> 0 + l \<le> unat ((s + c) - (d + c))" using ok l by auto
  from copy_down_eq [OF this] l unat_lt_pow32 [of n]
  have down: "copy_down m ?d ?s (int l) = (copied m (d + c) (s + c) l, d + c, s + c)"
    unfolding ends by simp
  have "(if (?d OR ?s) AND 3 \<noteq> 0
         then case copy_down m ?d ?s (int l) of (m, d, s) \<Rightarrow> (m, d, s, n - of_int (int l))
         else (m, ?d, ?s, n)) = (copied m (d + c) (s + c) l, d + c, s + c, c)"
    by (simp add: down) (simp add: l_def c_def)
  then show ?thesis
    using backward_phases [OF ok small l, folded c_def, of m] pos False less
    by (simp only: memmove_def Let_def if_False prod.case cong: if_cong) (auto split: prod.splits)
qed


section \<open>The interface of a copying routine\<close>

text \<open>
  Callers know a copying routine by the regions it supports and by its effect there: the
  destination receives the bytes the source had before, and nothing else changes.
\<close>

locale block_copy =
  fixes copy :: "mem \<Rightarrow> u32 \<Rightarrow> u32 \<Rightarrow> u32 \<Rightarrow> mem"
    and supported :: "u32 \<Rightarrow> u32 \<Rightarrow> u32 \<Rightarrow> bool"
  assumes copy_copied: "supported d s n \<Longrightarrow> copy m d s n = copied m d s (unat n)"
begin

lemma copy_dest:
  assumes "supported d s n" "k \<le> unat n"
  shows "bytes (copy m d s n) d k = bytes m s k"
  using assms unat_lt_pow32 [of n]
  by (intro bytes_cong) (simp add: copy_copied copied_def unat_of_nat32)

lemma copy_frame: "supported d s n \<Longrightarrow> unat n \<le> unat (x - d) \<Longrightarrow> copy m d s n x = m x"
  by (simp add: copy_copied copied_def)

lemma copy_move:
  assumes "supported d s n"
  shows "bytes (copy m d s n) d (unat n) = bytes m s (unat n) \<and>
    (\<forall>x. unat n \<le> unat (x - d) \<longrightarrow> copy m d s n x = m x)"
  using assms by (simp add: copy_dest copy_frame)

end

definition memcpy_supports :: "u32 \<Rightarrow> u32 \<Rightarrow> u32 \<Rightarrow> bool" where
  "memcpy_supports d s n \<longleftrightarrow> unat n < 2147483648 \<and> (d = s \<or> unat n \<le> unat (d - s))"

definition memmove_supports :: "u32 \<Rightarrow> u32 \<Rightarrow> u32 \<Rightarrow> bool" where
  "memmove_supports d s n \<longleftrightarrow> unat n < 2147483648 \<and>
     (d = s \<or> unat n \<le> (if sint d < sint s then unat (d - s) else unat (s - d)))"

interpretation cpy: block_copy memcpy memcpy_supports
  by unfold_locales (simp add: memcpy_supports_def memcpy_copied)

interpretation mov: block_copy memmove memmove_supports
  by unfold_locales (auto simp: memmove_supports_def memmove_up memmove_down split: if_splits)

text \<open>
  \<open>memmove\<close> compares the pointers as \<open>long\<close>.  The order of two pointers is the order of
  the addresses as long as both are in the same half of the address space.
\<close>

lemma sint_same_half:
  fixes d s :: u32
  assumes "unat d < 2147483648 \<longleftrightarrow> unat s < 2147483648"
  shows "sint d < sint s \<longleftrightarrow> unat d < unat s"
proof -
  have "sint x = int (unat x) - 4294967296" if "\<not> unat x < 2147483648" for x :: u32
    using that sint_large [of x] by simp
  with assms show ?thesis by (cases "unat d < 2147483648") (auto simp: sint_small
      word_less_def [symmetric] word_less_nat_alt [symmetric])
qed

lemma memmove_supports_same_half:
  assumes "unat n < 2147483648" "unat d + unat n \<le> 4294967296" "unat s + unat n \<le> 4294967296"
    and "unat d < 2147483648 \<longleftrightarrow> unat s < 2147483648"
  shows "memmove_supports d s n"
  using assms sint_same_half [OF assms(4)] unat_sub32 [of d s] unat_sub32 [of s d]
  by (auto simp: memmove_supports_def word_unat_eq_iff)

section \<open>memchr and memcmp\<close>

lemma memcmp_loop_bytes:
  "memcmp_loop m a b n 0 =
    (case filter (\<lambda>(x, y). x \<noteq> y) (zip (bytes m a (unat n)) (bytes m b (unat n))) of
       [] \<Rightarrow> 0 | (x, y) # _ \<Rightarrow> x - y)"
proof (induction "unat n" arbitrary: a b n)
  case 0
  then have "n = 0" by (simp add: unat_eq_0)
  then show ?case by (subst memcmp_loop.simps) simp
next
  case (Suc k)
  then have n: "0 < n" by (metis Zero_not_Suc unat_0 word_gt_0)
  with Suc have k: "k = unat (n - 1)" by (simp add: unat_pred)
  have "memcmp_loop m a b n 0 = (if m a = m b then memcmp_loop m (a + 1) (b + 1) (n - 1) 0
      else m a - m b)"
    using n by (subst memcmp_loop.simps) (simp add: Let_def)
  with Suc(1) [OF k, of "a + 1" "b + 1"] show ?case
    by (simp add: Suc(2) [symmetric] bytes_Suc k [symmetric])
qed

lemma no_difference_iff:
  "length xs = length ys \<Longrightarrow> filter (\<lambda>(x, y). x \<noteq> y) (zip xs ys) = [] \<longleftrightarrow> xs = ys"
  by (induction xs ys rule: list_induct2) auto

lemma memcmp_eq_0: "memcmp m a b n = 0 \<longleftrightarrow> bytes m a (unat n) = bytes m b (unat n)"
proof -
  have "memcmp m a b n = 0 \<longleftrightarrow> memcmp_loop m a b n 0 = 0"
    unfolding memcmp_def by (rule signed_eq_0_iff)
  also have "\<dots> \<longleftrightarrow> filter (\<lambda>(x, y). x \<noteq> y) (zip (bytes m a (unat n)) (bytes m b (unat n))) = []"
    by (auto simp: memcmp_loop_bytes filter_eq_Cons_iff split: list.split)
  also have "\<dots> \<longleftrightarrow> bytes m a (unat n) = bytes m b (unat n)"
    by (rule no_difference_iff) simp
  finally show ?thesis .
qed

lemma memchr_loop_find:
  "unat i \<le> unat len \<Longrightarrow> memchr_loop m b x i len =
    map_option (\<lambda>k. b + of_nat k) (find (\<lambda>k. m (b + of_nat k) = x) [unat i..<unat len])"
proof (induction m b x i len rule: memchr_loop.induct)
  case (1 m b x i len)
  show ?case
  proof (cases "i < len")
    case True
    then have "[unat i..<unat len] = unat i # [Suc (unat i)..<unat len]"
      by (simp add: upt_conv_Cons word_less_nat_alt)
    with 1 True show ?thesis
      by (subst memchr_loop.simps) (auto simp: unat_Suc_below word_less_nat_alt)
  next
    case False
    with 1 show ?thesis by (subst memchr_loop.simps) (simp add: word_less_nat_alt)
  qed
qed

lemma memchr_find:
  "memchr m b c n = map_option (\<lambda>k. b + of_nat k)
     (find (\<lambda>k. m (b + of_nat k) = ucast c) [0..<unat n])"
proof -
  have "ucast (c AND 0xff) = (ucast c :: u8)"
    unfolding byte_mask by (rule bit_word_eqI) (simp add: bit_simps)
  then show ?thesis using memchr_loop_find [of 0 n m b "ucast c"] by (simp add: memchr_def)
qed

section \<open>Properties\<close>

text \<open>
  C9: \<open>memset\<close> fills exactly the requested bytes, for every address, length and alignment:
  the unaligned head, the word stores of the replicated byte and the tail add up to the ideal
  fill, and no other byte of memory changes.
\<close>

theorem memset_fills: "memset m s c n = filled m s (unat n) (ucast c)"
  by (rule memset_filled)

text \<open>
  C10: \<open>memmove\<close> moves: for regions that overlap in any way and have any alignment, inside one
  half of the address space, the destination holds what the source held before and every byte
  outside the destination is unchanged.
\<close>

theorem memmove_moves:
  assumes "unat n < 2147483648"
    and "unat d + unat n \<le> 4294967296" and "unat s + unat n \<le> 4294967296"
    and "unat d < 2147483648 \<longleftrightarrow> unat s < 2147483648"
  shows "bytes (memmove m d s n) d (unat n) = bytes m s (unat n) \<and>
    (\<forall>x. unat n \<le> unat (x - d) \<longrightarrow> memmove m d s n x = m x)"
  by (rule mov.copy_move [OF memmove_supports_same_half [OF assms]])

theorem memmove_moves_witness:
  "bytes (memmove (\<lambda>a. ucast a) 0x40000002 0x40000000 7) 0x40000002 7 = [0, 1, 2, 3, 4, 5, 6]"
  using memmove_moves [of 7 "0x40000002" "0x40000000" "\<lambda>a. ucast a"] by simp

text \<open>
  \<open>memcpy\<close> copies between regions where the destination does not start inside the source.
\<close>

theorem memcpy_copies:
  assumes "unat n < 2147483648" and "unat n \<le> unat (d - s)"
  shows "bytes (memcpy m d s n) d (unat n) = bytes m s (unat n) \<and>
    (\<forall>x. unat n \<le> unat (x - d) \<longrightarrow> memcpy m d s n x = m x)"
  by (rule cpy.copy_move) (simp add: memcpy_supports_def assms)

theorem memcpy_copies_witness:
  "bytes (memcpy (\<lambda>a. ucast a) 0x101 0x205 6) 0x101 6 = [5, 6, 7, 8, 9, 10]"
  using memcpy_copies [of 6 "0x101" "0x205" "\<lambda>a. ucast a"] by simp

text \<open>
  \<open>memcmp\<close> returns 0 exactly when the two regions hold the same bytes; otherwise it
  returns the difference of the first two bytes that differ, read as a signed 8-bit value
  (its sign is not the order of the bytes when they are 128 or more apart).
\<close>

theorem memcmp_compares:
  "(memcmp m a b n = 0 \<longleftrightarrow> bytes m a (unat n) = bytes m b (unat n)) \<and>
   (i < unat n \<and> bytes m a i = bytes m b i \<and> m (a + of_nat i) \<noteq> m (b + of_nat i)
     \<longrightarrow> memcmp m a b n = sint (m (a + of_nat i) - m (b + of_nat i)))"
proof (intro conjI impI memcmp_eq_0)
  assume *: "i < unat n \<and> bytes m a i = bytes m b i \<and> m (a + of_nat i) \<noteq> m (b + of_nat i)"
  then obtain k where k: "unat n = i + Suc k" by (metis less_imp_Suc_add add_Suc_right)
  have split: "bytes m p (unat n) = bytes m p i @ m (p + of_nat i) # bytes m (p + of_nat i + 1) k" for p
    unfolding k bytes_add bytes_Suc ..
  have "filter (\<lambda>(x, y). x \<noteq> y) (zip (bytes m b i) (bytes m b i)) = []"
    by (simp add: no_difference_iff)
  with * have "memcmp_loop m a b n 0 = m (a + of_nat i) - m (b + of_nat i)"
    by (simp add: memcmp_loop_bytes split)
  then show "memcmp m a b n = sint (m (a + of_nat i) - m (b + of_nat i))"
    by (simp add: memcmp_def)
qed

theorem memcmp_compares_witness:
  "memcmp ((\<lambda>_. 7)(0x102 := 0x80, 0x202 := 0)) 0x100 0x200 4 = - 128"
  using memcmp_compares [of "(\<lambda>_. 7)(0x102 := 0x80, 0x202 := 0)" "0x100" "0x200" 4 2]
  by (simp add: bytes_Suc)

end
