(* ===== verification/LibcStr.thy ===== *)
theory LibcStr
  imports LibcMem
begin

text \<open>
  The string functions of the C library, \<^verbatim>\<open>libc/src/string/str*.c\<close>.  A loop that scans
  for a terminating zero need not end on an arbitrary memory, so those loops are
  \<open>partial_function (option)\<close>: \<open>None\<close> is a call that does not return.  \<open>cstr m p s\<close> says
  that the memory holds the C string \<open>s\<close> at \<open>p\<close>; on C strings every function returns, and
  the lemmas say what it returns in terms of the lists of characters.  A pointer result that
  may be \<open>NULL\<close> is an option inside that option.
\<close>

section \<open>Code\<close>

subsection \<open>Lengths\<close>

partial_function (option) strlen_loop :: "mem \<Rightarrow> u32 \<Rightarrow> u32 \<Rightarrow> u32 option" where
  "strlen_loop m s i = (if m (s + i) \<noteq> 0 then strlen_loop m s (i + 1) else Some i)"

definition strlen :: "mem \<Rightarrow> u32 \<Rightarrow> u32 option" where
  "strlen m s = strlen_loop m s 0"

function strnlen_loop :: "mem \<Rightarrow> u32 \<Rightarrow> u32 \<Rightarrow> u32" where
  "strnlen_loop m sc count =
     (if 0 < count \<and> m sc \<noteq> 0 then strnlen_loop m (sc + 1) (count - 1) else sc)"
  by pat_completeness auto
termination
  by (relation "measure (\<lambda>(m, sc, count). unat count)") auto

definition strnlen :: "mem \<Rightarrow> u32 \<Rightarrow> u32 \<Rightarrow> u32" where
  "strnlen m s count = strnlen_loop m s count - s"

subsection \<open>Copying and appending\<close>

text \<open>\<open>while ((*dest++ = *src++) != 0)\<close>, and \<open>while (*dest) dest++\<close>.\<close>

partial_function (option) strcpy_loop :: "mem \<Rightarrow> u32 \<Rightarrow> u32 \<Rightarrow> mem option" where
  "strcpy_loop m dest src =
     (let c = m src; m = m(dest := c)
      in if c \<noteq> 0 then strcpy_loop m (dest + 1) (src + 1) else Some m)"

partial_function (option) skip_to_end :: "mem \<Rightarrow> u32 \<Rightarrow> u32 option" where
  "skip_to_end m dest = (if m dest \<noteq> 0 then skip_to_end m (dest + 1) else Some dest)"

definition strcpy :: "mem \<Rightarrow> u32 \<Rightarrow> u32 \<Rightarrow> mem option" where
  "strcpy m dest src = strcpy_loop m dest src"

definition strcat :: "mem \<Rightarrow> u32 \<Rightarrow> u32 \<Rightarrow> mem option" where
  "strcat m dest src = Option.bind (skip_to_end m dest) (\<lambda>dest. strcpy_loop m dest src)"

function strncpy_loop :: "mem \<Rightarrow> u32 \<Rightarrow> u32 \<Rightarrow> u32 \<Rightarrow> u32 \<Rightarrow> mem \<times> u32 \<times> u32" where
  "strncpy_loop m dest src i count =
     (if i < count
      then let c = m src; m = m(dest := c); dest = dest + 1; src = src + 1
           in if c \<noteq> 0 then strncpy_loop m dest src (i + 1) count else (m, dest, i)
      else (m, dest, i))"
  by pat_completeness auto
termination
  by (relation "measure (\<lambda>(m, dest, src, i, count). unat (count - i))") auto

function strncpy_fill :: "mem \<Rightarrow> u32 \<Rightarrow> u32 \<Rightarrow> u32 \<Rightarrow> mem" where
  "strncpy_fill m dest i count =
     (if i < count then strncpy_fill (m(dest := 0)) (dest + 1) (i + 1) count else m)"
  by pat_completeness auto
termination
  by (relation "measure (\<lambda>(m, dest, i, count). unat (count - i))") auto

definition strncpy :: "mem \<Rightarrow> u32 \<Rightarrow> u32 \<Rightarrow> u32 \<Rightarrow> mem" where
  "strncpy m dest src count =
     (let (m, dest, i) = strncpy_loop m dest src 0 count in strncpy_fill m dest i count)"

partial_function (option) strncat_loop :: "mem \<Rightarrow> u32 \<Rightarrow> u32 \<Rightarrow> u32 \<Rightarrow> mem option" where
  "strncat_loop m dest src count =
     (let c = m src; m = m(dest := c); dest = dest + 1; src = src + 1
      in if c \<noteq> 0
         then let count = count - 1
              in if count = 0 then Some (m(dest := 0)) else strncat_loop m dest src count
         else Some m)"

definition strncat :: "mem \<Rightarrow> u32 \<Rightarrow> u32 \<Rightarrow> u32 \<Rightarrow> mem option" where
  "strncat m dest src count =
     (if count > 0
      then Option.bind (skip_to_end m dest) (\<lambda>dest. strncat_loop m dest src count)
      else Some m)"

subsection \<open>Comparing\<close>

text \<open>
  The difference of the two characters is kept in a \<open>signed char\<close>.
\<close>

partial_function (option) strcmp_loop :: "mem \<Rightarrow> u32 \<Rightarrow> u32 \<Rightarrow> u8 option" where
  "strcmp_loop m cs ct =
     (let res = m cs - m ct; ct = ct + 1
      in if res \<noteq> 0 \<or> m cs = 0 then Some res else strcmp_loop m (cs + 1) ct)"

definition strcmp :: "mem \<Rightarrow> u32 \<Rightarrow> u32 \<Rightarrow> int option" where
  "strcmp m cs ct = map_option sint (strcmp_loop m cs ct)"

function strncmp_loop :: "mem \<Rightarrow> u32 \<Rightarrow> u32 \<Rightarrow> u32 \<Rightarrow> u8 \<Rightarrow> u8" where
  "strncmp_loop m cs ct count res =
     (if count > 0
      then let res = m cs - m ct; ct = ct + 1
           in if res \<noteq> 0 \<or> m cs = 0 then res
              else strncmp_loop m (cs + 1) ct (count - 1) res
      else res)"
  by pat_completeness auto
termination
  by (relation "measure (\<lambda>(m, cs, ct, count, res). unat count)") auto

definition strncmp :: "mem \<Rightarrow> u32 \<Rightarrow> u32 \<Rightarrow> u32 \<Rightarrow> int" where
  "strncmp m cs ct count = sint (strncmp_loop m cs ct count 0)"

subsection \<open>Searching\<close>

partial_function (option) strchr_loop :: "mem \<Rightarrow> u32 \<Rightarrow> u8 \<Rightarrow> u32 option option" where
  "strchr_loop m s c =
     (if m s \<noteq> c then if m s = 0 then Some None else strchr_loop m (s + 1) c
      else Some (Some s))"

definition strchr :: "mem \<Rightarrow> u32 \<Rightarrow> u32 \<Rightarrow> u32 option option" where
  "strchr m s c = strchr_loop m s (ucast c)"

partial_function (option) strrchr_loop ::
    "mem \<Rightarrow> u32 \<Rightarrow> u32 \<Rightarrow> u32 option \<Rightarrow> u32 option option" where
  "strrchr_loop m s c found =
     (if m s \<noteq> 0
      then strrchr_loop m (s + 1) c (if ucast (m s) = c then Some s else found)
      else Some found)"

definition strrchr :: "mem \<Rightarrow> u32 \<Rightarrow> u32 \<Rightarrow> u32 option option" where
  "strrchr m s c = strrchr_loop m s c (if c \<noteq> 0 then None else Some s)"

text \<open>\<open>for (a = accept; *a; ++a) if (c == *a) break\<close>: where the pointer stops.\<close>

partial_function (option) scan_set :: "mem \<Rightarrow> u32 \<Rightarrow> u8 \<Rightarrow> u32 option" where
  "scan_set m a c =
     (if m a \<noteq> 0 then if c = m a then Some a else scan_set m (a + 1) c else Some a)"

partial_function (option) strspn_loop :: "mem \<Rightarrow> u32 \<Rightarrow> u32 \<Rightarrow> u32 \<Rightarrow> u32 option" where
  "strspn_loop m p accept count =
     (if m p \<noteq> 0
      then Option.bind (scan_set m accept (m p)) (\<lambda>a.
             if m a = 0 then Some count else strspn_loop m (p + 1) accept (count + 1))
      else Some count)"

definition strspn :: "mem \<Rightarrow> u32 \<Rightarrow> u32 \<Rightarrow> u32 option" where
  "strspn m s accept = strspn_loop m s accept 0"

text \<open>In \<open>strpbrk\<close> the inner loop returns at the first match, that is where the character
  under \<open>sc2\<close> is not the terminator.\<close>

partial_function (option) strpbrk_loop :: "mem \<Rightarrow> u32 \<Rightarrow> u32 \<Rightarrow> u32 option option" where
  "strpbrk_loop m sc1 ct =
     (if m sc1 \<noteq> 0
      then Option.bind (scan_set m ct (m sc1)) (\<lambda>sc2.
             if m sc2 \<noteq> 0 then Some (Some sc1) else strpbrk_loop m (sc1 + 1) ct)
      else Some None)"

definition strpbrk :: "mem \<Rightarrow> u32 \<Rightarrow> u32 \<Rightarrow> u32 option option" where
  "strpbrk m cs ct = strpbrk_loop m cs ct"

text \<open>\<open>strstr\<close> keeps the lengths in an \<open>int\<close>.\<close>

function strstr_loop :: "mem \<Rightarrow> u32 \<Rightarrow> u32 \<Rightarrow> int \<Rightarrow> int \<Rightarrow> u32 option" where
  "strstr_loop m s1 s2 l1 l2 =
     (if l1 \<ge> l2
      then let l1 = l1 - 1
           in if memcmp m s1 s2 (of_int l2) = 0 then Some s1
              else strstr_loop m (s1 + 1) s2 l1 l2
      else None)"
  by pat_completeness auto
termination
  by (relation "measure (\<lambda>(m, s1, s2, l1, l2). nat (l1 - l2 + 1))") auto

definition strstr :: "mem \<Rightarrow> u32 \<Rightarrow> u32 \<Rightarrow> u32 option option" where
  "strstr m s1 s2 = Option.bind (strlen m s2) (\<lambda>l2. let l2 = sint l2 in
     if l2 = 0 then Some (Some s1)
     else Option.bind (strlen m s1) (\<lambda>l1. let l1 = sint l1 in
            Some (strstr_loop m s1 s2 l1 l2)))"

subsection \<open>strtok\<close>

text \<open>
  The static pointer \<open>___strtok\<close> is passed and returned: the result is the memory, the new
  pointer and the returned token.
\<close>

definition strtok :: "mem \<Rightarrow> u32 option \<Rightarrow> u32 option \<Rightarrow> u32
    \<Rightarrow> (mem \<times> u32 option \<times> u32 option) option" where
  "strtok m static s ct =
     (case (if s \<noteq> None then s else static) of
        None \<Rightarrow> Some (m, static, None)
      | Some sbegin \<Rightarrow>
          Option.bind (strspn m sbegin ct) (\<lambda>n. let sbegin = sbegin + n in
          if m sbegin = 0 then Some (m, None, None)
          else Option.bind (strpbrk m sbegin ct) (\<lambda>send.
            case send of
              Some e \<Rightarrow> if m e \<noteq> 0 then Some (m(e := 0), Some (e + 1), Some sbegin)
                        else Some (m, Some e, Some sbegin)
            | None \<Rightarrow> Some (m, None, Some sbegin))))"

lemmas string_loops = strlen_loop.simps strcpy_loop.simps skip_to_end.simps
  strncat_loop.simps strcmp_loop.simps strchr_loop.simps strrchr_loop.simps scan_set.simps
  strspn_loop.simps strpbrk_loop.simps

declare strnlen_loop.simps [simp del] strncpy_loop.simps [simp del]
  strncpy_fill.simps [simp del] strncmp_loop.simps [simp del] strstr_loop.simps [simp del]

section \<open>C strings\<close>

fun cstr :: "mem \<Rightarrow> u32 \<Rightarrow> u8 list \<Rightarrow> bool" where
  "cstr m p [] \<longleftrightarrow> m p = 0"
| "cstr m p (c # s) \<longleftrightarrow> c \<noteq> 0 \<and> m p = c \<and> cstr m (p + 1) s"

lemma cstr_iff:
  "cstr m p s \<longleftrightarrow> 0 \<notin> set s \<and> bytes m p (length s) = s \<and> m (p + of_nat (length s)) = 0"
  by (induction s arbitrary: p) (auto simp: bytes_Suc algebra_simps)

lemma cstr_bytes: "cstr m p s \<Longrightarrow> bytes m p (Suc (length s)) = s @ [0]"
  using bytes_add [of m p "length s" 1] by (simp add: cstr_iff)

lemma cstr_not_zero: "cstr m p s \<Longrightarrow> i < length s \<Longrightarrow> m (p + of_nat i) \<noteq> 0"
  by (metis cstr_iff nth_bytes nth_mem)

lemma cstr_length: "length s < 4294967296" if "cstr m p s"
proof (rule ccontr)
  assume *: "\<not> length s < 4294967296"
  have "of_nat (length s) = (of_nat (length s - 4294967296 + 4294967296) :: u32)"
    using * by simp
  also have "\<dots> = of_nat (length s - 4294967296)"
    by (simp only: of_nat_add u32_wrap add_0_right)
  finally have "m (p + of_nat (length s - 4294967296)) = 0"
    using that by (metis cstr_iff)
  with * cstr_not_zero [OF that, of "length s - 4294967296"] show False by simp
qed

lemma cstr_append: "cstr m p (a @ b) \<longleftrightarrow> 0 \<notin> set a \<and> bytes m p (length a) = a
    \<and> cstr m (p + of_nat (length a)) b"
  by (induction a arbitrary: p) (auto simp: bytes_Suc algebra_simps)

lemma cstr_cong:
  assumes "cstr m p s" and "\<And>i. i \<le> length s \<Longrightarrow> m' (p + of_nat i) = m (p + of_nat i)"
  shows "cstr m' p s"
proof -
  have "bytes m' p (length s) = bytes m p (length s)" using assms(2) by (intro bytes_cong) simp
  with assms(1) assms(2) [of "length s"] show ?thesis by (simp add: cstr_iff)
qed

text \<open>An address lies outside the string with its terminator.\<close>

definition off_str :: "u32 \<Rightarrow> u32 \<Rightarrow> u8 list \<Rightarrow> bool" where
  "off_str x p s \<longleftrightarrow> length s < unat (x - p)"

lemma off_str_Cons: "off_str x p (c # s) \<Longrightarrow> off_str x (p + 1) s"
  using unat_diff_offset [of 1 x p] by (simp add: off_str_def)

lemma cstr_update: "cstr (m(x := b)) p s \<longleftrightarrow> cstr m p s" if "off_str x p s"
  using that
proof (induction s arbitrary: p)
  case Nil
  then show ?case by (auto simp: off_str_def)
next
  case (Cons c s)
  from Cons.prems have "x \<noteq> p" by (auto simp: off_str_def)
  with Cons show ?case by (simp add: off_str_Cons)
qed

section \<open>What the functions return on C strings\<close>

subsection \<open>Lengths\<close>

lemma strlen_loop_cstr:
  "cstr m (s + i) cs \<Longrightarrow> strlen_loop m s i = Some (i + of_nat (length cs))"
proof (induction cs arbitrary: i)
  case Nil
  then show ?case by (subst string_loops) simp
next
  case (Cons c cs)
  then have "strlen_loop m s (i + 1) = Some (i + 1 + of_nat (length cs))"
    by (intro Cons.IH) (simp add: algebra_simps)
  with Cons.prems show ?case by (subst string_loops) (simp add: algebra_simps)
qed

lemma strlen_cstr: "cstr m s cs \<Longrightarrow> strlen m s = Some (of_nat (length cs))"
  by (simp add: strlen_def strlen_loop_cstr)

lemma skip_to_end_cstr: "cstr m d cs \<Longrightarrow> skip_to_end m d = Some (d + of_nat (length cs))"
proof (induction cs arbitrary: d)
  case Nil
  then show ?case by (subst string_loops) simp
next
  case (Cons c cs)
  then show ?case by (subst string_loops) (simp add: algebra_simps)
qed

lemma unat_0_less: "0 < n \<longleftrightarrow> unat n \<noteq> 0" for n :: u32
  by (simp add: word_less_nat_alt)

lemma unat_Suc_pred: "n \<noteq> 0 \<Longrightarrow> unat n = Suc (unat (n - 1))" for n :: u32
  by (cases "unat n") (simp_all add: unat_minus_one unat_eq_0)

lemma strnlen_loop_cstr:
  "cstr m s cs \<Longrightarrow> strnlen_loop m s n = s + of_nat (min (length cs) (unat n))"
proof (induction cs arbitrary: s n)
  case Nil
  then show ?case by (subst strnlen_loop.simps) simp
next
  case (Cons c cs)
  show ?case
  proof (cases "n = 0")
    case True
    then show ?thesis by (subst strnlen_loop.simps) simp
  next
    case False
    from False have "0 < n" by (simp add: word_gt_0)
    with unat_Suc_pred [OF False] Cons show ?thesis by (subst strnlen_loop.simps) (simp add: algebra_simps)
  qed
qed

lemma strnlen_cstr: "cstr m s cs \<Longrightarrow> strnlen m s n = of_nat (min (length cs) (unat n))"
  by (simp add: strnlen_def strnlen_loop_cstr)

subsection \<open>Copying and appending\<close>

text \<open>A copy loop may write where it has already read, but not ahead of it.\<close>

lemma strcpy_loop_cstr:
  assumes "cstr m s cs" and "d = s \<or> length cs < unat (d - s)"
  shows "strcpy_loop m d s = Some (copied m d s (Suc (length cs)))"
  using assms
proof (induction cs arbitrary: m d s)
  case Nil
  then show ?case by (subst string_loops) (simp add: copied_1)
next
  case (Cons c cs)
  let ?m = "m(d := c)"
  have len: "Suc (length cs) < 4294967296" using cstr_length [OF Cons.prems(1)] by simp
  have "cstr ?m (s + 1) cs"
  proof (cases "d = s")
    case True
    then show ?thesis using Cons.prems(1) by (simp add: fun_upd_idem)
  next
    case False
    with Cons.prems(2) have "off_str d s (c # cs)" by (simp add: off_str_def)
    then show ?thesis using Cons.prems(1) by (simp add: cstr_update off_str_Cons)
  qed
  then have "strcpy_loop ?m (d + 1) (s + 1) = Some (copied ?m (d + 1) (s + 1) (Suc (length cs)))"
    using Cons.prems(2) by (intro Cons.IH) (auto simp: algebra_simps fun_upd_def)
  also have "?m = copied m d s 1" using Cons.prems by (simp add: copied_1)
  also have "copied (copied m d s 1) (d + 1) (s + 1) (Suc (length cs)) =
      copied m d s (1 + Suc (length cs))"
    using copied_forward [of d s 1 "Suc (length cs)" m] Cons.prems(2) len by auto
  finally show ?case using Cons.prems
    by (subst string_loops) (simp add: copied_1 del: fun_upd_apply)
qed

lemma copied_put_bytes:
  "cstr m s cs \<Longrightarrow> copied m d s (Suc (length cs)) = put_bytes m d (cs @ [0])"
  using put_bytes_bytes [of "Suc (length cs)" m d s] cstr_length [of m s cs]
  by (simp add: cstr_bytes del: put_bytes.simps)

lemma bytes_put_bytes:
  "length bs \<le> 4294967296 \<Longrightarrow> bytes (put_bytes m d bs) d (length bs) = bs"
  by (rule nth_equalityI)
    (use unat_of_nat32 in \<open>auto simp: put_bytes_inside\<close>)

lemma cstr_put_bytes:
  assumes "0 \<notin> set cs" "length cs < 4294967296"
  shows "cstr (put_bytes m d (cs @ [0])) d cs"
proof -
  let ?m = "put_bytes m d (cs @ [0])"
  have "bytes ?m d (length cs) @ [?m (d + of_nat (length cs))] = cs @ [0]"
    using bytes_put_bytes [of "cs @ [0]" m d] bytes_add [of ?m d "length cs" 1] assms(2) by simp
  with assms(1) show ?thesis by (simp add: cstr_iff)
qed

lemma strcpy_cstr:
  assumes "cstr m s cs" "d = s \<or> length cs < unat (d - s)"
  shows "strcpy m d s = Some (put_bytes m d (cs @ [0]))"
  using assms by (simp add: strcpy_def strcpy_loop_cstr copied_put_bytes)

lemma strcat_cstr:
  assumes "cstr m d a" "cstr m s b" "length b < unat (d + of_nat (length a) - s)"
  shows "strcat m d s = Some (put_bytes m (d + of_nat (length a)) (b @ [0]))"
  using assms by (simp add: strcat_def skip_to_end_cstr strcpy_loop_cstr copied_put_bytes)

lemma off_str_Cons2: "off_str d s (c # cs) \<Longrightarrow> off_str (d + 1) (s + 1) cs"
  by (simp add: off_str_def)

lemma strncpy_fill_eq:
  "i \<le> count \<Longrightarrow> strncpy_fill m d i count = put_bytes m d (replicate (unat (count - i)) 0)"
proof (induction m d i count rule: strncpy_fill.induct)
  case (1 m d i count)
  show ?case
  proof (cases "i < count")
    case True
    then have "unat (count - i) = Suc (unat (count - (i + 1)))" and "i + 1 \<le> count"
      using unat_Suc_below [OF True] unat_sub32 [of count i] unat_sub32 [of count "i + 1"]
      by (auto simp: word_less_nat_alt word_le_nat_alt)
    with "1.IH" [OF True] True show ?thesis
      by (subst strncpy_fill.simps) (simp del: fun_upd_apply)
  next
    case False
    with "1.prems" have "i = count" by simp
    then show ?thesis by (subst strncpy_fill.simps) simp
  qed
qed

text \<open>
  When the terminator is copied, \<open>i\<close> is not advanced past it: the fill loop then writes one
  byte more than \<open>count\<close>.
\<close>

lemma strncpy_loop_cstr:
  assumes "cstr m s cs" "off_str d s cs" "i \<le> count"
  shows "strncpy_loop m d s i count =
    (if unat (count - i) \<le> length cs
     then (put_bytes m d (take (unat (count - i)) cs), d + (count - i), count)
     else (put_bytes m d (cs @ [0]), d + of_nat (length cs) + 1, i + of_nat (length cs)))"
  using assms
proof (induction cs arbitrary: m d s i)
  case Nil
  show ?case
  proof (cases "i < count")
    case True
    then have "unat (count - i) \<noteq> 0" by (simp add: unat_eq_0)
    with True Nil show ?thesis by (subst strncpy_loop.simps) simp
  next
    case False
    with Nil show ?thesis by (subst strncpy_loop.simps) simp
  qed
next
  case (Cons c cs)
  show ?case
  proof (cases "i < count")
    case True
    then have k: "unat (count - i) = Suc (unat (count - (i + 1)))" and le: "i + 1 \<le> count"
      using unat_Suc_below [OF True] unat_sub32 [of count i] unat_sub32 [of count "i + 1"]
      by (auto simp: word_less_nat_alt word_le_nat_alt)
    have "cstr (m(d := c)) (s + 1) cs" "off_str (d + 1) (s + 1) cs"
      using Cons.prems off_str_Cons2 by (auto simp: cstr_update off_str_Cons simp del: fun_upd_apply)
    from Cons.IH [OF this le] True k Cons.prems(1) show ?thesis
      by (subst strncpy_loop.simps) (simp add: algebra_simps del: fun_upd_apply)
  next
    case False
    with Cons have "i = count" by simp
    then show ?thesis by (subst strncpy_loop.simps) simp
  qed
qed

lemma strncpy_cstr:
  assumes "cstr m s cs" "off_str d s cs"
  shows "strncpy m d s n = put_bytes m d
    (if unat n \<le> length cs then take (unat n) cs
     else cs @ replicate (unat n - length cs + 1) 0)"
proof (cases "unat n \<le> length cs")
  case True
  then show ?thesis
    using assms by (simp add: strncpy_def strncpy_loop_cstr) (subst strncpy_fill.simps, simp)
next
  case False
  let ?l = "of_nat (length cs) :: u32"
  have "unat ?l = length cs" using cstr_length [OF assms(1)] by (simp add: unat_of_nat32)
  then have "?l \<le> n" and "unat (n - ?l) = unat n - length cs"
    using False unat_sub32 [of n ?l] by (auto simp: word_le_nat_alt)
  then show ?thesis
    using assms False
    by (simp add: strncpy_def strncpy_loop_cstr strncpy_fill_eq ac_simps
        put_bytes_append [of _ _ "cs @ [0]" "replicate _ _", simplified])
qed

lemma strncat_loop_cstr:
  assumes "cstr m s cs" "off_str d s cs" "n \<noteq> 0"
  shows "strncat_loop m d s n = Some (put_bytes m d (take (unat n) cs @ [0]))"
  using assms
proof (induction cs arbitrary: m d s n)
  case Nil
  then show ?case by (subst string_loops) simp
next
  case (Cons c cs)
  have st: "cstr (m(d := c)) (s + 1) cs" "off_str (d + 1) (s + 1) cs"
    using Cons.prems off_str_Cons2 by (auto simp: cstr_update off_str_Cons simp del: fun_upd_apply)
  have n: "unat n = Suc (unat (n - 1))"
    using Cons.prems(3) by (rule unat_Suc_pred)
  show ?case
  proof (cases "n - 1 = 0")
    case True
    with Cons.prems n show ?thesis by (subst string_loops) simp
  next
    case False
    from Cons.IH [OF st False] False Cons.prems n show ?thesis
      by (subst string_loops) (simp add: Let_def del: fun_upd_apply)
  qed
qed

lemma strncat_cstr:
  assumes "cstr m d a" "cstr m s b" "off_str (d + of_nat (length a)) s b" "n \<noteq> 0"
  shows "strncat m d s n = Some (put_bytes m (d + of_nat (length a)) (take (unat n) b @ [0]))"
  using assms by (simp add: strncat_def skip_to_end_cstr strncat_loop_cstr word_gt_0)

subsection \<open>Comparing\<close>

text \<open>The difference at the first position where two strings differ, the terminator included.\<close>

fun str_diff :: "u8 list \<Rightarrow> u8 list \<Rightarrow> u8" where
  "str_diff [] [] = 0"
| "str_diff [] (y # ys) = - y"
| "str_diff (x # xs) [] = x"
| "str_diff (x # xs) (y # ys) = (if x = y then str_diff xs ys else x - y)"

lemma str_diff_0: "0 \<notin> set a \<Longrightarrow> 0 \<notin> set b \<Longrightarrow> str_diff a b = 0 \<longleftrightarrow> a = b"
  by (induction a b rule: str_diff.induct) auto

lemma str_diff_first:
  "x \<noteq> y \<Longrightarrow> str_diff (p @ x # a) (p @ y # b) = x - y"
  by (induction p) simp_all

lemma strcmp_loop_cstr:
  "cstr m s a \<Longrightarrow> cstr m t b \<Longrightarrow> strcmp_loop m s t = Some (str_diff a b)"
  by (induction a b arbitrary: s t rule: str_diff.induct)
    (subst string_loops, auto simp: Let_def)+

lemma strcmp_cstr: "cstr m s a \<Longrightarrow> cstr m t b \<Longrightarrow> strcmp m s t = Some (sint (str_diff a b))"
  by (simp add: strcmp_def strcmp_loop_cstr)

lemma strcmp_zero:
  assumes "cstr m s a" "cstr m t b"
  shows "\<exists>r. strcmp m s t = Some r \<and> (r = 0 \<longleftrightarrow> a = b)"
proof -
  have "0 \<notin> set a" "0 \<notin> set b" using assms by (auto simp: cstr_iff)
  then have "sint (str_diff a b) = 0 \<longleftrightarrow> a = b" unfolding signed_eq_0_iff by (rule str_diff_0)
  then show ?thesis using strcmp_cstr [OF assms] by blast
qed

lemma strncmp_loop_cstr:
  "cstr m s a \<Longrightarrow> cstr m t b \<Longrightarrow>
    strncmp_loop m s t n 0 = str_diff (take (unat n) a) (take (unat n) b)"
proof (induction a b arbitrary: s t n rule: str_diff.induct)
  case (4 x xs y ys)
  show ?case
  proof (cases "0 < n")
    case True
    then have n: "unat n = Suc (unat (n - 1))"
      by (intro unat_Suc_pred) (simp add: word_gt_0)
    with True 4 show ?thesis by (subst strncmp_loop.simps) (auto simp: Let_def)
  next
    case False
    then show ?thesis by (subst strncmp_loop.simps) (simp add: u32_zero_cases)
  qed
qed (subst strncmp_loop.simps, auto simp: Let_def u32_zero_cases take_Cons' unat_eq_0)+

lemma strncmp_cstr: "cstr m s a \<Longrightarrow> cstr m t b \<Longrightarrow>
    strncmp m s t n = sint (str_diff (take (unat n) a) (take (unat n) b))"
  by (simp add: strncmp_def strncmp_loop_cstr)

subsection \<open>Searching\<close>

lemma strchr_loop_cstr:
  "cstr m s cs \<Longrightarrow> strchr_loop m s c =
    Some (if c \<in> set (cs @ [0]) then Some (s + of_nat (length (takeWhile (\<lambda>x. x \<noteq> c) cs)))
          else None)"
proof (induction cs arbitrary: s)
  case Nil
  then show ?case by (subst string_loops) simp
next
  case (Cons x cs)
  then show ?case by (subst string_loops) (auto simp: algebra_simps)
qed

lemma strchr_cstr:
  "cstr m s cs \<Longrightarrow> strchr m s c =
    Some (if ucast c \<in> set (cs @ [0])
          then Some (s + of_nat (length (takeWhile (\<lambda>x. x \<noteq> ucast c) cs))) else None)"
  by (simp add: strchr_def strchr_loop_cstr)

lemma strrchr_loop_absent:
  "cstr m s cs \<Longrightarrow> c \<notin> ucast ` set cs \<Longrightarrow> strrchr_loop m s c found = Some found"
proof (induction cs arbitrary: s)
  case Nil
  then show ?case by (subst string_loops) simp
next
  case (Cons x cs)
  then show ?case by (subst string_loops) auto
qed

lemma strrchr_loop_last:
  "cstr m s (xs @ x # ys) \<Longrightarrow> ucast x = c \<Longrightarrow> x \<notin> set ys \<Longrightarrow>
    strrchr_loop m s c found = Some (Some (s + of_nat (length xs)))"
proof (induction xs arbitrary: s found)
  case Nil
  have "c \<notin> ucast ` set ys" using Nil(2,3) by auto
  moreover have "cstr m (s + 1) ys" "m s = x" "x \<noteq> 0" using Nil(1) by simp_all
  ultimately show ?case
    using Nil(2) by (subst string_loops) (simp add: strrchr_loop_absent [of m "s + 1" ys])
next
  case (Cons y xs)
  then show ?case by (subst string_loops) (simp add: algebra_simps)
qed

text \<open>Searching for the terminator gives the start of the string, not its end.\<close>

lemma strrchr_cstr:
  assumes "cstr m s cs"
  shows "c \<noteq> 0 \<Longrightarrow> c \<notin> ucast ` set cs \<Longrightarrow> strrchr m s c = Some None"
    and "strrchr m s 0 = Some (Some s)"
    and "cs = xs @ x # ys \<Longrightarrow> x \<notin> set ys
      \<Longrightarrow> strrchr m s (ucast x) = Some (Some (s + of_nat (length xs)))"
proof -
  have "(ucast x :: u32) \<noteq> 0" if "x \<in> set cs" for x
    using assms that by (auto simp: cstr_iff)
  then have "0 \<notin> (ucast :: u8 \<Rightarrow> u32) ` set cs" by (metis imageE)
  then show "strrchr m s 0 = Some (Some s)"
    using assms by (simp add: strrchr_def strrchr_loop_absent)
qed (use assms in \<open>simp_all add: strrchr_def strrchr_loop_absent strrchr_loop_last\<close>)

lemma scan_set_cstr:
  "cstr m a delims \<Longrightarrow> c \<noteq> 0 \<Longrightarrow>
    \<exists>a'. scan_set m a c = Some a' \<and> (m a' = 0 \<longleftrightarrow> c \<notin> set delims)"
proof (induction delims arbitrary: a)
  case Nil
  then show ?case by (subst string_loops) simp
next
  case (Cons x delims)
  then show ?case by (subst string_loops) auto
qed

lemma strspn_loop_cstr:
  "cstr m p cs \<Longrightarrow> cstr m a delims \<Longrightarrow> strspn_loop m p a n =
    Some (n + of_nat (length (takeWhile (\<lambda>c. c \<in> set delims) cs)))"
proof (induction cs arbitrary: p n)
  case Nil
  then show ?case by (subst string_loops) simp
next
  case (Cons x cs)
  obtain a' where "scan_set m a x = Some a'" "m a' = 0 \<longleftrightarrow> x \<notin> set delims"
    using scan_set_cstr [of m a delims x] Cons.prems by auto
  with Cons show ?case by (subst string_loops) (simp add: algebra_simps)
qed

lemma strspn_cstr:
  "cstr m p cs \<Longrightarrow> cstr m a delims \<Longrightarrow>
    strspn m p a = Some (of_nat (length (takeWhile (\<lambda>c. c \<in> set delims) cs)))"
  by (simp add: strspn_def strspn_loop_cstr)

lemma strpbrk_cstr:
  "cstr m p cs \<Longrightarrow> cstr m a delims \<Longrightarrow> strpbrk m p a =
    Some (if set cs \<inter> set delims = {} then None
          else Some (p + of_nat (length (takeWhile (\<lambda>c. c \<notin> set delims) cs))))"
  unfolding strpbrk_def
proof (induction cs arbitrary: p)
  case Nil
  then show ?case by (subst string_loops) simp
next
  case (Cons x cs)
  obtain a' where "scan_set m a x = Some a'" "m a' = 0 \<longleftrightarrow> x \<notin> set delims"
    using scan_set_cstr [of m a delims x] Cons.prems by auto
  with Cons show ?case by (subst string_loops) (auto simp: algebra_simps)
qed

text \<open>The first position at which one list occurs in another.\<close>

fun first_sub :: "'a list \<Rightarrow> 'a list \<Rightarrow> nat option" where
  "first_sub t [] = (if t = [] then Some 0 else None)"
| "first_sub t (c # s) =
     (if take (length t) (c # s) = t then Some 0 else map_option Suc (first_sub t s))"

lemma first_sub_short: "length s < length t \<Longrightarrow> first_sub t s = None"
  by (induction s) (auto dest: arg_cong [of _ _ length])

lemma first_sub_Some:
  "first_sub t s = Some i \<longleftrightarrow> (i \<le> length s \<and> take (length t) (drop i s) = t \<and>
    (\<forall>j<i. take (length t) (drop j s) \<noteq> t))"
proof (induction s arbitrary: i)
  case Nil
  then show ?case by auto
next
  case (Cons c s)
  then show ?case
    by (cases i) (auto simp: less_Suc_eq_0_disj simp del: take_Cons')
qed

lemma strstr_loop_cstr:
  assumes "cstr m t ct" "ct \<noteq> []" "length ct < 2147483648"
  shows "cstr m s cs \<Longrightarrow> strstr_loop m s t (int (length cs)) (int (length ct)) =
    map_option (\<lambda>i. s + of_nat i) (first_sub ct cs)"
proof (induction cs arbitrary: s)
  case Nil
  with assms(2) show ?case by (subst strstr_loop.simps) simp
next
  case (Cons c cs)
  show ?case
  proof (cases "length ct \<le> length (c # cs)")
    case True
    have len: "unat (of_int (int (length ct)) :: u32) = length ct"
      using assms(3) by (simp add: unat_of_nat32)
    have "bytes m s (length ct) = take (length ct) (bytes m s (length (c # cs)))"
      using True bytes_add [of m s "length ct" "length (c # cs) - length ct"] by simp
    also have "\<dots> = take (length ct) (c # cs)"
      using Cons.prems cstr_iff [of m s "c # cs"] by simp
    finally have "memcmp m s t (of_int (int (length ct))) = 0 \<longleftrightarrow> take (length ct) (c # cs) = ct"
      using assms(1) by (simp only: memcmp_eq_0 len cstr_iff)
    with True Cons show ?thesis
      by (subst strstr_loop.simps)
        (simp add: option.map_comp comp_def algebra_simps del: take_Cons')
  next
    case False
    then have "first_sub ct (c # cs) = None" by (intro first_sub_short) simp
    with False show ?thesis by (subst strstr_loop.simps) simp
  qed
qed

lemma strstr_cstr:
  assumes "cstr m t ct" "cstr m s cs" "length ct < 2147483648" "length cs < 2147483648"
  shows "strstr m s t = Some (map_option (\<lambda>i. s + of_nat i) (first_sub ct cs))"
proof -
  have "sint (of_nat (length xs) :: u32) = int (length xs)" if "length xs < 2147483648"
    for xs :: "u8 list"
    using that by (simp add: sint_small unat_of_nat32)
  moreover have "first_sub [] cs = Some 0" by (cases cs) simp_all
  ultimately show ?thesis
    using assms by (auto simp: strstr_def strlen_cstr strstr_loop_cstr Let_def)
qed

subsection \<open>strtok\<close>

lemma strtok_cstr:
  fixes delims cs :: "u8 list" and p :: u32
  defines "rest \<equiv> dropWhile (\<lambda>c. c \<in> set delims) cs"
  defines "token \<equiv> takeWhile (\<lambda>c. c \<notin> set delims) rest"
    and "after \<equiv> dropWhile (\<lambda>c. c \<notin> set delims) rest"
    and "q \<equiv> p + of_nat (length (takeWhile (\<lambda>c. c \<in> set delims) cs))"
  defines "e \<equiv> q + of_nat (length token)"
  assumes cs: "cstr m p cs" and ct: "cstr m ct delims"
    and start: "(if s \<noteq> None then s else static) = Some p"
  shows "strtok m static s ct = Some
      (if rest = [] then (m, None, None)
       else if after = [] then (m, None, Some q)
       else (m(e := 0), Some (e + 1), Some q))"
    and "cstr m q rest"
proof -
  have "cs = takeWhile (\<lambda>c. c \<in> set delims) cs @ rest" by (simp add: rest_def)
  with cs show q: "cstr m q rest" unfolding q_def by (metis cstr_append)
  have rest: "rest = token @ after" by (simp add: token_def after_def)
  have m_q: "m q = 0 \<longleftrightarrow> rest = []" using q by (cases rest) auto
  have span: "strspn m p ct = Some (q - p)" using strspn_cstr [OF cs ct] by (simp add: q_def)
  have brk: "strpbrk m q ct = Some (if after = [] then None else Some e)"
    using strpbrk_cstr [OF q ct]
    by (auto simp: e_def token_def after_def dropWhile_eq_Nil_conv)
  have "m e \<noteq> 0" if "after \<noteq> []"
    using q that unfolding rest e_def by (cases after) (auto simp: cstr_append)
  with start span brk m_q show "strtok m static s ct = Some
      (if rest = [] then (m, None, None)
       else if after = [] then (m, None, Some q)
       else (m(e := 0), Some (e + 1), Some q))"
    by (auto simp: strtok_def Let_def)
qed

text \<open>
  What a program gets that calls \<open>strtok\<close> until it returns \<open>NULL\<close>: the pointers, and the
  memory after the last call.  The ideal result is the list of the maximal runs of
  characters that are not delimiters.
\<close>

partial_function (option) strtok_run :: "mem \<Rightarrow> u32 option \<Rightarrow> u32 option \<Rightarrow> u32
    \<Rightarrow> (mem \<times> u32 list) option" where
  "strtok_run m static s ct = Option.bind (strtok m static s ct) (\<lambda>(m, static, tok).
     case tok of
       None \<Rightarrow> Some (m, [])
     | Some q \<Rightarrow> Option.bind (strtok_run m static None ct) (\<lambda>(m, qs). Some (m, q # qs)))"

function tokens :: "'a set \<Rightarrow> 'a list \<Rightarrow> 'a list list" where
  "tokens D cs =
     (let rest = dropWhile (\<lambda>c. c \<in> D) cs
      in if rest = [] then []
         else takeWhile (\<lambda>c. c \<notin> D) rest
              # tokens D (tl (dropWhile (\<lambda>c. c \<notin> D) rest)))"
  by pat_completeness auto
termination
proof (relation "measure (\<lambda>(D, cs). length cs)", goal_cases)
  case (2 D cs rest)
  then have "length (dropWhile (\<lambda>c. c \<notin> D) rest) \<le> length rest" "length rest \<le> length cs" "rest \<noteq> []"
    by (simp_all add: length_dropWhile_le)
  then show ?case by (cases rest) auto
qed simp

declare tokens.simps [simp del]

lemma tokens_Nil [simp]: "tokens D [] = []"
  by (simp add: tokens.simps)

text \<open>Nothing outside \<open>length cs\<close> bytes at \<open>p\<close> differs.\<close>

definition same_off :: "u32 \<Rightarrow> nat \<Rightarrow> mem \<Rightarrow> mem \<Rightarrow> bool" where
  "same_off p n m m' \<longleftrightarrow> (\<forall>x. n \<le> unat (x - p) \<longrightarrow> m' x = m x)"

lemma unat_add_nat: "unat p + n < 4294967296 \<Longrightarrow> unat (p + of_nat n) = unat p + n" for p :: u32
  by (simp add: unat_add32 unat_of_nat32)

lemma off_str_inside:
  assumes "off_str (p + of_nat i) t d" "i < 4294967296"
  shows "p + of_nat i \<noteq> t"
  using assms by (auto simp: off_str_def)

lemma same_off_tail:
  assumes "same_off (p + of_nat (Suc k)) n (m(p + of_nat k := b)) m'" and "Suc k + n \<le> 4294967296"
  shows "same_off p (Suc k + n) m m'"
  unfolding same_off_def
proof (intro allI impI)
  fix x assume x: "Suc k + n \<le> unat (x - p)"
  then have "x \<noteq> p + of_nat k" using assms(2) by (auto simp: unat_of_nat32)
  moreover have "n \<le> unat (x - (p + of_nat (Suc k)))"
    using x assms(2) by (subst unat_diff_offset) auto
  ultimately show "m' x = m x" using assms(1) unfolding same_off_def by (metis fun_upd_other)
qed

lemma before_region:
  assumes "j \<le> k" "k - j + n < 4294967296" "k < 4294967296"
  shows "n \<le> unat (p + of_nat j - (p + of_nat (Suc k) :: u32))"
proof -
  have eq: "p + of_nat j - (p + of_nat (Suc k)) = - of_nat (Suc (k - j))"
    using assms(1) by (simp add: of_nat_diff)
  have "unat (- of_nat (Suc (k - j)) :: u32) = 4294967296 - Suc (k - j)"
    if "Suc (k - j) < 4294967296"
    using that unat_sub32 [of 0 "of_nat (Suc (k - j))"] unat_of_nat32 [OF that] by simp
  moreover have "Suc (k - j) < 4294967296" if "n \<noteq> 0"
    using assms that by linarith
  ultimately have "unat (- of_nat (Suc (k - j)) :: u32) = 4294967296 - Suc (k - j)" if "n \<noteq> 0"
    using that by blast
  with assms(2) show ?thesis unfolding eq by (cases "n = 0") simp_all
qed

lemma cstr_cut:
  assumes "cstr m q (a @ b)" and "\<And>i. i < length a \<Longrightarrow> m' (q + of_nat i) = m (q + of_nat i)"
    and "m' (q + of_nat (length a)) = 0"
  shows "cstr m' q a"
proof -
  have "bytes m' q (length a) = bytes m q (length a)" using assms(2) by (intro bytes_cong) simp
  with assms(1,3) show ?thesis by (simp add: cstr_iff [of m'] cstr_append)
qed

lemma strtok_run_cstr:
  assumes "cstr m p cs" "cstr m ct delims"
    and "(if s \<noteq> None then s else static) = Some p"
    and "\<And>i. i < length cs \<Longrightarrow> off_str (p + of_nat i) ct delims"
  shows "\<exists>m' qs. strtok_run m static s ct = Some (m', qs) \<and>
    list_all2 (cstr m') qs (tokens (set delims) cs) \<and> same_off p (length cs) m m'"
  using assms
proof (induction "length cs" arbitrary: m p cs s static rule: less_induct)
  case less
  define skip where "skip = takeWhile (\<lambda>c. c \<in> set delims) cs"
  define rest where "rest = dropWhile (\<lambda>c. c \<in> set delims) cs"
  define token where "token = takeWhile (\<lambda>c. c \<notin> set delims) rest"
  define after where "after = dropWhile (\<lambda>c. c \<notin> set delims) rest"
  let ?q = "p + of_nat (length skip)"
  let ?k = "length skip + length token"
  note step = strtok_cstr [OF less.prems(1-3), folded rest_def skip_def, folded token_def after_def]
  have tok: "tokens (set delims) cs = (if rest = [] then [] else token # tokens (set delims) (tl after))"
    by (simp add: tokens.simps [of _ cs] Let_def flip: rest_def token_def after_def)
  have rest: "rest = token @ after" and cs: "cs = skip @ token @ after"
    by (simp_all add: rest_def skip_def token_def after_def)
  note short = cstr_length [OF less.prems(1)]
  consider "rest = []" | "rest \<noteq> []" "after = []" | "rest \<noteq> []" "after \<noteq> []" by blast
  then show ?case
  proof cases
    case 1
    then show ?thesis
      using step(1) tok by (subst strtok_run.simps) (simp add: same_off_def)
  next
    case 2
    have "strtok_run m None None ct = Some (m, [])"
      by (subst strtok_run.simps) (simp add: strtok_def)
    then have "strtok_run m static s ct = Some (m, [?q])"
      using step(1) 2 by (subst strtok_run.simps) simp
    with step(2) rest 2 tok show ?thesis by (simp add: same_off_def)
  next
    case 3
    then obtain d tl where d: "after = d # tl" by (cases after) auto
    let ?e = "p + of_nat ?k"
    let ?m = "m(?e := 0)"
    have lt: "length tl < length cs" "Suc ?k + length tl = length cs" using cs d by simp_all
    have "off_str ?e ct delims" using lt by (intro less.prems(4)) simp
    then have ct: "cstr ?m ct delims" using less.prems(2) by (simp only: cstr_update)
    have tl: "cstr m (p + of_nat (Suc ?k)) tl"
      using less.prems(1) d by (simp add: cs cstr_append algebra_simps)
    have "off_str ?e (p + of_nat (Suc ?k)) tl"
      using before_region [of ?k ?k "Suc (length tl)" p] lt short by (simp add: off_str_def)
    with tl have tl': "cstr ?m (p + of_nat (Suc ?k)) tl" by (simp only: cstr_update)
    have off: "off_str (p + of_nat (Suc ?k) + of_nat i) ct delims" if "i < length tl" for i
      using less.prems(4) [of "Suc ?k + i"] that lt by (simp add: algebra_simps)
    obtain m' qs where run: "strtok_run ?m (Some (p + of_nat (Suc ?k))) None ct = Some (m', qs)"
      and qs: "list_all2 (cstr m') qs (tokens (set delims) tl)"
      and same: "same_off (p + of_nat (Suc ?k)) (length tl) ?m m'"
      using less.hyps [OF lt(1) tl' ct, of None "Some (p + of_nat (Suc ?k))"] off by auto
    have outside: "m' (p + of_nat j) = ?m (p + of_nat j)" if "j \<le> ?k" for j
      using same before_region [of j ?k "length tl" p] that lt short unfolding same_off_def by simp
    have "cstr m' ?q token"
    proof (rule cstr_cut [of m _ _ after])
      show "cstr m ?q (token @ after)" using step(2) rest by simp
      show "m' (?q + of_nat i) = m (?q + of_nat i)" if "i < length token" for i
      proof -
        have "p + of_nat (length skip + i) \<noteq> ?e"
          using that short lt by (simp add: u32_of_nat_inj del: of_nat_add)
        then show ?thesis using outside [of "length skip + i"] that by (simp add: add.assoc)
      qed
      show "m' (?q + of_nat (length token)) = 0" using outside [of ?k] by (simp add: add.assoc)
    qed
    moreover have "tokens (set delims) cs = token # tokens (set delims) tl"
      using tok 3 d by simp
    moreover have "same_off p (length cs) m m'"
      using same_off_tail [OF same] lt short by simp
    moreover have "strtok m static s ct = Some (?m, Some (p + of_nat (Suc ?k)), Some ?q)"
      using step(1) 3 by (simp add: algebra_simps)
    then have "strtok_run m static s ct = Some (m', ?q # qs)"
      using run by (subst strtok_run.simps) simp
    ultimately show ?thesis using qs by simp
  qed
qed

lemma first_sub_None:
  "first_sub t s = None \<longleftrightarrow> (\<forall>i\<le>length s. take (length t) (drop i s) \<noteq> t)" (is "?l = ?r")
proof
  show ?r if ?l
  proof (rule ccontr)
    assume "\<not> ?r"
    then obtain i where "i \<le> length s \<and> take (length t) (drop i s) = t" by blast
    from exists_least_iff [THEN iffD1, OF exI, of "\<lambda>i. i \<le> length s \<and> take (length t) (drop i s) = t", OF this]
    obtain j where "first_sub t s = Some j" unfolding first_sub_Some by auto
    with that show False by simp
  qed
  show ?l if ?r
    using that first_sub_Some [of t s] by (cases "first_sub t s") auto
qed

section \<open>Properties\<close>

text \<open>
  \<open>strcat\<close> appends: on two C strings, with the end of the first not inside the second, it
  returns with the concatenation at \<open>dest\<close> and nothing changed outside the bytes of the
  appended string and its terminator.
\<close>

theorem strcat_appends:
  assumes "cstr m d a" and "cstr m s b" and "length a + length b < 4294967296"
    and "length b < unat (d + of_nat (length a) - s)"
  shows "\<exists>m'. strcat m d s = Some m' \<and> cstr m' d (a @ b) \<and>
    (\<forall>x. length b < unat (x - (d + of_nat (length a))) \<longrightarrow> m' x = m x)"
proof -
  let ?e = "d + of_nat (length a)"
  let ?m = "put_bytes m ?e (b @ [0])"
  have "cstr ?m ?e b" using assms by (intro cstr_put_bytes) (auto simp: cstr_iff)
  moreover have "bytes ?m d (length a) = bytes m d (length a)"
  proof (rule bytes_cong, rule put_bytes_outside)
    fix i assume "i < length a"
    then show "length (b @ [0]) \<le> unat (d + of_nat i - ?e)"
      using before_region [of i "length a - 1" "Suc (length b)" d] assms(3) by simp
  qed
  ultimately have "cstr ?m d (a @ b)"
    using assms(1) by (simp add: cstr_append cstr_iff [of m])
  then show ?thesis using strcat_cstr [OF assms(1,2,4)] by (auto simp: put_bytes_outside)
qed

theorem strcat_appends_witness:
  "\<exists>m'. strcat (put_bytes (put_bytes (\<lambda>_. 0) 0x100 (lit ''ab'')) 0x200 (lit ''c'')) 0x100 0x200
      = Some m' \<and> cstr m' 0x100 (lit ''abc'')"
  using strcat_appends [of "put_bytes (put_bytes (\<lambda>_. 0) 0x100 (lit ''ab'')) 0x200 (lit ''c'')"
      "0x100" "lit ''ab''" "0x200" "lit ''c''"]
  by (auto simp: of_char_def)

text \<open>
  what \<open>strncpy\<close> writes: a string of at least \<open>n\<close> characters is cut to \<open>n\<close>, without
  terminator; a shorter one is padded with zeros, but \<open>n + 1\<close> bytes are written: the byte
  after the buffer of \<open>n\<close> is overwritten.
\<close>

theorem strncpy_writes:
  assumes "cstr m s cs" and "off_str d s cs"
  shows "strncpy m d s n = put_bytes m d
    (if unat n \<le> length cs then take (unat n) cs
     else cs @ replicate (unat n - length cs + 1) 0)"
  by (rule strncpy_cstr [OF assms])

theorem strncpy_writes_witness:
  "strncpy ((\<lambda>_. 7)(0x100 := 65, 0x101 := 0)) 0x200 0x100 3 0x203 = 0"
  using strncpy_writes [of "(\<lambda>_. 7)(0x100 := 65, 0x101 := 0)" "0x100" "[65]" "0x200" 3]
  by (simp add: off_str_def replicate_numeral)

text \<open>
  \<open>strcmp\<close> returns on C strings; the result is 0 exactly for equal strings, and otherwise
  the difference of the first characters that differ, as a signed 8-bit value.
\<close>

theorem strcmp_compares:
  assumes "cstr m s a" and "cstr m t b"
  shows "\<exists>r. strcmp m s t = Some r \<and> (r = 0 \<longleftrightarrow> a = b) \<and>
    (\<forall>p x y xs ys. a @ [0] = p @ x # xs \<longrightarrow> b @ [0] = p @ y # ys \<longrightarrow> x \<noteq> y \<longrightarrow> r = sint (x - y))"
proof -
  have "0 \<notin> set a" "0 \<notin> set b" using assms by (auto simp: cstr_iff)
  then have "sint (str_diff a b) = 0 \<longleftrightarrow> a = b" unfolding signed_eq_0_iff by (rule str_diff_0)
  moreover have "str_diff (a @ [0]) (b @ [0]) = str_diff a b"
    using \<open>0 \<notin> set a\<close> \<open>0 \<notin> set b\<close> by (induction a b rule: str_diff.induct) auto
  then have "str_diff a b = x - y"
    if "a @ [0] = p @ x # xs" "b @ [0] = p @ y # ys" "x \<noteq> y" for p x y xs ys
    using that by (metis str_diff_first)
  ultimately show ?thesis using strcmp_cstr [OF assms] by auto
qed

theorem strcmp_compares_witness:
  "\<exists>r. strcmp (put_bytes (put_bytes (\<lambda>_. 0) 0x100 (lit ''ab'')) 0x200 (lit ''ac'')) 0x100 0x200
     = Some r \<and> r \<noteq> 0"
  using strcmp_compares [of "put_bytes (put_bytes (\<lambda>_. 0) 0x100 (lit ''ab'')) 0x200 (lit ''ac'')"
      "0x100" "lit ''ab''" "0x200" "lit ''ac''"]
  by (auto simp: of_char_def)

text \<open>
  \<open>strstr\<close> returns the first position at which the second string occurs in the first, and
  \<open>NULL\<close> when it does not occur.
\<close>

theorem strstr_first:
  assumes "cstr m s cs" and "cstr m t ct" and "length ct < 2147483648" and "length cs < 2147483648"
  shows "(\<exists>xs ys. cs = xs @ ct @ ys \<and> (\<forall>j<length xs. take (length ct) (drop j cs) \<noteq> ct) \<and>
            strstr m s t = Some (Some (s + of_nat (length xs))))
       \<or> (strstr m s t = Some None \<and> (\<nexists>xs ys. cs = xs @ ct @ ys))"
proof (cases "first_sub ct cs")
  case None
  have "take (length ct) (drop (length xs) cs) \<noteq> ct" if "length xs \<le> length cs" for xs :: "u8 list"
    using None that by (simp add: first_sub_None)
  then have "\<nexists>xs ys. cs = xs @ ct @ ys" by (metis append_eq_conv_conj length_append le_add1)
  then show ?thesis using None strstr_cstr [OF assms(2,1,3,4)] by simp
next
  case (Some i)
  then have i: "i \<le> length cs" "take (length ct) (drop i cs) = ct"
    "\<forall>j<i. take (length ct) (drop j cs) \<noteq> ct"
    by (simp_all add: first_sub_Some)
  then have "cs = take i cs @ ct @ drop (length ct) (drop i cs)" by (metis append_take_drop_id)
  moreover have "length (take i cs) = i" using i(1) by simp
  moreover have "strstr m s t = Some (Some (s + of_nat i))"
    using strstr_cstr [OF assms(2,1,3,4)] Some by simp
  ultimately show ?thesis using i(3) by metis
qed

theorem strstr_first_witness:
  "\<exists>p. strstr (put_bytes (put_bytes (\<lambda>_. 0) 0x100 (lit ''abc'')) 0x200 (lit ''b'')) 0x100 0x200
     = Some p"
  using strstr_first [of "put_bytes (put_bytes (\<lambda>_. 0) 0x100 (lit ''abc'')) 0x200 (lit ''b'')"
      "0x100" "lit ''abc''" "0x200" "lit ''b''"]
  by (auto simp: of_char_def)

text \<open>
  C13: calling \<open>strtok\<close> until it returns \<open>NULL\<close> ends, and yields exactly the maximal runs of
  characters of the string that are not delimiters, in order, each a C string in the final
  memory; only bytes of the string are overwritten.
\<close>

theorem strtok_tokens:
  assumes "cstr m p cs" and "cstr m ct delims"
    and "\<And>i. i < length cs \<Longrightarrow> off_str (p + of_nat i) ct delims"
  shows "\<exists>m' qs. strtok_run m static (Some p) ct = Some (m', qs) \<and>
    list_all2 (cstr m') qs (tokens (set delims) cs) \<and>
    (\<forall>x. length cs \<le> unat (x - p) \<longrightarrow> m' x = m x)"
  using strtok_run_cstr [OF assms(1,2) _ assms(3), of "Some p" static] by (simp add: same_off_def)

theorem strtok_tokens_witness:
  "\<exists>m' qs. strtok_run (put_bytes (put_bytes (\<lambda>_. 0) 0x100 [65, 44, 44, 66]) 0x200 [44])
       None (Some 0x100) 0x200 = Some (m', qs) \<and> list_all2 (cstr m') qs [[65], [66]]"
proof -
  let ?m = "put_bytes (put_bytes (\<lambda>_. 0) 0x100 [65, 44, 44, 66]) 0x200 [44 :: u8]"
  have "tokens {44} [65, 44, 44, 66 :: u8] = [[65], [66]]"
    by (simp add: tokens.simps [of _ "_ # _"])
  moreover have "off_str (0x100 + of_nat i) 0x200 [44]" if "i < 4" for i
  proof -
    from that have "i = 0 \<or> i = 1 \<or> i = 2 \<or> i = 3" by linarith
    then show ?thesis by (auto simp: off_str_def)
  qed
  ultimately show ?thesis
    using strtok_tokens [of ?m "0x100" "[65, 44, 44, 66]" "0x200" "[44]" None] by auto
qed

end
