(* ===== verification/LibcNum.thy ===== *)
theory LibcNum
  imports LibcStr
begin

text \<open>
  Character classes (\<^verbatim>\<open>libc/src/ctype.c\<close>) and the conversions from text to numbers
  (\<^verbatim>\<open>libc/src/atoi.c\<close>).  \<open>int\<close> and \<open>long\<close> are both 32 bits wide and signed arithmetic that
  leaves that range is undefined behaviour in C: the model returns \<open>Inl Overflow\<close> there.
  Unsigned arithmetic wraps.  The loops stop at the first character that is not a digit; on a
  memory without one they do not return, which is the \<open>None\<close> of \<open>partial_function (option)\<close>.
\<close>

section \<open>Code\<close>

subsection \<open>Character classes\<close>

definition isblank :: "int \<Rightarrow> bool" where
  "isblank c \<longleftrightarrow> c = 32 \<or> c = 9"

definition isspace :: "int \<Rightarrow> bool" where
  "isspace c \<longleftrightarrow> c = 32 \<or> c = 12 \<or> c = 10 \<or> c = 13 \<or> c = 9 \<or> c = 11"

definition islower :: "int \<Rightarrow> bool" where
  "islower c \<longleftrightarrow> 97 \<le> c \<and> c \<le> 122"

definition isupper :: "int \<Rightarrow> bool" where
  "isupper c \<longleftrightarrow> 65 \<le> c \<and> c \<le> 90"

definition isdigit :: "int \<Rightarrow> bool" where
  "isdigit c \<longleftrightarrow> 48 \<le> c \<and> c \<le> 57"

definition isalpha :: "int \<Rightarrow> bool" where
  "isalpha c \<longleftrightarrow> isupper c \<or> islower c"

definition isalnum :: "int \<Rightarrow> bool" where
  "isalnum c \<longleftrightarrow> isalpha c \<or> isdigit c"

definition isxdigit :: "int \<Rightarrow> bool" where
  "isxdigit c \<longleftrightarrow> isdigit c \<or> (97 \<le> c \<and> c \<le> 102) \<or> (65 \<le> c \<and> c \<le> 70)"

definition isgraph :: "int \<Rightarrow> bool" where
  "isgraph c \<longleftrightarrow> 32 < c \<and> c < 0x7f"

definition iscntrl :: "int \<Rightarrow> bool" where
  "iscntrl c \<longleftrightarrow> c < 32 \<or> c = 0x7f"

definition isprint :: "int \<Rightarrow> bool" where
  "isprint c \<longleftrightarrow> 0x20 \<le> c \<and> c < 0x7f"

definition ispunct :: "int \<Rightarrow> bool" where
  "ispunct c \<longleftrightarrow> isgraph c \<and> \<not> isalnum c"

definition tolower :: "int \<Rightarrow> int" where
  "tolower c = (if 65 \<le> c \<and> c \<le> 90 then c + (97 - 65) else c)"

definition toupper :: "int \<Rightarrow> int" where
  "toupper c = (if 97 \<le> c \<and> c \<le> 122 then c + (65 - 97) else c)"

subsection \<open>atoi, atol, atoul and atoull\<close>

definition hexval :: "u8 \<Rightarrow> int" where
  "hexval c =
     (if 48 \<le> c \<and> c \<le> 57 then uint c - 48
      else if 97 \<le> c \<and> c \<le> 102 then uint c - 97 + 10
      else if 65 \<le> c \<and> c \<le> 70 then uint c - 65 + 10
      else 0)"

definition in_long :: "int \<Rightarrow> bool" where
  "in_long v \<longleftrightarrow> - 2147483648 \<le> v \<and> v \<le> 2147483647"

partial_function (option) atol_hex :: "mem \<Rightarrow> u32 \<Rightarrow> int \<Rightarrow> (ub + int) option" where
  "atol_hex m num value =
     (if m num \<noteq> 0 \<and> isxdigit (uint (m num))
      then let product = value * 16; value = product + hexval (m num)
           in if in_long product \<and> in_long value then atol_hex m (num + 1) value
              else Some (Inl Overflow)
      else Some (Inr value))"

text \<open>The sum with the character is formed before \<open>'0'\<close> is subtracted.\<close>

partial_function (option) atol_dec :: "mem \<Rightarrow> u32 \<Rightarrow> int \<Rightarrow> (ub + int) option" where
  "atol_dec m num value =
     (if m num \<noteq> 0 \<and> isdigit (uint (m num))
      then let product = value * 10; sum = product + uint (m num); value = sum - 48
           in if in_long product \<and> in_long sum \<and> in_long value
              then atol_dec m (num + 1) value
              else Some (Inl Overflow)
      else Some (Inr value))"

definition atol :: "mem \<Rightarrow> u32 \<Rightarrow> (ub + int) option" where
  "atol m num =
     (if m num = 48 \<and> m (num + 1) = 120 then atol_hex m (num + 2) 0
      else let (neg, num) = (if m num = 45 then (True, num + 1) else (False, num))
           in map_option (map_sum id (\<lambda>value. if neg then - value else value))
                (atol_dec m num 0))"

definition atoi :: "mem \<Rightarrow> u32 \<Rightarrow> (ub + int) option" where
  "atoi m num = atol m num"

text \<open>The loops of \<open>atoul\<close> and \<open>atoull\<close> differ in the width of \<open>value\<close> only.\<close>

partial_function (option) atou_hex :: "mem \<Rightarrow> u32 \<Rightarrow> 'a::len word \<Rightarrow> 'a word option" where
  "atou_hex m num value =
     (if m num \<noteq> 0 \<and> isxdigit (uint (m num))
      then atou_hex m (num + 1) (value * 16 + of_int (hexval (m num)))
      else Some value)"

partial_function (option) atou_dec :: "mem \<Rightarrow> u32 \<Rightarrow> 'a::len word \<Rightarrow> 'a word option" where
  "atou_dec m num value =
     (if m num \<noteq> 0 \<and> isdigit (uint (m num))
      then atou_dec m (num + 1) (value * 10 + ucast (m num) - 48)
      else Some value)"

definition atoul :: "mem \<Rightarrow> u32 \<Rightarrow> u32 option" where
  "atoul m num =
     (if m num = 48 \<and> m (num + 1) = 120 then atou_hex m (num + 2) 0 else atou_dec m num 0)"

definition atoui :: "mem \<Rightarrow> u32 \<Rightarrow> u32 option" where
  "atoui m num = atoul m num"

definition atoull :: "mem \<Rightarrow> u32 \<Rightarrow> u64 option" where
  "atoull m num =
     (if m num = 48 \<and> m (num + 1) = 120 then atou_hex m (num + 2) 0 else atou_dec m num 0)"

subsection \<open>strtoul\<close>

datatype errno = EINVAL | ERANGE

definition ULONG_MAX :: u32 where
  "ULONG_MAX = 0xffffffff"

partial_function (option) skip_space :: "mem \<Rightarrow> u32 \<Rightarrow> u32 option" where
  "skip_space m nptr = (if isspace (uint (m nptr)) then skip_space m (nptr + 1) else Some nptr)"

definition strtoul_sign :: "mem \<Rightarrow> u32 \<Rightarrow> bool \<times> u32" where
  "strtoul_sign m nptr =
     (if m nptr = 43 then (False, nptr + 1)
      else if m nptr = 45 then (True, nptr + 1)
      else (False, nptr))"

definition strtoul_base :: "mem \<Rightarrow> u32 \<Rightarrow> int \<Rightarrow> int \<times> u32" where
  "strtoul_base m nptr base =
     (if (base = 0 \<or> base = 16) \<and> m nptr = 48 \<and> m (nptr + 1) = 120 then (16, nptr + 2)
      else if base = 0 \<and> m nptr = 48 then (8, nptr + 1)
      else if base = 0 then (10, nptr)
      else (base, nptr))"

definition digit_val :: "u8 \<Rightarrow> int" where
  "digit_val c =
     (if 65 \<le> c \<and> c \<le> 90 then uint c - 65 + 10
      else if 97 \<le> c \<and> c \<le> 122 then uint c - 97 + 10
      else if 48 \<le> c \<and> c \<le> 57 then uint c - 48
      else - 1)"

text \<open>One digit: multiply and add, saturating at \<open>ULONG_MAX\<close> with \<open>errno\<close> set.\<close>

definition strtoul_digit :: "u32 \<Rightarrow> errno option \<Rightarrow> int \<Rightarrow> int \<Rightarrow> u32 \<times> errno option" where
  "strtoul_digit ret err base v =
     (let new_ret = ret * of_int base
      in if new_ret div of_int base \<noteq> ret \<or> new_ret + of_int v < new_ret \<or> ret = ULONG_MAX
         then (ULONG_MAX, Some ERANGE)
         else (new_ret + of_int v, err))"

partial_function (option) strtoul_loop ::
    "mem \<Rightarrow> u32 \<Rightarrow> u32 \<Rightarrow> errno option \<Rightarrow> int \<Rightarrow> (u32 \<times> u32 \<times> errno option) option" where
  "strtoul_loop m nptr ret err base =
     (let v = digit_val (m nptr)
      in if v < 0 \<or> v \<ge> base then Some (nptr, ret, err)
         else let (ret, err) = strtoul_digit ret err base v
              in strtoul_loop m (nptr + 1) ret err base)"

text \<open>
  The result: the memory (with the end pointer stored when \<open>endptr\<close> is not \<open>NULL\<close>), \<open>errno\<close>
  and the value.
\<close>

definition strtoul :: "mem \<Rightarrow> errno option \<Rightarrow> u32 \<Rightarrow> u32 option \<Rightarrow> int
    \<Rightarrow> (mem \<times> errno option \<times> u32) option" where
  "strtoul m err nptr endptr base =
     (if base < 0 \<or> base = 1 \<or> base > 36 then Some (m, Some EINVAL, 0)
      else Option.bind (skip_space m nptr) (\<lambda>nptr.
        let (neg, nptr) = strtoul_sign m nptr;
            (base, nptr) = strtoul_base m nptr base
        in Option.bind (strtoul_loop m nptr 0 err base) (\<lambda>(nptr, ret, err).
             let m = (case endptr of Some e \<Rightarrow> store32 m e nptr | None \<Rightarrow> m);
                 ret = (if neg \<and> ret \<noteq> ULONG_MAX then - ret else ret)
             in Some (m, err, ret))))"

lemmas number_loops = atol_hex.simps atol_dec.simps atou_hex.simps atou_dec.simps
  skip_space.simps strtoul_loop.simps

section \<open>What the conversions return\<close>

text \<open>A maximal run of characters with property \<open>P\<close> in memory, and the value of a numeral.\<close>

fun span_at :: "(u8 \<Rightarrow> bool) \<Rightarrow> mem \<Rightarrow> u32 \<Rightarrow> u8 list \<Rightarrow> bool" where
  "span_at P m p [] \<longleftrightarrow> \<not> P (m p)"
| "span_at P m p (c # cs) \<longleftrightarrow> P c \<and> m p = c \<and> span_at P m (p + 1) cs"

definition horner :: "nat \<Rightarrow> nat \<Rightarrow> nat list \<Rightarrow> nat" where
  "horner b = foldl (\<lambda>v d. b * v + d)"

lemma horner_Nil [simp]: "horner b n [] = n"
  by (simp add: horner_def)

lemma horner_Cons [simp]: "horner b n (d # ds) = horner b (b * n + d) ds"
  by (simp add: horner_def)

lemma horner_append: "horner b n (xs @ ys) = horner b (horner b n xs) ys"
  by (simp add: horner_def)

lemma horner_ge: "0 < b \<Longrightarrow> n \<le> horner b n ds"
proof (induction ds arbitrary: n)
  case (Cons d ds)
  then have "n \<le> b * n + d" by (simp add: trans_le_add1)
  with Cons show ?case by (simp add: le_trans)
qed simp

definition dec_char :: "u8 \<Rightarrow> bool" where
  "dec_char c \<longleftrightarrow> isdigit (uint c)"

definition hex_char :: "u8 \<Rightarrow> bool" where
  "hex_char c \<longleftrightarrow> isxdigit (uint c)"

definition dec_value :: "u8 list \<Rightarrow> nat" where
  "dec_value cs = horner 10 0 (map (\<lambda>c. unat c - 48) cs)"

definition hex_value :: "u8 list \<Rightarrow> nat" where
  "hex_value cs = horner 16 0 (map (\<lambda>c. nat (hexval c)) cs)"

lemma dec_charE:
  assumes "dec_char c" shows "c \<noteq> 0" "48 \<le> unat c" "unat c \<le> 57" "uint c = int (unat c)"
proof -
  have *: "48 \<le> int (unat c) \<and> int (unat c) \<le> 57"
    using assms unfolding dec_char_def isdigit_def uint_unat .
  then show "48 \<le> unat c" "unat c \<le> 57" by linarith+
  then show "c \<noteq> 0" by auto
  show "uint c = int (unat c)" by simp
qed

lemma hexval_nonneg [simp]: "0 \<le> hexval c"
  by (auto simp: hexval_def word_le_def)

lemma hex_char_nonzero: "hex_char c \<Longrightarrow> c \<noteq> 0"
  by (auto simp: hex_char_def isxdigit_def isdigit_def)

lemma atou_dec_span:
  "span_at dec_char m p cs \<Longrightarrow>
    atou_dec m p (of_nat n) = Some (of_nat (horner 10 n (map (\<lambda>c. unat c - 48) cs)) :: 'a::len word)"
proof (induction cs arbitrary: p n)
  case Nil
  then show ?case by (subst number_loops) (simp add: dec_char_def)
next
  case (Cons c cs)
  then have c: "dec_char c" by simp
  have "ucast c = (of_nat (unat c) :: 'a word)" by simp
  also have "unat c = 48 + (unat c - 48)" using dec_charE(2) [OF c] by simp
  finally have "of_nat n * 10 + ucast c - 48 = (of_nat (10 * n + (unat c - 48)) :: 'a word)"
    by (simp only: of_nat_add of_nat_mult of_nat_numeral) simp
  with Cons c dec_charE(1) [OF c] show ?case
    by (subst number_loops) (simp add: dec_char_def del: of_nat_add of_nat_mult)
qed

lemma atou_hex_span:
  "span_at hex_char m p cs \<Longrightarrow>
    atou_hex m p (of_nat n) = Some (of_nat (horner 16 n (map (\<lambda>c. nat (hexval c)) cs)) :: 'a::len word)"
proof (induction cs arbitrary: p n)
  case Nil
  then show ?case by (subst number_loops) (simp add: hex_char_def)
next
  case (Cons c cs)
  have "of_nat n * 16 + of_int (hexval c) = (of_nat (16 * n + nat (hexval c)) :: 'a word)"
    by (simp add: algebra_simps)
  with Cons hex_char_nonzero [of c] show ?case
    by (subst number_loops) (simp add: hex_char_def del: of_nat_add of_nat_mult)
qed

definition hex_prefix :: "mem \<Rightarrow> u32 \<Rightarrow> bool" where
  "hex_prefix m p \<longleftrightarrow> m p = 48 \<and> m (p + 1) = 120"

lemma atoul_span:
  "span_at dec_char m p cs \<Longrightarrow> \<not> hex_prefix m p \<Longrightarrow> atoul m p = Some (of_nat (dec_value cs))"
  "span_at hex_char m (p + 2) cs \<Longrightarrow> hex_prefix m p \<Longrightarrow> atoul m p = Some (of_nat (hex_value cs))"
  using atou_dec_span [of m p cs 0] atou_hex_span [of m "p + 2" cs 0]
  by (auto simp: atoul_def hex_prefix_def dec_value_def hex_value_def)

lemma atoull_span:
  "span_at dec_char m p cs \<Longrightarrow> \<not> hex_prefix m p \<Longrightarrow> atoull m p = Some (of_nat (dec_value cs))"
  "span_at hex_char m (p + 2) cs \<Longrightarrow> hex_prefix m p \<Longrightarrow> atoull m p = Some (of_nat (hex_value cs))"
  using atou_dec_span [of m p cs 0] atou_hex_span [of m "p + 2" cs 0]
  by (auto simp: atoull_def hex_prefix_def dec_value_def hex_value_def)

text \<open>
  \<open>atol\<close> overflows already when the value plus the code of \<open>'0'\<close> does.
\<close>

lemma atol_dec_span:
  "span_at dec_char m p cs \<Longrightarrow> n + 48 \<le> 2147483647 \<Longrightarrow>
    atol_dec m p (int n) = Some
      (let v = horner 10 n (map (\<lambda>c. unat c - 48) cs)
       in if v + 48 \<le> 2147483647 then Inr (int v) else Inl Overflow)"
proof (induction cs arbitrary: p n)
  case Nil
  then show ?case by (subst number_loops) (simp add: dec_char_def)
next
  case (Cons c cs)
  then have c: "dec_char c" by simp
  let ?n = "10 * n + (unat c - 48)"
  have sum: "int n * 10 + uint c = int ?n + 48" using dec_charE(2) [OF c]
    unfolding dec_charE(4) [OF c] by linarith
  have diff: "int n * 10 + uint c - 48 = int ?n" unfolding sum by simp
  have test: "in_long (int n * 10) \<and> in_long (int n * 10 + uint c) \<and>
      in_long (int ?n) \<longleftrightarrow> ?n + 48 \<le> 2147483647"
    unfolding sum by (auto simp: in_long_def)
  have "m p = c" "m p \<noteq> 0 \<and> isdigit (uint c)"
    using Cons.prems dec_charE(1) [OF c] c by (auto simp: dec_char_def)
  then have step: "atol_dec m p (int n) =
      (if ?n + 48 \<le> 2147483647 then atol_dec m (p + 1) (int ?n) else Some (Inl Overflow))"
    by (subst number_loops) (simp only: Let_def test diff if_True simp_thms)
  have ge: "?n \<le> horner 10 ?n (map (\<lambda>c. unat c - 48) cs)" by (rule horner_ge) simp
  show ?case
  proof (cases "?n + 48 \<le> 2147483647")
    case True
    with step Cons.IH [of "p + 1" ?n] Cons.prems(1) show ?thesis by simp
  next
    case False
    with step ge show ?thesis by (simp add: Let_def)
  qed
qed

lemma atol_span:
  assumes "span_at dec_char m q cs" "\<not> hex_prefix m p"
    and "q = (if m p = 45 then p + 1 else p)"
  shows "atol m p = Some
    (if dec_value cs + 48 \<le> 2147483647
     then Inr (if m p = 45 then - int (dec_value cs) else int (dec_value cs)) else Inl Overflow)"
  using atol_dec_span [OF assms(1), of 0] assms(2,3)
  by (auto simp: atol_def hex_prefix_def dec_value_def Let_def)

subsection \<open>strtoul\<close>

text \<open>The saturated value of a numeral, with \<open>errno\<close>.\<close>

definition saturate :: "errno option \<Rightarrow> nat \<Rightarrow> u32 \<times> errno option" where
  "saturate err n = (if n < 4294967296 then (of_nat n, err) else (ULONG_MAX, Some ERANGE))"

lemma u32_mult_div:
  fixes r :: u32
  assumes "0 < b" "b < 4294967296"
  shows "(r * of_nat b) div of_nat b = r \<longleftrightarrow> unat r * b < 4294967296"
proof -
  have b: "unat (of_nat b :: u32) = b" using assms(2) by (rule unat_of_nat32)
  have p: "unat (r * of_nat b) = unat r * b mod 4294967296"
    using unat_word_ariths(2) [of r "of_nat b"] b by simp
  have "(r * of_nat b) div of_nat b = r \<longleftrightarrow> (unat r * b mod 4294967296) div b = unat r"
    by (simp only: word_unat_eq_iff unat_div p b)
  also have "\<dots> \<longleftrightarrow> unat r * b < 4294967296"
  proof
    assume "(unat r * b mod 4294967296) div b = unat r"
    then have "unat r * b \<le> unat r * b mod 4294967296"
      by (metis div_times_less_eq_dividend)
    then show "unat r * b < 4294967296"
      using mod_less_divisor [of 4294967296 "unat r * b"] by linarith
  qed (use assms(1) in simp)
  finally show ?thesis .
qed

lemma u32_add_overflow:
  "\<not> p + v < p \<longleftrightarrow> unat p + unat v < 4294967296" for p v :: u32
  using unat_lt_pow32 [of v] by (auto simp: word_less_nat_alt unat_add32)

lemma strtoul_digit_saturate:
  assumes "2 \<le> b" "b \<le> 36" "d < b"
  shows "(case saturate err n of (ret, e) \<Rightarrow> strtoul_digit ret e (int b) (int d)) =
    saturate err (b * n + d)"
proof (cases "n < 4294967296")
  case True
  let ?r = "of_nat n :: u32"
  have r: "unat ?r = n" using True by (rule unat_of_nat32)
  have d: "unat (of_nat d :: u32) = d" using assms by (intro unat_of_nat32) simp
  have div: "(?r * of_nat b) div of_nat b = ?r \<longleftrightarrow> n * b < 4294967296"
    using u32_mult_div [of b ?r] assms r by simp
  have add: "\<not> ?r * of_nat b + of_nat d < ?r * of_nat b \<longleftrightarrow> n * b + d < 4294967296"
    if "n * b < 4294967296"
  proof -
    have "unat (?r * of_nat b) = n * b"
      using that by (metis of_nat_mult unat_of_nat32)
    then show ?thesis using u32_add_overflow [of "?r * of_nat b" "of_nat d"] d by simp
  qed
  have "?r = ULONG_MAX \<longleftrightarrow> n = 4294967295"
    using r by (auto simp: ULONG_MAX_def word_unat_eq_iff)
  moreover have "n * b + d \<ge> 4294967296" if "n = 4294967295"
    using that assms(1) mult_le_mono2 [OF assms(1), of n] by simp
  moreover have "(of_nat (b * n + d) :: u32) = ?r * of_nat b + of_nat d"
    by (simp add: mult.commute)
  ultimately show ?thesis
    using True div add by (auto simp: saturate_def strtoul_digit_def Let_def mult.commute)
next
  case False
  then have "\<not> b * n + d < 4294967296"
    using mult_le_mono1 [OF assms(1), of n] by linarith
  with False show ?thesis by (simp add: saturate_def strtoul_digit_def Let_def)
qed

definition base_char :: "int \<Rightarrow> u8 \<Rightarrow> bool" where
  "base_char b c \<longleftrightarrow> 0 \<le> digit_val c \<and> digit_val c < b"

definition base_value :: "nat \<Rightarrow> u8 list \<Rightarrow> nat" where
  "base_value b cs = horner b 0 (map (\<lambda>c. nat (digit_val c)) cs)"

lemma strtoul_loop_span:
  assumes "2 \<le> b" "b \<le> 36"
  shows "span_at (base_char (int b)) m p cs \<Longrightarrow> saturate err n = (ret, e) \<Longrightarrow>
    strtoul_loop m p ret e (int b) = Some (p + of_nat (length cs),
      saturate err (horner b n (map (\<lambda>c. nat (digit_val c)) cs)))"
proof (induction cs arbitrary: p n ret e)
  case Nil
  then show ?case by (subst number_loops) (auto simp: base_char_def Let_def)
next
  case (Cons c cs)
  let ?d = "nat (digit_val c)"
  have c: "digit_val c = int ?d" "?d < b" "\<not> (digit_val c < 0 \<or> int b \<le> digit_val c)"
    and m: "m p = c"
    using Cons.prems(1) by (auto simp: base_char_def)
  obtain ret' e' where s: "saturate err (b * n + ?d) = (ret', e')" by fastforce
  then have "strtoul_digit ret e (int b) (int ?d) = (ret', e')"
    using strtoul_digit_saturate [OF assms c(2), of err n] Cons.prems(2) by simp
  moreover have "strtoul_loop m (p + 1) ret' e' (int b) = Some (p + 1 + of_nat (length cs),
      saturate err (horner b (b * n + ?d) (map (\<lambda>c. nat (digit_val c)) cs)))"
    using Cons.prems(1) s by (intro Cons.IH) simp_all
  ultimately show ?case
    using c(1,3) by (subst number_loops) (simp add: Let_def algebra_simps m)
qed

text \<open>
  The parts of the text in front of the digits: white space, a sign, and the prefix that
  belongs to the base (with the base that is then used).
\<close>

definition space_char :: "u8 \<Rightarrow> bool" where
  "space_char c \<longleftrightarrow> isspace (uint c)"

lemma skip_space_span:
  "span_at space_char m p cs \<Longrightarrow> skip_space m p = Some (p + of_nat (length cs))"
proof (induction cs arbitrary: p)
  case Nil
  then show ?case by (subst number_loops) (simp add: space_char_def)
next
  case (Cons c cs)
  then show ?case by (subst number_loops) (simp add: space_char_def algebra_simps)
qed

lemma strtoul_span:
  assumes base: "0 \<le> base" "base \<noteq> 1" "base \<le> 36"
    and space: "span_at space_char m nptr sp"
    and sign: "strtoul_sign m (nptr + of_nat (length sp)) = (neg, q)"
    and prefix: "strtoul_base m q base = (b, r)"
    and digits: "span_at (base_char b) m r ds"
  shows "strtoul m err nptr endptr base = Some
    (let v = base_value (nat b) ds;
         ret = if v < 4294967296 then of_nat v else ULONG_MAX
     in ((case endptr of Some e \<Rightarrow> store32 m e (r + of_nat (length ds)) | None \<Rightarrow> m),
         (if v < 4294967296 then err else Some ERANGE),
         (if neg \<and> v < 4294967295 then - ret else ret)))"
proof -
  have b: "2 \<le> b" "b \<le> 36" using base prefix by (auto simp: strtoul_base_def split: if_splits)
  let ?v = "base_value (nat b) ds"
  have loop: "strtoul_loop m r 0 err b = Some (r + of_nat (length ds), saturate err ?v)"
    using strtoul_loop_span [of "nat b" m r ds err 0 0 err] b digits
    by (simp add: base_value_def saturate_def nat_le_iff)
  have "of_nat ?v = ULONG_MAX \<longleftrightarrow> ?v = 4294967295" if "?v < 4294967296"
    using u32_of_nat_inj [OF that, of 4294967295] by (simp add: ULONG_MAX_def)
  then show ?thesis
    using base by (auto simp: strtoul_def skip_space_span [OF space] sign prefix loop saturate_def Let_def)
qed

section \<open>Properties\<close>

text \<open>
  C26: \<open>atoi\<close> (which is \<open>atol\<close>) of a decimal numeral, possibly after a minus sign, returns its
  value whenever the value plus 48 is an \<open>int\<close>, and runs into signed overflow otherwise: the
  largest 48 values of the type are not converted.
\<close>

theorem atoi_decimal:
  assumes "span_at dec_char m (if m p = 45 then p + 1 else p) cs" and "\<not> hex_prefix m p"
  shows "atoi m p = Some
    (if dec_value cs + 48 \<le> 2147483647
     then Inr (if m p = 45 then - int (dec_value cs) else int (dec_value cs)) else Inl Overflow)"
  unfolding atoi_def by (rule atol_span [OF assms refl])

theorem atoi_decimal_witness:
  "atoi (put_bytes (\<lambda>_. 0) 0x100 (lit ''2147483647'')) 0x100 = Some (Inl Overflow)"
  using atoi_decimal [of "put_bytes (\<lambda>_. 0) 0x100 (lit ''2147483647'')" "0x100" "lit ''2147483647''"]
  by (simp add: hex_prefix_def dec_value_def dec_char_def isdigit_def of_char_def)

text \<open>
  C25: \<open>strtoul\<close> in a valid base: after white space, sign and prefix it reads the longest run
  of digits, returns the value exactly when it fits in 32 bits and \<open>ULONG_MAX\<close> with
  \<open>errno = ERANGE\<close> when it does not, negates the value after a minus sign (but not
  \<open>ULONG_MAX\<close>), and stores the address behind the digits.
\<close>

theorem strtoul_saturates:
  assumes "0 \<le> base" and "base \<noteq> 1" and "base \<le> 36"
    and "span_at space_char m nptr sp"
    and "strtoul_sign m (nptr + of_nat (length sp)) = (neg, q)"
    and "strtoul_base m q base = (b, r)"
    and "span_at (base_char b) m r ds"
  shows "strtoul m err nptr endptr base = Some
    (let v = base_value (nat b) ds;
         ret = if v < 4294967296 then of_nat v else ULONG_MAX
     in ((case endptr of Some e \<Rightarrow> store32 m e (r + of_nat (length ds)) | None \<Rightarrow> m),
         (if v < 4294967296 then err else Some ERANGE),
         (if neg \<and> v < 4294967295 then - ret else ret)))"
  by (rule strtoul_span [OF assms])

theorem strtoul_saturates_witness:
  "strtoul (put_bytes (\<lambda>_. 0) 0x100 (lit '' -0x10'')) None 0x100 None 0
     = Some (put_bytes (\<lambda>_. 0) 0x100 (lit '' -0x10''), None, - 16)"
  using strtoul_saturates [of 0 "put_bytes (\<lambda>_. 0) 0x100 (lit '' -0x10'')" "0x100" "lit '' ''"
      True "0x102" 16 "0x104" "lit ''10''" None None]
  by (simp add: space_char_def isspace_def strtoul_sign_def strtoul_base_def base_char_def
      digit_val_def base_value_def of_char_def)

end
