(* ===== verification/Printf.thy ===== *)
theory Printf
  imports LibcNum
begin

text \<open>
  The formatted output of the C library, \<^verbatim>\<open>libc/src/printf.c\<close>: the engine that interprets
  the format and hands its output to a callback, and \<open>vsnprintf\<close>, which runs it with a
  callback that fills a buffer in memory.  The configuration is the one that is built:
  \<open>WITH_PRINTF_FP\<close> and \<open>WITH_PRINTF_LL\<close> are 0.

  The format and the string arguments are the lists of their characters (a \<open>Str\<close> argument
  is the pointer with the characters it points to); the bytes handed to the callback are a
  list, its state is the memory with a state of its own.  The number buffer of 32 bytes is a
  list whose writes are checked.  Arguments that the format asks for with another type, or that
  are missing, and writes outside the number buffer are \<open>UB\<close>.
\<close>

section \<open>Code\<close>

subsection \<open>Flags\<close>

definition LONGFLAG :: u32 where "LONGFLAG = 0x00000001"
definition LONGLONGFLAG :: u32 where "LONGLONGFLAG = 0x00000002"
definition HALFFLAG :: u32 where "HALFFLAG = 0x00000004"
definition HALFHALFFLAG :: u32 where "HALFHALFFLAG = 0x00000008"
definition SIZETFLAG :: u32 where "SIZETFLAG = 0x00000010"
definition INTMAXFLAG :: u32 where "INTMAXFLAG = 0x00000020"
definition PTRDIFFFLAG :: u32 where "PTRDIFFFLAG = 0x00000040"
definition ALTFLAG :: u32 where "ALTFLAG = 0x00000080"
definition CAPSFLAG :: u32 where "CAPSFLAG = 0x00000100"
definition SHOWSIGNFLAG :: u32 where "SHOWSIGNFLAG = 0x00000200"
definition SIGNEDFLAG :: u32 where "SIGNEDFLAG = 0x00000400"
definition LEFTFORMATFLAG :: u32 where "LEFTFORMATFLAG = 0x00000800"
definition LEADZEROFLAG :: u32 where "LEADZEROFLAG = 0x00001000"
definition BLANKPOSFLAG :: u32 where "BLANKPOSFLAG = 0x00002000"

lemmas flag_defs = LONGFLAG_def LONGLONGFLAG_def HALFFLAG_def HALFHALFFLAG_def SIZETFLAG_def
  INTMAXFLAG_def PTRDIFFFLAG_def ALTFLAG_def CAPSFLAG_def SHOWSIGNFLAG_def SIGNEDFLAG_def
  LEFTFORMATFLAG_def LEADZEROFLAG_def BLANKPOSFLAG_def

definition flag :: "u32 \<Rightarrow> u32 \<Rightarrow> bool" where
  "flag flags f \<longleftrightarrow> flags AND f \<noteq> 0"

subsection \<open>Numbers to text\<close>

text \<open>\<open>buf[i] = v\<close>.\<close>

definition poke :: "u8 list \<Rightarrow> u32 \<Rightarrow> u8 \<Rightarrow> u8 list option" where
  "poke buf i v = (if unat i < length buf then Some (buf[unat i := v]) else None)"

function decimal_loop :: "u8 list \<Rightarrow> u32 \<Rightarrow> u32 \<Rightarrow> (u8 list \<times> u32 \<times> u32) option" where
  "decimal_loop buf pos n =
     (if n \<ge> 10
      then let digit = n mod 10; n' = n div 10; pos = pos - 1
           in case poke buf pos (ucast (digit + 48)) of
                None \<Rightarrow> None
              | Some buf \<Rightarrow> decimal_loop buf pos n'
      else Some (buf, pos, n))"
  by pat_completeness auto
termination
  by (relation "measure (\<lambda>(buf, pos, n). unat n)") (auto simp: unat_div word_le_nat_alt)

definition longlong_to_string :: "u8 list \<Rightarrow> u32 \<Rightarrow> u32 \<Rightarrow> u32 \<Rightarrow> (u8 list \<times> u32 \<times> u8) option" where
  "longlong_to_string buf n len flags =
     (let pos = len;
          (negative, n) = (if flag flags SIGNEDFLAG \<and> sint n < 0 then (True, - n) else (False, n));
          pos = pos - 1
      in Option.bind (poke buf pos 0) (\<lambda>buf.
         Option.bind (decimal_loop buf pos n) (\<lambda>(buf, pos, n). let pos = pos - 1 in
         Option.bind (poke buf pos (ucast (n + 48))) (\<lambda>buf.
           Some (buf, pos,
             if negative then 45
             else if flag flags SHOWSIGNFLAG then 43
             else if flag flags BLANKPOSFLAG then 32
             else 0)))))"

definition hextable :: "u8 list" where "hextable = lit ''0123456789abcdef''"
definition hextable_caps :: "u8 list" where "hextable_caps = lit ''0123456789ABCDEF''"

function hex_loop :: "u8 list \<Rightarrow> u8 list \<Rightarrow> u32 \<Rightarrow> u32 \<Rightarrow> (u8 list \<times> u32) option" where
  "hex_loop table buf pos u =
     (let digit = u mod 16; u' = u div 16; pos = pos - 1
      in case poke buf pos (table ! unat digit) of
           None \<Rightarrow> None
         | Some buf \<Rightarrow> if u' \<noteq> 0 then hex_loop table buf pos u' else Some (buf, pos))"
  by pat_completeness auto
termination
proof (relation "measure (\<lambda>(table, buf, pos, u). unat u)", goal_cases)
  case (2 table buf pos u digit u' pos' buf')
  then have "unat u' \<noteq> 0" "u' = u div 16" by (simp_all add: unat_eq_0)
  then show ?case by (simp add: unat_div)
qed simp

definition longlong_to_hexstring :: "u8 list \<Rightarrow> u32 \<Rightarrow> u32 \<Rightarrow> u32 \<Rightarrow> (u8 list \<times> u32) option" where
  "longlong_to_hexstring buf u len flags =
     (let pos = len; table = (if flag flags CAPSFLAG then hextable_caps else hextable); pos = pos - 1
      in Option.bind (poke buf pos 0) (\<lambda>buf. hex_loop table buf pos u))"

text \<open>The C string that starts at an index of a buffer.\<close>

definition string_at :: "u8 list \<Rightarrow> u32 \<Rightarrow> u8 list" where
  "string_at buf pos = takeWhile (\<lambda>c. c \<noteq> 0) (drop (unat pos) buf)"

subsection \<open>Variadic arguments\<close>

text \<open>
  \<open>Word\<close>: any 32 bit argument (\<open>int\<close>, \<open>long\<close>, \<open>size_t\<close>, a pointer); \<open>Str\<close>: a pointer
  to a C string, with the string; \<open>LLong\<close>: a 64 bit argument.
\<close>

datatype va = Word u32 | Str u32 "u8 list" | LLong u64

fun va_word :: "va list \<Rightarrow> (u32 \<times> va list) option" where
  "va_word (Word w # ap) = Some (w, ap)"
| "va_word (Str p s # ap) = Some (p, ap)"
| "va_word _ = None"

fun va_llong :: "va list \<Rightarrow> (u64 \<times> va list) option" where
  "va_llong (LLong w # ap) = Some (w, ap)"
| "va_llong _ = None"

definition null_text :: "u8 list" where "null_text = lit ''<null>''"

fun va_string :: "va list \<Rightarrow> (u8 list \<times> va list) option" where
  "va_string (Str p s # ap) = Some (if p = 0 then null_text else s, ap)"
| "va_string (Word w # ap) = (if w = 0 then Some (null_text, ap) else None)"
| "va_string _ = None"

definition va_signed :: "u32 \<Rightarrow> va list \<Rightarrow> (u32 \<times> va list) option" where
  "va_signed flags ap =
     (if flag flags LONGLONGFLAG then map_option (apfst ucast) (va_llong ap)
      else if flag flags LONGFLAG then va_word ap
      else if flag flags HALFHALFFLAG
        then map_option (apfst (\<lambda>w. scast (ucast w :: u8))) (va_word ap)
      else if flag flags HALFFLAG
        then map_option (apfst (\<lambda>w. scast (ucast w :: u16))) (va_word ap)
      else if flag flags INTMAXFLAG then map_option (apfst ucast) (va_llong ap)
      else if flag flags PTRDIFFFLAG then va_word ap
      else va_word ap)"

definition va_unsigned :: "u32 \<Rightarrow> va list \<Rightarrow> (u32 \<times> va list) option" where
  "va_unsigned flags ap =
     (if flag flags LONGLONGFLAG then map_option (apfst ucast) (va_llong ap)
      else if flag flags LONGFLAG then va_word ap
      else if flag flags HALFHALFFLAG
        then map_option (apfst (\<lambda>w. ucast (ucast w :: u8))) (va_word ap)
      else if flag flags HALFFLAG
        then map_option (apfst (\<lambda>w. ucast (ucast w :: u16))) (va_word ap)
      else if flag flags SIZETFLAG then va_word ap
      else if flag flags INTMAXFLAG then map_option (apfst ucast) (va_llong ap)
      else if flag flags PTRDIFFFLAG then va_word ap
      else va_word ap)"

subsection \<open>The engine\<close>

text \<open>
  A run stops early on undefined behaviour or when the callback returns an error
  (\<open>goto exit\<close>).  The state of a run is the callback's state (with the memory) and
  \<open>chars_written\<close>.
\<close>

type_synonym 's sink = "u8 list \<Rightarrow> mem \<times> 's \<Rightarrow> int \<times> mem \<times> 's"
type_synonym 's run = "(mem \<times> 's) \<times> u32"

datatype 's stop = UB ub | Exit int "mem \<times> 's"

definition bindE :: "'e + 'a \<Rightarrow> ('a \<Rightarrow> 'e + 'b) \<Rightarrow> 'e + 'b" where
  "bindE r f = (case r of Inl e \<Rightarrow> Inl e | Inr x \<Rightarrow> f x)"

definition checked :: "ub \<Rightarrow> 'a option \<Rightarrow> 's stop + 'a" where
  "checked u r = (case r of None \<Rightarrow> Inl (UB u) | Some x \<Rightarrow> Inr x)"

definition OUTPUT_STRING :: "'s sink \<Rightarrow> u8 list \<Rightarrow> 's run \<Rightarrow> 's stop + ('s run \<times> int)" where
  "OUTPUT_STRING out str r =
     (let (st, chars_written) = r; (err, st) = out str st
      in if err < 0 then Inl (Exit err st) else Inr ((st, chars_written + of_int err), err))"

definition OUTPUT_CHAR :: "'s sink \<Rightarrow> u8 \<Rightarrow> 's run \<Rightarrow> 's stop + 's run" where
  "OUTPUT_CHAR out c r = map_sum id fst (OUTPUT_STRING out [c] r)"

function output_pad :: "'s sink \<Rightarrow> u8 \<Rightarrow> u32 \<Rightarrow> u32 \<Rightarrow> 's run \<Rightarrow> 's stop + 's run" where
  "output_pad out c format_num limit r =
     (if format_num > limit
      then case OUTPUT_CHAR out c r of
             Inl e \<Rightarrow> Inl e
           | Inr r \<Rightarrow> output_pad out c (format_num - 1) limit r
      else Inr r)"
  by pat_completeness auto
termination
proof (relation "measure (\<lambda>(out, c, format_num, limit, r). unat format_num)", goal_cases)
  case (2 out c format_num limit r r')
  then have "0 < format_num" by (simp add: word_less_nat_alt)
  then show ?case by simp
qed simp

text \<open>The label \<open>_output_string\<close>.\<close>

definition output_string :: "'s sink \<Rightarrow> u32 \<Rightarrow> u32 \<Rightarrow> u8 \<Rightarrow> u8 list \<Rightarrow> 's run \<Rightarrow> 's stop + 's run" where
  "output_string out flags format_num signchar s r =
     (let string_len = of_nat (length s)
      in if flag flags LEFTFORMATFLAG
         then bindE (OUTPUT_STRING out s r) (\<lambda>(r, err). let written = of_int err in
                output_pad out 32 format_num written r)
         else let format_num = (if signchar \<noteq> 0 \<and> format_num > 0 then format_num - 1 else format_num)
              in bindE (if flag flags LEADZEROFLAG \<and> signchar \<noteq> 0 then OUTPUT_CHAR out signchar r
                        else Inr r) (\<lambda>r.
                 bindE (output_pad out (if flag flags LEADZEROFLAG then 48 else 32)
                          format_num string_len r) (\<lambda>r.
                 bindE (if \<not> flag flags LEADZEROFLAG \<and> signchar \<noteq> 0 then OUTPUT_CHAR out signchar r
                        else Inr r) (\<lambda>r.
                 map_sum id fst (OUTPUT_STRING out s r)))))"

text \<open>
  The label \<open>next_format\<close>: the cases of the \<open>switch\<close> that change the flags or the width and
  go on to the next character, and the loop over them up to the conversion.
\<close>

definition format_modifier :: "u8 \<Rightarrow> u32 \<Rightarrow> u32 \<Rightarrow> (u32 \<times> u32) option" where
  "format_modifier c flags format_num =
     (if 48 \<le> c \<and> c \<le> 57
      then Some (if c = 48 \<and> format_num = 0 then flags OR LEADZEROFLAG else flags,
                 format_num * 10 + (ucast c - 48))
      else if c = of_char (CHR ''.'') then Some (flags, format_num)
      else if c = of_char (CHR ''-'') then Some (flags OR LEFTFORMATFLAG, format_num)
      else if c = of_char (CHR ''+'') then Some (flags OR SHOWSIGNFLAG, format_num)
      else if c = of_char (CHR '' '') then Some (flags OR BLANKPOSFLAG, format_num)
      else if c = of_char (CHR ''#'') then Some (flags OR ALTFLAG, format_num)
      else if c = of_char (CHR ''l'')
        then Some ((if flag flags LONGFLAG then flags OR LONGLONGFLAG else flags) OR LONGFLAG,
                   format_num)
      else if c = of_char (CHR ''h'')
        then Some ((if flag flags HALFFLAG then flags OR HALFHALFFLAG else flags) OR HALFFLAG,
                   format_num)
      else if c = of_char (CHR ''z'') then Some (flags OR SIZETFLAG, format_num)
      else if c = of_char (CHR ''j'') then Some (flags OR INTMAXFLAG, format_num)
      else if c = of_char (CHR ''t'') then Some (flags OR PTRDIFFFLAG, format_num)
      else None)"

fun next_format :: "u32 \<Rightarrow> u32 \<Rightarrow> u8 list \<Rightarrow> (u32 \<times> u32 \<times> u8 \<times> u8 list) option" where
  "next_format flags format_num [] = None"
| "next_format flags format_num (c # fmt) =
     (case format_modifier c flags format_num of
        Some (flags, format_num) \<Rightarrow> next_format flags format_num fmt
      | None \<Rightarrow> Some (flags, format_num, c, fmt))"

text \<open>\<open>%n\<close>: store \<open>chars_written\<close> at the width that the flags give.\<close>

definition store_count :: "u32 \<Rightarrow> u32 \<Rightarrow> u32 \<Rightarrow> mem \<Rightarrow> mem" where
  "store_count flags ptr n m =
     (if flag flags LONGLONGFLAG then store32 (store32 m ptr n) (ptr + 4) 0
      else if flag flags LONGFLAG then store32 m ptr n
      else if flag flags HALFHALFFLAG then m(ptr := ucast n)
      else if flag flags HALFFLAG then store16 m ptr (ucast n)
      else if flag flags SIZETFLAG then store32 m ptr n
      else store32 m ptr n)"

definition convert_hex :: "'s sink \<Rightarrow> u32 \<Rightarrow> u32 \<Rightarrow> va list \<Rightarrow> u8 list \<Rightarrow> 's run
    \<Rightarrow> 's stop + (va list \<times> u8 list \<times> 's run)" where
  "convert_hex out flags format_num ap num_buffer r =
     bindE (checked Bad_vararg (va_unsigned flags ap)) (\<lambda>(n, ap).
     bindE (checked Out_of_bounds
              (longlong_to_hexstring num_buffer n (of_nat (length num_buffer)) flags))
       (\<lambda>(num_buffer, pos).
     bindE (if flag flags ALTFLAG
            then bindE (OUTPUT_CHAR out 48 r)
                   (OUTPUT_CHAR out (if flag flags CAPSFLAG then of_char (CHR ''X'')
                                     else of_char (CHR ''x'')))
            else Inr r) (\<lambda>r.
     bindE (output_string out flags format_num 0 (string_at num_buffer pos) r) (\<lambda>r.
       Inr (ap, num_buffer, r)))))"

definition convert_decimal :: "'s sink \<Rightarrow> u32 \<Rightarrow> u32 \<Rightarrow> (u32 \<times> va list) option \<Rightarrow> u8 list \<Rightarrow> 's run
    \<Rightarrow> 's stop + (va list \<times> u8 list \<times> 's run)" where
  "convert_decimal out flags format_num arg num_buffer r =
     bindE (checked Bad_vararg arg) (\<lambda>(n, ap).
     bindE (checked Out_of_bounds
              (longlong_to_string num_buffer n (of_nat (length num_buffer)) flags))
       (\<lambda>(num_buffer, pos, signchar).
     bindE (output_string out flags format_num signchar (string_at num_buffer pos) r) (\<lambda>r.
       Inr (ap, num_buffer, r))))"

text \<open>The conversions of the \<open>switch\<close>.\<close>

definition convert :: "'s sink \<Rightarrow> u8 \<Rightarrow> u32 \<Rightarrow> u32 \<Rightarrow> va list \<Rightarrow> u8 list \<Rightarrow> 's run
    \<Rightarrow> 's stop + (va list \<times> u8 list \<times> 's run)" where
  "convert out c flags format_num ap num_buffer r =
     (if c = of_char (CHR ''%'')
      then bindE (OUTPUT_CHAR out c r) (\<lambda>r. Inr (ap, num_buffer, r))
      else if c = of_char (CHR ''c'')
      then bindE (checked Bad_vararg (va_word ap)) (\<lambda>(w, ap).
           bindE (OUTPUT_CHAR out (ucast w) r) (\<lambda>r. Inr (ap, num_buffer, r)))
      else if c = of_char (CHR ''s'')
      then bindE (checked Bad_vararg (va_string ap)) (\<lambda>(s, ap).
           let flags = flags AND NOT LEADZEROFLAG
           in bindE (output_string out flags format_num 0 s r) (\<lambda>r. Inr (ap, num_buffer, r)))
      else if c = of_char (CHR ''i'') \<or> c = of_char (CHR ''d'')
      then convert_decimal out (flags OR SIGNEDFLAG) format_num (va_signed flags ap) num_buffer r
      else if c = of_char (CHR ''u'')
      then convert_decimal out flags format_num (va_unsigned flags ap) num_buffer r
      else if c = of_char (CHR ''p'')
      then convert_hex out (flags OR (LONGFLAG OR ALTFLAG)) format_num ap num_buffer r
      else if c = of_char (CHR ''X'')
      then convert_hex out (flags OR CAPSFLAG) format_num ap num_buffer r
      else if c = of_char (CHR ''x'')
      then convert_hex out flags format_num ap num_buffer r
      else if c = of_char (CHR ''n'')
      then bindE (checked Bad_vararg (va_word ap)) (\<lambda>(ptr, ap).
             let ((m, st), chars_written) = r
             in Inr (ap, num_buffer, ((store_count flags ptr chars_written m, st), chars_written)))
      else bindE (OUTPUT_CHAR out (of_char (CHR ''%'')) r) (\<lambda>r.
           bindE (OUTPUT_CHAR out c r) (\<lambda>r. Inr (ap, num_buffer, r))))"

lemma next_format_shorter:
  "next_format flags num fmt = Some (flags', num', c, rest) \<Longrightarrow> length rest < length fmt"
  by (induction fmt arbitrary: flags num) (fastforce split: option.splits prod.splits)+

text \<open>The endless loop of \<open>_printf_engine\<close>; a round per literal text and conversion.\<close>

function engine_loop :: "'s sink \<Rightarrow> u8 list \<Rightarrow> va list \<Rightarrow> u8 list \<Rightarrow> 's run \<Rightarrow> 's stop + 's run" where
  "engine_loop out fmt ap num_buffer r =
     (case OUTPUT_STRING out (takeWhile (\<lambda>c. c \<noteq> of_char (CHR ''%'')) fmt) r of
        Inl e \<Rightarrow> Inl e
      | Inr (r, err) \<Rightarrow>
          (case dropWhile (\<lambda>c. c \<noteq> of_char (CHR ''%'')) fmt of
             [] \<Rightarrow> Inr r
           | _ # fmt' \<Rightarrow>
               (case next_format 0 0 fmt' of
                  None \<Rightarrow> Inr r
                | Some (flags, format_num, c, fmt') \<Rightarrow>
                    (case convert out c flags format_num ap num_buffer r of
                       Inl e \<Rightarrow> Inl e
                     | Inr (ap, num_buffer, r) \<Rightarrow> engine_loop out fmt' ap num_buffer r))))"
  by pat_completeness auto
termination
proof (relation "measure (\<lambda>(out, fmt, ap, num_buffer, r). length fmt)", goal_cases)
  case (2 out fmt ap num_buffer r)
  have "length (dropWhile (\<lambda>c. c \<noteq> of_char (CHR ''%'')) fmt) \<le> length fmt"
    by (rule length_dropWhile_le)
  with 2 show ?case by (auto dest: next_format_shorter)
qed simp

text \<open>
  \<open>num_buffer\<close> is an array on the stack and not initialised: its contents are a parameter.
\<close>

definition printf_engine :: "'s sink \<Rightarrow> u8 list \<Rightarrow> mem \<times> 's \<Rightarrow> u8 list \<Rightarrow> va list
    \<Rightarrow> ub + (int \<times> mem \<times> 's)" where
  "printf_engine out num_buffer st fmt ap =
     (case engine_loop out fmt ap num_buffer (st, 0) of
        Inl (UB u) \<Rightarrow> Inl u
      | Inl (Exit err st) \<Rightarrow> Inr (err, st)
      | Inr (st, chars_written) \<Rightarrow> Inr (sint chars_written, st))"

declare decimal_loop.simps [simp del] hex_loop.simps [simp del] output_pad.simps [simp del]
  engine_loop.simps [simp del]

subsection \<open>Printing into a buffer\<close>

record output_args =
  outstr :: u32
  out_len :: u32
  out_pos :: u32

text \<open>\<open>count\<close> runs over the bytes of the string.\<close>

fun vsnprintf_loop :: "u8 list \<Rightarrow> mem \<Rightarrow> output_args \<Rightarrow> mem \<times> output_args" where
  "vsnprintf_loop [] m args = (m, args)"
| "vsnprintf_loop (c # str) m args =
     (if out_pos args < out_len args
      then vsnprintf_loop str (m(outstr args + out_pos args := c)) (args\<lparr>out_pos := out_pos args + 1\<rparr>)
      else vsnprintf_loop str m args)"

definition vsnprintf_output :: "output_args sink" where
  "vsnprintf_output str st =
     (let (m, args) = st in (sint (of_nat (length str) :: u32), vsnprintf_loop str m args))"

definition vsnprintf :: "u8 list \<Rightarrow> mem \<Rightarrow> u32 \<Rightarrow> u32 \<Rightarrow> u8 list \<Rightarrow> va list \<Rightarrow> ub + (int \<times> mem)" where
  "vsnprintf num_buffer m str len fmt ap =
     (let args = \<lparr>outstr = str, out_len = len, out_pos = 0\<rparr>
      in case printf_engine vsnprintf_output num_buffer (m, args) fmt ap of
           Inl u \<Rightarrow> Inl u
         | Inr (wlen, m, args) \<Rightarrow>
             (if out_pos args \<ge> len then Inr (wlen, m(str + (len - 1) := 0))
              else Inr (wlen, m(str + of_int wlen := 0))))"

definition vsprintf :: "u8 list \<Rightarrow> mem \<Rightarrow> u32 \<Rightarrow> u8 list \<Rightarrow> va list \<Rightarrow> ub + (int \<times> mem)" where
  "vsprintf num_buffer m str fmt ap = vsnprintf num_buffer m str 0x7fffffff fmt ap"

text \<open>\<open>sprintf\<close> and \<open>snprintf\<close> collect their variadic arguments and call these.\<close>

definition snprintf :: "u8 list \<Rightarrow> mem \<Rightarrow> u32 \<Rightarrow> u32 \<Rightarrow> u8 list \<Rightarrow> va list \<Rightarrow> ub + (int \<times> mem)" where
  "snprintf num_buffer m str len fmt ap = vsnprintf num_buffer m str len fmt ap"

definition sprintf :: "u8 list \<Rightarrow> mem \<Rightarrow> u32 \<Rightarrow> u8 list \<Rightarrow> va list \<Rightarrow> ub + (int \<times> mem)" where
  "sprintf num_buffer m str fmt ap = vsprintf num_buffer m str fmt ap"

section \<open>Numbers\<close>

text \<open>The decimal and hexadecimal numerals of a number, without leading zeros.\<close>

fun decimal :: "nat \<Rightarrow> u8 list" where
  "decimal n = (if n < 10 then [of_nat (n + 48)] else decimal (n div 10) @ [of_nat (n mod 10 + 48)])"

fun hexadecimal :: "u8 list \<Rightarrow> nat \<Rightarrow> u8 list" where
  "hexadecimal table n =
     (if n < 16 then [table ! n] else hexadecimal table (n div 16) @ [table ! (n mod 16)])"

declare decimal.simps [simp del] hexadecimal.simps [simp del]

lemma decimal_length: "0 < k \<Longrightarrow> n < 10 ^ k \<Longrightarrow> length (decimal n) \<le> k"
proof (induction k arbitrary: n)
  case (Suc k)
  show ?case
  proof (cases "n < 10")
    case False
    then have "k \<noteq> 0" using Suc.prems(2) by (intro notI) simp
    moreover have "n div 10 < 10 ^ k" using Suc.prems(2) by (simp add: div_less_iff_less_mult)
    ultimately show ?thesis using Suc.IH False by (simp add: decimal.simps [of n])
  qed (simp add: decimal.simps)
qed simp

lemma hexadecimal_length: "0 < k \<Longrightarrow> n < 16 ^ k \<Longrightarrow> length (hexadecimal t n) \<le> k"
proof (induction k arbitrary: n)
  case (Suc k)
  show ?case
  proof (cases "n < 16")
    case False
    then have "k \<noteq> 0" using Suc.prems(2) by (intro notI) simp
    moreover have "n div 16 < 16 ^ k" using Suc.prems(2) by (simp add: div_less_iff_less_mult)
    ultimately show ?thesis using Suc.IH False by (simp add: hexadecimal.simps [of t n])
  qed (simp add: hexadecimal.simps)
qed simp

lemma digit_char: "d < 10 \<Longrightarrow> unat (of_nat (d + 48) :: u8) = d + 48"
  by (rule of_nat_inverse [OF refl]) simp

lemma decimal_chars: "c \<in> set (decimal n) \<Longrightarrow> dec_char c"
proof (induction n rule: decimal.induct)
  case (1 n)
  have "dec_char (of_nat (d + 48))" if "d < 10" for d
    unfolding dec_char_def isdigit_def uint_unat digit_char [OF that] using that by simp
  with 1 show ?case by (auto simp: decimal.simps [of n] simp del: of_nat_add split: if_splits)
qed

lemma decimal_nonzero: "0 \<notin> set (decimal n)"
  using decimal_chars dec_charE(1) by blast

lemma dec_value_decimal: "dec_value (decimal n) = n"
proof (induction n rule: decimal.induct)
  case (1 n)
  then show ?case
    by (simp add: decimal.simps [of n] dec_value_def horner_append digit_char del: of_nat_add)
qed

lemma decimal_not_Nil [simp]: "decimal n \<noteq> []"
  by (simp add: decimal.simps)

lemma poke_below:
  assumes "0 < unat pos" "unat pos \<le> length buf"
  shows "poke buf (pos - 1) x = Some (buf[unat pos - 1 := x])" "unat (pos - 1) = unat pos - 1"
    "drop (unat pos - 1) (buf[unat pos - 1 := x]) = x # drop (unat pos) buf"
proof -
  show "unat (pos - 1) = unat pos - 1"
    using assms(1) by (intro unat_pred) (simp add: word_less_nat_alt)
  then show "poke buf (pos - 1) x = Some (buf[unat pos - 1 := x])"
    using assms by (simp add: poke_def)
  show "drop (unat pos - 1) (buf[unat pos - 1 := x]) = x # drop (unat pos) buf"
    using assms by (simp add: drop_update_cancel flip: Cons_nth_drop_Suc)
qed

lemma u8_of_digit: "(ucast (w + 48 :: u32) :: u8) = of_nat (unat w + 48)"
proof -
  have "(v mod 4294967296 + 48) mod 256 = (v + 48) mod 256" for v :: int
    using mod_add_left_eq [of "v mod 4294967296" 256 48] mod_add_left_eq [of v 256 48]
    by (simp add: mod_mod_cancel)
  then have "(ucast (w + 48) :: u8) = ucast w + ucast (48 :: u32)"
    by transfer (simp add: take_bit_eq_mod mod_mod_cancel mod_simps)
  then show ?thesis by simp
qed

lemma decimal_loop_eq:
  "length (decimal (unat n)) \<le> unat pos \<Longrightarrow> unat pos \<le> length buf \<Longrightarrow>
    \<exists>buf' pos' n' ds. decimal_loop buf pos n = Some (buf', pos', n') \<and>
      unat pos = unat pos' + length ds \<and> length buf' = length buf \<and>
      decimal (unat n) = of_nat (unat n' + 48) # ds \<and> drop (unat pos') buf' = ds @ drop (unat pos) buf"
proof (induction buf pos n rule: decimal_loop.induct)
  case (1 buf pos n)
  show ?case
  proof (cases "n \<ge> 10")
    case True
    let ?x = "ucast (n mod 10 + 48) :: u8" and ?buf = "buf[unat pos - 1 := ucast (n mod 10 + 48)]"
    have n: "\<not> unat n < 10" "unat (n div 10) = unat n div 10"
      using True by (simp_all add: word_le_nat_alt unat_div)
    have x: "?x = of_nat (unat n mod 10 + 48)" by (simp add: u8_of_digit unat_mod)
    have dec: "decimal (unat n) = decimal (unat (n div 10)) @ [?x]"
      using n(1) unfolding x n(2) by (subst decimal.simps) simp
    have pos: "0 < unat pos" "unat pos \<le> length buf" using 1(2,3) dec by simp_all
    note p = poke_below(1) [OF pos, of ?x] poke_below(2) [OF pos] poke_below(3) [OF pos, of ?x]
    have "\<exists>buf' pos' n' ds. decimal_loop ?buf (pos - 1) (n div 10) = Some (buf', pos', n') \<and>
      unat (pos - 1) = unat pos' + length ds \<and> length buf' = length ?buf \<and>
      decimal (unat (n div 10)) = of_nat (unat n' + 48) # ds \<and>
      drop (unat pos') buf' = ds @ drop (unat (pos - 1)) ?buf"
      using 1(2,3) dec p(2) pos by (intro 1(1) [OF True refl refl refl p(1)]) simp_all
    then obtain buf' pos' n' ds where *: "decimal_loop ?buf (pos - 1) (n div 10) = Some (buf', pos', n')"
      "unat (pos - 1) = unat pos' + length ds" "length buf' = length buf"
      "decimal (unat (n div 10)) = of_nat (unat n' + 48) # ds"
      "drop (unat pos') buf' = ds @ ?x # drop (unat pos) buf"
      unfolding p(2,3) by auto
    have "decimal_loop buf pos n = Some (buf', pos', n')"
      using True p(1) *(1) by (subst decimal_loop.simps) (simp add: Let_def)
    with * dec pos p(2) show ?thesis by (intro exI [of _ "ds @ [?x]"] exI conjI) auto
  next
    case False
    then have "unat n < 10" by (simp add: word_le_nat_alt)
    then have "decimal (unat n) = [of_nat (unat n + 48)]" by (simp add: decimal.simps)
    with False show ?thesis by (subst decimal_loop.simps) simp
  qed
qed

lemma decimal_u32: "length (decimal (unat (n :: u32))) \<le> 10"
  by (rule decimal_length) (use unat_lt_pow32 [of n] in simp_all)

lemma hexadecimal_u32: "length (hexadecimal t (unat (n :: u32))) \<le> 8"
  by (rule hexadecimal_length) (use unat_lt_pow32 [of n] in simp_all)

lemma takeWhile_to_zero: "0 \<notin> set s \<Longrightarrow> takeWhile (\<lambda>c. c \<noteq> (0 :: u8)) (s @ 0 # r) = s"
  by (induction s) auto

text \<open>The value that is printed, and the character of the sign (0 for none).\<close>

definition magnitude :: "u32 \<Rightarrow> u32 \<Rightarrow> nat" where
  "magnitude flags n = (if flag flags SIGNEDFLAG \<and> sint n < 0 then nat (- sint n) else unat n)"

definition sign_char :: "u32 \<Rightarrow> u32 \<Rightarrow> u8" where
  "sign_char flags n =
     (if flag flags SIGNEDFLAG \<and> sint n < 0 then 45
      else if flag flags SHOWSIGNFLAG then 43 else if flag flags BLANKPOSFLAG then 32 else 0)"

lemma unat_minus_neg: "sint n < 0 \<Longrightarrow> unat (- n) = nat (- sint n)" for n :: u32
proof -
  assume "sint n < 0"
  then have large: "\<not> unat n < 2147483648" using sint_small [of n] by auto
  then have "unat (- n) = 4294967296 - unat n" using unat_sub32 [of 0 n] by simp
  also have "\<dots> = nat (- sint n)"
    unfolding sint_large [OF large] using unat_lt_pow32 [of n] by arith
  finally show ?thesis .
qed

lemma drop_last_update: "buf \<noteq> [] \<Longrightarrow> drop (length buf - Suc 0) (buf[length buf - Suc 0 := x]) = [x]"
  by (simp add: drop_update_cancel flip: Cons_nth_drop_Suc)

lemma longlong_to_string_eq:
  assumes "12 \<le> length buf" "length buf < 4294967296"
  shows "\<exists>buf' pos. longlong_to_string buf n (of_nat (length buf)) flags
      = Some (buf', pos, sign_char flags n) \<and> length buf' = length buf \<and>
    string_at buf' pos = decimal (magnitude flags n) \<and> unat pos < length buf"
proof -
  let ?len = "of_nat (length buf) :: u32"
  define n' where "n' = (if flag flags SIGNEDFLAG \<and> sint n < 0 then - n else n)"
  have mag: "unat n' = magnitude flags n"
    by (simp add: n'_def magnitude_def unat_minus_neg)
  have len: "unat ?len = length buf" using assms(2) by (rule unat_of_nat32)
  let ?buf = "buf[length buf - 1 := 0]"
  have "0 < unat ?len" "unat ?len \<le> length buf" unfolding len using assms(1) by linarith+
  note p = poke_below(1) [OF this, of 0] poke_below(2) [OF this]
  have "length (decimal (unat n')) \<le> unat (?len - 1)"
    using assms(1) decimal_u32 [of n'] unfolding p(2) len by simp
  from decimal_loop_eq [OF this, of ?buf] obtain buf1 pos1 n1 ds where
    loop: "decimal_loop ?buf (?len - 1) n' = Some (buf1, pos1, n1)"
    and pos1: "length buf - 1 = unat pos1 + length ds" "length buf1 = length buf"
    and dec: "decimal (unat n') = of_nat (unat n1 + 48) # ds"
    and drop: "drop (unat pos1) buf1 = ds @ drop (length buf - 1) ?buf"
    unfolding p(2) len by auto
  have "Suc (length ds) \<le> 10" using decimal_u32 [of n'] dec by simp
  then have "0 < unat pos1" "unat pos1 \<le> length buf1" using pos1 assms(1) by simp_all
  note q = poke_below(1) [OF this, of "ucast (n1 + 48)"] poke_below(2) [OF this]
    poke_below(3) [OF this, of "ucast (n1 + 48)"]
  let ?buf2 = "buf1[unat pos1 - 1 := ucast (n1 + 48)]"
  have "longlong_to_string buf n ?len flags = Some (?buf2, pos1 - 1, sign_char flags n)"
    using p loop q(1) unfolding longlong_to_string_def Let_def len
    by (auto simp: n'_def sign_char_def)
  moreover have "buf \<noteq> []" using assms(1) by auto
  then have "drop (unat (pos1 - 1)) ?buf2 = decimal (unat n') @ [0]"
    unfolding q(2,3) unfolding drop dec u8_of_digit by (simp add: drop_last_update)
  then have "string_at ?buf2 (pos1 - 1) = decimal (magnitude flags n)"
    using decimal_nonzero [of "unat n'"] by (simp add: string_at_def mag takeWhile_to_zero)
  ultimately show ?thesis using pos1 q(2) assms(1) by (intro exI conjI) (assumption | simp)+
qed

lemma hex_loop_eq:
  "length (hexadecimal table (unat u)) \<le> unat pos \<Longrightarrow> unat pos \<le> length buf \<Longrightarrow>
    \<exists>buf' pos'. hex_loop table buf pos u = Some (buf', pos') \<and>
      unat pos = unat pos' + length (hexadecimal table (unat u)) \<and> length buf' = length buf \<and>
      drop (unat pos') buf' = hexadecimal table (unat u) @ drop (unat pos) buf"
proof (induction table buf pos u rule: hex_loop.induct)
  case (1 table buf pos u)
  let ?x = "table ! unat (u mod 16)"
  let ?buf = "buf[unat pos - 1 := ?x]"
  have u: "unat (u div 16) = unat u div 16" "unat (u mod 16) = unat u mod 16"
    by (simp_all add: unat_div unat_mod)
  have hex: "hexadecimal table (unat u) =
      (if u div 16 = 0 then [] else hexadecimal table (unat (u div 16))) @ [?x]"
    unfolding u using u(1) by (subst hexadecimal.simps) (auto simp: unat_eq_0 [symmetric] div_eq_0_iff)
  have pos: "0 < unat pos" "unat pos \<le> length buf" using 1(2,3) hex by simp_all
  note p = poke_below(1) [OF pos, of ?x] poke_below(2) [OF pos] poke_below(3) [OF pos, of ?x]
  show ?case
  proof (cases "u div 16 = 0")
    case True
    then have "hex_loop table buf pos u = Some (?buf, pos - 1)"
      using p(1) by (subst hex_loop.simps) (simp add: Let_def)
    with True hex pos p show ?thesis by simp
  next
    case False
    have "\<exists>buf' pos'. hex_loop table ?buf (pos - 1) (u div 16) = Some (buf', pos') \<and>
      unat (pos - 1) = unat pos' + length (hexadecimal table (unat (u div 16))) \<and>
      length buf' = length ?buf \<and>
      drop (unat pos') buf' = hexadecimal table (unat (u div 16)) @ drop (unat (pos - 1)) ?buf"
      using 1(2,3) hex p(2) pos False by (intro 1(1) [OF refl refl refl p(1)]) simp_all
    then obtain buf' pos' where *: "hex_loop table ?buf (pos - 1) (u div 16) = Some (buf', pos')"
      "unat (pos - 1) = unat pos' + length (hexadecimal table (unat (u div 16)))"
      "length buf' = length buf"
      "drop (unat pos') buf' = hexadecimal table (unat (u div 16)) @ ?x # drop (unat pos) buf"
      unfolding p(2,3) by auto
    have "hex_loop table buf pos u = Some (buf', pos')"
      using False p(1) *(1) by (subst hex_loop.simps) (simp add: Let_def)
    with * hex pos p(2) False show ?thesis by auto
  qed
qed

definition hex_table :: "u32 \<Rightarrow> u8 list" where
  "hex_table flags = (if flag flags CAPSFLAG then hextable_caps else hextable)"

lemma hex_table_chars:
  "d < 16 \<Longrightarrow> hex_char (hex_table flags ! d) \<and> nat (hexval (hex_table flags ! d)) = d"
proof -
  have "\<forall>c \<in> set (zip [0..<16] (hex_table flags)). hex_char (snd c) \<and> nat (hexval (snd c)) = fst c"
    by (simp add: hex_table_def hextable_def hextable_caps_def of_char_def upt_conv_Cons
        hex_char_def isxdigit_def isdigit_def hexval_def)
  moreover assume d: "d < 16"
  moreover have "length (hex_table flags) = 16" by (simp add: hex_table_def hextable_def hextable_caps_def)
  ultimately have "(d, hex_table flags ! d) \<in> set (zip [0..<16] (hex_table flags))"
    by (auto simp: set_zip intro: exI [of _ d])
  with \<open>\<forall>c \<in> _. _\<close> show ?thesis by fastforce
qed

lemma hexadecimal_chars: "c \<in> set (hexadecimal (hex_table flags) n) \<Longrightarrow> hex_char c"
proof (induction "hex_table flags" n rule: hexadecimal.induct)
  case (1 n)
  then show ?case
    by (auto simp: hexadecimal.simps [of _ n] hex_table_chars split: if_splits)
qed

lemma hex_value_hexadecimal: "hex_value (hexadecimal (hex_table flags) n) = n"
proof (induction "hex_table flags" n rule: hexadecimal.induct)
  case (1 n)
  then show ?case
    by (simp add: hexadecimal.simps [of _ n] hex_value_def horner_append hex_table_chars)
qed

lemma longlong_to_hexstring_eq:
  assumes "10 \<le> length buf" "length buf < 4294967296"
  shows "\<exists>buf' pos. longlong_to_hexstring buf n (of_nat (length buf)) flags = Some (buf', pos) \<and>
    length buf' = length buf \<and> string_at buf' pos = hexadecimal (hex_table flags) (unat n) \<and>
    unat pos < length buf"
proof -
  let ?len = "of_nat (length buf) :: u32" and ?hex = "hexadecimal (hex_table flags) (unat n)"
  have len: "unat ?len = length buf" using assms(2) by (rule unat_of_nat32)
  let ?buf = "buf[length buf - 1 := 0]"
  have "0 < unat ?len" "unat ?len \<le> length buf" unfolding len using assms(1) by linarith+
  note p = poke_below(1) [OF this, of 0] poke_below(2) [OF this]
  have "length ?hex \<le> unat (?len - 1)"
    using assms(1) hexadecimal_u32 [of "hex_table flags" n] unfolding p(2) len by simp
  from hex_loop_eq [OF this, of ?buf] obtain buf' pos' where
    loop: "hex_loop (hex_table flags) ?buf (?len - 1) n = Some (buf', pos')"
    and pos': "length buf - 1 = unat pos' + length ?hex" "length buf' = length buf"
    and drop: "drop (unat pos') buf' = ?hex @ drop (length buf - 1) ?buf"
    unfolding p(2) len by auto
  have result: "longlong_to_hexstring buf n ?len flags = Some (buf', pos')"
    using p loop by (simp add: longlong_to_hexstring_def len hex_table_def [symmetric])
  have "buf \<noteq> []" using assms(1) by auto
  moreover have "0 \<notin> set ?hex" using hexadecimal_chars [of 0 flags "unat n"] hex_char_nonzero by blast
  ultimately have "string_at buf' pos' = ?hex"
    by (simp add: string_at_def drop drop_last_update takeWhile_to_zero)
  with result show ?thesis using pos' assms(1) by (intro exI conjI) (assumption | simp)+
qed

section \<open>What the engine prints\<close>

text \<open>
  The specification: the text of a field with its padding and sign, of a conversion, and of a
  whole format.  \<open>None\<close>: the arguments do not fit the format, or it contains \<open>%n\<close>.
\<close>

definition justify :: "u32 \<Rightarrow> u32 \<Rightarrow> u8 \<Rightarrow> u8 list \<Rightarrow> u8 list" where
  "justify flags width sign s =
     (if flag flags LEFTFORMATFLAG then s @ replicate (unat width - length s) 32
      else let w = (if sign = 0 then unat width else unat width - 1);
               sg = (if sign = 0 then [] else [sign])
           in if flag flags LEADZEROFLAG then sg @ replicate (w - length s) 48 @ s
              else replicate (w - length s) 32 @ sg @ s)"

definition decimal_text :: "u32 \<Rightarrow> u32 \<Rightarrow> u32 \<Rightarrow> u8 list" where
  "decimal_text flags width n = justify flags width (sign_char flags n) (decimal (magnitude flags n))"

definition hex_text :: "u32 \<Rightarrow> u32 \<Rightarrow> u32 \<Rightarrow> u8 list" where
  "hex_text flags width n =
     (if flag flags ALTFLAG
      then [48, if flag flags CAPSFLAG then of_char (CHR ''X'') else of_char (CHR ''x'')] else [])
     @ justify flags width 0 (hexadecimal (hex_table flags) (unat n))"

definition convert_text :: "u8 \<Rightarrow> u32 \<Rightarrow> u32 \<Rightarrow> va list \<Rightarrow> (u8 list \<times> va list) option" where
  "convert_text c flags width ap =
     (if c = of_char (CHR ''%'') then Some ([c], ap)
      else if c = of_char (CHR ''c'') then map_option (apfst (\<lambda>w. [ucast w])) (va_word ap)
      else if c = of_char (CHR ''s'')
        then map_option (apfst (justify (flags AND NOT LEADZEROFLAG) width 0)) (va_string ap)
      else if c = of_char (CHR ''i'') \<or> c = of_char (CHR ''d'')
        then map_option (apfst (decimal_text (flags OR SIGNEDFLAG) width)) (va_signed flags ap)
      else if c = of_char (CHR ''u'')
        then map_option (apfst (decimal_text flags width)) (va_unsigned flags ap)
      else if c = of_char (CHR ''p'')
        then let f = flags OR (LONGFLAG OR ALTFLAG)
             in map_option (apfst (hex_text f width)) (va_unsigned f ap)
      else if c = of_char (CHR ''X'')
        then let f = flags OR CAPSFLAG in map_option (apfst (hex_text f width)) (va_unsigned f ap)
      else if c = of_char (CHR ''x'')
        then map_option (apfst (hex_text flags width)) (va_unsigned flags ap)
      else if c = of_char (CHR ''n'') then None
      else Some ([of_char (CHR ''%''), c], ap))"

function render :: "u8 list \<Rightarrow> va list \<Rightarrow> u8 list option" where
  "render fmt ap =
     (let text = takeWhile (\<lambda>c. c \<noteq> of_char (CHR ''%'')) fmt
      in case dropWhile (\<lambda>c. c \<noteq> of_char (CHR ''%'')) fmt of
           [] \<Rightarrow> Some text
         | _ # fmt' \<Rightarrow>
             (case next_format 0 0 fmt' of
                None \<Rightarrow> Some text
              | Some (flags, width, c, fmt'') \<Rightarrow>
                  (case convert_text c flags width ap of
                     None \<Rightarrow> None
                   | Some (field, ap) \<Rightarrow>
                       map_option (\<lambda>rest. text @ field @ rest) (render fmt'' ap))))"
  by pat_completeness auto
termination
proof (relation "measure (\<lambda>(fmt, ap). length fmt)", goal_cases)
  case (2 fmt ap)
  have "length (dropWhile (\<lambda>c. c \<noteq> of_char (CHR ''%'')) fmt) \<le> length fmt"
    by (rule length_dropWhile_le)
  with 2 show ?case by (auto dest: next_format_shorter)
qed simp

declare render.simps [simp del]

text \<open>
  The interface of the engine's callback: it accepts all that it is given, and what it has
  been given so far is a function of its state (\<open>holds acc st\<close>).
\<close>

definition run_at :: "(u8 list \<Rightarrow> mem \<times> 's \<Rightarrow> bool) \<Rightarrow> u8 list \<Rightarrow> 's run \<Rightarrow> bool" where
  "run_at holds acc r \<longleftrightarrow> holds acc (fst r) \<and> snd r = of_nat (length acc)"

definition writes :: "(u8 list \<Rightarrow> mem \<times> 's \<Rightarrow> bool) \<Rightarrow> ('s run \<Rightarrow> 's stop + 's run) \<Rightarrow> u8 list \<Rightarrow> bool" where
  "writes holds p s \<longleftrightarrow> (\<forall>acc r. run_at holds acc r \<longrightarrow> length acc + length s < 2147483648 \<longrightarrow>
     (\<exists>r'. p r = Inr r' \<and> run_at holds (acc @ s) r'))"

lemma bindE_simps [simp]: "bindE (Inr x) f = f x" "bindE (Inl e) f = Inl e"
  by (simp_all add: bindE_def)

lemma bindE_assoc: "bindE (bindE p f) g = bindE p (\<lambda>x. bindE (f x) g)"
  by (cases p) simp_all

lemma checked_Some [simp]: "checked u (Some x) = Inr x"
  by (simp add: checked_def)

lemma writes_bind:
  assumes "writes h p s" "writes h q t" shows "writes h (\<lambda>r. bindE (p r) q) (s @ t)"
  unfolding writes_def
proof (intro allI impI)
  fix acc r assume *: "run_at h acc r" "length acc + length (s @ t) < 2147483648"
  then obtain r' where r': "p r = Inr r'" "run_at h (acc @ s) r'"
    using assms(1) unfolding writes_def by (metis add_lessD1 add.assoc length_append)
  then obtain r'' where "q r' = Inr r''" "run_at h ((acc @ s) @ t) r''"
    using assms(2) * unfolding writes_def by (metis add.assoc length_append)
  with r' show "\<exists>r'. bindE (p r) q = Inr r' \<and> run_at h (acc @ s @ t) r'"
    by (auto simp: bindE_def)
qed

lemma writes_skip: "writes h Inr []"
  by (simp add: writes_def)

lemma writes_if: "writes h p s \<Longrightarrow> writes h q t \<Longrightarrow>
  writes h (\<lambda>r. if b then p r else q r) (if b then s else t)"
  by (simp add: writes_def)

lemma writesD: "writes h p s \<Longrightarrow> run_at h acc r \<Longrightarrow> length acc + length s < 2147483648
    \<Longrightarrow> \<exists>r'. p r = Inr r' \<and> run_at h (acc @ s) r'"
  unfolding writes_def by blast

lemma writesI: "(\<And>acc r. run_at h acc r \<Longrightarrow> length acc + length s < 2147483648
    \<Longrightarrow> \<exists>r'. p r = Inr r' \<and> run_at h (acc @ s) r') \<Longrightarrow> writes h p s"
  unfolding writes_def by blast

lemma unat_length: "length s < 4294967296 \<Longrightarrow> unat (of_nat (length s) :: u32) = length s"
  by (rule unat_of_nat32)

locale printf_sink =
  fixes out :: "'s sink" and holds :: "u8 list \<Rightarrow> mem \<times> 's \<Rightarrow> bool"
  assumes out_appends: "holds acc st \<Longrightarrow> length acc + length s < 2147483648 \<Longrightarrow>
    fst (out s st) = int (length s) \<and> holds (acc @ s) (snd (out s st))"
begin

lemma OUTPUT_STRING_run:
  assumes "run_at holds acc r" "length acc + length s < 2147483648"
  shows "\<exists>r'. OUTPUT_STRING out s r = Inr (r', int (length s)) \<and> run_at holds (acc @ s) r'"
proof -
  obtain st where r: "r = (st, of_nat (length acc))" "holds acc st"
    using assms(1) by (cases r) (auto simp: run_at_def)
  with out_appends [of acc st s] assms(2) show ?thesis
    by (auto simp: OUTPUT_STRING_def run_at_def split: prod.splits)
qed

lemma OUTPUT_STRING_writes: "writes holds (\<lambda>r. map_sum id fst (OUTPUT_STRING out s r)) s"
  unfolding writes_def using OUTPUT_STRING_run by fastforce

lemma OUTPUT_CHAR_writes: "writes holds (OUTPUT_CHAR out c) [c]"
  using OUTPUT_STRING_writes [of "[c]"] by (simp add: writes_def OUTPUT_CHAR_def)

lemma output_pad_writes:
  "writes holds (output_pad out c num limit) (replicate (unat num - unat limit) c)"
proof (induction "unat num" arbitrary: num)
  case 0
  then have "output_pad out c num limit r = Inr r" for r
    by (subst output_pad.simps) (simp add: word_less_nat_alt)
  then show ?case using 0 by (simp add: writes_def)
next
  case (Suc k)
  show ?case
  proof (cases "limit < num")
    case True
    then have "unat (num - 1) = k"
      using Suc.hyps(2) unat_pred [of num] by (simp add: word_less_nat_alt)
    moreover have "output_pad out c num limit =
        (\<lambda>r. bindE (OUTPUT_CHAR out c r) (output_pad out c (num - 1) limit))"
      using True by (intro ext) (subst output_pad.simps, simp add: bindE_def)
    moreover have "unat num - unat limit = Suc (k - unat limit)"
      using True [unfolded word_less_nat_alt] Suc.hyps(2) by linarith
    ultimately show ?thesis
      using writes_bind [OF OUTPUT_CHAR_writes [of c] Suc.hyps(1) [of "num - 1"]] by simp
  next
    case False
    then have "output_pad out c num limit r = Inr r" for r by (subst output_pad.simps) simp
    then show ?thesis using False by (simp add: writes_def word_less_nat_alt)
  qed
qed

lemma output_string_writes:
  assumes "length s < 2147483648"
  shows "writes holds (output_string out flags num sign s) (justify flags num sign s)"
proof (cases "flag flags LEFTFORMATFLAG")
  case True
  have len: "unat (of_int (int (length s)) :: u32) = length s"
    using assms by (simp add: unat_length)
  show ?thesis
  proof (rule writesI)
    fix acc r
    assume "run_at holds acc r" and *: "length acc + length (justify flags num sign s) < 2147483648"
    moreover from True have j: "justify flags num sign s = s @ replicate (unat num - length s) 32"
      by (simp add: justify_def)
    ultimately obtain r' where r': "OUTPUT_STRING out s r = Inr (r', int (length s))"
      "run_at holds (acc @ s) r'"
      using OUTPUT_STRING_run [of acc r s] by auto
    with writesD [OF output_pad_writes r'(2), of num "of_int (int (length s))" 32] * j True
    show "\<exists>r'. output_string out flags num sign s r = Inr r' \<and>
        run_at holds (acc @ justify flags num sign s) r'"
      unfolding len by (auto simp: output_string_def bindE_def)
  qed
next
  case False
  let ?num = "if sign \<noteq> 0 \<and> num > 0 then num - 1 else num"
  have num: "unat ?num = (if sign = 0 then unat num else unat num - 1)"
    by (auto simp: unat_pred u32_zero_cases)
  let ?z = "flag flags LEADZEROFLAG"
  have "writes holds (output_string out flags num sign s)
    ((if ?z \<and> sign \<noteq> 0 then [sign] else [])
     @ replicate (unat ?num - unat (of_nat (length s) :: u32)) (if ?z then 48 else 32)
     @ (if \<not> ?z \<and> sign \<noteq> 0 then [sign] else []) @ s)"
    unfolding output_string_def Let_def if_not_P [OF False]
    by (intro writes_bind writes_if OUTPUT_CHAR_writes OUTPUT_STRING_writes output_pad_writes writes_skip)
  then show ?thesis
    unfolding num unat_length [OF order.strict_trans [OF assms, of 4294967296, simplified]]
    by (cases "sign = 0"; cases ?z) (simp_all add: justify_def False Let_def)
qed

end

lemma length_justify: "length s \<le> length (justify flags num sign s)"
  by (simp add: justify_def Let_def)

text \<open>\<open>num_buffer\<close> has 32 bytes; both conversions need at most 12.\<close>

definition num_buffer_ok :: "u8 list \<Rightarrow> bool" where
  "num_buffer_ok b \<longleftrightarrow> length b = 32"

lemma num_buffer_string:
  "num_buffer_ok b \<Longrightarrow> \<exists>b' pos. longlong_to_string b n (of_nat (length b)) flags
      = Some (b', pos, sign_char flags n) \<and> num_buffer_ok b' \<and>
    string_at b' pos = decimal (magnitude flags n)"
  using longlong_to_string_eq [of b n flags] by (auto simp: num_buffer_ok_def)

lemma num_buffer_hexstring:
  "num_buffer_ok b \<Longrightarrow> \<exists>b' pos. longlong_to_hexstring b n (of_nat (length b)) flags
      = Some (b', pos) \<and> num_buffer_ok b' \<and>
    string_at b' pos = hexadecimal (hex_table flags) (unat n)"
  using longlong_to_hexstring_eq [of b n flags] by (auto simp: num_buffer_ok_def)

context printf_sink begin

text \<open>A conversion consumes its argument, keeps the number buffer usable and prints a text.\<close>

lemma convert_decimal_run:
  assumes "arg = Some (n, ap)" "num_buffer_ok b" "run_at holds acc r"
    and "length acc + length (decimal_text flags num n) < 2147483648"
  shows "\<exists>b' r'. convert_decimal out flags num arg b r = Inr (ap, b', r') \<and>
    num_buffer_ok b' \<and> run_at holds (acc @ decimal_text flags num n) r'"
proof -
  let ?s = "decimal (magnitude flags n)"
  obtain b' pos where b': "longlong_to_string b n (of_nat (length b)) flags
      = Some (b', pos, sign_char flags n)" "num_buffer_ok b'" "string_at b' pos = ?s"
    using num_buffer_string [OF assms(2)] by blast
  have "length ?s < 2147483648"
    using assms(4) length_justify [of ?s flags num "sign_char flags n"] by (simp add: decimal_text_def)
  from writesD [OF output_string_writes [OF this, of flags num "sign_char flags n"] assms(3)]
    assms(4) obtain r' where
    "output_string out flags num (sign_char flags n) ?s r = Inr r'"
    "run_at holds (acc @ decimal_text flags num n) r'"
    by (auto simp: decimal_text_def)
  with b' show ?thesis by (simp add: convert_decimal_def assms(1) checked_def bindE_def)
qed

lemma convert_hex_run:
  assumes "va_unsigned flags ap = Some (n, ap')" "num_buffer_ok b" "run_at holds acc r"
    and "length acc + length (hex_text flags num n) < 2147483648"
  shows "\<exists>b' r'. convert_hex out flags num ap b r = Inr (ap', b', r') \<and>
    num_buffer_ok b' \<and> run_at holds (acc @ hex_text flags num n) r'"
proof -
  let ?s = "hexadecimal (hex_table flags) (unat n)"
  let ?x = "if flag flags CAPSFLAG then of_char (CHR ''X'') else of_char (CHR ''x'')"
  obtain b' pos where b': "longlong_to_hexstring b n (of_nat (length b)) flags = Some (b', pos)"
    "num_buffer_ok b'" "string_at b' pos = ?s"
    using num_buffer_hexstring [OF assms(2)] by blast
  have "length ?s < 2147483648"
    using assms(4) length_justify [of ?s flags num 0] by (simp add: hex_text_def)
  then have "writes holds (\<lambda>r. bindE (if flag flags ALTFLAG
        then bindE (OUTPUT_CHAR out 48 r) (OUTPUT_CHAR out ?x) else Inr r)
      (output_string out flags num 0 ?s)) (hex_text flags num n)"
    using writes_bind [OF writes_if [of _ _ _ _ _ "flag flags ALTFLAG",
        OF writes_bind [OF OUTPUT_CHAR_writes OUTPUT_CHAR_writes] writes_skip]
        output_string_writes, of ?s 48 ?x flags num 0] by (simp add: hex_text_def cong: if_cong)
  from writesD [OF this assms(3,4)] obtain r' where r':
    "bindE (if flag flags ALTFLAG
        then bindE (OUTPUT_CHAR out 48 r) (OUTPUT_CHAR out ?x) else Inr r)
      (output_string out flags num 0 ?s) = Inr r'"
    "run_at holds (acc @ hex_text flags num n) r'" by blast
  have "convert_hex out flags num ap b r = bindE (bindE (if flag flags ALTFLAG
        then bindE (OUTPUT_CHAR out 48 r) (OUTPUT_CHAR out ?x) else Inr r)
      (output_string out flags num 0 ?s)) (\<lambda>r. Inr (ap', b', r))"
    by (simp only: convert_hex_def assms(1) b' checked_Some bindE_simps bindE_assoc prod.case)
  then show ?thesis using r' b'(2) by simp
qed

lemma output_char_run:
  assumes "run_at holds acc r" "length acc + 1 < 2147483648"
  shows "\<exists>r'. OUTPUT_CHAR out c r = Inr r' \<and> run_at holds (acc @ [c]) r'"
  using writesD [OF OUTPUT_CHAR_writes assms(1)] assms(2) by simp

lemma convert_run:
  assumes "convert_text c flags num ap = Some (t, ap')" "num_buffer_ok b" "run_at holds acc r"
    and "length acc + length t < 2147483648"
  shows "\<exists>b' r'. convert out c flags num ap b r = Inr (ap', b', r') \<and>
    num_buffer_ok b' \<and> run_at holds (acc @ t) r'"
proof -
  note conv = convert_text_def convert_def checked_def bindE_def apfst_def
  consider "c = of_char (CHR ''%'')" | "c = of_char (CHR ''c'')" | "c = of_char (CHR ''s'')"
    | "c = of_char (CHR ''i'') \<or> c = of_char (CHR ''d'')" | "c = of_char (CHR ''u'')"
    | "c = of_char (CHR ''p'')" | "c = of_char (CHR ''X'')" | "c = of_char (CHR ''x'')"
    | "c = of_char (CHR ''n'')"
    | "c \<notin> of_char ` {CHR ''%'', CHR ''c'', CHR ''s'', CHR ''i'', CHR ''d'', CHR ''u'',
                        CHR ''p'', CHR ''X'', CHR ''x'', CHR ''n''}"
    by blast
  then show ?thesis
  proof cases
    case 1
    with assms output_char_run [OF assms(3), of c] show ?thesis by (auto simp: conv)
  next
    case 2
    with assms(1) obtain w where w: "va_word ap = Some (w, ap')" "t = [ucast w]"
      by (auto simp: conv)
    with 2 assms output_char_run [OF assms(3), of "ucast w"] show ?thesis by (auto simp: conv)
  next
    case 3
    with assms(1) obtain s where s: "va_string ap = Some (s, ap')"
      "t = justify (flags AND NOT LEADZEROFLAG) num 0 s" by (auto simp: conv)
    then have "length s < 2147483648"
      using assms(4) length_justify [of s "flags AND NOT LEADZEROFLAG" num 0] by simp
    from writesD [OF output_string_writes [OF this] assms(3)] s assms(4) 3 assms(2)
    show ?thesis by (fastforce simp: conv)
  next
    case 4
    with assms(1) obtain n where n: "va_signed flags ap = Some (n, ap')"
      "t = decimal_text (flags OR SIGNEDFLAG) num n" by (auto simp: conv)
    from convert_decimal_run [OF n(1) assms(2,3) assms(4) [unfolded n(2)]] n(2) 4
    show ?thesis by (auto simp: convert_def)
  next
    case 5
    with assms(1) obtain n where n: "va_unsigned flags ap = Some (n, ap')"
      "t = decimal_text flags num n" by (auto simp: conv)
    from convert_decimal_run [OF n(1) assms(2,3) assms(4) [unfolded n(2)]] n(2) 5
    show ?thesis by (auto simp: convert_def)
  next
    case 6
    with assms(1) obtain n where n: "va_unsigned (flags OR (LONGFLAG OR ALTFLAG)) ap = Some (n, ap')"
      "t = hex_text (flags OR (LONGFLAG OR ALTFLAG)) num n" by (auto simp: conv Let_def)
    from convert_hex_run [OF n(1) assms(2,3) assms(4) [unfolded n(2)]] n(2) 6
    show ?thesis by (auto simp: convert_def)
  next
    case 7
    with assms(1) obtain n where n: "va_unsigned (flags OR CAPSFLAG) ap = Some (n, ap')"
      "t = hex_text (flags OR CAPSFLAG) num n" by (auto simp: conv Let_def)
    from convert_hex_run [OF n(1) assms(2,3) assms(4) [unfolded n(2)]] n(2) 7
    show ?thesis by (auto simp: convert_def)
  next
    case 8
    with assms(1) obtain n where n: "va_unsigned flags ap = Some (n, ap')"
      "t = hex_text flags num n" by (auto simp: conv)
    from convert_hex_run [OF n(1) assms(2,3) assms(4) [unfolded n(2)]] n(2) 8
    show ?thesis by (auto simp: convert_def)
  next
    case 9
    with assms(1) show ?thesis by (simp add: convert_text_def)
  next
    case 10
    then have t: "t = [of_char (CHR ''%''), c]" "ap' = ap" using assms(1) by (auto simp: convert_text_def)
    from output_char_run [OF assms(3), of "of_char (CHR ''%'')"] assms(4) t obtain r1 where
      r1: "OUTPUT_CHAR out (of_char (CHR ''%'')) r = Inr r1" "run_at holds (acc @ [of_char (CHR ''%'')]) r1"
      by auto
    from output_char_run [OF r1(2), of c] assms(4) t r1(1) 10 assms(2)
    show ?thesis by (auto simp: convert_def bindE_def)
  qed
qed

lemma engine_loop_run:
  assumes "render fmt ap = Some t" "num_buffer_ok b" "run_at holds acc r"
    and "length acc + length t < 2147483648"
  shows "\<exists>r'. engine_loop out fmt ap b r = Inr r' \<and> run_at holds (acc @ t) r'"
  using assms
proof (induction fmt ap arbitrary: t b acc r rule: render.induct)
  case (1 fmt ap)
  let ?lit = "takeWhile (\<lambda>c. c \<noteq> of_char (CHR ''%'')) fmt"
  let ?rest = "dropWhile (\<lambda>c. c \<noteq> of_char (CHR ''%'')) fmt"
  have lit: "length ?lit \<le> length t"
    using "1.prems"(1) by (subst (asm) render.simps)
      (auto simp: Let_def split: list.splits option.splits prod.splits)
  then obtain r1 where r1: "OUTPUT_STRING out ?lit r = Inr (r1, int (length ?lit))"
    "run_at holds (acc @ ?lit) r1"
    using OUTPUT_STRING_run [OF "1.prems"(3), of ?lit] "1.prems"(4) by auto
  note loop = engine_loop.simps [of out fmt ap b r] r1(1)
  show ?case
  proof (cases "case ?rest of [] \<Rightarrow> None | _ # fmt' \<Rightarrow> next_format 0 0 fmt'")
    case None
    have "render fmt ap = Some ?lit \<and> engine_loop out fmt ap b r = Inr r1"
    proof (cases ?rest)
      case Nil
      show ?thesis unfolding loop render.simps [of fmt ap] Let_def Nil by simp
    next
      case (Cons x fmt')
      with None have "next_format 0 0 fmt' = None" by simp
      then show ?thesis unfolding loop render.simps [of fmt ap] Let_def Cons by simp
    qed
    with r1 "1.prems"(1) show ?thesis by simp
  next
    case (Some spec)
    then obtain x fmt' flags num c fmt'' where
      nf: "?rest = x # fmt'" "next_format 0 0 fmt' = Some (flags, num, c, fmt'')"
      by (cases spec; cases ?rest) (simp_all del: dropWhile_eq_Nil_conv)
    with "1.prems"(1) obtain field ap' t' where
      conv: "convert_text c flags num ap = Some (field, ap')"
      and t': "render fmt'' ap' = Some t'" "t = ?lit @ field @ t'"
      by (auto simp: render.simps [of fmt] split: option.splits)
    obtain b' r2 where r2: "convert out c flags num ap b r1 = Inr (ap', b', r2)" "num_buffer_ok b'"
      "run_at holds ((acc @ ?lit) @ field) r2"
      using convert_run [OF conv "1.prems"(2) r1(2)] "1.prems"(4) t'(2) by auto
    have "engine_loop out fmt ap b r = engine_loop out fmt'' ap' b' r2"
      unfolding loop using nf r2(1) by simp
    moreover have "\<exists>r'. engine_loop out fmt'' ap' b' r2 = Inr r' \<and>
        run_at holds (((acc @ ?lit) @ field) @ t') r'"
      using nf conv t' r2(2,3) "1.prems"(4)
      by (intro "1.IH" [OF refl nf(1) nf(2) refl refl refl conv refl]) auto
    ultimately show ?thesis by (simp add: t'(2))
  qed
qed

theorem engine_prints:
  assumes "render fmt ap = Some t" "length t < 2147483648" "num_buffer_ok b" "holds [] st"
  shows "\<exists>st'. printf_engine out b st fmt ap = Inr (int (length t), st') \<and> holds t st'"
proof -
  have "run_at holds [] (st, 0)" using assms(4) by (simp add: run_at_def)
  from engine_loop_run [OF assms(1,3) this] assms(2) obtain r' where
    "engine_loop out fmt ap b (st, 0) = Inr r'" "run_at holds t r'" by auto
  then show ?thesis using assms(2)
    by (cases r') (auto simp: printf_engine_def run_at_def sint_small unat_length)
qed

end

section \<open>vsnprintf\<close>

definition buffer_holds :: "mem \<Rightarrow> u32 \<Rightarrow> u32 \<Rightarrow> u8 list \<Rightarrow> mem \<times> output_args \<Rightarrow> bool" where
  "buffer_holds m0 str len acc st \<longleftrightarrow>
     st = (put_bytes m0 str (take (unat len) acc),
           \<lparr>outstr = str, out_len = len, out_pos = of_nat (min (unat len) (length acc))\<rparr>)"

lemma vsnprintf_loop_holds:
  "buffer_holds m0 str len acc (m, args) \<Longrightarrow> length acc + length s < 2147483648
    \<Longrightarrow> buffer_holds m0 str len (acc @ s) (vsnprintf_loop s m args)"
proof (induction s arbitrary: acc m args)
  case (Cons c s)
  have pos: "(of_nat (min (unat len) (length acc)) < len) = (length acc < unat len)"
    using Cons.prems(2) by (auto simp: word_less_nat_alt unat_of_nat32)
  show ?case
  proof (cases "length acc < unat len")
    case True
    then have "put_bytes m0 str (take (unat len) (acc @ [c])) =
        (put_bytes m0 str (take (unat len) acc))(str + of_nat (length acc) := c)"
      by (simp add: put_bytes_append)
    with True Cons pos have "buffer_holds m0 str len (acc @ [c])
        (m(outstr args + out_pos args := c), args\<lparr>out_pos := out_pos args + 1\<rparr>)"
      by (simp add: buffer_holds_def add.commute)
    from Cons.IH [OF this] Cons.prems True pos show ?thesis
      by (simp add: buffer_holds_def del: fun_upd_apply)
  next
    case False
    with Cons.prems have "buffer_holds m0 str len (acc @ [c]) (m, args)"
      by (simp add: buffer_holds_def)
    from Cons.IH [OF this] Cons.prems False pos show ?thesis by (simp add: buffer_holds_def)
  qed
qed simp

text \<open>The callback of \<open>vsnprintf\<close> provides what the engine relies on, for every buffer.\<close>

interpretation buf: printf_sink vsnprintf_output "buffer_holds m0 str len" for m0 str len
proof
  fix acc s :: "u8 list" and st :: "mem \<times> output_args"
  assume "buffer_holds m0 str len acc st" "length acc + length s < 2147483648"
  then show "fst (vsnprintf_output s st) = int (length s) \<and>
      buffer_holds m0 str len (acc @ s) (snd (vsnprintf_output s st))"
    using vsnprintf_loop_holds by (cases st) (simp add: vsnprintf_output_def sint_small unat_length)
qed

lemma vsnprintf_engine:
  assumes "render fmt ap = Some t" "length t < 2147483648" "num_buffer_ok b"
  shows "printf_engine vsnprintf_output b (m, \<lparr>outstr = str, out_len = len, out_pos = 0\<rparr>) fmt ap =
    Inr (int (length t), put_bytes m str (take (unat len) t),
      \<lparr>outstr = str, out_len = len, out_pos = of_nat (min (unat len) (length t))\<rparr>)"
proof -
  have "buffer_holds m str len [] (m, \<lparr>outstr = str, out_len = len, out_pos = 0\<rparr>)"
    by (simp add: buffer_holds_def)
  from buf.engine_prints [OF assms this] show ?thesis by (auto simp: buffer_holds_def)
qed

lemma vsnprintf_text:
  assumes "render fmt ap = Some t" "length t < 2147483648" "num_buffer_ok b" "len \<noteq> 0"
  shows "vsnprintf b m str len fmt ap =
    Inr (int (length t), put_bytes m str (take (unat len - 1) t @ [0]))"
proof (cases "unat len \<le> length t")
  case True
  obtain k where k: "unat len = Suc k" using assms(4) by (metis unat_eq_0 not0_implies_Suc)
  then have split: "take (unat len) t = take k t @ [t ! k]"
    using True by (simp only: take_Suc_conv_app_nth Suc_le_eq)
  have "len = of_nat (Suc k)" unfolding k [symmetric] by simp
  then have "len - 1 = of_nat k" by simp
  with True k have "(put_bytes m str (take (unat len) t))(str + (len - 1) := 0) =
      put_bytes m str (take (unat len - 1) t @ [0])"
    unfolding split by (simp add: put_bytes_append)
  with True show ?thesis using vsnprintf_engine [OF assms(1-3)] by (simp add: vsnprintf_def)
next
  case False
  then have "\<not> len \<le> of_nat (length t)"
    using assms(2) by (simp add: word_le_nat_alt unat_length)
  with False show ?thesis using vsnprintf_engine [OF assms(1-3)]
    by (simp add: vsnprintf_def put_bytes_append)
qed

subsection \<open>Evaluating the specification\<close>

lemma render_literal: "37 \<notin> set fmt \<Longrightarrow> render fmt ap = Some fmt"
proof -
  assume "37 \<notin> set fmt"
  then have "takeWhile (\<lambda>c. c \<noteq> 37) fmt = fmt" "dropWhile (\<lambda>c. c \<noteq> 37) fmt = []"
    by (auto simp: takeWhile_eq_all_conv)
  then show ?thesis by (subst render.simps) (simp add: Let_def del: dropWhile_eq_Nil_conv)
qed

lemma render_field:
  assumes "37 \<notin> set pre" "next_format 0 0 fmt = Some (flags, width, c, rest)"
    and "convert_text c flags width ap = Some (field, ap')"
  shows "render (pre @ 37 # fmt) ap = map_option (\<lambda>t. pre @ field @ t) (render rest ap')"
proof -
  have "takeWhile (\<lambda>c. c \<noteq> 37) (pre @ 37 # fmt) = pre"
    "dropWhile (\<lambda>c. c \<noteq> 37) (pre @ 37 # fmt) = 37 # fmt"
    using assms(1) by (induction pre) auto
  with assms(2,3) show ?thesis by (subst render.simps) (simp add: Let_def)
qed

lemmas format_eval = format_modifier_def convert_text_def flag_def flag_defs
  va_signed_def va_unsigned_def of_char_def

section \<open>Properties\<close>

text \<open>
  C8: \<open>vsnprintf\<close> with a buffer of at least one byte returns the length of the formatted text
  and writes the text, cut to \<open>len - 1\<close> characters, with a terminating zero, and nothing
  else; the text is the one of the specification \<open>render\<close>.
\<close>

theorem vsnprintf_prints:
  assumes "render fmt ap = Some t" and "length t < 2147483648" and "num_buffer_ok b" and "len \<noteq> 0"
  shows "vsnprintf b m str len fmt ap =
    Inr (int (length t), put_bytes m str (take (unat len - 1) t @ [0]))"
  by (rule vsnprintf_text [OF assms])

theorem vsnprintf_prints_witness:
  "vsnprintf (replicate 32 0) (\<lambda>_. 7) 0x100 4 (lit ''a%sb'') [Str 0x200 (lit ''xyz'')] =
    Inr (5, put_bytes (\<lambda>_. 7) 0x100 (lit ''axy'' @ [0]))"
proof -
  have "render (lit ''a%sb'') [Str 0x200 (lit ''xyz'')] = Some (lit ''axyzb'')"
    using render_field [of "lit ''a''" "lit ''sb''"] render_literal [of "lit ''b''" "[]"]
    by (simp add: format_eval justify_def)
  from vsnprintf_prints [OF this, of "replicate 32 0" 4 "\<lambda>_. 7" "0x100"] show ?thesis
    by (simp add: num_buffer_ok_def of_char_def)
qed

text \<open>
  with a length of 0, \<open>vsnprintf\<close> writes a zero byte in front of the buffer.
\<close>

theorem vsnprintf_length_zero:
  assumes "render fmt ap = Some t" and "length t < 2147483648" and "num_buffer_ok b"
  shows "vsnprintf b m str 0 fmt ap = Inr (int (length t), m(str - 1 := 0))"
  using vsnprintf_engine [OF assms, of m str 0] by (simp add: vsnprintf_def)

theorem vsnprintf_length_zero_witness:
  "vsnprintf (replicate 32 0) (\<lambda>_. 7) 0x100 0 (lit ''a'') [] = Inr (1, (\<lambda>_. 7)(0xff := 0))"
proof -
  have "render (lit ''a'') [] = Some (lit ''a'')"
    by (simp add: render_literal of_char_def)
  from vsnprintf_length_zero [OF this, of "replicate 32 0" "\<lambda>_. 7" "0x100"] show ?thesis
    by (simp add: num_buffer_ok_def)
qed

subsection \<open>Reading back what was printed\<close>

lemma span_at_cstr: "cstr m p cs \<Longrightarrow> \<forall>c\<in>set cs. P c \<Longrightarrow> \<not> P 0 \<Longrightarrow> span_at P m p cs"
  by (induction cs arbitrary: p) auto

lemma not_digit_0 [simp]: "\<not> dec_char 0" "\<not> hex_char 0"
  by (simp_all add: dec_char_def hex_char_def isdigit_def isxdigit_def)

lemma render_unsigned: "render (lit ''%u'') [Word n] = Some (decimal (unat n))"
  using render_field [of "[]" "lit ''u''"] render_literal [of "[]" "[]"]
  by (simp add: format_eval decimal_text_def justify_def sign_char_def magnitude_def)

lemma render_hex: "render (lit ''0x%x'') [Word n] = Some ([48, 120] @ hexadecimal hextable (unat n))"
  using render_field [of "[48, 120]" "lit ''x''"] render_literal [of "[]" "[]"]
  by (simp add: format_eval hex_text_def justify_def hex_table_def)

lemma render_signed:
  "render (lit ''%d'') [Word n] = Some ((if sint n < 0 then [45] else []) @ decimal (nat \<bar>sint n\<bar>))"
  using render_field [of "[]" "lit ''d''"] render_literal [of "[]" "[]"] nat_abs_sint [of n]
  by (auto simp: format_eval decimal_text_def justify_def sign_char_def magnitude_def)

lemma render_left_signed:
  assumes "sint n < 0"
  shows "render (lit ''%-d'') [Word n] = Some (decimal (nat (- sint n)))"
  using assms render_field [of "[]" "lit ''-d''"] render_literal [of "[]" "[]"]
  by (simp add: format_eval decimal_text_def justify_def sign_char_def magnitude_def)

lemma atoul_decimal: "cstr m p (decimal (unat n)) \<Longrightarrow> atoul m p = Some n"
proof -
  assume *: "cstr m p (decimal (unat n))"
  then have "span_at dec_char m p (decimal (unat n))"
    by (rule span_at_cstr) (auto simp: decimal_chars)
  moreover have "\<not> hex_prefix m p"
  proof
    assume "hex_prefix m p"
    then have "120 \<in> set (decimal (unat n))"
      using * by (cases "decimal (unat n)"; cases "tl (decimal (unat n))") (auto simp: hex_prefix_def)
    then show False using decimal_chars by (fastforce simp: dec_char_def isdigit_def)
  qed
  ultimately show ?thesis by (simp add: atoul_span dec_value_decimal)
qed

lemma atoul_hexadecimal: "cstr m p ([48, 120] @ hexadecimal hextable (unat n)) \<Longrightarrow> atoul m p = Some n"
proof -
  assume *: "cstr m p ([48, 120] @ hexadecimal hextable (unat n))"
  have t: "hextable = hex_table 0" by (simp add: hex_table_def flag_def)
  from * have "cstr m (p + 2) (hexadecimal hextable (unat n))" and "hex_prefix m p"
    by (simp_all add: hex_prefix_def add.assoc)
  moreover from this(1) have "span_at hex_char m (p + 2) (hexadecimal hextable (unat n))"
    by (rule span_at_cstr) (auto simp: t hexadecimal_chars)
  ultimately show ?thesis by (simp add: atoul_span t hex_value_hexadecimal)
qed

lemma atoi_signed:
  assumes "cstr m p ((if sint n < 0 then [45] else []) @ decimal (nat \<bar>sint n\<bar>))"
  shows "atol m p = Some (if \<bar>sint n\<bar> \<le> 2147483599 then Inr (sint n) else Inl Overflow)"
proof -
  let ?ds = "decimal (nat \<bar>sint n\<bar>)"
  let ?q = "if sint n < 0 then p + 1 else p"
  have ds: "cstr m ?q ?ds" and neg: "sint n < 0 \<Longrightarrow> m p = 45" using assms by (auto split: if_splits)
  have "hd ?ds \<in> set ?ds" by simp
  then have first: "dec_char (m ?q)"
    using ds decimal_chars [of "hd ?ds" "nat \<bar>sint n\<bar>"] by (cases ?ds) simp_all
  then have sign: "m p = 45 \<longleftrightarrow> sint n < 0" using neg
    by (cases "sint n < 0") (auto simp: dec_char_def isdigit_def)
  have "\<not> hex_prefix m p"
  proof
    assume "hex_prefix m p"
    with neg have "?q = p" "m p = 48" "m (p + 1) = 120" by (auto simp: hex_prefix_def split: if_splits)
    with ds have "120 \<in> set ?ds" by (cases ?ds; cases "tl ?ds") auto
    then show False using decimal_chars by (fastforce simp: dec_char_def isdigit_def)
  qed
  moreover have "span_at dec_char m ?q ?ds" using ds by (rule span_at_cstr) (auto simp: decimal_chars)
  ultimately have "atol m p = Some (if nat \<bar>sint n\<bar> + 48 \<le> 2147483647
      then Inr (if m p = 45 then - int (nat \<bar>sint n\<bar>) else int (nat \<bar>sint n\<bar>)) else Inl Overflow)"
    using atol_span [of m ?q ?ds p] unfolding sign dec_value_decimal by blast
  moreover have "nat \<bar>sint n\<bar> + 48 \<le> 2147483647 \<longleftrightarrow> \<bar>sint n\<bar> \<le> 2147483599" by linarith
  ultimately show ?thesis unfolding sign by (cases "sint n < 0") simp_all
qed

lemma vsnprintf_cstr:
  assumes "render fmt ap = Some t" "num_buffer_ok b" "length t < unat len" "length t < 2147483648" "0 \<notin> set t"
  shows "\<exists>m'. vsnprintf b m str len fmt ap = Inr (int (length t), m') \<and> cstr m' str t"
proof -
  have "len \<noteq> 0" using assms(3) by auto
  from vsnprintf_text [OF assms(1,4,2) this] assms(3,4,5) show ?thesis
    by (auto intro!: cstr_put_bytes)
qed

text \<open>
  C24: numbers survive printing and reading: \<open>%u\<close> and \<open>0x%x\<close> into a buffer of at least 16
  bytes are read back by \<open>atoul\<close>.  \<open>%d\<close> is read back by \<open>atoi\<close> exactly when the magnitude is at
  most 2147483599; for the 48 positive and 49 negative numbers beyond, \<open>atoi\<close> overflows \<open>int\<close>.
\<close>

theorem print_read_roundtrip:
  assumes "num_buffer_ok b" and "16 \<le> len"
  shows "(\<exists>r m'. vsnprintf b m str len (lit ''%u'') [Word n] = Inr (r, m') \<and> atoul m' str = Some n) \<and>
    (\<exists>r m'. vsnprintf b m str len (lit ''0x%x'') [Word n] = Inr (r, m') \<and> atoul m' str = Some n) \<and>
    (\<exists>r m'. vsnprintf b m str len (lit ''%d'') [Word n] = Inr (r, m') \<and>
      atoi m' str = Some (if \<bar>sint n\<bar> \<le> 2147483599 then Inr (sint n) else Inl Overflow))"
proof (intro conjI)
  have len: "16 \<le> unat len" using assms(2) by (simp add: word_le_nat_alt)
  show "\<exists>r m'. vsnprintf b m str len (lit ''%u'') [Word n] = Inr (r, m') \<and> atoul m' str = Some n"
    using vsnprintf_cstr [OF render_unsigned assms(1), of n len m str] len decimal_u32 [of n]
      decimal_nonzero [of "unat n"] atoul_decimal by fastforce
  let ?hex = "[48, 120] @ hexadecimal hextable (unat n)"
  have "0 \<notin> set ?hex" "length ?hex \<le> 10"
    using hexadecimal_chars [of 0 0 "unat n"] hexadecimal_u32 [of hextable n]
    by (auto simp: hex_table_def flag_def)
  then show "\<exists>r m'. vsnprintf b m str len (lit ''0x%x'') [Word n] = Inr (r, m') \<and> atoul m' str = Some n"
    using vsnprintf_cstr [OF render_hex assms(1), of n len m str] len atoul_hexadecimal by fastforce
  let ?dec = "(if sint n < 0 then [45] else []) @ decimal (nat \<bar>sint n\<bar>)"
  have "length (decimal (nat \<bar>sint n\<bar>)) \<le> 10"
    unfolding nat_abs_sint using decimal_u32 [of n] decimal_u32 [of "- n"] by simp
  then have "length ?dec \<le> 11" by (cases "sint n < 0") simp_all
  moreover have "0 \<notin> set ?dec" using decimal_nonzero [of "nat \<bar>sint n\<bar>"] by simp
  ultimately show "\<exists>r m'. vsnprintf b m str len (lit ''%d'') [Word n] = Inr (r, m') \<and>
      atoi m' str = Some (if \<bar>sint n\<bar> \<le> 2147483599 then Inr (sint n) else Inl Overflow)"
    using vsnprintf_cstr [OF render_signed assms(1), of n len m str] len atoi_signed
    unfolding atoi_def by fastforce
qed

theorem print_read_roundtrip_witness:
  "\<exists>r m'. vsnprintf (replicate 32 0) (\<lambda>_. 7) 0x100 16 (lit ''%u'') [Word 4294967295] = Inr (r, m') \<and>
     atoul m' 0x100 = Some 4294967295"
  using print_read_roundtrip [of "replicate 32 0" 16 "\<lambda>_. 7" "0x100" 4294967295]
  by (simp add: num_buffer_ok_def)

text \<open>
  a left-justified signed conversion of a negative number prints its magnitude only: the
  minus sign is lost.
\<close>

theorem left_justify_drops_sign:
  assumes "num_buffer_ok b" and "sint n < 0" and "16 \<le> len"
  shows "vsnprintf b m str len (lit ''%-d'') [Word n] =
    Inr (int (length (decimal (nat (- sint n)))), put_bytes m str (decimal (nat (- sint n)) @ [0]))"
proof -
  let ?t = "decimal (nat (- sint n))"
  have "nat (- sint n) = unat (- n)" using nat_abs_sint [of n] assms(2) by simp
  then have "length ?t \<le> 10" using decimal_u32 [of "- n"] by simp
  moreover have "16 \<le> unat len" "len \<noteq> 0" using assms(3) by (auto simp: word_le_nat_alt)
  ultimately show ?thesis
    using vsnprintf_text [OF render_left_signed [OF assms(2)] _ assms(1), of len m str] by simp
qed

theorem left_justify_drops_sign_witness:
  "\<exists>m'. vsnprintf (replicate 32 0) (\<lambda>_. 7) 0x100 16 (lit ''%-d'') [Word (- 5)] = Inr (1, m') \<and> m' 0x100 = 53"
proof -
  have "decimal (nat (- sint (- 5 :: u32))) = [53]" by (simp add: decimal.simps)
  then show ?thesis
    using left_justify_drops_sign [of "replicate 32 0" "- 5" 16 "\<lambda>_. 7" "0x100"] by (simp add: num_buffer_ok_def)
qed

end
