(* ===== verification/Debug.thy ===== *)
theory Debug
  imports Printf
begin

text \<open>
  The serial console, \<^verbatim>\<open>hw/src/debug-io.c\<close>, \<^verbatim>\<open>hw/src/debug-printf.c\<close> and
  \<^verbatim>\<open>hw/src/print-exception.c\<close>.  The UART is a device: each read of its \<open>TXFULL\<close>
  register returns the next value of a sequence, and the words written to \<open>TX\<close> are
  recorded.  Waiting for the transmitter need not end (\<open>None\<close>); it does when the device
  is ready again and again (\<open>serving\<close>).
\<close>

section \<open>Code\<close>

record uart =
  txfull :: "nat \<Rightarrow> bool"
  reads :: nat
  sent :: "u32 list"

definition uart_rd_TXFULL :: "uart \<Rightarrow> bool \<times> uart" where
  "uart_rd_TXFULL u = (txfull u (reads u), u\<lparr>reads := Suc (reads u)\<rparr>)"

definition uart_wr_TX :: "u32 \<Rightarrow> uart \<Rightarrow> uart" where
  "uart_wr_TX v u = u\<lparr>sent := sent u @ [v]\<rparr>"

partial_function (option) uart_wait :: "uart \<Rightarrow> uart option" where
  "uart_wait u = (let (full, u) = uart_rd_TXFULL u in if full then uart_wait u else Some u)"

definition xputc :: "u32 \<Rightarrow> uart \<Rightarrow> uart option" where
  "xputc c u =
     Option.bind (if c = 10 then map_option (uart_wr_TX 13) (uart_wait u) else Some u) (\<lambda>u.
       map_option (uart_wr_TX c) (uart_wait u))"

partial_function (option) xputs :: "mem \<Rightarrow> u32 \<Rightarrow> uart \<Rightarrow> uart option" where
  "xputs m s u =
     (if m s \<noteq> 0 then Option.bind (xputc (ucast (m s)) u) (xputs m (s + 1)) else Some u)"

definition xgetc :: int where
  "xgetc = - 1"

text \<open>
  \<open>msg\<close> is an array of 128 bytes on the stack: its address and the contents of the stack are
  parameters, and nothing of it is left after the call.
\<close>

record stack =
  stack_mem :: mem
  msg_addr :: u32
  num_buf :: "u8 list"

definition vxprintf :: "stack \<Rightarrow> u8 list \<Rightarrow> va list \<Rightarrow> uart \<Rightarrow> (ub + uart) option" where
  "vxprintf st fmt ap u =
     (case vsnprintf (num_buf st) (stack_mem st) (msg_addr st) 128 fmt ap of
        Inl e \<Rightarrow> Some (Inl e)
      | Inr (n, m) \<Rightarrow> map_option Inr (xputs m (msg_addr st) u))"

definition xprintf :: "stack \<Rightarrow> u8 list \<Rightarrow> va list \<Rightarrow> uart \<Rightarrow> (ub + uart) option" where
  "xprintf st fmt ap u =
     (case vsnprintf (num_buf st) (stack_mem st) (msg_addr st) 128 fmt ap of
        Inl e \<Rightarrow> Some (Inl e)
      | Inr (n, m) \<Rightarrow> map_option Inr (xputs m (msg_addr st) u))"

text \<open>Several calls of \<open>xprintf\<close> in a row.\<close>

fun xprintfs :: "stack \<Rightarrow> (u8 list \<times> va list) list \<Rightarrow> uart \<Rightarrow> (ub + uart) option" where
  "xprintfs st [] u = Some (Inr u)"
| "xprintfs st ((fmt, ap) # calls) u =
     Option.bind (xprintf st fmt ap u) (\<lambda>r. case r of Inl e \<Rightarrow> Some (Inl e) | Inr u \<Rightarrow> xprintfs st calls u)"

subsection \<open>Exception frames\<close>

record eframe =
  ef_ra :: u32
  ef_t0 :: u32
  ef_t1 :: u32
  ef_t2 :: u32
  ef_t3 :: u32
  ef_t4 :: u32
  ef_t5 :: u32
  ef_t6 :: u32
  ef_a0 :: u32
  ef_a1 :: u32
  ef_a2 :: u32
  ef_a3 :: u32
  ef_a4 :: u32
  ef_a5 :: u32
  ef_a6 :: u32
  ef_a7 :: u32
  ef_pc :: u32
  ef_sp :: u32
  ef_gp :: u32
  ef_tp :: u32
  ef_s0 :: u32
  ef_s1 :: u32
  ef_s2 :: u32
  ef_s3 :: u32
  ef_s4 :: u32
  ef_s5 :: u32
  ef_s6 :: u32
  ef_s7 :: u32
  ef_s8 :: u32
  ef_s9 :: u32
  ef_s10 :: u32
  ef_s11 :: u32

definition cause_name :: "u32 \<Rightarrow> string" where
  "cause_name n =
     (if n AND 0x80000000 \<noteq> 0 then ''Interrupt''
      else let n = n AND 0x7FFFFFFF
           in if n = 0 then ''Instruction Address Misaligned''
              else if n = 1 then ''Instruction Address Fault''
              else if n = 2 then ''Illegal Instruction''
              else if n = 3 then ''Breakpoint''
              else if n = 4 then ''Load Address Misaligned''
              else if n = 5 then ''Load Address Fault''
              else if n = 6 then ''Store Address Misaligned''
              else if n = 7 then ''Store Address Fault''
              else if n = 8 then ''User Mode ECALL''
              else if n = 9 then ''Supervisor Mode ECALL''
              else if n = 11 then ''Machine Mode ECALL''
              else if n = 12 then ''Instruction Page Fault''
              else if n = 13 then ''Load Page Fault''
              else if n = 15 then ''Store Page Fault''
              else ''Unknown'')"

definition mode_name :: "u32 \<Rightarrow> string" where
  "mode_name n =
     (if n = 0 then ''User''
      else if n = 1 then ''Supervisor''
      else if n = 3 then ''Machine Mode''
      else ''???'')"

definition xprint_regs :: "eframe \<Rightarrow> u32 \<Rightarrow> u32 \<Rightarrow> u32 \<Rightarrow> (u8 list \<times> u32 list) list" where
  "xprint_regs ef xstatus xcause xtval =
     [(lit ''pc %08x ra %08x sp %08x gp %08x  xstatus %08x\<newline>'',
         [ef_pc ef, ef_ra ef, ef_sp ef, ef_gp ef, xstatus]),
      (lit ''tp %08x t0 %08x t1 %08x t2 %08x  xcause  %08x\<newline>'',
         [ef_tp ef, ef_t0 ef, ef_t1 ef, ef_t2 ef, xcause]),
      (lit ''fp %08x s1 %08x a0 %08x a1 %08x  xtval   %08x\<newline>'',
         [ef_s0 ef, ef_s1 ef, ef_a0 ef, ef_a1 ef, xtval]),
      (lit ''a2 %08x a3 %08x a4 %08x a5 %08x\<newline>'', [ef_a2 ef, ef_a3 ef, ef_a4 ef, ef_a5 ef]),
      (lit ''a6 %08x a7 %08x s2 %08x s3 %08x\<newline>'', [ef_a6 ef, ef_a7 ef, ef_s2 ef, ef_s3 ef]),
      (lit ''s4 %08x s5 %08x s6 %08x s7 %08x\<newline>'', [ef_s4 ef, ef_s5 ef, ef_s6 ef, ef_s7 ef]),
      (lit ''s8 %08x s9 %08x 10 %08x 11 %08x\<newline>'', [ef_s8 ef, ef_s9 ef, ef_s10 ef, ef_s11 ef]),
      (lit ''t3 %08x t4 %08x t5 %08x t6 %08x\<newline>'', [ef_t3 ef, ef_t4 ef, ef_t5 ef, ef_t6 ef])]"

text \<open>The values of the control registers that are read are arguments.\<close>

definition exception_calls :: "u32 \<Rightarrow> u32 \<Rightarrow> u32 \<Rightarrow> u32 \<Rightarrow> eframe \<Rightarrow> (u8 list \<times> va list) list" where
  "exception_calls mode status cause tval ef =
     (lit ''** %s (in %s mode)\<newline>\<newline>'',
      [Str 1 (lit (cause_name cause)), Str 1 (lit (mode_name mode))])
     # map (apsnd (map Word)) (xprint_regs ef status cause tval)"

definition xprint_m_exception :: "stack \<Rightarrow> u32 \<Rightarrow> u32 \<Rightarrow> u32 \<Rightarrow> eframe \<Rightarrow> uart \<Rightarrow> (ub + uart) option" where
  "xprint_m_exception st mstatus mcause mtval ef u =
     xprintfs st (exception_calls (drop_bit 11 mstatus AND 3) mstatus mcause mtval ef) u"

definition xprint_s_exception :: "stack \<Rightarrow> u32 \<Rightarrow> u32 \<Rightarrow> u32 \<Rightarrow> eframe \<Rightarrow> uart \<Rightarrow> (ub + uart) option" where
  "xprint_s_exception st sstatus scause stval ef u =
     xprintfs st (exception_calls (drop_bit 8 sstatus AND 1) sstatus scause stval ef) u"

section \<open>What reaches the UART\<close>

definition serving :: "uart \<Rightarrow> bool" where
  "serving u \<longleftrightarrow> (\<forall>n. \<exists>k\<ge>n. \<not> txfull u k)"

text \<open>The same device, which has been sent some more words.\<close>

definition sends :: "uart \<Rightarrow> u32 list \<Rightarrow> uart \<Rightarrow> bool" where
  "sends u ws u' \<longleftrightarrow> txfull u' = txfull u \<and> sent u' = sent u @ ws"

definition crlf :: "u8 list \<Rightarrow> u32 list" where
  "crlf bs = concat (map (\<lambda>b. if b = 10 then [13, 10] else [ucast b]) bs)"

lemma crlf_simps [simp]: "crlf [] = []" "crlf (xs @ ys) = crlf xs @ crlf ys"
  "crlf (b # bs) = (if b = 10 then [13, 10] else [ucast b]) @ crlf bs"
  by (simp_all add: crlf_def)

lemma sends_serving: "sends u ws u' \<Longrightarrow> serving u \<Longrightarrow> serving u'"
  by (simp add: sends_def serving_def)

lemma sends_trans: "sends u a v \<Longrightarrow> sends v b w \<Longrightarrow> sends u (a @ b) w"
  by (simp add: sends_def)

lemma sends_nil: "sends u [] u"
  by (simp add: sends_def)

lemma uart_wait_serving: "serving u \<Longrightarrow> \<exists>u'. uart_wait u = Some u' \<and> sends u [] u'"
proof -
  assume "serving u"
  then obtain k where "k \<ge> reads u" "\<not> txfull u k" by (auto simp: serving_def)
  then show ?thesis
  proof (induction "k - reads u" arbitrary: u)
    case 0
    then show ?case by (subst uart_wait.simps) (simp add: uart_rd_TXFULL_def sends_def)
  next
    case (Suc d)
    show ?case
    proof (cases "txfull u (reads u)")
      case True
      let ?u = "u\<lparr>reads := Suc (reads u)\<rparr>"
      have "\<exists>u'. uart_wait ?u = Some u' \<and> sends ?u [] u'"
        using Suc.hyps(2) Suc.prems by (intro Suc.hyps(1)) simp_all
      with True show ?thesis
        by (subst uart_wait.simps) (auto simp: uart_rd_TXFULL_def sends_def)
    next
      case False
      then show ?thesis by (subst uart_wait.simps) (simp add: uart_rd_TXFULL_def sends_def)
    qed
  qed
qed

lemma xputc_sends:
  "serving u \<Longrightarrow> \<exists>u'. xputc c u = Some u' \<and> sends u (if c = 10 then [13, 10] else [c]) u'"
proof -
  have wr: "\<exists>u'. map_option (uart_wr_TX v) (uart_wait u) = Some u' \<and> sends u [v] u'" if "serving u" for u v
    using uart_wait_serving [OF that] by (auto simp: uart_wr_TX_def sends_def)
  assume u: "serving u"
  show ?thesis
  proof (cases "c = 10")
    case True
    from wr [OF u, of 13] obtain u1 where u1: "map_option (uart_wr_TX 13) (uart_wait u) = Some u1"
      "sends u [13] u1" by auto
    from wr [OF sends_serving [OF u1(2) u], of 10] obtain u2 where
      "map_option (uart_wr_TX 10) (uart_wait u1) = Some u2" "sends u1 [10] u2" by auto
    with u1 sends_trans [OF u1(2)] True show ?thesis by (fastforce simp: xputc_def)
  next
    case False
    with wr [OF u, of c] show ?thesis by (simp add: xputc_def)
  qed
qed

lemma xputs_sends:
  "cstr m s cs \<Longrightarrow> serving u \<Longrightarrow> \<exists>u'. xputs m s u = Some u' \<and> sends u (crlf cs) u'"
proof (induction cs arbitrary: s u)
  case Nil
  then show ?case by (subst xputs.simps) (simp add: sends_nil)
next
  case (Cons c cs)
  from xputc_sends [OF Cons.prems(2), of "ucast c"] obtain u1 where
    u1: "xputc (ucast c) u = Some u1" "sends u (if (ucast c :: u32) = 10 then [13, 10] else [ucast c]) u1"
    by auto
  have ten: "(ucast c :: u32) = 10 \<longleftrightarrow> c = 10" using u8_u32_inj [of c 10] by simp
  from Cons.IH [of "s + 1" u1] Cons.prems sends_serving [OF u1(2)] obtain u2 where
    u2: "xputs m (s + 1) u1 = Some u2" "sends u1 (crlf cs) u2" by auto
  from sends_trans [OF u1(2) u2(2)] have "sends u (crlf (c # cs)) u2" unfolding ten by simp
  moreover have "xputs m s u = Some u2"
    using Cons.prems u1(1) u2(1) by (subst xputs.simps) simp
  ultimately show ?case by blast
qed

text \<open>The first 127 characters of the formatted text are printed.\<close>

lemma xprintf_sends:
  assumes "render fmt ap = Some t" "length t < 2147483648" "0 \<notin> set t"
    and "num_buffer_ok (num_buf st)" "serving u"
  shows "\<exists>u'. xprintf st fmt ap u = Some (Inr u') \<and> sends u (crlf (take 127 t)) u'"
proof -
  let ?m = "put_bytes (stack_mem st) (msg_addr st) (take 127 t @ [0])"
  have v: "vsnprintf (num_buf st) (stack_mem st) (msg_addr st) 128 fmt ap = Inr (int (length t), ?m)"
    using vsnprintf_text [OF assms(1,2,4), of 128 "stack_mem st" "msg_addr st"] by simp
  have "0 \<notin> set (take 127 t)" using assms(3) by (meson in_set_takeD)
  then have "cstr ?m (msg_addr st) (take 127 t)" by (intro cstr_put_bytes) simp_all
  from xputs_sends [OF this assms(5)] show ?thesis by (auto simp: xprintf_def v)
qed

lemma vxprintf_same: "vxprintf = xprintf"
  by (intro ext) (simp add: vxprintf_def xprintf_def)

subsection \<open>Eight-digit hexadecimal numbers\<close>

text \<open>The eight digits that \<open>%08x\<close> prints.\<close>

definition hex8 :: "u32 \<Rightarrow> u8 list" where
  "hex8 w = replicate (8 - length (hexadecimal hextable (unat w))) 48 @ hexadecimal hextable (unat w)"

lemma length_hex8: "length (hex8 w) = 8"
  using hexadecimal_u32 [of hextable w] by (simp add: hex8_def)

lemma hextable_chars: "c \<in> set (hexadecimal hextable n) \<Longrightarrow> hex_char c"
  using hexadecimal_chars [of c 0 n] by (simp add: hex_table_def flag_def)

lemma hex8_chars: "c \<in> set (hex8 w) \<Longrightarrow> hex_char c"
  using hextable_chars by (auto simp: hex8_def hex_char_def isxdigit_def isdigit_def)

lemma render_hex8:
  "render (37 # 48 # 56 # 120 # rest) (Word w # ap) = map_option ((@) (hex8 w)) (render rest ap)"
proof -
  have "next_format 0 0 (48 # 56 # 120 # rest) = Some (LEADZEROFLAG, 8, 120, rest)"
    by (simp add: format_eval)
  moreover have "convert_text 120 LEADZEROFLAG 8 (Word w # ap) = Some (hex8 w, ap)"
    by (simp add: format_eval hex_text_def justify_def hex_table_def hex8_def)
  ultimately show ?thesis
    using render_field [of "[]" "48 # 56 # 120 # rest"] by (simp add: comp_def append_Nil [abs_def])
qed

lemma render_plain: "c \<noteq> 37 \<Longrightarrow> render (c # fmt) ap = map_option ((#) c) (render fmt ap)"
proof -
  assume "c \<noteq> 37"
  then show ?thesis
    by (subst (1 2) render.simps)
      (simp add: Let_def option.map_comp comp_def del: dropWhile_eq_Nil_conv
        split: list.split option.split prod.split)
qed

lemma xprintfs_sends:
  assumes "list_all2 (\<lambda>call t. render (fst call) (snd call) = Some t \<and> 0 \<notin> set t \<and> length t \<le> 127) calls ts"
    and "num_buffer_ok (num_buf st)"
  shows "serving u \<Longrightarrow> \<exists>u'. xprintfs st calls u = Some (Inr u') \<and> sends u (crlf (concat ts)) u'"
  using assms(1)
proof (induction calls ts arbitrary: u rule: list_all2_induct)
  case Nil
  then show ?case by (simp add: sends_nil)
next
  case (Cons call calls t ts)
  obtain fmt ap where call: "call = (fmt, ap)" by (cases call)
  from Cons call have t: "render fmt ap = Some t" "0 \<notin> set t" "length t \<le> 127" by auto
  from xprintf_sends [OF t(1) _ t(2) assms(2) Cons.prems] t(3) obtain u1 where
    u1: "xprintf st fmt ap u = Some (Inr u1)" "sends u (crlf t) u1" by auto
  from Cons.IH [OF sends_serving [OF u1(2) Cons.prems]] obtain u2 where
    "xprintfs st calls u1 = Some (Inr u2)" "sends u1 (crlf (concat ts)) u2" by auto
  with u1 sends_trans [OF u1(2)] call show ?case by auto
qed

subsection \<open>The register dump\<close>

text \<open>
  What a reader expects of the dump: the program counter and the registers \<open>x1\<close> to \<open>x31\<close> in the
  order of their numbers, under their names in the calling convention, four to a line, and the
  three control registers at the ends of the first lines.
\<close>

definition trap_registers :: "eframe \<Rightarrow> (string \<times> u32) list" where
  "trap_registers ef =
     zip [''pc'', ''ra'', ''sp'', ''gp'', ''tp'', ''t0'', ''t1'', ''t2'', ''fp'', ''s1'', ''a0'', ''a1'', ''a2'', ''a3'', ''a4'', ''a5'',
          ''a6'', ''a7'', ''s2'', ''s3'', ''s4'', ''s5'', ''s6'', ''s7'', ''s8'', ''s9'', ''10'', ''11'', ''t3'', ''t4'', ''t5'', ''t6'']
       (map (\<lambda>reg. reg ef)
         [ef_pc, ef_ra, ef_sp, ef_gp, ef_tp, ef_t0, ef_t1, ef_t2, ef_s0, ef_s1, ef_a0, ef_a1, ef_a2, ef_a3, ef_a4, ef_a5,
          ef_a6, ef_a7, ef_s2, ef_s3, ef_s4, ef_s5, ef_s6, ef_s7, ef_s8, ef_s9, ef_s10, ef_s11, ef_t3, ef_t4, ef_t5, ef_t6])"

definition field_text :: "string \<times> u32 \<Rightarrow> u8 list" where
  "field_text f = lit (fst f) @ [32] @ hex8 (snd f)"

fun line_text :: "(string \<times> u32) list \<Rightarrow> u8 list" where
  "line_text [] = [10]"
| "line_text [f] = field_text f @ [10]"
| "line_text (f # fs) = field_text f @ [32] @ line_text fs"

definition report_lines :: "eframe \<Rightarrow> u32 \<Rightarrow> u32 \<Rightarrow> u32 \<Rightarrow> (string \<times> u32) list list" where
  "report_lines ef status cause tval =
     map (\<lambda>i. take 4 (drop (4 * i) (trap_registers ef)) @
       take 1 (drop i [('' xstatus'', status), ('' xcause '', cause), ('' xtval  '', tval)])) [0..<8]"

text \<open>The exceptions of the architecture.\<close>

definition exception_names :: "(u32 \<times> string) list" where
  "exception_names =
     [(0, ''Instruction Address Misaligned''), (1, ''Instruction Address Fault''), (2, ''Illegal Instruction''), (3, ''Breakpoint''),
      (4, ''Load Address Misaligned''), (5, ''Load Address Fault''), (6, ''Store Address Misaligned''), (7, ''Store Address Fault''),
      (8, ''User Mode ECALL''), (9, ''Supervisor Mode ECALL''), (11, ''Machine Mode ECALL''), (12, ''Instruction Page Fault''),
      (13, ''Load Page Fault''), (15, ''Store Page Fault'')]"

definition cause_text :: "u32 \<Rightarrow> string" where
  "cause_text n =
     (if bit n 31 then ''Interrupt'' else case map_of exception_names n of Some t \<Rightarrow> t | None \<Rightarrow> ''Unknown'')"

lemma cause_name_text: "cause_name n = cause_text n"
proof (cases "bit n 31")
  case True
  then have "bit (n AND 0x80000000) 31" by (simp add: bit_simps)
  then have "n AND 0x80000000 \<noteq> 0" by auto
  with True show ?thesis by (simp add: cause_name_def cause_text_def)
next
  case False
  have "n AND 0x80000000 = 0" using and_exp_eq_0_iff_not_bit [of n 31] False by simp
  moreover have "n AND 0x7FFFFFFF = n"
  proof -
    have "n = take_bit 31 n"
    proof (rule bit_word_eqI)
      fix k assume "k < LENGTH(32)"
      then have "k < 31 \<or> k = 31" by auto
      then show "bit n k = bit (take_bit 31 n) k" using False by (auto simp: bit_take_bit_iff)
    qed
    also have "\<dots> = n AND 0x7FFFFFFF" by (simp add: take_bit_eq_mask mask_eq_exp_minus_1)
    finally show ?thesis by simp
  qed
  ultimately show ?thesis using False by (simp add: cause_name_def cause_text_def exception_names_def Let_def)
qed

lemma report_lines_eval:
  "report_lines ef status cause tval =
     [[(''pc'', ef_pc ef), (''ra'', ef_ra ef), (''sp'', ef_sp ef), (''gp'', ef_gp ef), ('' xstatus'', status)],
      [(''tp'', ef_tp ef), (''t0'', ef_t0 ef), (''t1'', ef_t1 ef), (''t2'', ef_t2 ef), ('' xcause '', cause)],
      [(''fp'', ef_s0 ef), (''s1'', ef_s1 ef), (''a0'', ef_a0 ef), (''a1'', ef_a1 ef), ('' xtval  '', tval)],
      [(''a2'', ef_a2 ef), (''a3'', ef_a3 ef), (''a4'', ef_a4 ef), (''a5'', ef_a5 ef)],
      [(''a6'', ef_a6 ef), (''a7'', ef_a7 ef), (''s2'', ef_s2 ef), (''s3'', ef_s3 ef)],
      [(''s4'', ef_s4 ef), (''s5'', ef_s5 ef), (''s6'', ef_s6 ef), (''s7'', ef_s7 ef)],
      [(''s8'', ef_s8 ef), (''s9'', ef_s9 ef), (''10'', ef_s10 ef), (''11'', ef_s11 ef)],
      [(''t3'', ef_t3 ef), (''t4'', ef_t4 ef), (''t5'', ef_t5 ef), (''t6'', ef_t6 ef)]]"
  by (simp add: report_lines_def trap_registers_def upt_rec)

lemma hex8_nonzero: "0 \<notin> set (hex8 w)"
  using hex8_chars [of 0 w] hex_char_nonzero by blast

lemma regs_lines:
  "list_all2 (\<lambda>call t. render (fst call) (map Word (snd call)) = Some t \<and> 0 \<notin> set t \<and> length t \<le> 127)
     (xprint_regs ef status cause tval) (map line_text (report_lines ef status cause tval))"
  using hex8_nonzero
  by (simp add: xprint_regs_def report_lines_eval field_text_def render_plain render_hex8 render_literal
      of_char_def length_hex8)

definition dump_header :: "string \<Rightarrow> string \<Rightarrow> u8 list" where
  "dump_header cause mode = lit ''** '' @ lit cause @ lit '' (in '' @ lit mode @ lit '' mode)\<newline>\<newline>''"

lemma names_ok:
  "length (cause_name n) \<le> 32" "0 \<notin> set (lit (cause_name n))"
  "length (mode_name k) \<le> 12" "0 \<notin> set (lit (mode_name k))"
  by (simp_all add: cause_name_def mode_name_def Let_def of_char_def)

lemma render_string_field:
  "a \<noteq> 0 \<Longrightarrow> 0 \<notin> set s \<Longrightarrow>
     render (37 # 115 # rest) (Str a s # ap) = map_option ((@) s) (render rest ap)"
  using render_field [of "[]" "115 # rest" 0 0 115 rest "Str a s # ap" s ap]
  by (simp add: format_eval justify_def comp_def append_Nil [abs_def])

lemma render_header:
  "render (lit ''** %s (in %s mode)\<newline>\<newline>'') [Str 1 (lit (cause_name n)), Str 1 (lit (mode_name k))]
     = Some (dump_header (cause_name n) (mode_name k))"
  using names_ok(1,2) [of n] names_ok(3,4) [of k]
  by (simp add: render_plain render_string_field of_char_def render_literal dump_header_def)

text \<open>The report of a trap that came in a mode.\<close>

definition report_text :: "string \<Rightarrow> u32 \<Rightarrow> u32 \<Rightarrow> u32 \<Rightarrow> eframe \<Rightarrow> u8 list" where
  "report_text mode status cause tval ef =
     dump_header (cause_text cause) mode @ concat (map line_text (report_lines ef status cause tval))"

lemma exception_report_sends:
  assumes "num_buffer_ok (num_buf st)" "serving u"
  shows "\<exists>u'. xprintfs st (exception_calls mode status cause tval ef) u = Some (Inr u') \<and>
    sends u (crlf (report_text (mode_name mode) status cause tval ef)) u'"
proof -
  let ?head = "dump_header (cause_name cause) (mode_name mode)"
  have "length ?head \<le> 127" "0 \<notin> set ?head"
    using names_ok(1,2) [of cause] names_ok(3,4) [of mode] by (simp_all add: dump_header_def of_char_def)
  with render_header [of cause mode] regs_lines [of ef status cause tval]
  have "list_all2 (\<lambda>call t. render (fst call) (snd call) = Some t \<and> 0 \<notin> set t \<and> length t \<le> 127)
      (exception_calls mode status cause tval ef) (?head # map line_text (report_lines ef status cause tval))"
    unfolding exception_calls_def list_all2_Cons by (simp add: list.rel_map)
  from xprintfs_sends [OF this assms] show ?thesis by (simp add: report_text_def cause_name_text)
qed

text \<open>The mode before the trap, from the fields \<open>MPP\<close> and \<open>SPP\<close> of the status.\<close>

lemma mode_name_text:
  "mode_name (drop_bit 8 status AND 1) = (if bit status 8 then ''Supervisor'' else ''User'')"
  "mode_name (drop_bit 11 status AND 3) =
     (if bit status 12 then if bit status 11 then ''Machine Mode'' else ''???''
      else if bit status 11 then ''Supervisor'' else ''User'')"
proof -
  have one: "drop_bit k status AND 1 = (if bit status k then 1 else 0 :: u32)" for k
    by (simp add: and_one_eq mod_2_eq_odd bit_iff_odd_drop_bit)
  have three: "w AND 3 = 2 * of_bool (bit w 1) + of_bool (bit w 0)" for w :: u32
  proof -
    have "w AND 3 = take_bit (Suc (Suc 0)) w" by (simp add: take_bit_eq_mask mask_eq_exp_minus_1)
    also have "\<dots> = 2 * of_bool (bit w 1) + of_bool (bit w 0)" by (simp only: take_bit_Suc take_bit_0) (simp add: mod_2_eq_odd bit_Suc bit_0)
    finally show ?thesis .
  qed
  show "mode_name (drop_bit 8 status AND 1) = (if bit status 8 then ''Supervisor'' else ''User'')"
    unfolding one by (simp add: mode_name_def)
  show "mode_name (drop_bit 11 status AND 3) =
     (if bit status 12 then if bit status 11 then ''Machine Mode'' else ''???''
      else if bit status 11 then ''Supervisor'' else ''User'')"
    unfolding three by (simp add: mode_name_def bit_drop_bit_eq)
qed

section \<open>Properties\<close>

text \<open>
  C28: on a UART that is ready again and again, \<open>xprintf\<close> returns and has sent the first 127
  characters of the formatted text, with a carriage return in front of each line feed.
\<close>

theorem xprintf_output:
  assumes "render fmt ap = Some t" and "length t < 2147483648" and "0 \<notin> set t"
    and "num_buffer_ok (num_buf st)" and "serving u"
  shows "\<exists>u'. xprintf st fmt ap u = Some (Inr u') \<and> sends u (crlf (take 127 t)) u'"
  by (rule xprintf_sends [OF assms])

definition example_uart :: uart where
  "example_uart = \<lparr>txfull = (\<lambda>n. n mod 2 = 0), reads = 0, sent = []\<rparr>"

lemma example_uart_serving: "serving example_uart"
  unfolding serving_def
proof
  fix n :: nat
  have "2 * n + 1 \<ge> n" "\<not> txfull example_uart (2 * n + 1)" by (simp_all add: example_uart_def)
  then show "\<exists>k\<ge>n. \<not> txfull example_uart k" by blast
qed

definition example_stack :: stack where
  "example_stack = \<lparr>stack_mem = (\<lambda>_. 0), msg_addr = 0x1000, num_buf = replicate 32 0\<rparr>"

theorem xprintf_output_witness:
  "\<exists>u'. xprintf example_stack (lit ''ok\<newline>'') [] example_uart = Some (Inr u') \<and>
     sent u' = [111, 107, 13, 10]"
proof -
  have "render (lit ''ok\<newline>'') [] = Some (lit ''ok\<newline>'')" by (simp add: render_literal of_char_def)
  from xprintf_output [OF this, of example_stack example_uart] example_uart_serving
  show ?thesis
    by (auto simp: example_stack_def num_buffer_ok_def of_char_def sends_def example_uart_def)
qed

text \<open>
  C27: the report of a trap names the cause and the mode before it and shows the program counter
  and all registers under their names, as eight hexadecimal digits each, with the three control
  registers; no line is cut by the 128 byte buffer.
\<close>

theorem exception_report:
  assumes "num_buffer_ok (num_buf st)" and "serving u"
  shows "(\<exists>u'. xprint_s_exception st status cause tval ef u = Some (Inr u') \<and>
      sends u (crlf (report_text (if bit status 8 then ''Supervisor'' else ''User'') status cause tval ef)) u') \<and>
    (\<exists>u'. xprint_m_exception st status cause tval ef u = Some (Inr u') \<and>
      sends u (crlf (report_text
        (if bit status 12 then if bit status 11 then ''Machine Mode'' else ''???''
         else if bit status 11 then ''Supervisor'' else ''User'') status cause tval ef)) u')"
  unfolding xprint_s_exception_def xprint_m_exception_def mode_name_text [symmetric]
  using exception_report_sends [OF assms] by blast

theorem exception_report_witness:
  "\<exists>u'. xprint_s_exception example_stack 0 8 0 (undefined\<lparr>ef_a0 := 7\<rparr>) example_uart = Some (Inr u')"
  using exception_report [of example_stack example_uart 0 8 0 "undefined\<lparr>ef_a0 := 7\<rparr>"] example_uart_serving
  by (auto simp: example_stack_def num_buffer_ok_def)

end
