(* ===== verification/Net.thy ===== *)
theory Net
  imports Debug
begin

text \<open>
  The IPv6 stack: \<^verbatim>\<open>net/ipv6.c\<close> and \<^verbatim>\<open>net/ipv6.h\<close>.  Packets, the file's static variables and
  its arrays on the stack are all in the byte memory; the addresses that the linker and the
  compiler choose are the record \<open>linkage\<close>.  Calls of \<open>xprintf\<close> and \<open>xputc\<close> are recorded
  in order; \<^verbatim>\<open>Debug\<close> shows what they send.  The two functions the stack calls out to,
  \<open>eth_tx\<close> and \<open>pkt_rx_udp\<close>, are arguments: they may change everything, may wait forever
  (\<open>None\<close>) and, \<open>pkt_rx_udp\<close>, may leave for another program (\<open>Jump\<close>) or do what C leaves undefined.
\<close>

section \<open>Code\<close>

text \<open>Addresses of the static variables and of the arrays on the stack.\<close>

record linkage =
  ifc_mac :: u32
  ifc_ll_ip6 :: u32
  mcast_ns_ip6 :: u32
  mcast_ll_ip6 :: u32
  m_ifc_mac :: u32
  m_ns_mac :: u32
  m_ll_mac :: u32
  tx_packet :: u32
  ndp_reply :: u32

datatype message = Printf "u8 list" "va list" | Putc u32

record net =
  nmem :: mem
  console :: "message list"

datatype 's outcome = Return 's | Jump u32 's | Wrong ub

definition say :: "message \<Rightarrow> 'a net_scheme \<Rightarrow> 'a net_scheme" where
  "say x st = st\<lparr>console := console st @ [x]\<rparr>"

text \<open>The static initializers, in the order of the file.\<close>

definition static_data :: "linkage \<Rightarrow> mem \<Rightarrow> mem" where
  "static_data L m =
     (let m = put_bytes m (ifc_mac L) [0x72, 0x72, 0xaa, 0xbb, 0xcc, 0xdd];
          m = put_bytes m (ifc_ll_ip6 L) [0xFE, 0x80, 0x00, 0x00, 0x00, 0x00, 0x00, 0x00,
                                          0x70, 0x72, 0xaa, 0xff, 0xfe, 0xbb, 0xcc, 0xdd];
          m = put_bytes m (mcast_ns_ip6 L) [0xFF, 0x02, 0x00, 0x00, 0x00, 0x00, 0x00, 0x00,
                                            0x00, 0x00, 0x00, 0x01, 0xff, 0xbb, 0xcc, 0xdd];
          m = put_bytes m (mcast_ll_ip6 L) [0xFF, 0x02, 0x00, 0x00, 0x00, 0x00, 0x00, 0x00,
                                            0x00, 0x00, 0x00, 0x00, 0x00, 0x00, 0x00, 0x01];
          m = put_bytes m (m_ifc_mac L) [0, 0, 0x72, 0x72, 0xaa, 0xbb, 0xcc, 0xdd];
          m = put_bytes m (m_ns_mac L) [0, 0, 0x33, 0x33, 0xff, 0xbb, 0xcc, 0xdd]
      in put_bytes m (m_ll_mac L) [0, 0, 0x33, 0x33, 0x00, 0x00, 0x00, 0x01])"

definition NETBUF_MAX :: u32 where "NETBUF_MAX = 1536"
definition MAX_UDP_PAYLOAD :: u32 where "MAX_UDP_PAYLOAD = NETBUF_MAX - 64"
definition MAX_IP6_PAYLOAD :: u32 where "MAX_IP6_PAYLOAD = NETBUF_MAX - 56"

text \<open>\<open>__builtin_bswap16\<close>, which is both \<open>htons\<close> and \<open>ntohs\<close>.\<close>

definition htons :: "u16 \<Rightarrow> u16" where
  "htons v = word_cat (ucast v :: u8) (ucast (drop_bit 8 v) :: u8)"

abbreviation ntohs :: "u16 \<Rightarrow> u16" where
  "ntohs \<equiv> htons"

subsection \<open>Debug output\<close>

function hexdump_row :: "mem \<Rightarrow> u32 \<Rightarrow> int \<Rightarrow> int \<Rightarrow> message list" where
  "hexdump_row m data len n =
     (if n < 16
      then if n = len then []
           else Printf (lit '' %02x'') [Word (ucast (m (data + of_int n)))]
                # (if n = 7 then [Putc 32] else []) @ hexdump_row m data len (n + 1)
      else [])"
  by pat_completeness auto
termination by (relation "measure (\<lambda>(m, data, len, n). nat (16 - n))") auto

function hexdump_loop :: "mem \<Rightarrow> u32 \<Rightarrow> int \<Rightarrow> u32 \<Rightarrow> message list" where
  "hexdump_loop m data len off =
     (if 0 < len
      then Printf (lit ''%04x:'') [Word off] # hexdump_row m data len 0 @ [Putc 10]
           @ hexdump_loop m (data + 16) (len - 16) (off + 16)
      else [])"
  by pat_completeness auto
termination by (relation "measure (\<lambda>(m, data, len, off). nat len)") auto

definition hexdump :: "u32 \<Rightarrow> int \<Rightarrow> 'a net_scheme \<Rightarrow> 'a net_scheme" where
  "hexdump data len st = fold say (hexdump_loop (nmem st) data len 0) st"

declare hexdump_row.simps [simp del] hexdump_loop.simps [simp del]

subsection \<open>Addresses\<close>

definition ip6_addr_copy :: "mem \<Rightarrow> u32 \<Rightarrow> u32 \<Rightarrow> mem" where
  "ip6_addr_copy m dst src =
     (let m = store32 m dst (load32 m src);
          m = store32 m (dst + 4) (load32 m (src + 4));
          m = store32 m (dst + 8) (load32 m (src + 8))
      in store32 m (dst + 12) (load32 m (src + 12)))"

definition eth_addr_copy :: "mem \<Rightarrow> u32 \<Rightarrow> u32 \<Rightarrow> mem" where
  "eth_addr_copy m dst src =
     (let m = store16 m dst (load16 m src);
          m = store16 m (dst + 2) (load16 m (src + 2))
      in store16 m (dst + 4) (load16 m (src + 4)))"

definition ip6lla_from_ethmac :: "mem \<Rightarrow> u32 \<Rightarrow> u32 \<Rightarrow> mem" where
  "ip6lla_from_ethmac m ip mac =
     (let m = store32 m ip 0;
          m = store32 m (ip + 4) 0;
          m = m(ip := 0xFE);
          m = m(ip + 1 := 0x80);
          m = m(ip + 8 := m mac XOR 2);
          m = m(ip + 9 := m (mac + 1));
          m = m(ip + 10 := m (mac + 2));
          m = m(ip + 11 := 0xFF);
          m = m(ip + 12 := 0xFE);
          m = m(ip + 13 := m (mac + 3));
          m = m(ip + 14 := m (mac + 4))
      in m(ip + 15 := m (mac + 5)))"

definition ip6ns_from_ethmac :: "mem \<Rightarrow> u32 \<Rightarrow> u32 \<Rightarrow> mem" where
  "ip6ns_from_ethmac m ip mac =
     (let m = store32 m ip 0;
          m = store32 m (ip + 4) 0;
          m = store32 m (ip + 8) 0;
          m = m(ip := 0xFF);
          m = m(ip + 1 := 0x02);
          m = m(ip + 11 := 0x01);
          m = m(ip + 12 := 0xFF);
          m = m(ip + 13 := m (mac + 3));
          m = m(ip + 14 := m (mac + 4))
      in m(ip + 15 := m (mac + 5)))"

definition ethmac_from_ip6mc :: "mem \<Rightarrow> u32 \<Rightarrow> u32 \<Rightarrow> mem" where
  "ethmac_from_ip6mc m mac ip =
     (let m = m(mac := 0x33);
          m = m(mac + 1 := 0x33);
          m = m(mac + 2 := m (ip + 12));
          m = m(mac + 3 := m (ip + 13));
          m = m(mac + 4 := m (ip + 14))
      in m(mac + 5 := m (ip + 15)))"

definition net_init :: "linkage \<Rightarrow> u32 \<Rightarrow> mem \<Rightarrow> mem" where
  "net_init L mac m =
     (let m = memcpy m (ifc_mac L) mac 6;
          m = memcpy m (m_ifc_mac L + 2) mac 6;
          m = ip6lla_from_ethmac m (ifc_ll_ip6 L) mac;
          m = ip6ns_from_ethmac m (mcast_ns_ip6 L) mac
      in ethmac_from_ip6mc m (m_ns_mac L + 2) (mcast_ns_ip6 L))"

subsection \<open>Checksums\<close>

function checksum_words :: "mem \<Rightarrow> u32 \<Rightarrow> u32 \<Rightarrow> u32 \<Rightarrow> u32 \<times> u32 \<times> u32" where
  "checksum_words m data len acc =
     (if 1 < len then checksum_words m (data + 2) (len - 2) (acc + ucast (load16 m data))
      else (data, len, acc))"
  by pat_completeness auto
termination
  by (relation "measure (\<lambda>(m, data, len, acc). unat len)")
    (auto simp: word_less_nat_alt unat_sub_if')

function checksum_fold :: "u32 \<Rightarrow> u32" where
  "checksum_fold acc =
     (if 0xFFFF < acc then checksum_fold ((acc AND 0xFFFF) + drop_bit 16 acc) else acc)"
  by pat_completeness auto
termination
proof (relation "measure unat")
  fix acc :: u32
  assume "0xFFFF < acc"
  then have big: "65536 \<le> unat acc" by (simp add: word_less_nat_alt)
  have low: "unat (acc AND 0xFFFF) = unat acc mod 65536"
    using unat_and_mask [of acc 16] by (simp add: mask_eq_exp_minus_1)
  have high: "unat (drop_bit 16 acc) = unat acc div 65536"
    by (simp add: drop_bit_eq_div unat_div)
  have "unat acc mod 65536 + unat acc div 65536 < unat acc"
    using big mod_mult_div_eq [of "unat acc" 65536] by linarith
  then have less: "unat (acc AND 0xFFFF) + unat (drop_bit 16 acc) < unat acc"
    by (simp only: low high)
  then have "unat ((acc AND 0xFFFF) + drop_bit 16 acc) < unat acc"
    using unat_add32 [of "acc AND 0xFFFF" "drop_bit 16 acc"] less_trans [OF less unat_lt_pow32]
    by (simp only: if_True)
  then show "((acc AND 0xFFFF) + drop_bit 16 acc, acc) \<in> measure unat" by simp
qed simp

declare checksum_words.simps [simp del] checksum_fold.simps [simp del]

definition checksum :: "mem \<Rightarrow> u32 \<Rightarrow> u32 \<Rightarrow> u32 \<Rightarrow> u32" where
  "checksum m data len acc =
     (case checksum_words m data len acc of (data, len, acc) \<Rightarrow>
        checksum_fold (if len \<noteq> 0 then acc + ucast (load16 m data AND 0xFF) else acc))"

definition checksum_ip6 :: "mem \<Rightarrow> u32 \<Rightarrow> u32 \<Rightarrow> u32" where
  "checksum_ip6 m hdr len =
     (let acc = checksum m (hdr + 4) 2 (ucast (htons (ucast (m (hdr + 6)))));
          acc = checksum m (hdr + 8) (len + 32) acc
      in if acc = 0xffff then acc else NOT acc)"

subsection \<open>Sending replies\<close>

text \<open>
  The headers are at fixed offsets of a packet: ethernet at 0 (with two bytes of padding in
  front), IPv6 at 16, and its payload at 56.
\<close>

definition net_tx_udp_reply ::
  "linkage \<Rightarrow> (u32 \<Rightarrow> u32 \<Rightarrow> 'a net_scheme \<Rightarrow> 'a net_scheme option)
    \<Rightarrow> u32 \<Rightarrow> u32 \<Rightarrow> u32 \<Rightarrow> u32 \<Rightarrow> 'a net_scheme \<Rightarrow> 'a net_scheme option" where
  "net_tx_udp_reply L eth_tx replyto data len port st =
     (let tx = tx_packet L;
          rx = replyto - 64
      in if len > MAX_UDP_PAYLOAD then Some st
         else let m = nmem st;
                  m = eth_addr_copy m (tx + 2) (rx + 8);
                  m = eth_addr_copy m (tx + 8) (ifc_mac L);
                  m = store16 m (tx + 14) (htons 0x86DD);
                  m = store32 m (tx + 16) 0x00000060;
                  m = store16 m (tx + 20) (htons (ucast (8 + len)));
                  m = m(tx + 22 := 17);
                  m = m(tx + 23 := 255);
                  m = ip6_addr_copy m (tx + 24) (ifc_ll_ip6 L);
                  m = ip6_addr_copy m (tx + 40) (rx + 24);
                  m = store16 m (tx + 56) (htons (ucast port));
                  m = store16 m (tx + 58) (load16 m (rx + 56));
                  m = store16 m (tx + 60) (htons (ucast (len + 8)));
                  m = store16 m (tx + 62) 0;
                  m = memcpy m (tx + 64) data len;
                  m = store16 m (tx + 62) (ucast (checksum_ip6 m (tx + 16) (len + 8)))
              in eth_tx (tx + 2) (14 + 40 + 8 + len) (st\<lparr>nmem := m\<rparr>))"

definition net_tx_ip6_reply ::
  "linkage \<Rightarrow> (u32 \<Rightarrow> u32 \<Rightarrow> 'a net_scheme \<Rightarrow> 'a net_scheme option)
    \<Rightarrow> u32 \<Rightarrow> u32 \<Rightarrow> u32 \<Rightarrow> u32 \<Rightarrow> u32 \<Rightarrow> 'a net_scheme \<Rightarrow> 'a net_scheme option" where
  "net_tx_ip6_reply L eth_tx replyto data len type chk_off st =
     (let tx = tx_packet L;
          rx = replyto - 56
      in if len > MAX_IP6_PAYLOAD then Some st
         else let m = nmem st;
                  m = eth_addr_copy m (tx + 2) (rx + 8);
                  m = eth_addr_copy m (tx + 8) (ifc_mac L);
                  m = store16 m (tx + 14) (htons 0x86DD);
                  m = store32 m (tx + 16) 0x00000060;
                  m = store16 m (tx + 20) (htons (ucast len));
                  m = m(tx + 22 := ucast type);
                  m = m(tx + 23 := 255);
                  m = ip6_addr_copy m (tx + 24) (ifc_ll_ip6 L);
                  m = ip6_addr_copy m (tx + 40) (rx + 24);
                  m = memcpy m (tx + 56) data len;
                  m = store16 m (tx + 56 + chk_off) (ucast (checksum_ip6 m (tx + 16) len))
              in eth_tx (tx + 2) (14 + 40 + len) (st\<lparr>nmem := m\<rparr>))"

subsection \<open>Receiving\<close>

definition net_rx_udp6 ::
  "(u32 \<Rightarrow> u32 \<Rightarrow> u32 \<Rightarrow> bool \<Rightarrow> 'a net_scheme \<Rightarrow> 'a net_scheme outcome option)
    \<Rightarrow> u32 \<Rightarrow> u32 \<Rightarrow> bool \<Rightarrow> 'a net_scheme \<Rightarrow> 'a net_scheme outcome option" where
  "net_rx_udp6 pkt_rx_udp data dlen mcast st =
     (if dlen < 8 then Some (Return (say (Printf (lit ''UPD6: runt\<newline>'') []) st))
      else let port = ntohs (load16 (nmem st) (data + 2));
               len = ntohs (load16 (nmem st) (data + 4))
           in if len < 8 \<or> ucast len > dlen
              then Some (Return (say (Printf (lit ''UDP6: badlen %u (dlen %u)\<newline>'')
                                        [Word (ucast len), Word dlen]) st))
              else pkt_rx_udp (data + 8) (ucast len - 8) (ucast port) mcast st)"

text \<open>The initializer of the neighbour advertisement: the target address is filled in later.\<close>

definition ndp_template :: "u8 list" where
  "ndp_template = [136, 0, 0, 0, 0x60, 0, 0, 0] @ replicate 16 0 @ [2, 1, 0, 0, 0, 0, 0, 0]"

definition net_rx_icmp6 ::
  "linkage \<Rightarrow> (u32 \<Rightarrow> u32 \<Rightarrow> 'a net_scheme \<Rightarrow> 'a net_scheme option)
    \<Rightarrow> u32 \<Rightarrow> u32 \<Rightarrow> bool \<Rightarrow> 'a net_scheme \<Rightarrow> 'a net_scheme option" where
  "net_rx_icmp6 L eth_tx data dlen mcast st =
     (if dlen < 4 then Some (say (Printf (lit ''ICMP6 runt\<newline>'') []) st)
      else let type = nmem st data; code = nmem st (data + 1)
           in if type = 135
              then if dlen < 24 \<or> code \<noteq> 0 then Some st
                   else if memcmp (nmem st) (data + 8) (ifc_ll_ip6 L) 16 \<noteq> 0 then Some st
                   else let m = put_bytes (nmem st) (ndp_reply L) ndp_template;
                            m = memcpy m (ndp_reply L + 8) (ifc_ll_ip6 L) 16;
                            m = memcpy m (ndp_reply L + 26) (ifc_mac L) 6
                        in net_tx_ip6_reply L eth_tx data (ndp_reply L) 32 58 2 (st\<lparr>nmem := m\<rparr>)
              else if type = 128
              then let m = (nmem st)(data := 129);
                       m = store16 m (data + 2) 0
                   in net_tx_ip6_reply L eth_tx data data dlen 58 2 (st\<lparr>nmem := m\<rparr>)
              else Some (say (Printf (lit ''ICMP ? %u %u %s\<newline>'')
                                [Word (ucast type), Word (ucast code),
                                 Str 1 (if mcast then lit ''M'' else [])]) st))"

definition net_rx_ip6 ::
  "linkage \<Rightarrow> (u32 \<Rightarrow> u32 \<Rightarrow> 'a net_scheme \<Rightarrow> 'a net_scheme option)
    \<Rightarrow> (u32 \<Rightarrow> u32 \<Rightarrow> u32 \<Rightarrow> bool \<Rightarrow> 'a net_scheme \<Rightarrow> 'a net_scheme outcome option)
    \<Rightarrow> u32 \<Rightarrow> u32 \<Rightarrow> bool \<Rightarrow> 'a net_scheme \<Rightarrow> 'a net_scheme outcome option" where
  "net_rx_ip6 L eth_tx pkt_rx_udp data len mcast st =
     (let m = nmem st
      in if mcast \<and> memcmp m (data + 24) (mcast_ll_ip6 L) 16 \<noteq> 0
              \<and> memcmp m (data + 24) (mcast_ns_ip6 L) 16 \<noteq> 0
         then Some (Return (say (Printf (lit ''IP6: MA ?\<newline>'') []) st))
         else if \<not> mcast \<and> memcmp m (data + 24) (ifc_ll_ip6 L) 16 \<noteq> 0
         then Some (Return (say (Printf (lit ''IP6: UA ?\<newline>'') []) st))
         else if m (data + 6) = 58
         then map_option Return (net_rx_icmp6 L eth_tx (data + 40) (len - 40) mcast st)
         else if m (data + 6) = 17
         then net_rx_udp6 pkt_rx_udp (data + 40) (len - 40) mcast st
         else Some (Return (say (Printf (lit ''IP6: HDR %u ?\<newline>'') [Word (ucast (m (data + 6)))]) st)))"

definition mac_matches :: "mem \<Rightarrow> u32 \<Rightarrow> u32 \<Rightarrow> bool" where
  "mac_matches m data mac \<longleftrightarrow>
     load32 m data = load32 m mac \<and> load32 m (data + 4) = load32 m (mac + 4)"

definition net_rx_eth ::
  "linkage \<Rightarrow> (u32 \<Rightarrow> u32 \<Rightarrow> 'a net_scheme \<Rightarrow> 'a net_scheme option)
    \<Rightarrow> (u32 \<Rightarrow> u32 \<Rightarrow> u32 \<Rightarrow> bool \<Rightarrow> 'a net_scheme \<Rightarrow> 'a net_scheme outcome option)
    \<Rightarrow> u32 \<Rightarrow> u32 \<Rightarrow> 'a net_scheme \<Rightarrow> 'a net_scheme outcome option" where
  "net_rx_eth L eth_tx pkt_rx_udp data len st =
     (let m = nmem st
      in if len < 60 then Some (Return (say (Printf (lit ''ETH runt\<newline>'') []) st))
         else if load16 m (data + 14) \<noteq> htons 0x86DD then Some (Return st)
         else if mac_matches m data (m_ifc_mac L)
         then net_rx_ip6 L eth_tx pkt_rx_udp (data + 16) (len - 16) False st
         else if mac_matches m data (m_ns_mac L)
         then net_rx_ip6 L eth_tx pkt_rx_udp (data + 16) (len - 16) True st
         else if mac_matches m data (m_ll_mac L)
         then net_rx_ip6 L eth_tx pkt_rx_udp (data + 16) (len - 16) True st
         else Some (Return (say (Printf (lit ''ETH ? %02x %02x %02x %02x %02x %02x\<newline>'')
                                   (map (\<lambda>i. Word (ucast (m (data + i)))) [2, 3, 4, 5, 6, 7])) st)))"

end
