(* ===== verification/Regions.thy ===== *)
theory Regions
  imports LibcMem
begin

text \<open>
  Reasoning about memory with many objects: regions that do not meet, runs of bytes written
  one behind the other, patched and read back.  The packet buffers of \<^verbatim>\<open>Net\<close> and \<^verbatim>\<open>Netboot\<close>
  are regions of this kind.
\<close>

section \<open>Regions that do not meet\<close>

definition separate :: "u32 \<Rightarrow> nat \<Rightarrow> u32 \<Rightarrow> nat \<Rightarrow> bool" where
  "separate a n b k \<longleftrightarrow> n \<le> unat (b - a) \<and> k \<le> unat (a - b)"

text \<open>A smaller region inside a region.\<close>

definition inside :: "u32 \<Rightarrow> nat \<Rightarrow> u32 \<Rightarrow> nat \<Rightarrow> bool" where
  "inside p l a n \<longleftrightarrow> unat (p - a) + l \<le> n"

lemma separate_sym: "separate a n b k \<Longrightarrow> separate b k a n"
  by (simp add: separate_def)

lemma inside_refl [simp]: "inside a n a n"
  by (simp add: inside_def)

lemma separate_outside:
  assumes "separate a n b k" "i < k"
  shows "n \<le> unat (b + of_nat i - a)"
proof (cases "n = 0")
  case False
  with assms have ne: "a \<noteq> b" by (auto simp: separate_def)
  then have "unat (a - b) = 4294967296 - unat (b - a)"
    using unat_sub32 [of a b] unat_sub32 [of b a] unat_lt_pow32 [of a] unat_lt_pow32 [of b]
    by (auto simp: word_unat_eq_iff split: if_splits)
  then have le: "unat (b - a) + i < 4294967296"
    using assms unat_lt_pow32 [of "b - a"] by (auto simp: separate_def)
  then have "unat ((b - a) + of_nat i) = unat (b - a) + i"
    using unat_add32 [of "b - a" "of_nat i"] by (simp add: unat_of_nat32)
  moreover have "b + of_nat i - a = (b - a) + of_nat i" by simp
  ultimately have "unat (b + of_nat i - a) = unat (b - a) + i" by (simp only:)
  then show ?thesis using assms by (simp add: separate_def)
qed simp

lemma separate_ne:
  assumes "separate a n b k" "i < n" "j < k"
  shows "a + of_nat i \<noteq> b + of_nat j"
proof
  assume eq: "a + of_nat i = b + of_nat j"
  have "i < 4294967296"
    using assms(1,2) unat_lt_pow32 [of "b - a"] by (simp add: separate_def)
  then have "unat (a + of_nat i - a) = i" by (simp add: unat_of_nat32)
  with separate_outside [OF assms(1,3)] assms(2) show False unfolding eq by simp
qed

lemma inside_offset:
  assumes "inside p l a n" "i < l"
  shows "\<exists>j<n. p + of_nat i = a + of_nat j"
proof (intro exI conjI)
  show "unat (p - a) + i < n" using assms by (simp add: inside_def)
  show "p + of_nat i = a + of_nat (unat (p - a) + i)" by simp
qed

lemma bytes_put_separate:
  assumes "separate a n b k" "inside p (length bs) a n" "inside q l b k"
  shows "bytes (put_bytes m p bs) q l = bytes m q l"
proof (intro bytes_cong put_bytes_outside)
  fix i assume i: "i < l"
  show "length bs \<le> unat (q + of_nat i - p)"
  proof (rule ccontr)
    assume "\<not> length bs \<le> unat (q + of_nat i - p)"
    with inside_offset [OF assms(2)] obtain j where "j < n"
      "p + of_nat (unat (q + of_nat i - p)) = a + of_nat j" by (metis not_le)
    moreover obtain j' where "j' < k" "q + of_nat i = b + of_nat j'"
      using inside_offset [OF assms(3) i] by blast
    ultimately show False using separate_ne [OF assms(1), of j j'] by (simp only: u32_offset) simp
  qed
qed

lemma bytes_put_same:
  "length bs \<le> 4294967296 \<Longrightarrow> bytes (put_bytes m p bs) p (length bs) = bs"
  by (rule nth_equalityI) (simp_all add: put_bytes_inside unat_of_nat32)

lemma separate_inside:
  assumes "separate a n b k" "inside p l a n" "inside q j b k" "0 < l" "0 < j"
  shows "separate p l q j"
proof (rule ccontr)
  assume "\<not> separate p l q j"
  then consider "unat (q - p) < l" | "unat (p - q) < j" by (auto simp: separate_def)
  then obtain i i' where "i < l" "i' < j" "p + of_nat i = q + of_nat i'"
  proof cases
    case 1
    then show thesis using assms(5) that [of "unat (q - p)" 0] by simp
  next
    case 2
    then show thesis using assms(4) that [of 0 "unat (p - q)"] by simp
  qed
  moreover obtain i0 where "i0 < n" "p + of_nat i = a + of_nat i0"
    using inside_offset [OF assms(2) \<open>i < l\<close>] by blast
  moreover obtain i1 where "i1 < k" "q + of_nat i' = b + of_nat i1"
    using inside_offset [OF assms(3) \<open>i' < j\<close>] by blast
  ultimately show False using separate_ne [OF assms(1)] by metis
qed

text \<open>Writing a packet front to back, and patching what has been written.\<close>

lemma put_bytes_next:
  "q = p + of_nat (length bs) \<Longrightarrow> put_bytes (put_bytes m p bs) q cs = put_bytes m p (bs @ cs)"
  by (simp add: put_bytes_append)

lemma put_bytes_over:
  assumes "length ys = length ys'" "length xs + length ys + length zs \<le> 4294967296"
    and "q = p + of_nat (length xs)"
  shows "put_bytes (put_bytes m p (xs @ ys @ zs)) q ys' = put_bytes m p (xs @ ys' @ zs)"
proof
  fix x
  have d: "unat (x - q) = (if length xs \<le> unat (x - p) then unat (x - p) - length xs
       else 4294967296 + unat (x - p) - length xs)"
    using assms(2) unfolding assms(3) by (subst unat_diff_offset) simp_all
  show "put_bytes (put_bytes m p (xs @ ys @ zs)) q ys' x = put_bytes m p (xs @ ys' @ zs) x"
  proof (cases "unat (x - q) < length ys'")
    case True
    with d assms unat_lt_pow32 [of "x - p"] have "length xs \<le> unat (x - p)" by (auto split: if_splits)
    with True d assms show ?thesis by (simp add: put_bytes_inside nth_append)
  next
    case False
    show ?thesis
    proof (cases "unat (x - p) < length xs + length ys + length zs")
      case True
      with False d assms show ?thesis
        by (auto simp: put_bytes_inside put_bytes_outside not_less nth_append split: if_splits)
    next
      case outside: False
      with False d assms show ?thesis by (simp add: put_bytes_outside not_less)
    qed
  qed
qed

text \<open>Reading back what was written.\<close>

lemma bytes_put_mid:
  assumes "length xs + length ys + length zs \<le> 4294967296" "q = p + of_nat (length xs)"
    and "n = length ys"
  shows "bytes (put_bytes m p (xs @ ys @ zs)) q n = ys"
proof (rule nth_equalityI)
  fix i assume "i < length (bytes (put_bytes m p (xs @ ys @ zs)) q n)"
  then have i: "i < length ys" by (simp add: assms(3))
  have "q + of_nat i - p = of_nat (length xs + i)" by (simp add: assms(2))
  moreover have "unat (of_nat (length xs + i) :: u32) = length xs + i"
    using i assms(1) by (intro unat_of_nat32) linarith
  ultimately have "unat (q + of_nat i - p) = length xs + i" by (simp only:)
  then show "bytes (put_bytes m p (xs @ ys @ zs)) q n ! i = ys ! i"
    using i assms(1) by (simp add: assms(3) put_bytes_inside nth_append)
qed (simp add: assms(3))

lemma separate_commute: "separate a n b k = separate b k a n"
  by (auto simp: separate_def)

lemma bytes_put_other:
  "separate p (length bs) q l \<Longrightarrow> bytes (put_bytes m p bs) q l = bytes m q l"
  by (rule bytes_put_separate) (rule inside_refl | assumption)+

lemma bytes_put_head:
  "n = length bs \<Longrightarrow> length bs \<le> 4294967296 \<Longrightarrow> bytes (put_bytes m p bs) p n = bs"
  by (simp add: bytes_put_same)

lemma put_separate: "separate p (length bs) q l \<Longrightarrow> i < l \<Longrightarrow> put_bytes m p bs (q + of_nat i) = m (q + of_nat i)"
  using bytes_put_other [of p bs q l m] by (simp add: bytes_eq_iff)

lemma separate_sub:
  assumes "separate a n b k" "unat (q - b) + j \<le> k" "0 < n" "0 < j"
  shows "separate a n q j"
  using assms by (intro separate_inside [OF assms(1), of a n q j]) (auto simp: inside_def)

lemma bytes_put_front:
  assumes "length xs + k \<le> 4294967296"
  shows "bytes (put_bytes m p xs) p (length xs + k) = xs @ bytes m (p + of_nat (length xs)) k"
proof -
  have "bytes (put_bytes m p xs) (p + of_nat (length xs)) k = bytes m (p + of_nat (length xs)) k"
  proof (intro bytes_cong put_bytes_outside)
    fix i assume "i < k"
    then have "unat (of_nat (length xs + i) :: u32) = length xs + i"
      using assms by (intro unat_of_nat32) simp
    moreover have "p + of_nat (length xs) + of_nat i - p = of_nat (length xs + i)" by simp
    ultimately show "length xs \<le> unat (p + of_nat (length xs) + of_nat i - p)" by (simp only:)
  qed
  then show ?thesis
    using assms by (simp add: bytes_add bytes_put_head)
qed

lemma fun_upd_put: "m(a := b) = put_bytes m a [b]"
  by simp

end
