(* ===== verification/Gfx.thy ===== *)
theory Gfx
  imports Net Regions LibcStr
begin

text \<open>
  The graphics library: \<^verbatim>\<open>libgfx/src/gfx.c\<close>, which draws on surfaces of 16-bit pixels in memory,
  and \<^verbatim>\<open>libgfx/src/txt.c\<close>, a text console on a surface.  A surface is a record; the four drawing
  functions that \<open>gfx_init\<close> chooses together are one of two values.  The font, which is data of
  a third party, is an argument.
\<close>

section \<open>Code\<close>

datatype methods = Rgb565 | Unknown_format

record gfx_surface =
  gwidth :: u32
  gheight :: u32
  gstride :: u32
  gpixels :: u32
  gpixfmt :: u32
  fgcolor :: u32
  bgcolor :: u32
  gmethods :: methods

definition PIXFMT_RGB565 :: u32 where "PIXFMT_RGB565 = 0x03000565"
definition FRAMEBUFFER_BASE :: u32 where "FRAMEBUFFER_BASE = 0x40C00000"
definition CH_WIDTH :: u32 where "CH_WIDTH = 8"
definition CH_HEIGHT :: u32 where "CH_HEIGHT = 16"
definition C_BLACK :: u32 where "C_BLACK = 0x00000000"
definition C_WHITE :: u32 where "C_WHITE = 0x00FFFFFF"
definition C_GRAY25 :: u32 where "C_GRAY25 = 0x00404040"
definition C_GRAY50 :: u32 where "C_GRAY50 = 0x00808080"
definition C_GRAY75 :: u32 where "C_GRAY75 = 0x00C0C0C0"

lemmas ch_size = CH_WIDTH_def CH_HEIGHT_def

definition color16 :: "u32 \<Rightarrow> u32" where
  "color16 c =
     ((drop_bit 3 c AND 0x1F) OR push_bit 5 (drop_bit 10 c AND 0x3F)) OR push_bit 11 (drop_bit 19 c AND 0x1F)"

definition plot16 :: "gfx_surface \<Rightarrow> u32 \<Rightarrow> u32 \<Rightarrow> u32 \<Rightarrow> mem \<Rightarrow> mem" where
  "plot16 gs x y pxl m =
     (if x \<ge> gwidth gs \<or> y \<ge> gheight gs then m
      else store16 m (gpixels gs + 2 * (x + y * gstride gs)) (ucast pxl))"

partial_function (option) hline_loop :: "u32 \<Rightarrow> u32 \<Rightarrow> u32 \<Rightarrow> mem \<Rightarrow> mem option" where
  "hline_loop pixels end pxl m =
     (if pixels < end then hline_loop (pixels + 2) end pxl (store16 m pixels (ucast pxl)) else Some m)"

definition hline16 :: "gfx_surface \<Rightarrow> u32 \<Rightarrow> u32 \<Rightarrow> u32 \<Rightarrow> u32 \<Rightarrow> mem \<Rightarrow> mem option" where
  "hline16 gs x0 y x1 pxl m =
     (if x0 \<ge> gwidth gs \<or> y \<ge> gheight gs \<or> x1 \<le> x0 then Some m
      else let x1 = (if x1 > gwidth gs then gwidth gs else x1);
               pixels = gpixels gs + 2 * x0 + 2 * (y * gstride gs);
               end = pixels + 2 * x1 - 2 * x0
           in hline_loop pixels end pxl m)"

text \<open>One row of a character: memory, position and the remaining bits.\<close>

fun putc_row :: "u32 \<Rightarrow> u32 \<Rightarrow> nat \<Rightarrow> u32 \<Rightarrow> u32 \<Rightarrow> mem \<Rightarrow> mem \<times> u32" where
  "putc_row fg bg 0 bits pixels m = (m, pixels)"
| "putc_row fg bg (Suc n) bits pixels m =
     putc_row fg bg n (push_bit 1 bits) (pixels + 2)
       (store16 m pixels (ucast (if bits AND 0x80 \<noteq> 0 then fg else bg)))"

fun putc_rows :: "(nat \<Rightarrow> u8) \<Rightarrow> u32 \<Rightarrow> u32 \<Rightarrow> u32 \<Rightarrow> nat \<Rightarrow> u32 \<Rightarrow> u32 \<Rightarrow> mem \<Rightarrow> mem" where
  "putc_rows rom fg bg stride 0 ch pixels m = m"
| "putc_rows rom fg bg stride (Suc n) ch pixels m =
     (let bits = ucast (rom (unat ch));
          (m, pixels) = putc_row fg bg (unat CH_WIDTH) bits pixels m
      in putc_rows rom fg bg stride n (ch + 1) (pixels + 2 * stride) m)"

definition putc16 :: "(nat \<Rightarrow> u8) \<Rightarrow> gfx_surface \<Rightarrow> u32 \<Rightarrow> u32 \<Rightarrow> u32 \<Rightarrow> mem \<Rightarrow> mem" where
  "putc16 rom gs x y ch m =
     (if x \<ge> gwidth gs \<or> x + CH_WIDTH > gwidth gs \<or> y \<ge> gheight gs \<or> y + CH_HEIGHT > gheight gs then m
      else putc_rows rom (fgcolor gs) (bgcolor gs) (gstride gs - CH_WIDTH) (unat CH_HEIGHT)
             ((ch AND 0xFF) * CH_HEIGHT) (gpixels gs + 2 * x + 2 * (y * gstride gs)) m)"

text \<open>The functions of an unknown format do nothing.\<close>

definition gfx_color :: "gfx_surface \<Rightarrow> u32 \<Rightarrow> u32" where
  "gfx_color gs c = (case gmethods gs of Rgb565 \<Rightarrow> color16 c | Unknown_format \<Rightarrow> 0)"

definition surface_plot :: "gfx_surface \<Rightarrow> u32 \<Rightarrow> u32 \<Rightarrow> u32 \<Rightarrow> mem \<Rightarrow> mem" where
  "surface_plot gs x y pxl m = (case gmethods gs of Rgb565 \<Rightarrow> plot16 gs x y pxl m | Unknown_format \<Rightarrow> m)"

definition surface_hline :: "gfx_surface \<Rightarrow> u32 \<Rightarrow> u32 \<Rightarrow> u32 \<Rightarrow> u32 \<Rightarrow> mem \<Rightarrow> mem option" where
  "surface_hline gs x0 y x1 pxl m =
     (case gmethods gs of Rgb565 \<Rightarrow> hline16 gs x0 y x1 pxl m | Unknown_format \<Rightarrow> Some m)"

definition gfx_putc :: "(nat \<Rightarrow> u8) \<Rightarrow> gfx_surface \<Rightarrow> u32 \<Rightarrow> u32 \<Rightarrow> u32 \<Rightarrow> mem \<Rightarrow> mem" where
  "gfx_putc rom gs x y ch m = (case gmethods gs of Rgb565 \<Rightarrow> putc16 rom gs x y ch m | Unknown_format \<Rightarrow> m)"

definition gfx_plot :: "gfx_surface \<Rightarrow> u32 \<Rightarrow> u32 \<Rightarrow> mem \<Rightarrow> mem" where
  "gfx_plot gs x y m = surface_plot gs x y (fgcolor gs) m"

definition gfx_hline :: "gfx_surface \<Rightarrow> u32 \<Rightarrow> u32 \<Rightarrow> u32 \<Rightarrow> mem \<Rightarrow> mem option" where
  "gfx_hline gs x0 y x1 m = surface_hline gs x0 y x1 (fgcolor gs) m"

definition gfx_init :: "gfx_surface \<Rightarrow> gfx_surface" where
  "gfx_init gs = gs\<lparr>gmethods := if gpixfmt gs = PIXFMT_RGB565 then Rgb565 else Unknown_format\<rparr>"

definition gfx_setcolor :: "u32 \<Rightarrow> u32 \<Rightarrow> gfx_surface \<Rightarrow> gfx_surface" where
  "gfx_setcolor fg bg gs =
     (let gs = gs\<lparr>fgcolor := gfx_color gs fg\<rparr> in gs\<lparr>bgcolor := gfx_color gs bg\<rparr>)"

definition gfx_init_display :: "gfx_surface \<Rightarrow> gfx_surface" where
  "gfx_init_display gs =
     (let gs = gs\<lparr>gwidth := 640\<rparr>;
          gs = gs\<lparr>gheight := 480\<rparr>;
          gs = gs\<lparr>gstride := 640\<rparr>;
          gs = gs\<lparr>gpixels := FRAMEBUFFER_BASE\<rparr>;
          gs = gs\<lparr>gpixfmt := PIXFMT_RGB565\<rparr>;
          gs = gfx_init gs;
          gs = gs\<lparr>fgcolor := gfx_color gs C_WHITE\<rparr>
      in gs\<lparr>bgcolor := gfx_color gs C_BLACK\<rparr>)"

function gfx_fill :: "gfx_surface \<Rightarrow> u32 \<Rightarrow> u32 \<Rightarrow> u32 \<Rightarrow> u32 \<Rightarrow> u32 \<Rightarrow> mem \<Rightarrow> mem option" where
  "gfx_fill gs x0 y0 x1 y1 pxl m =
     (if y0 < y1 then Option.bind (surface_hline gs x0 y0 x1 pxl m) (gfx_fill gs x0 (y0 + 1) x1 y1 pxl)
      else Some m)"
  by pat_completeness auto
termination
  by (relation "measure (\<lambda>(gs, x0, y0, x1, y1, pxl, m). unat (y1 - y0))") simp_all

definition gfx_clear :: "gfx_surface \<Rightarrow> u32 \<Rightarrow> mem \<Rightarrow> mem option" where
  "gfx_clear gs pxl m = gfx_fill gs 0 0 (gwidth gs) (gheight gs) pxl m"

text \<open>The string is read from the same memory, as it is drawn.\<close>

partial_function (option) gfx_puts :: "(nat \<Rightarrow> u8) \<Rightarrow> gfx_surface \<Rightarrow> u32 \<Rightarrow> u32 \<Rightarrow> u32 \<Rightarrow> mem \<Rightarrow> mem option" where
  "gfx_puts rom gs x y s m =
     (if m s \<noteq> 0 then gfx_puts rom gs (x + CH_WIDTH) y (s + 1) (gfx_putc rom gs x y (ucast (m s)) m)
      else Some m)"

text \<open>\<open>msg\<close> is the array of 128 bytes on the stack, \<open>b\<close> the number buffer of the formatter.\<close>

definition gfx_printf ::
  "(nat \<Rightarrow> u8) \<Rightarrow> u8 list \<Rightarrow> u32 \<Rightarrow> gfx_surface \<Rightarrow> u32 \<Rightarrow> u32 \<Rightarrow> u8 list \<Rightarrow> va list \<Rightarrow> mem \<Rightarrow> (ub + mem) option" where
  "gfx_printf rom b msg gs x y fmt ap m =
     (case vsnprintf b m msg 128 fmt ap of
        Inl e \<Rightarrow> Some (Inl e)
      | Inr (n, m) \<Rightarrow> map_option Inr (gfx_puts rom gs x y msg m))"

subsection \<open>Text\<close>

record txt_surface =
  txt_gs :: gfx_surface
  cw :: u32
  ch :: u32
  cx :: u32
  cy :: u32

definition txt_init :: "gfx_surface \<Rightarrow> txt_surface" where
  "txt_init gs = \<lparr>txt_gs = gs, cw = gwidth gs div CH_WIDTH, ch = gheight gs div CH_HEIGHT, cx = 0, cy = 0\<rparr>"

definition txt_goto :: "u32 \<Rightarrow> u32 \<Rightarrow> txt_surface \<Rightarrow> txt_surface" where
  "txt_goto x y ts =
     (let x = (if x \<ge> cw ts then cw ts - 1 else x);
          x = (if y \<ge> ch ts then ch ts - 1 else x)
      in ts\<lparr>cx := x, cy := y\<rparr>)"

definition txt_newline :: "txt_surface \<Rightarrow> txt_surface" where
  "txt_newline ts =
     (let ts = ts\<lparr>cx := 0\<rparr>;
          ts = ts\<lparr>cy := cy ts + 1\<rparr>
      in if cy ts \<ge> ch ts then ts\<lparr>cy := 0\<rparr> else ts)"

definition txt_putc :: "(nat \<Rightarrow> u8) \<Rightarrow> u32 \<Rightarrow> txt_surface \<times> mem \<Rightarrow> txt_surface \<times> mem" where
  "txt_putc rom c =
     (\<lambda>(ts, m).
        if c = 13 \<or> c = 10 then (txt_newline ts, m)
        else let m = gfx_putc rom (txt_gs ts) (cx ts * CH_WIDTH) (cy ts * CH_HEIGHT) c m;
                 ts = ts\<lparr>cx := cx ts + 1\<rparr>
             in if cx ts \<ge> cw ts then (txt_newline ts, m) else (ts, m))"

partial_function (option) txt_puts :: "(nat \<Rightarrow> u8) \<Rightarrow> u32 \<Rightarrow> txt_surface \<times> mem \<Rightarrow> (txt_surface \<times> mem) option" where
  "txt_puts rom s tm =
     (if snd tm s \<noteq> 0 then txt_puts rom (s + 1) (txt_putc rom (ucast (snd tm s)) tm) else Some tm)"

definition txt_printf ::
  "(nat \<Rightarrow> u8) \<Rightarrow> u8 list \<Rightarrow> u32 \<Rightarrow> u8 list \<Rightarrow> va list \<Rightarrow> txt_surface \<times> mem \<Rightarrow> (ub + txt_surface \<times> mem) option" where
  "txt_printf rom b msg fmt ap =
     (\<lambda>(ts, m). case vsnprintf b m msg 128 fmt ap of
        Inl e \<Rightarrow> Some (Inl e)
      | Inr (n, m) \<Rightarrow> map_option Inr (txt_puts rom msg (ts, m)))"

declare gfx_fill.simps [simp del]

end
