(* ===== verification/Vmm.thy ===== *)
theory Vmm
  imports LibcMem
begin

text \<open>
  Physical pages and Sv32 page tables: \<^verbatim>\<open>xos/src/vmm.c\<close> (with the parts of \<^verbatim>\<open>kernel.h\<close>,
  \<^verbatim>\<open>status.h\<close> and \<^verbatim>\<open>hw/riscv.h\<close> that it uses) and the earlier version of the same code in
  \<^verbatim>\<open>example/ex25-kernel.c\<close>.  The memory is the one that the kernel sees through its linear
  map, \<open>pa_to_kva\<close>; \<open>panic\<close> does not return and is the value \<open>Inl (Panic msg)\<close>.

  What the hardware does with a page directory is the function \<open>translate\<close>, the Sv32 walk.
  A kernel has its page tables in order (\<open>tables_ok\<close>) when no table is shared or free.
  The interface \<open>page_allocator\<close> says what mapping a page needs of the allocator; it is
  interpreted on both allocators.
\<close>

section \<open>Code\<close>

definition PAGE_SIZE :: u32 where "PAGE_SIZE = 4096"
definition KVA_BASE :: u32 where "KVA_BASE = 0xC0000000"
definition KPA_BASE :: u32 where "KPA_BASE = 0x40000000"

definition PTE_V :: u32 where "PTE_V = 0x001"
definition PTE_R :: u32 where "PTE_R = 0x002"
definition PTE_W :: u32 where "PTE_W = 0x004"
definition PTE_X :: u32 where "PTE_X = 0x008"
definition PTE_U :: u32 where "PTE_U = 0x010"
definition PTE_A :: u32 where "PTE_A = 0x040"
definition PTE_D :: u32 where "PTE_D = 0x080"

lemmas pte_bits = PTE_V_def PTE_R_def PTE_W_def PTE_X_def PTE_U_def PTE_A_def PTE_D_def

definition USER_RW :: u32 where
  "USER_RW = PTE_D OR PTE_A OR PTE_U OR PTE_R OR PTE_W OR PTE_V"
definition USER_RX :: u32 where
  "USER_RX = PTE_D OR PTE_A OR PTE_U OR PTE_R OR PTE_X OR PTE_V"
definition USER_RWX :: u32 where
  "USER_RWX = PTE_D OR PTE_A OR PTE_U OR PTE_R OR PTE_W OR PTE_X OR PTE_V"
definition KERNEL_RO :: u32 where "KERNEL_RO = PTE_D OR PTE_A OR PTE_R OR PTE_V"
definition KERNEL_RW :: u32 where "KERNEL_RW = PTE_D OR PTE_A OR PTE_R OR PTE_W OR PTE_V"
definition KERNEL_RX :: u32 where "KERNEL_RX = PTE_D OR PTE_A OR PTE_R OR PTE_X OR PTE_V"

lemmas page_flags = USER_RW_def USER_RX_def USER_RWX_def KERNEL_RO_def KERNEL_RW_def KERNEL_RX_def

definition XOS_OK :: u32 where "XOS_OK = 0"
definition XOS_ERR_NOT_SUPPORTED :: u32 where "XOS_ERR_NOT_SUPPORTED = 0x83"
definition XOS_ERR_CONFLICT :: u32 where "XOS_ERR_CONFLICT = 0x85"
definition XOS_ERR_BAD_PARAM :: u32 where "XOS_ERR_BAD_PARAM = 0x40"

lemmas status_codes = XOS_OK_def XOS_ERR_NOT_SUPPORTED_def XOS_ERR_CONFLICT_def XOS_ERR_BAD_PARAM_def

definition pa_to_kva :: "u32 \<Rightarrow> u32" where
  "pa_to_kva pa = pa + (KVA_BASE - KPA_BASE)"

definition kva_to_pa :: "u32 \<Rightarrow> u32" where
  "kva_to_pa kva = kva - (KVA_BASE - KPA_BASE)"

datatype halted = Panic string

record vmm =
  vmem :: mem
  pa_top :: u32
  pa_bottom :: u32
  tlb_flushes :: nat

definition vmm_init :: "vmm \<Rightarrow> u32 \<Rightarrow> u32 \<Rightarrow> vmm" where
  "vmm_init k lo hi = k\<lparr>pa_bottom := lo, pa_top := hi\<rparr>"

definition ppage_alloc_z :: "vmm \<Rightarrow> halted + (u32 \<times> vmm)" where
  "ppage_alloc_z k =
     (if pa_top k = pa_bottom k then Inl (Panic ''out of physical pages'')
      else let k = k\<lparr>pa_top := pa_top k - PAGE_SIZE\<rparr>;
               k = k\<lparr>vmem := memset (vmem k) (pa_to_kva (pa_top k)) 0 PAGE_SIZE\<rparr>
           in Inr (pa_top k, k))"

definition kpage_alloc_z :: "vmm \<Rightarrow> halted + (u32 \<times> vmm)" where
  "kpage_alloc_z k =
     (case ppage_alloc_z k of Inl h \<Rightarrow> Inl h | Inr (pa, k) \<Rightarrow> Inr (pa_to_kva pa, k))"

definition PTE_PA :: "u32 \<Rightarrow> u32" where
  "PTE_PA pte = push_bit 2 (pte AND 0xFFFFFC00)"

definition tlb_flush_all :: "vmm \<Rightarrow> vmm" where
  "tlb_flush_all k = k\<lparr>tlb_flushes := Suc (tlb_flushes k)\<rparr>"

text \<open>Entry \<open>i\<close> of a table of words, and a store to it.\<close>

definition entry :: "mem \<Rightarrow> u32 \<Rightarrow> u32 \<Rightarrow> u32" where
  "entry m tbl i = load32 m (tbl + 4 * i)"

definition set_entry :: "mem \<Rightarrow> u32 \<Rightarrow> u32 \<Rightarrow> u32 \<Rightarrow> mem" where
  "set_entry m tbl i v = store32 m (tbl + 4 * i) v"

definition vm_map_4k :: "vmm \<Rightarrow> u32 \<Rightarrow> u32 \<Rightarrow> u32 \<Rightarrow> u32 \<Rightarrow> halted + (u32 \<times> vmm)" where
  "vm_map_4k k pdir va pa flags =
     (let idx1 = drop_bit 22 va;
          idx0 = drop_bit 12 va AND 0x3FF
      in if va AND 0x00000FFF \<noteq> 0 \<or> pa AND 0x00000FFF \<noteq> 0 then Inr (XOS_ERR_BAD_PARAM, k)
         else let pte = entry (vmem k) pdir idx1
              in if pte AND PTE_V \<noteq> 0 \<and> pte AND (PTE_X OR PTE_W OR PTE_R) \<noteq> 0
                 then Inr (XOS_ERR_CONFLICT, k)
                 else case (if pte AND PTE_V \<noteq> 0 then Inr (pa_to_kva (PTE_PA pte), k)
                            else case ppage_alloc_z k of
                                   Inl h \<Rightarrow> Inl h
                                 | Inr (ptbl_pa, k) \<Rightarrow>
                                     Inr (pa_to_kva ptbl_pa,
                                          k\<lparr>vmem := set_entry (vmem k) pdir idx1
                                                     (drop_bit 2 ptbl_pa OR PTE_V)\<rparr>)) of
                        Inl h \<Rightarrow> Inl h
                      | Inr (ptbl, k) \<Rightarrow>
                          let pte = entry (vmem k) ptbl idx0
                          in if pte AND PTE_V \<noteq> 0 then Inr (- 1, k)
                             else let k = k\<lparr>vmem := set_entry (vmem k) ptbl idx0
                                               (drop_bit 2 (pa AND 0xFFFFF000) OR (flags AND 0x3FF))\<rparr>
                                  in Inr (XOS_OK, tlb_flush_all k))"

definition vm_map_4m :: "vmm \<Rightarrow> u32 \<Rightarrow> u32 \<Rightarrow> u32 \<Rightarrow> u32 \<Rightarrow> u32 \<times> vmm" where
  "vm_map_4m k pdir va pa flags =
     (let idx1 = drop_bit 22 va
      in if va AND 0x003FFFFF \<noteq> 0 \<or> pa AND 0x003FFFFF \<noteq> 0 then (XOS_ERR_BAD_PARAM, k)
         else let pte = entry (vmem k) pdir idx1
              in if pte AND PTE_V \<noteq> 0 then (XOS_ERR_CONFLICT, k)
                 else let k = k\<lparr>vmem := set_entry (vmem k) pdir idx1
                                   (drop_bit 2 (pa AND 0xFFFFF000) OR (flags AND 0x3FF))\<rparr>
                      in (XOS_OK, tlb_flush_all k))"

subsection \<open>The version of ex25-kernel.c\<close>

text \<open>
  Here the allocator has no lower bound and never fails; the page directory is a global
  variable, an argument of the model.
\<close>

record ex25 =
  xmem :: mem
  ppage_next :: u32
  xflushes :: nat

definition alloc_ppage :: "ex25 \<Rightarrow> u32 \<times> ex25" where
  "alloc_ppage k =
     (let k = k\<lparr>ppage_next := ppage_next k - PAGE_SIZE\<rparr>;
          k = k\<lparr>xmem := memset (xmem k) (pa_to_kva (ppage_next k)) 0 PAGE_SIZE\<rparr>
      in (ppage_next k, k))"

definition map_page :: "ex25 \<Rightarrow> u32 \<Rightarrow> u32 \<Rightarrow> u32 \<Rightarrow> u32 \<Rightarrow> int \<times> ex25" where
  "map_page k pdir va pa flags =
     (let idx1 = drop_bit 22 va;
          idx0 = drop_bit 12 va AND 0x3FF;
          pte = entry (xmem k) pdir idx1
      in if pte AND PTE_V \<noteq> 0 \<and> pte AND (PTE_X OR PTE_W OR PTE_R) \<noteq> 0 then (- 1, k)
         else let (ptbl, k) =
                    (if pte AND PTE_V \<noteq> 0 then (pa_to_kva (PTE_PA pte), k)
                     else let (ptbl_pa, k) = alloc_ppage k
                          in (pa_to_kva ptbl_pa,
                              k\<lparr>xmem := set_entry (xmem k) pdir idx1 (drop_bit 2 ptbl_pa OR PTE_V)\<rparr>));
                  pte = entry (xmem k) ptbl idx0
              in if pte AND PTE_V \<noteq> 0 then (- 1, k)
                 else (0, k\<lparr>xmem := set_entry (xmem k) ptbl idx0
                              (drop_bit 2 (pa AND 0xFFFFF000) OR (flags AND 0x3FF)),
                            xflushes := Suc (xflushes k)\<rparr>))"

definition map_page_4m :: "ex25 \<Rightarrow> u32 \<Rightarrow> u32 \<Rightarrow> u32 \<Rightarrow> u32 \<Rightarrow> int \<times> ex25" where
  "map_page_4m k pdir va pa flags =
     (let idx1 = drop_bit 22 va;
          pte = entry (xmem k) pdir idx1
      in if pte AND PTE_V \<noteq> 0 then (- 1, k)
         else (0, k\<lparr>xmem := set_entry (xmem k) pdir idx1
                      (drop_bit 2 (pa AND 0xFFFFF000) OR (flags AND 0x3FF)),
                    xflushes := Suc (xflushes k)\<rparr>))"

section \<open>What the hardware sees\<close>

definition page :: "u32 \<Rightarrow> bool" where
  "page p \<longleftrightarrow> p AND 0xFFF = 0"

definition valid :: "u32 \<Rightarrow> bool" where
  "valid e \<longleftrightarrow> e AND PTE_V \<noteq> 0"

definition leaf :: "u32 \<Rightarrow> bool" where
  "leaf e \<longleftrightarrow> e AND (PTE_X OR PTE_W OR PTE_R) \<noteq> 0"

definition va_idx1 :: "u32 \<Rightarrow> u32" where
  "va_idx1 va = drop_bit 22 va"

definition va_idx0 :: "u32 \<Rightarrow> u32" where
  "va_idx0 va = drop_bit 12 va AND 0x3FF"

text \<open>
  The Sv32 walk from the page directory at a kernel address: the physical address and the
  flags (the low ten bits of the entry), or \<open>None\<close> for a page fault.  A megapage must be
  aligned; an entry of the second level must be a leaf.
\<close>

definition translate :: "mem \<Rightarrow> u32 \<Rightarrow> u32 \<Rightarrow> (u32 \<times> u32) option" where
  "translate m pdir va =
     (let e1 = entry m pdir (va_idx1 va)
      in if \<not> valid e1 then None
         else if leaf e1
              then if PTE_PA e1 AND 0x3FFFFF = 0
                   then Some (PTE_PA e1 OR (va AND 0x3FFFFF), e1 AND 0x3FF) else None
              else let e0 = entry m (pa_to_kva (PTE_PA e1)) (va_idx0 va)
                   in if valid e0 \<and> leaf e0
                      then Some (PTE_PA e0 OR (va AND 0xFFF), e0 AND 0x3FF) else None)"

text \<open>
  The page tables are in order: the directory is a page that is not free, and every table it
  points to is a page that is not free, not the directory and not the table of another entry.
\<close>

definition points :: "u32 \<Rightarrow> bool" where
  "points e \<longleftrightarrow> valid e \<and> \<not> leaf e"

definition tables_ok :: "mem \<Rightarrow> u32 \<Rightarrow> (u32 \<Rightarrow> bool) \<Rightarrow> bool" where
  "tables_ok m pdir free \<longleftrightarrow> page pdir \<and> \<not> free (kva_to_pa pdir) \<and>
     (\<forall>i<1024. points (entry m pdir i) \<longrightarrow>
        \<not> free (PTE_PA (entry m pdir i)) \<and> pa_to_kva (PTE_PA (entry m pdir i)) \<noteq> pdir \<and>
        (\<forall>j<1024. j \<noteq> i \<longrightarrow> points (entry m pdir j) \<longrightarrow>
           PTE_PA (entry m pdir j) \<noteq> PTE_PA (entry m pdir i)))"

subsection \<open>Pages, entries and addresses\<close>

lemma page_mask: "0xFFF = (mask 12 :: u32)"
  by (simp add: mask_eq_exp_minus_1)

lemma page_bits: "page p \<longleftrightarrow> (\<forall>n<12. \<not> bit p n)"
  unfolding page_def page_mask by (auto simp: bit_eq_iff bit_simps) (drule_tac x = n in spec, simp)

lemma page_dvd: "page p \<longleftrightarrow> 4096 dvd unat p"
proof -
  have "page p \<longleftrightarrow> unat (p AND mask 12) = 0" unfolding page_def page_mask by (simp add: unat_eq_0)
  then show ?thesis by (simp add: unat_and_mask dvd_eq_mod_eq_0)
qed

lemma pa_to_kva_inj [simp]: "pa_to_kva a = pa_to_kva b \<longleftrightarrow> a = b"
  by (simp add: pa_to_kva_def)

lemma kva_to_pa_inverse [simp]: "kva_to_pa (pa_to_kva a) = a" "pa_to_kva (kva_to_pa v) = v"
  by (simp_all add: pa_to_kva_def kva_to_pa_def)

lemma page_plus: "page p \<Longrightarrow> page q \<Longrightarrow> page (p + q)"
  unfolding page_dvd by (auto simp: unat_add32 dvd_diff_nat)

lemma page_minus: "page p \<Longrightarrow> page q \<Longrightarrow> page (p - q)"
  unfolding page_dvd by (auto simp: unat_sub32 dvd_diff_nat)

lemma page_kva [simp]: "page (pa_to_kva a) \<longleftrightarrow> page a"
proof -
  have "page (KVA_BASE - KPA_BASE)" by (simp add: page_def KVA_BASE_def KPA_BASE_def)
  then show ?thesis
    using page_plus [of a "KVA_BASE - KPA_BASE"] page_minus [of "pa_to_kva a" "KVA_BASE - KPA_BASE"]
    by (auto simp: pa_to_kva_def)
qed

lemma entry_mask: "0x3FF = (mask 10 :: u32)" "0xFFFFFC00 = (NOT (mask 10) :: u32)"
  "0xFFFFF000 = (NOT (mask 12) :: u32)"
  by (simp_all add: mask_eq_exp_minus_1)

lemma page_PTE_PA [simp]: "page (PTE_PA e)"
  by (auto simp: page_bits PTE_PA_def entry_mask bit_simps)

lemma make_entry:
  assumes "page pa"
  shows "PTE_PA (drop_bit 2 pa OR (flags AND 0x3FF)) = pa"
    and "(drop_bit 2 pa OR (flags AND 0x3FF)) AND 0x3FF = flags AND 0x3FF"
proof -
  have *: "\<not> bit pa n" if "n < 12" for n using assms that by (simp add: page_bits)
  show "PTE_PA (drop_bit 2 pa OR (flags AND 0x3FF)) = pa"
  proof (rule bit_word_eqI)
    fix n assume "n < LENGTH(32)"
    then show "bit (PTE_PA (drop_bit 2 pa OR (flags AND 0x3FF))) n = bit pa n"
    proof (cases "n < 12")
      case True
      with * [of n] show ?thesis by (auto simp: PTE_PA_def entry_mask bit_simps)
    next
      case False
      then obtain k where "n = 12 + k" by (metis le_Suc_ex not_less)
      with \<open>n < _\<close> show ?thesis by (auto simp: PTE_PA_def entry_mask bit_simps)
    qed
  qed
  show "(drop_bit 2 pa OR (flags AND 0x3FF)) AND 0x3FF = flags AND 0x3FF"
  proof (rule bit_word_eqI)
    fix n assume "n < LENGTH(32)"
    then show "bit ((drop_bit 2 pa OR (flags AND 0x3FF)) AND 0x3FF) n = bit (flags AND 0x3FF) n"
      using * [of "n + 2"] by (auto simp: entry_mask bit_simps add.commute)
  qed
qed

lemma page_and: "page pa \<Longrightarrow> pa AND 0xFFFFF000 = pa"
  by (rule bit_word_eqI) (auto simp: entry_mask page_bits bit_simps not_less)

text \<open>Tests of flag bits only look at the low ten bits.\<close>

lemma low_bits_valid: "valid e \<longleftrightarrow> valid (e AND 0x3FF)" "leaf e \<longleftrightarrow> leaf (e AND 0x3FF)"
  by (simp_all add: valid_def leaf_def pte_bits and.assoc)

lemma make_entry_bits:
  assumes "page pa"
  shows "valid (drop_bit 2 pa OR (flags AND 0x3FF)) \<longleftrightarrow> valid flags"
    and "leaf (drop_bit 2 pa OR (flags AND 0x3FF)) \<longleftrightarrow> leaf flags"
  using make_entry(2) [OF assms, of flags] low_bits_valid by metis+

lemma make_pointer:
  assumes "page pa"
  shows "PTE_PA (drop_bit 2 pa OR PTE_V) = pa" "points (drop_bit 2 pa OR PTE_V)"
proof -
  have "PTE_V = PTE_V AND 0x3FF" by (simp add: PTE_V_def)
  then show "PTE_PA (drop_bit 2 pa OR PTE_V) = pa" "points (drop_bit 2 pa OR PTE_V)"
    using make_entry [OF assms, of PTE_V] make_entry_bits [OF assms, of PTE_V]
    by (simp_all add: points_def valid_def leaf_def pte_bits)
qed

lemma va_idx_less [simp]: "va_idx1 va < 1024" "va_idx0 va < 1024"
proof -
  have "unat (va_idx1 va) = unat va div 2 ^ 22"
    by (simp add: va_idx1_def drop_bit_eq_div unat_div)
  then show "va_idx1 va < 1024"
    using unat_lt_pow32 [of va] by (simp add: word_less_nat_alt div_less_iff_less_mult)
  have "unat (va_idx0 va) < 2 ^ 10"
    unfolding va_idx0_def entry_mask unat_and_mask by simp
  then show "va_idx0 va < 1024" by (simp add: word_less_nat_alt)
qed

lemma same_page:
  "drop_bit 12 va' = drop_bit 12 va \<longleftrightarrow> va_idx1 va' = va_idx1 va \<and> va_idx0 va' = va_idx0 va"
proof
  assume eq: "drop_bit 12 va' = drop_bit 12 va"
  then have "drop_bit 22 va' = drop_bit 22 va"
    using drop_bit_drop_bit [of 10 12 va] drop_bit_drop_bit [of 10 12 va'] by simp
  with eq show "va_idx1 va' = va_idx1 va \<and> va_idx0 va' = va_idx0 va"
    by (simp add: va_idx1_def va_idx0_def)
next
  assume *: "va_idx1 va' = va_idx1 va \<and> va_idx0 va' = va_idx0 va"
  show "drop_bit 12 va' = drop_bit 12 va"
  proof (rule bit_word_eqI)
    fix n
    have "bit (va_idx1 va') (n - 10) = bit (va_idx1 va) (n - 10)" "bit (va_idx0 va') n = bit (va_idx0 va) n"
      using * by simp_all
    then show "bit (drop_bit 12 va') n = bit (drop_bit 12 va) n"
      by (cases "n < 10") (auto simp: va_idx1_def va_idx0_def entry_mask bit_simps add.commute)
  qed
qed

lemma slot_address:
  assumes "page p" "i < 1024" shows "unat (p + 4 * i) = unat p + 4 * unat i" "unat p + 4096 \<le> 4294967296"
proof -
  have "4096 dvd (4294967296 :: nat)" by simp
  with assms(1) have "4096 dvd 4294967296 - unat p" unfolding page_dvd by (rule dvd_diff_nat [rotated])
  then show le: "unat p + 4096 \<le> 4294967296"
    using unat_lt_pow32 [of p] by (metis add.commute add_diff_cancel_left' dvd_imp_le le_add_diff_inverse2
        less_or_eq_imp_le nat_add_left_cancel_le zero_less_diff)
  have "unat (4 * i) = 4 * unat i"
    using assms(2) unat_word_ariths(2) [of 4 i] by (simp add: word_less_nat_alt)
  then show "unat (p + 4 * i) = unat p + 4 * unat i"
    using le assms(2) by (simp add: unat_add32 word_less_nat_alt)
qed

lemma slots_apart:
  assumes "page p" "page q" "i < 1024" "j < 1024" "p \<noteq> q \<or> i \<noteq> j"
  shows "apart 4 (p + 4 * i) (q + 4 * j)"
proof -
  have ij: "unat i < 1024" "unat j < 1024" using assms(3,4) by (simp_all add: word_less_nat_alt)
  obtain a b where ab: "unat p = 4096 * a" "unat q = 4096 * b"
    using assms(1,2) unfolding page_dvd by (auto elim!: dvdE)
  define x y where "x = 1024 * a + unat i" and "y = 1024 * b + unat j"
  have "x div 1024 = a" "x mod 1024 = unat i" "y div 1024 = b" "y mod 1024 = unat j"
    using ij by (simp_all add: x_def y_def)
  moreover have "a \<noteq> b \<or> unat i \<noteq> unat j"
    using assms(5) ab by (metis word_unat_eq_iff)
  ultimately have "x \<noteq> y" by metis
  moreover have "unat (p + 4 * i) = 4 * x" "unat (q + 4 * j) = 4 * y"
    using slot_address(1) [OF assms(1,3)] slot_address(1) [OF assms(2,4)] ab
    by (simp_all add: x_def y_def)
  moreover have "4 * x < 4294967296" "4 * y < 4294967296"
    using calculation unat_lt_pow32 by metis+
  ultimately show ?thesis
    unfolding apart_def unat_sub32 by auto
qed

lemma entry_set_entry [simp]: "entry (set_entry m p i v) p i = v"
  by (simp add: entry_def set_entry_def)

lemma entry_set_other:
  "page p \<Longrightarrow> page q \<Longrightarrow> i < 1024 \<Longrightarrow> j < 1024 \<Longrightarrow> q \<noteq> p \<or> j \<noteq> i
    \<Longrightarrow> entry (set_entry m p i v) q j = entry m q j"
  unfolding entry_def set_entry_def by (rule load32_store32_apart, rule slots_apart) auto

lemma entry_filled:
  assumes "page p" "page q" "j < 1024"
  shows "entry (filled m p 4096 0) q j = (if q = p then 0 else entry m q j)"
proof -
  have j: "unat j < 1024" using assms(3) by (simp add: word_less_nat_alt)
  have byte: "filled m p 4096 0 (q + 4 * j + of_nat k) = (if q = p then 0 else m (q + 4 * j + of_nat k))"
    if "k < 4" for k
  proof -
    have "unat (q + 4 * j + of_nat k) = unat q + 4 * unat j + k"
      using slot_address [OF assms(2,3)] that j by (simp add: unat_add32 unat_of_nat32)
    moreover obtain a b where "unat p = 4096 * a" "unat q = 4096 * b"
      using assms(1,2) unfolding page_dvd by (auto elim!: dvdE)
    moreover have "q = p \<longleftrightarrow> unat q = unat p" by (simp add: word_unat_eq_iff)
    moreover have "unat p < 4294967296" by (rule unat_lt_pow32)
    ultimately show ?thesis using that j unfolding filled_def unat_sub32 by auto
  qed
  have "load32 (filled m p 4096 0) (q + 4 * j) = load32 (if q = p then (\<lambda>_. 0) else m) (q + 4 * j)"
    by (rule load32_cong) (simp add: byte)
  then show ?thesis by (simp add: entry_def load32_def)
qed

text \<open>A page directory whose entries are the same translates the same, if the tables are.\<close>

lemma translate_cong:
  assumes "entry m' pdir (va_idx1 va) = entry m pdir (va_idx1 va)"
    and "points (entry m pdir (va_idx1 va)) \<Longrightarrow>
      entry m' (pa_to_kva (PTE_PA (entry m pdir (va_idx1 va)))) (va_idx0 va) =
      entry m (pa_to_kva (PTE_PA (entry m pdir (va_idx1 va)))) (va_idx0 va)"
  shows "translate m' pdir va = translate m pdir va"
  using assms by (auto simp: translate_def points_def Let_def)

lemma tables_okD:
  assumes "tables_ok m pdir free"
  shows "page pdir" "\<not> free (kva_to_pa pdir)"
    and "i < 1024 \<Longrightarrow> points (entry m pdir i) \<Longrightarrow> \<not> free (PTE_PA (entry m pdir i))"
    and "i < 1024 \<Longrightarrow> points (entry m pdir i) \<Longrightarrow> pa_to_kva (PTE_PA (entry m pdir i)) \<noteq> pdir"
    and "i < 1024 \<Longrightarrow> points (entry m pdir i) \<Longrightarrow> j < 1024 \<Longrightarrow> points (entry m pdir j) \<Longrightarrow>
      PTE_PA (entry m pdir j) = PTE_PA (entry m pdir i) \<Longrightarrow> j = i"
  using assms unfolding tables_ok_def by blast+

lemma tables_ok_cong:
  assumes "tables_ok m pdir free" "\<And>i. i < 1024 \<Longrightarrow> entry m' pdir i = entry m pdir i"
  shows "tables_ok m' pdir free"
  using assms unfolding tables_ok_def by (metis (no_types, lifting))

text \<open>
  Storing a leaf in the second-level table of an address, and storing a megapage in the
  directory: the page tables stay in order, and the translation changes for the addresses of
  that page only.
\<close>

lemma map_leaf:
  fixes m :: mem and pdir va pa flags :: u32
  defines "tbl \<equiv> pa_to_kva (PTE_PA (entry m pdir (va_idx1 va)))"
  defines "m' \<equiv> set_entry m tbl (va_idx0 va) (drop_bit 2 pa OR (flags AND 0x3FF))"
  assumes ok: "tables_ok m pdir free" and pt: "points (entry m pdir (va_idx1 va))"
    and pa: "page pa" and flags: "valid flags" "leaf flags"
  shows "tables_ok m' pdir free"
    and "translate m' pdir va' =
      (if drop_bit 12 va' = drop_bit 12 va then Some (pa OR (va' AND 0xFFF), flags AND 0x3FF)
       else translate m pdir va')"
proof -
  let ?e = "drop_bit 2 pa OR (flags AND 0x3FF)"
  have tbl: "page tbl" "tbl \<noteq> pdir"
    using tables_okD(4) [OF ok _ pt] by (simp_all add: tbl_def)
  have dir: "entry m' pdir i = entry m pdir i" if "i < 1024" for i
    unfolding m'_def using that tbl tables_okD(1) [OF ok] by (simp add: entry_set_other)
  show "tables_ok m' pdir free" by (rule tables_ok_cong [OF ok dir])
  show "translate m' pdir va' =
      (if drop_bit 12 va' = drop_bit 12 va then Some (pa OR (va' AND 0xFFF), flags AND 0x3FF)
       else translate m pdir va')"
  proof (cases "drop_bit 12 va' = drop_bit 12 va")
    case True
    then have idx: "va_idx1 va' = va_idx1 va" "va_idx0 va' = va_idx0 va" by (simp_all add: same_page)
    have "entry m' tbl (va_idx0 va) = ?e" by (simp add: m'_def)
    with True show ?thesis
      using pt idx dir make_entry [OF pa, of flags] make_entry_bits [OF pa, of flags] flags
      by (simp add: translate_def points_def Let_def tbl_def)
  next
    case False
    have "translate m' pdir va' = translate m pdir va'"
    proof (rule translate_cong)
      show "entry m' pdir (va_idx1 va') = entry m pdir (va_idx1 va')" by (rule dir) simp
      let ?e' = "entry m pdir (va_idx1 va')"
      assume "points ?e'"
      then have "va_idx1 va' = va_idx1 va" if "pa_to_kva (PTE_PA ?e') = tbl"
        using that tables_okD(5) [OF ok _ pt] by (simp add: tbl_def)
      with False have "pa_to_kva (PTE_PA ?e') \<noteq> tbl \<or> va_idx0 va' \<noteq> va_idx0 va"
        by (auto simp: same_page)
      then show "entry m' (pa_to_kva (PTE_PA ?e')) (va_idx0 va') =
          entry m (pa_to_kva (PTE_PA ?e')) (va_idx0 va')"
        unfolding m'_def using tbl by (intro entry_set_other) auto
    qed
    with False show ?thesis by simp
  qed
qed

lemma map_megapage:
  fixes m :: mem and pdir va pa flags :: u32
  defines "m' \<equiv> set_entry m pdir (va_idx1 va) (drop_bit 2 pa OR (flags AND 0x3FF))"
  assumes ok: "tables_ok m pdir free" and unused: "\<not> valid (entry m pdir (va_idx1 va))"
    and pa: "pa AND 0x3FFFFF = 0" and flags: "valid flags" "leaf flags"
  shows "tables_ok m' pdir free"
    and "translate m' pdir va' =
      (if va_idx1 va' = va_idx1 va then Some (pa OR (va' AND 0x3FFFFF), flags AND 0x3FF)
       else translate m pdir va')"
proof -
  let ?e = "drop_bit 2 pa OR (flags AND 0x3FF)"
  have "pa AND 0xFFF = pa AND (0x3FFFFF AND 0xFFF)" by simp
  also have "\<dots> = (pa AND 0x3FFFFF) AND 0xFFF" by (simp only: and.assoc)
  finally have page: "page pa" using pa by (simp add: page_def)
  have same: "entry m' pdir (va_idx1 va) = ?e" by (simp add: m'_def)
  have dir: "entry m' pdir i = entry m pdir i" if "i < 1024" "i \<noteq> va_idx1 va" for i
    unfolding m'_def using that tables_okD(1) [OF ok] by (simp add: entry_set_other)
  have e: "valid ?e" "leaf ?e" "PTE_PA ?e = pa" "?e AND 0x3FF = flags AND 0x3FF"
    using make_entry [OF page, of flags] make_entry_bits [OF page, of flags] flags by simp_all
  have points: "points (entry m' pdir i) \<longleftrightarrow> i \<noteq> va_idx1 va \<and> points (entry m pdir i)" if "i < 1024" for i
    using that same e dir unused by (cases "i = va_idx1 va") (auto simp: points_def)
  show "tables_ok m' pdir free"
    using ok unfolding tables_ok_def by (auto simp: points dir)
  show "translate m' pdir va' =
      (if va_idx1 va' = va_idx1 va then Some (pa OR (va' AND 0x3FFFFF), flags AND 0x3FF)
       else translate m pdir va')"
  proof (cases "va_idx1 va' = va_idx1 va")
    case True
    then show ?thesis using same e pa by (simp add: translate_def Let_def)
  next
    case False
    have "translate m' pdir va' = translate m pdir va'"
    proof (rule translate_cong)
      show *: "entry m' pdir (va_idx1 va') = entry m pdir (va_idx1 va')" using False by (intro dir) auto
      assume "points (entry m pdir (va_idx1 va'))"
      then show "entry m' (pa_to_kva (PTE_PA (entry m pdir (va_idx1 va')))) (va_idx0 va') =
          entry m (pa_to_kva (PTE_PA (entry m pdir (va_idx1 va')))) (va_idx0 va')"
        unfolding m'_def using tables_okD(1,4) [OF ok]
        by (intro entry_set_other) auto
    qed
    with False show ?thesis by simp
  qed
qed

section \<open>The page allocator interface\<close>

locale page_allocator =
  fixes alloc :: "'s \<Rightarrow> 'e + (u32 \<times> 's)" and memory :: "'s \<Rightarrow> mem"
    and free :: "'s \<Rightarrow> u32 \<Rightarrow> bool" and ok :: "'s \<Rightarrow> bool"
  assumes alloc_page: "ok s \<Longrightarrow> alloc s = Inr (pa, s') \<Longrightarrow> page pa \<and> free s pa"
    and alloc_free: "ok s \<Longrightarrow> alloc s = Inr (pa, s') \<Longrightarrow> free s' q \<longleftrightarrow> free s q \<and> q \<noteq> pa"
    and alloc_zero: "ok s \<Longrightarrow> alloc s = Inr (pa, s')
      \<Longrightarrow> memory s' = filled (memory s) (pa_to_kva pa) 4096 0"
begin

lemma alloc_entry:
  assumes "ok s" "alloc s = Inr (pa, s')" "page q" "j < 1024"
  shows "entry (memory s') q j = (if q = pa_to_kva pa then 0 else entry (memory s) q j)"
  using alloc_page [OF assms(1,2)] alloc_zero [OF assms(1,2)] assms(3,4) by (simp add: entry_filled)

text \<open>
  A page that the allocator hands out is used as a second-level table: the page tables stay in
  order, no translation changes, and the new table is empty.
\<close>

lemma new_table:
  assumes s: "ok s" "alloc s = Inr (pa, s')" and ok: "tables_ok (memory s) pdir (free s)"
    and i: "i < 1024" and unused: "\<not> valid (entry (memory s) pdir i)"
  defines "m' \<equiv> set_entry (memory s') pdir i (drop_bit 2 pa OR PTE_V)"
  shows "tables_ok m' pdir (free s')"
    and "translate m' pdir va = translate (memory s) pdir va"
    and "entry m' pdir i = drop_bit 2 pa OR PTE_V"
    and "j < 1024 \<Longrightarrow> entry m' (pa_to_kva pa) j = 0"
    and "free s pa"
proof -
  let ?m = "memory s"
  note pa = alloc_page [OF s] and free = alloc_free [OF s]
  note ptr = make_pointer [OF pa [THEN conjunct1]]
  from pa have kva: "page (pa_to_kva pa)" and new: "pa_to_kva pa \<noteq> pdir"
    using tables_okD(2) [OF ok] by (auto simp: kva_to_pa_inverse)
  have pdir: "page pdir" by (rule tables_okD(1) [OF ok])
  show "free s pa" using pa by simp
  show same: "entry m' pdir i = drop_bit 2 pa OR PTE_V" by (simp add: m'_def)
  have dir: "entry m' pdir j = entry ?m pdir j" if "j < 1024" "j \<noteq> i" for j
    using that i pdir new by (simp add: m'_def entry_set_other alloc_entry [OF s])
  show zero: "entry m' (pa_to_kva pa) j = 0" if "j < 1024" for j
    using that i pdir kva new by (simp add: m'_def entry_set_other alloc_entry [OF s])
  have old: "entry m' q j = entry ?m q j" if "page q" "j < 1024" "q \<noteq> pdir" "q \<noteq> pa_to_kva pa" for q j
    using that i pdir by (simp add: m'_def entry_set_other alloc_entry [OF s])
  have points: "PTE_PA (entry ?m pdir j) \<noteq> pa" if "points (entry ?m pdir j)" "j < 1024" for j
    using tables_okD(3) [OF ok that(2,1)] pa by auto
  have entries: "entry m' pdir j = (if j = i then drop_bit 2 pa OR PTE_V else entry ?m pdir j)"
    if "j < 1024" for j using that same dir by simp
  have nopt: "\<not> points (entry ?m pdir i)" using unused by (simp add: points_def)
  show "tables_ok m' pdir (free s')"
    unfolding tables_ok_def
  proof (intro conjI allI impI)
    show "page pdir" by fact
    show "\<not> free s' (kva_to_pa pdir)" using tables_okD(2) [OF ok] free by simp
  next
    fix j assume j: "j < 1024" "points (entry m' pdir j)"
    show "\<not> free s' (PTE_PA (entry m' pdir j))"
      using j ptr free tables_okD(3) [OF ok] by (auto simp: entries split: if_splits)
    show "pa_to_kva (PTE_PA (entry m' pdir j)) \<noteq> pdir"
      using j ptr new tables_okD(4) [OF ok] by (auto simp: entries split: if_splits)
    fix k assume k: "k < 1024" "k \<noteq> j" "points (entry m' pdir k)"
    show "PTE_PA (entry m' pdir k) \<noteq> PTE_PA (entry m' pdir j)"
      using j k ptr points tables_okD(5) [OF ok] by (auto simp: entries split: if_splits)
  qed
  show "translate m' pdir va = translate ?m pdir va"
  proof (cases "va_idx1 va = i")
    case True
    then show ?thesis
      using unused same ptr zero
      by (simp add: translate_def Let_def points_def valid_def)
  next
    case False
    show ?thesis
    proof (rule translate_cong)
      show "entry m' pdir (va_idx1 va) = entry ?m pdir (va_idx1 va)" using False by (simp add: dir)
      assume "points (entry ?m pdir (va_idx1 va))"
      then show "entry m' (pa_to_kva (PTE_PA (entry ?m pdir (va_idx1 va)))) (va_idx0 va) =
          entry ?m (pa_to_kva (PTE_PA (entry ?m pdir (va_idx1 va)))) (va_idx0 va)"
        using points tables_okD(4) [OF ok] by (intro old) auto
    qed
  qed
qed

end

subsection \<open>Both allocators\<close>

definition vmm_ok :: "vmm \<Rightarrow> bool" where
  "vmm_ok k \<longleftrightarrow> page (pa_top k) \<and> page (pa_bottom k) \<and> pa_bottom k \<le> pa_top k"

definition vmm_free :: "vmm \<Rightarrow> u32 \<Rightarrow> bool" where
  "vmm_free k q \<longleftrightarrow> page q \<and> pa_bottom k \<le> q \<and> q < pa_top k"

lemma page_below:
  assumes "page p" "page q" "q < p" shows "unat (p - 4096) = unat p - 4096" "q \<le> p - 4096"
proof -
  obtain a b where "unat p = 4096 * a" "unat q = 4096 * b"
    using assms(1,2) unfolding page_dvd by (auto elim!: dvdE)
  with assms(3) show *: "unat (p - 4096) = unat p - 4096" "q \<le> p - 4096"
    by (auto simp: unat_sub32 word_less_nat_alt word_le_nat_alt)
qed

lemma ppage_alloc_z_ok:
  assumes "vmm_ok k" "ppage_alloc_z k = Inr (pa, k')"
  shows "vmm_ok k'" "page pa" "vmm_free k pa" "vmm_free k' q \<longleftrightarrow> vmm_free k q \<and> q \<noteq> pa"
    "k' = k\<lparr>vmem := filled (vmem k) (pa_to_kva pa) 4096 0, pa_top := pa\<rparr>"
    "vmem k' = filled (vmem k) (pa_to_kva pa) 4096 0"
proof -
  have k': "pa = pa_top k - 4096" "pa_bottom k < pa_top k"
    "k' = k\<lparr>vmem := filled (vmem k) (pa_to_kva pa) 4096 0, pa_top := pa\<rparr>"
    using assms by (auto simp: ppage_alloc_z_def vmm_ok_def PAGE_SIZE_def memset_filled Let_def
        order.strict_iff_order split: if_splits)
  then show "k' = k\<lparr>vmem := filled (vmem k) (pa_to_kva pa) 4096 0, pa_top := pa\<rparr>"
    "vmem k' = filled (vmem k) (pa_to_kva pa) 4096 0" by simp_all
  have pg: "page (pa_top k)" "page (pa_bottom k)" using assms(1) by (simp_all add: vmm_ok_def)
  have "page (4096 :: u32)" by (simp add: page_def)
  then show pa: "page pa" using pg(1) unfolding k'(1) by (rule page_minus [rotated])
  note below = page_below [OF pg k'(2)]
  have less: "q < pa_top k \<longleftrightarrow> q < pa \<or> q = pa" if "page q" for q
    using page_below [OF pg(1) that] below k' pg
    by (auto simp: word_less_nat_alt word_le_nat_alt word_unat_eq_iff)
  show "vmm_ok k'" using k' pa pg below by (simp add: vmm_ok_def)
  show "vmm_free k pa" using less pa below k' by (simp add: vmm_free_def)
  show "vmm_free k' q \<longleftrightarrow> vmm_free k q \<and> q \<noteq> pa"
    using less k'(3) by (auto simp: vmm_free_def)
qed

interpretation xos: page_allocator ppage_alloc_z vmem vmm_free vmm_ok
proof (unfold_locales, goal_cases)
  case 1 then show ?case using ppage_alloc_z_ok(2,3) by blast
next
  case 2 then show ?case by (rule ppage_alloc_z_ok(4))
next
  case 3 then show ?case by (rule ppage_alloc_z_ok(6))
qed

definition ex25_ok :: "ex25 \<Rightarrow> bool" where
  "ex25_ok k \<longleftrightarrow> page (ppage_next k) \<and> ppage_next k \<noteq> 0"

definition ex25_free :: "ex25 \<Rightarrow> u32 \<Rightarrow> bool" where
  "ex25_free k q \<longleftrightarrow> page q \<and> q < ppage_next k"

lemma alloc_ppage_ok:
  assumes "ex25_ok k" "alloc_ppage k = (pa, k')"
  shows "page pa" "ex25_free k pa" "ex25_free k' q \<longleftrightarrow> ex25_free k q \<and> q \<noteq> pa"
    "k' = k\<lparr>xmem := filled (xmem k) (pa_to_kva pa) 4096 0, ppage_next := pa\<rparr>"
    "xmem k' = filled (xmem k) (pa_to_kva pa) 4096 0"
proof -
  have k': "pa = ppage_next k - 4096" "0 < ppage_next k"
    "k' = k\<lparr>xmem := filled (xmem k) (pa_to_kva pa) 4096 0, ppage_next := pa\<rparr>"
    using assms by (auto simp: alloc_ppage_def ex25_ok_def PAGE_SIZE_def memset_filled Let_def word_gt_0)
  then show "k' = k\<lparr>xmem := filled (xmem k) (pa_to_kva pa) 4096 0, ppage_next := pa\<rparr>"
    "xmem k' = filled (xmem k) (pa_to_kva pa) 4096 0" by simp_all
  have pg: "page (ppage_next k)" "page 0" using assms(1) by (simp_all add: ex25_ok_def page_def)
  have "page (4096 :: u32)" by (simp add: page_def)
  then show pa: "page pa" using pg(1) unfolding k'(1) by (rule page_minus [rotated])
  note below = page_below [OF pg k'(2)]
  have less: "q < ppage_next k \<longleftrightarrow> q < pa \<or> q = pa" if "page q" for q
    using page_below [OF pg(1) that] below k' pg
    by (auto simp: word_less_nat_alt word_le_nat_alt word_unat_eq_iff)
  show "ex25_free k pa" using less pa by (simp add: ex25_free_def)
  show "ex25_free k' q \<longleftrightarrow> ex25_free k q \<and> q \<noteq> pa"
    using less k'(3) by (auto simp: ex25_free_def)
qed

interpretation ex: page_allocator "\<lambda>k. Inr (alloc_ppage k) :: halted + (u32 \<times> ex25)" xmem ex25_free ex25_ok
proof (unfold_locales, goal_cases)
  case 1 then show ?case using alloc_ppage_ok(1,2) by blast
next
  case 2 then show ?case by (intro alloc_ppage_ok(3)) simp_all
next
  case 3 then show ?case by (intro alloc_ppage_ok(5)) simp_all
qed

section \<open>Mapping pages\<close>

text \<open>The page at \<open>va\<close> is mapped to \<open>pa\<close> and no other address is touched.\<close>

definition maps_page :: "u32 \<Rightarrow> mem \<Rightarrow> mem \<Rightarrow> u32 \<Rightarrow> u32 \<Rightarrow> u32 \<Rightarrow> bool" where
  "maps_page pdir m m' va pa flags \<longleftrightarrow>
     (\<forall>va'. translate m' pdir va' =
        (if drop_bit 12 va' = drop_bit 12 va then Some (pa OR (va' AND 0xFFF), flags AND 0x3FF)
         else translate m pdir va'))"

definition maps_megapage :: "u32 \<Rightarrow> mem \<Rightarrow> mem \<Rightarrow> u32 \<Rightarrow> u32 \<Rightarrow> u32 \<Rightarrow> bool" where
  "maps_megapage pdir m m' va pa flags \<longleftrightarrow>
     (\<forall>va'. translate m' pdir va' =
        (if drop_bit 22 va' = drop_bit 22 va then Some (pa OR (va' AND 0x3FFFFF), flags AND 0x3FF)
         else translate m pdir va'))"

text \<open>The state of the memory manager is in order, with page directory \<open>pdir\<close>.\<close>

definition vmm_wf :: "vmm \<Rightarrow> u32 \<Rightarrow> bool" where
  "vmm_wf k pdir \<longleftrightarrow> vmm_ok k \<and> tables_ok (vmem k) pdir (vmm_free k)"

text \<open>The entries that decide what \<open>vm_map_4k\<close> does.\<close>

definition dir_entry :: "vmm \<Rightarrow> u32 \<Rightarrow> u32 \<Rightarrow> u32" where
  "dir_entry k pdir va = entry (vmem k) pdir (va_idx1 va)"

definition table_entry :: "vmm \<Rightarrow> u32 \<Rightarrow> u32 \<Rightarrow> u32" where
  "table_entry k pdir va = entry (vmem k) (pa_to_kva (PTE_PA (dir_entry k pdir va))) (va_idx0 va)"

lemmas vm_map_4k_unfold = vm_map_4k_def [unfolded Let_def, folded page_def va_idx1_def va_idx0_def,
  folded valid_def leaf_def dir_entry_def]

lemma vmm_unchanged [simp]:
  "vmm_free (k\<lparr>vmem := m\<rparr>) = vmm_free k" "vmm_free (tlb_flush_all k) = vmm_free k"
  "vmm_ok (k\<lparr>vmem := m\<rparr>) = vmm_ok k" "vmm_ok (tlb_flush_all k) = vmm_ok k"
  by (auto simp: vmm_free_def vmm_ok_def tlb_flush_all_def)

lemma tlb_flush_all_simps [simp]:
  "vmem (tlb_flush_all k) = vmem k" "tlb_flushes (tlb_flush_all k) = Suc (tlb_flushes k)"
  "pa_top (tlb_flush_all k) = pa_top k" "pa_bottom (tlb_flush_all k) = pa_bottom k"
  by (simp_all add: tlb_flush_all_def)

lemma vm_map_4k_new_table:
  assumes "page va" "page pa" "\<not> valid (dir_entry k pdir va)" "vmm_wf k pdir"
    and "ppage_alloc_z k = Inr (q, k1)" and "valid flags" "leaf flags"
  shows "\<exists>k'. vm_map_4k k pdir va pa flags = Inr (XOS_OK, k') \<and> vmm_wf k' pdir \<and>
    maps_page pdir (vmem k) (vmem k') va pa flags \<and> tlb_flushes k' = Suc (tlb_flushes k) \<and>
    pa_bottom k' = pa_bottom k \<and> pa_top k' = pa_top k - PAGE_SIZE"
proof -
  let ?i = "va_idx1 va" and ?j = "va_idx0 va"
  let ?m1 = "set_entry (vmem k1) pdir ?i (drop_bit 2 q OR PTE_V)"
  let ?e = "drop_bit 2 pa OR (flags AND 0x3FF)"
  let ?k' = "tlb_flush_all (k1\<lparr>vmem := set_entry ?m1 (pa_to_kva q) ?j ?e\<rparr>)"
  have wf: "vmm_ok k" "tables_ok (vmem k) pdir (vmm_free k)" using assms(4) by (simp_all add: vmm_wf_def)
  note a = ppage_alloc_z_ok [OF wf(1) assms(5)]
  note new = xos.new_table [OF wf(1) assms(5) wf(2) va_idx_less(1) assms(3) [unfolded dir_entry_def]]
  note ptr = make_pointer [OF a(2)]
  have pts: "points (entry ?m1 pdir ?i)" and tbl: "pa_to_kva (PTE_PA (entry ?m1 pdir ?i)) = pa_to_kva q"
    using new(3) ptr by simp_all
  note leaf = map_leaf [OF new(1) pts assms(2,6,7), unfolded tbl]
  have "entry ?m1 (pa_to_kva q) ?j = 0" by (rule new(4)) simp
  then have "vm_map_4k k pdir va pa flags = Inr (XOS_OK, ?k')"
    using assms(1,2,3,5) by (simp add: vm_map_4k_unfold dir_entry_def page_and valid_def)
  moreover have "vmm_wf ?k' pdir"
    using a(1) leaf(1) by (simp add: vmm_wf_def)
  moreover have "maps_page pdir (vmem k) (vmem ?k') va pa flags"
    using leaf(2) new(2) by (simp add: maps_page_def)
  moreover have "q = pa_top k - PAGE_SIZE"
    using assms(5) by (auto simp: ppage_alloc_z_def Let_def split: if_splits)
  ultimately show ?thesis using a(5) by simp
qed

lemma vm_map_4k_old_table:
  assumes "page va" "page pa" "points (dir_entry k pdir va)" "\<not> valid (table_entry k pdir va)"
    and "vmm_wf k pdir" and "valid flags" "leaf flags"
  shows "\<exists>k'. vm_map_4k k pdir va pa flags = Inr (XOS_OK, k') \<and> vmm_wf k' pdir \<and>
    maps_page pdir (vmem k) (vmem k') va pa flags \<and> tlb_flushes k' = Suc (tlb_flushes k) \<and>
    pa_bottom k' = pa_bottom k \<and> pa_top k' = pa_top k"
proof -
  let ?tbl = "pa_to_kva (PTE_PA (dir_entry k pdir va))"
  let ?k' = "tlb_flush_all (k\<lparr>vmem := set_entry (vmem k) ?tbl (va_idx0 va)
    (drop_bit 2 pa OR (flags AND 0x3FF))\<rparr>)"
  have wf: "vmm_ok k" "tables_ok (vmem k) pdir (vmm_free k)" using assms(5) by (simp_all add: vmm_wf_def)
  note leaf = map_leaf [OF wf(2) assms(3) [unfolded dir_entry_def] assms(2,6,7), folded dir_entry_def]
  have "vm_map_4k k pdir va pa flags = Inr (XOS_OK, ?k')"
    using assms(1-4) by (simp add: vm_map_4k_unfold points_def page_and flip: table_entry_def)
  moreover have "vmm_wf ?k' pdir"
    using wf(1) leaf(1) by (simp add: vmm_wf_def)
  moreover have "maps_page pdir (vmem k) (vmem ?k') va pa flags"
    using leaf(2) by (simp add: maps_page_def)
  ultimately show ?thesis by simp
qed

lemma status_distinct: "XOS_ERR_BAD_PARAM \<noteq> XOS_OK" "XOS_ERR_CONFLICT \<noteq> XOS_OK" "- 1 \<noteq> XOS_OK"
  by (simp_all add: status_codes)

lemma vm_map_4k_errors:
  "\<not> page va \<or> \<not> page pa \<Longrightarrow> vm_map_4k k pdir va pa flags = Inr (XOS_ERR_BAD_PARAM, k)"
  "page va \<Longrightarrow> page pa \<Longrightarrow> valid (dir_entry k pdir va) \<Longrightarrow> leaf (dir_entry k pdir va) \<Longrightarrow>
    vm_map_4k k pdir va pa flags = Inr (XOS_ERR_CONFLICT, k)"
  "page va \<Longrightarrow> page pa \<Longrightarrow> points (dir_entry k pdir va) \<Longrightarrow> valid (table_entry k pdir va) \<Longrightarrow>
    vm_map_4k k pdir va pa flags = Inr (- 1, k)"
  "page va \<Longrightarrow> page pa \<Longrightarrow> \<not> valid (dir_entry k pdir va) \<Longrightarrow> pa_top k = pa_bottom k \<Longrightarrow>
    vm_map_4k k pdir va pa flags = Inl (Panic ''out of physical pages'')"
  by (auto simp: vm_map_4k_unfold points_def ppage_alloc_z_def simp flip: table_entry_def)

lemma vm_map_4m_ok:
  assumes "vmm_wf k pdir" "valid flags" "leaf flags"
    and "va AND 0x3FFFFF = 0" "pa AND 0x3FFFFF = 0" "\<not> valid (dir_entry k pdir va)"
  shows "\<exists>k'. vm_map_4m k pdir va pa flags = (XOS_OK, k') \<and> vmm_wf k' pdir \<and>
    maps_megapage pdir (vmem k) (vmem k') va pa flags \<and> tlb_flushes k' = Suc (tlb_flushes k) \<and>
    pa_bottom k' = pa_bottom k \<and> pa_top k' = pa_top k"
proof -
  let ?k' = "tlb_flush_all (k\<lparr>vmem := set_entry (vmem k) pdir (va_idx1 va)
    (drop_bit 2 pa OR (flags AND 0x3FF))\<rparr>)"
  have wf: "vmm_ok k" "tables_ok (vmem k) pdir (vmm_free k)" using assms(1) by (simp_all add: vmm_wf_def)
  have "pa AND 0xFFF = (pa AND 0x3FFFFF) AND 0xFFF" by (simp add: and.assoc)
  then have "page pa" using assms(5) by (simp add: page_def)
  then have "vm_map_4m k pdir va pa flags = (XOS_OK, ?k')"
    using assms(4-6) by (simp add: vm_map_4m_def dir_entry_def valid_def va_idx1_def page_and)
  moreover note map_megapage [OF wf(2) assms(6) [unfolded dir_entry_def] assms(5,2,3)]
  ultimately show ?thesis using wf(1)
    by (simp add: vmm_wf_def maps_megapage_def va_idx1_def)
qed

lemmas map_page_unfold = map_page_def [unfolded Let_def, folded va_idx1_def va_idx0_def,
  folded valid_def leaf_def]

lemma ex25_unchanged [simp]:
  "ex25_free (k\<lparr>xmem := m\<rparr>) = ex25_free k" "ex25_free (k\<lparr>xflushes := n\<rparr>) = ex25_free k"
  by (auto simp: ex25_free_def)

lemma vm_map_4k_cases:
  obtains (misaligned) "\<not> page va \<or> \<not> page pa"
    | (old_table) "page va" "page pa" "points (dir_entry k pdir va)" "\<not> valid (table_entry k pdir va)"
    | (new_table) "page va" "page pa" "\<not> valid (dir_entry k pdir va)" "pa_top k \<noteq> pa_bottom k"
    | (mapped) "page va" "page pa" "points (dir_entry k pdir va)" "valid (table_entry k pdir va)"
    | (no_page) "page va" "page pa" "\<not> valid (dir_entry k pdir va)" "pa_top k = pa_bottom k"
    | (megapage) "page va" "page pa" "valid (dir_entry k pdir va)" "leaf (dir_entry k pdir va)"
  by (auto simp: points_def)

lemma ppage_alloc_z_available: "pa_top k \<noteq> pa_bottom k \<Longrightarrow> \<exists>q k'. ppage_alloc_z k = Inr (q, k')"
  by (simp add: ppage_alloc_z_def Let_def)

text \<open>When \<open>vm_map_4k\<close> succeeds, and what it does when not.\<close>

lemma vm_map_4k_when:
  assumes "vmm_wf k pdir" and "valid flags" and "leaf flags"
  shows "if page va \<and> page pa \<and>
       (points (dir_entry k pdir va) \<and> \<not> valid (table_entry k pdir va) \<or>
        \<not> valid (dir_entry k pdir va) \<and> pa_top k \<noteq> pa_bottom k)
     then \<exists>k'. vm_map_4k k pdir va pa flags = Inr (XOS_OK, k') \<and> vmm_wf k' pdir \<and>
       maps_page pdir (vmem k) (vmem k') va pa flags \<and> tlb_flushes k' = Suc (tlb_flushes k)
     else \<forall>k'. vm_map_4k k pdir va pa flags \<noteq> Inr (XOS_OK, k')"
proof (cases rule: vm_map_4k_cases [where va = va and pa = pa and k = k and pdir = pdir])
  case misaligned
  then show ?thesis using vm_map_4k_errors(1) status_distinct by auto
next
  case old_table
  with vm_map_4k_old_table [OF this assms] show ?thesis by auto
next
  case new_table
  then obtain q k1 where "ppage_alloc_z k = Inr (q, k1)" using ppage_alloc_z_available by blast
  with vm_map_4k_new_table [OF new_table(1-3) assms(1) this assms(2,3)] new_table
  show ?thesis by auto
next
  case mapped
  then show ?thesis using vm_map_4k_errors(3) status_distinct by (auto simp: points_def)
next
  case no_page
  then show ?thesis using vm_map_4k_errors(4) by (auto simp: points_def)
next
  case megapage
  then show ?thesis using vm_map_4k_errors(2) status_distinct by (auto simp: points_def)
qed

lemma vm_map_4k_outcome:
  assumes "vmm_wf k pdir" and "valid flags" and "leaf flags"
    and "\<And>k'. vm_map_4k k pdir va pa flags \<noteq> Inr (XOS_OK, k')"
  shows "(\<exists>e \<in> {XOS_ERR_BAD_PARAM, XOS_ERR_CONFLICT, - 1}. vm_map_4k k pdir va pa flags = Inr (e, k)) \<or>
    pa_top k = pa_bottom k \<and> vm_map_4k k pdir va pa flags = Inl (Panic ''out of physical pages'')"
proof (cases rule: vm_map_4k_cases [where va = va and pa = pa and k = k and pdir = pdir])
  case old_table
  with vm_map_4k_old_table [OF this assms(1-3)] assms(4) show ?thesis by auto
next
  case new_table
  then obtain q k1 where "ppage_alloc_z k = Inr (q, k1)" using ppage_alloc_z_available by blast
  with vm_map_4k_new_table [OF new_table(1-3) assms(1) this assms(2,3)] assms(4)
  show ?thesis by auto
qed (use vm_map_4k_errors in auto)

section \<open>Properties\<close>

text \<open>
  C1: \<open>vm_map_4k\<close> succeeds exactly when both addresses are page-aligned and either the
  page has a second-level table with an unused entry, or no table and there is a free page
  for one.  Then the page translates to the given page with the given flags, every other address
  translates as before, the page tables and the allocator stay in order and the TLB is flushed.
\<close>

theorem vm_map_4k_maps:
  assumes "vmm_wf k pdir" and "valid flags" and "leaf flags"
  shows "if page va \<and> page pa \<and>
       (points (dir_entry k pdir va) \<and> \<not> valid (table_entry k pdir va) \<or>
        \<not> valid (dir_entry k pdir va) \<and> pa_top k \<noteq> pa_bottom k)
     then \<exists>k'. vm_map_4k k pdir va pa flags = Inr (XOS_OK, k') \<and> vmm_wf k' pdir \<and>
       maps_page pdir (vmem k) (vmem k') va pa flags \<and> tlb_flushes k' = Suc (tlb_flushes k)
     else \<forall>k'. vm_map_4k k pdir va pa flags \<noteq> Inr (XOS_OK, k')"
  by (rule vm_map_4k_when [OF assms])

text \<open>An example: an empty page directory at physical address \<open>0x40000000\<close> and two free pages.\<close>

definition example_vmm :: vmm where
  "example_vmm = \<lparr>vmem = (\<lambda>_. 0), pa_top = 0x40003000, pa_bottom = 0x40001000, tlb_flushes = 0\<rparr>"

lemma entry_zero_mem [simp]: "entry (\<lambda>_. 0) p i = 0"
  by (simp add: entry_def load32_def)

lemma example_vmm_wf: "vmm_wf example_vmm 0xC0000000"
  by (simp add: vmm_wf_def example_vmm_def vmm_ok_def tables_ok_def vmm_free_def page_def kva_to_pa_def
      KVA_BASE_def KPA_BASE_def points_def valid_def)

theorem vm_map_4k_maps_witness:
  "\<exists>k'. vm_map_4k example_vmm 0xC0000000 0x10000000 0x40005000 USER_RW = Inr (XOS_OK, k') \<and>
     vmm_wf k' 0xC0000000"
  using vm_map_4k_maps [OF example_vmm_wf, of USER_RW "0x10000000" "0x40005000"]
  by (simp add: page_flags pte_bits valid_def leaf_def page_def dir_entry_def example_vmm_def)
    blast

text \<open>
  C14: when \<open>vm_map_4k\<close> does not succeed it changes nothing: it returns an error code with
  the state it was given, or it panics because a table is needed and no page is left.
\<close>

theorem vm_map_4k_error:
  assumes "vmm_wf k pdir" and "valid flags" and "leaf flags"
    and "\<And>k'. vm_map_4k k pdir va pa flags \<noteq> Inr (XOS_OK, k')"
  shows "(\<exists>e \<in> {XOS_ERR_BAD_PARAM, XOS_ERR_CONFLICT, - 1}. vm_map_4k k pdir va pa flags = Inr (e, k)) \<or>
    pa_top k = pa_bottom k \<and> vm_map_4k k pdir va pa flags = Inl (Panic ''out of physical pages'')"
  by (rule vm_map_4k_outcome [OF assms])

theorem vm_map_4k_error_witness:
  "vm_map_4k (example_vmm\<lparr>pa_top := 0x40001000\<rparr>) 0xC0000000 0x10000000 0x40005000 USER_RW =
     Inl (Panic ''out of physical pages'')"
proof -
  let ?k = "example_vmm\<lparr>pa_top := 0x40001000\<rparr>"
  have wf: "vmm_wf ?k 0xC0000000"
    by (simp add: vmm_wf_def example_vmm_def vmm_ok_def tables_ok_def vmm_free_def page_def kva_to_pa_def
        KVA_BASE_def KPA_BASE_def points_def valid_def)
  have "vm_map_4k ?k 0xC0000000 0x10000000 0x40005000 USER_RW \<noteq> Inr r" for r
    by (simp add: vm_map_4k_unfold dir_entry_def example_vmm_def page_def valid_def ppage_alloc_z_def)
  with vm_map_4k_error [OF wf, of USER_RW "0x10000000" "0x40005000"] show ?thesis
    by (auto simp: page_flags pte_bits valid_def leaf_def)
qed

text \<open>
  \<open>vm_map_4m\<close> maps a megapage exactly when both addresses are aligned to 4 MB and the
  directory entry is unused; otherwise it returns an error and changes nothing.
\<close>

theorem vm_map_4m_maps:
  assumes "vmm_wf k pdir" and "valid flags" and "leaf flags"
  shows "if va AND 0x3FFFFF = 0 \<and> pa AND 0x3FFFFF = 0 \<and> \<not> valid (dir_entry k pdir va)
     then \<exists>k'. vm_map_4m k pdir va pa flags = (XOS_OK, k') \<and> vmm_wf k' pdir \<and>
       maps_megapage pdir (vmem k) (vmem k') va pa flags \<and> tlb_flushes k' = Suc (tlb_flushes k)
     else \<exists>e. e \<noteq> XOS_OK \<and> vm_map_4m k pdir va pa flags = (e, k)"
proof (cases "va AND 0x3FFFFF = 0 \<and> pa AND 0x3FFFFF = 0 \<and> \<not> valid (dir_entry k pdir va)")
  case True
  then show ?thesis using vm_map_4m_ok [OF assms] by auto
next
  case False
  then show ?thesis
    using status_distinct by (auto simp: vm_map_4m_def dir_entry_def valid_def va_idx1_def Let_def)
qed

theorem vm_map_4m_maps_witness:
  "\<exists>k'. vm_map_4m example_vmm 0xC0000000 0xF0000000 0xF0000000 KERNEL_RW = (XOS_OK, k') \<and>
     vmm_wf k' 0xC0000000"
  using vm_map_4m_maps [OF example_vmm_wf, of KERNEL_RW "0xF0000000" "0xF0000000"]
  by (simp add: page_flags pte_bits valid_def leaf_def dir_entry_def example_vmm_def) blast

text \<open>
  The older \<open>map_page\<close> of ex25 has the same effect, as long as its allocator has pages:
  0 exactly when the page was not mapped, and then the same change of the translation.
\<close>

theorem map_page_maps:
  assumes "ex25_ok k" and "tables_ok (xmem k) pdir (ex25_free k)"
    and "page pa" and "valid flags" and "leaf flags"
    and "\<not> valid (entry (xmem k) pdir (va_idx1 va)) \<or> points (entry (xmem k) pdir (va_idx1 va)) \<and>
      \<not> valid (entry (xmem k) (pa_to_kva (PTE_PA (entry (xmem k) pdir (va_idx1 va)))) (va_idx0 va))"
  shows "\<exists>k'. map_page k pdir va pa flags = (0, k') \<and> tables_ok (xmem k') pdir (ex25_free k') \<and>
    maps_page pdir (xmem k) (xmem k') va pa flags"
proof (cases "valid (entry (xmem k) pdir (va_idx1 va))")
  case True
  then have "points (entry (xmem k) pdir (va_idx1 va))" using assms(6) by auto
  with True assms map_leaf [OF assms(2) this assms(3-5)] show ?thesis
    by (simp add: map_page_unfold points_def page_and maps_page_def)
next
  case False
  obtain q k1 where a: "alloc_ppage k = (q, k1)" by fastforce
  then have a': "(Inr (alloc_ppage k) :: halted + (u32 \<times> ex25)) = Inr (q, k1)" by simp
  note new = ex.new_table [OF assms(1) a' assms(2) va_idx_less(1) False]
  note ptr = make_pointer [OF alloc_ppage_ok(1) [OF assms(1) a]]
  let ?m1 = "set_entry (xmem k1) pdir (va_idx1 va) (drop_bit 2 q OR PTE_V)"
  have pts: "points (entry ?m1 pdir (va_idx1 va))"
    and tbl: "pa_to_kva (PTE_PA (entry ?m1 pdir (va_idx1 va))) = pa_to_kva q"
    using new(3) ptr by simp_all
  have zero: "entry ?m1 (pa_to_kva q) (va_idx0 va) = 0" by (rule new(4)) simp
  note leaf = map_leaf [OF new(1) pts assms(3-5), unfolded tbl]
  show ?thesis
    using False a zero leaf new(2) assms(3)
    by (simp add: map_page_unfold page_and maps_page_def valid_def)
qed

theorem map_page_maps_witness:
  "\<exists>k'. map_page \<lparr>xmem = (\<lambda>_. 0), ppage_next = 0x41000000, xflushes = 0\<rparr> 0xD0000000
     0x10000000 0x40005000 USER_RW = (0, k')"
  using map_page_maps [of "\<lparr>xmem = (\<lambda>_. 0), ppage_next = 0x41000000, xflushes = 0\<rparr>" "0xD0000000"
      "0x40005000" USER_RW "0x10000000"]
  by (simp add: ex25_ok_def ex25_free_def tables_ok_def page_def kva_to_pa_def
      KVA_BASE_def KPA_BASE_def points_def valid_def leaf_def page_flags pte_bits) blast

end
