(* ===== verification/ThreadRing.thy ===== *)
theory ThreadRing
  imports Net Regions
begin

text \<open>
  What the two thread examples share: the context frame of \<^verbatim>\<open>hw/context.h\<close>, the context switch
  of \<^verbatim>\<open>hw/src/context-switch.S\<close>, thread objects as 20 words in memory (magic, id, next, prev
  and the 16 words of the context), and the ring of threads that their links form.
\<close>

section \<open>Code\<close>

record cframe =
  cf_pc :: u32
  cf_sp :: u32
  cf_gp :: u32
  cf_tp :: u32
  cf_s0 :: u32
  cf_s1 :: u32
  cf_s2 :: u32
  cf_s3 :: u32
  cf_s4 :: u32
  cf_s5 :: u32
  cf_s6 :: u32
  cf_s7 :: u32
  cf_s8 :: u32
  cf_s9 :: u32
  cf_s10 :: u32
  cf_s11 :: u32

definition THREAD_MAGIC :: u32 where "THREAD_MAGIC = 0x5c95bec3"

text \<open>The fields of a thread, by word.\<close>

definition get_field :: "mem \<Rightarrow> u32 \<Rightarrow> nat \<Rightarrow> u32" where
  "get_field m t i = load32 m (t + of_nat (4 * i))"

definition set_field :: "mem \<Rightarrow> u32 \<Rightarrow> nat \<Rightarrow> u32 \<Rightarrow> mem" where
  "set_field m t i v = store32 m (t + of_nat (4 * i)) v"

abbreviation (input) "MAGIC \<equiv> 0 :: nat"
abbreviation (input) "ID \<equiv> 1 :: nat"
abbreviation (input) "NEXT \<equiv> 2 :: nat"
abbreviation (input) "PREV \<equiv> 3 :: nat"
abbreviation (input) "CTXT \<equiv> 4 :: nat"

definition context_words :: "cframe \<Rightarrow> u32 list" where
  "context_words r =
     [cf_pc r, cf_sp r, cf_gp r, cf_tp r, cf_s0 r, cf_s1 r, cf_s2 r, cf_s3 r, cf_s4 r, cf_s5 r,
      cf_s6 r, cf_s7 r, cf_s8 r, cf_s9 r, cf_s10 r, cf_s11 r]"

text \<open>Storing and loading the registers of a context, in the order of the instructions.\<close>

definition save_context :: "mem \<Rightarrow> u32 \<Rightarrow> cframe \<Rightarrow> mem" where
  "save_context m t r = fold (\<lambda>(i, w) m. set_field m t (CTXT + i) w) (zip [0..<16] (context_words r)) m"

definition load_context :: "mem \<Rightarrow> u32 \<Rightarrow> cframe" where
  "load_context m t =
     (let w = \<lambda>i. get_field m t (CTXT + i)
      in \<lparr>cf_pc = w 0, cf_sp = w 1, cf_gp = w 2, cf_tp = w 3, cf_s0 = w 4, cf_s1 = w 5, cf_s2 = w 6,
          cf_s3 = w 7, cf_s4 = w 8, cf_s5 = w 9, cf_s6 = w 10, cf_s7 = w 11, cf_s8 = w 12, cf_s9 = w 13,
          cf_s10 = w 14, cf_s11 = w 15\<rparr>)"

text \<open>
  A machine that runs threads.  \<open>cpu\<close> holds the registers that a context switch saves, as they
  are when it is called: \<open>cf_pc\<close> is the return address.
\<close>

record machine =
  tmem :: mem
  cpu :: cframe
  next_stack :: u32
  next_heap :: u32
  next_thread_id :: u32
  csr_file :: "nat \<Rightarrow> u32"
  tout :: "message list"

definition CSR_SSTATUS :: nat where "CSR_SSTATUS = 0x100"
definition CSR_SIE :: nat where "CSR_SIE = 0x104"
definition CSR_STVEC :: nat where "CSR_STVEC = 0x105"
definition CSR_S_INTC_ENABLE :: nat where "CSR_S_INTC_ENABLE = 0x9C0"
definition SSTATUS_SPP :: u32 where "SSTATUS_SPP = 0x100"
definition SSTATUS_SPIE :: u32 where "SSTATUS_SPIE = 0x20"
definition SSTATUS_SIE :: u32 where "SSTATUS_SIE = 2"

definition csr_wr :: "nat \<Rightarrow> u32 \<Rightarrow> 'a machine_scheme \<Rightarrow> 'a machine_scheme" where
  "csr_wr r v st = st\<lparr>csr_file := (csr_file st)(r := v)\<rparr>"

definition csr_on :: "nat \<Rightarrow> u32 \<Rightarrow> 'a machine_scheme \<Rightarrow> 'a machine_scheme" where
  "csr_on r b st = st\<lparr>csr_file := (csr_file st)(r := csr_file st r OR b)\<rparr>"

definition csr_off :: "nat \<Rightarrow> u32 \<Rightarrow> 'a machine_scheme \<Rightarrow> 'a machine_scheme" where
  "csr_off r b st = st\<lparr>csr_file := (csr_file st)(r := csr_file st r AND NOT b)\<rparr>"

definition irq_disable :: "'a machine_scheme \<Rightarrow> 'a machine_scheme" where
  "irq_disable st = csr_off CSR_SSTATUS SSTATUS_SIE st"

definition irq_enable :: "'a machine_scheme \<Rightarrow> 'a machine_scheme" where
  "irq_enable st = csr_on CSR_SSTATUS SSTATUS_SIE st"

definition print :: "message \<Rightarrow> 'a machine_scheme \<Rightarrow> 'a machine_scheme" where
  "print x st = st\<lparr>tout := tout st @ [x]\<rparr>"

definition store :: "u32 \<Rightarrow> nat \<Rightarrow> u32 \<Rightarrow> 'a machine_scheme \<Rightarrow> 'a machine_scheme" where
  "store t i v st = st\<lparr>tmem := set_field (tmem st) t i v\<rparr>"

text \<open>The contexts of two threads, which are given by their addresses.\<close>

definition context_switch :: "u32 \<Rightarrow> u32 \<Rightarrow> 'a machine_scheme \<Rightarrow> 'a machine_scheme" where
  "context_switch from to st =
     (let m = save_context (tmem st) from (cpu st)
      in st\<lparr>tmem := m, cpu := load_context m to\<rparr>)"

text \<open>What both examples have, with the same text: the heap, the first thread and its pointer.\<close>

definition alloc :: "u32 \<Rightarrow> 'a machine_scheme \<Rightarrow> u32 \<times> 'a machine_scheme" where
  "alloc sz st =
     (let sz = (sz + 31) AND NOT 31;
          ptr = next_heap st;
          st = st\<lparr>tmem := memset (tmem st) ptr 0 sz\<rparr>
      in (ptr, st\<lparr>next_heap := next_heap st + sz\<rparr>))"

definition threadptr_get :: "'a machine_scheme \<Rightarrow> u32" where
  "threadptr_get st = cf_tp (cpu st)"

definition threadptr_set :: "u32 \<Rightarrow> 'a machine_scheme \<Rightarrow> 'a machine_scheme" where
  "threadptr_set t st = st\<lparr>cpu := (cpu st)\<lparr>cf_tp := t\<rparr>\<rparr>"

definition static_thread0 :: "u32 \<Rightarrow> mem \<Rightarrow> mem" where
  "static_thread0 t m =
     (let m = set_field m t MAGIC THREAD_MAGIC;
          m = set_field m t ID 0;
          m = set_field m t NEXT t
      in set_field m t PREV t)"

definition thread_init :: "u32 \<Rightarrow> 'a machine_scheme \<Rightarrow> 'a machine_scheme" where
  "thread_init thread0 st = threadptr_set thread0 st"

definition DRAM_BASE :: u32 where "DRAM_BASE = 0x40000000"
definition DRAM_SIZE :: u32 where "DRAM_SIZE = 32 * 1024 * 1024"
definition MEMORY_TOP :: u32 where "MEMORY_TOP = DRAM_BASE + DRAM_SIZE"

text \<open>The static variables have their initial values when \<open>start\<close> is called.\<close>

definition load_statics :: "u32 \<Rightarrow> 'a machine_scheme \<Rightarrow> 'a machine_scheme" where
  "load_statics thread0 st =
     st\<lparr>tmem := static_thread0 thread0 (tmem st), next_stack := MEMORY_TOP - 4096,
       next_heap := DRAM_BASE + 1024 * 1024, next_thread_id := 1\<rparr>"

text \<open>
  What follows the context switch in \<open>thread_exit\<close> runs only if some thread switches to the one
  that has left; a machine that has stopped is in an endless loop.
\<close>

datatype 's ended = Switched 's | Stopped 's

section \<open>Fields\<close>

definition other_thread :: "u32 \<Rightarrow> u32 \<Rightarrow> bool" where
  "other_thread t u \<longleftrightarrow> t = u \<or> separate t 80 u 80"

lemma get_set_field:
  assumes "other_thread t u" "i < 20" "j < 20"
  shows "get_field (set_field m t i v) u j = (if t = u \<and> i = j then v else get_field m u j)"
proof (cases "t = u")
  case True
  have "apart 4 (t + of_nat (4 * i)) (t + of_nat (4 * j))" if "i \<noteq> j"
  proof -
    have "(t + of_nat (4 * i)) - (t + of_nat (4 * j)) = (of_nat (4 * i) - of_nat (4 * j) :: u32)"
      "(t + of_nat (4 * j)) - (t + of_nat (4 * i)) = (of_nat (4 * j) - of_nat (4 * i) :: u32)" by simp_all
    moreover have "4 \<le> unat (of_nat (4 * a) - of_nat (4 * b) :: u32)" if "a < 20" "b < 20" "a \<noteq> b" for a b :: nat
      using that by (subst unat_sub32) (simp add: unat_of_nat32 del: of_nat_mult, linarith)
    from this [of i j] this [of j i] have "4 \<le> unat (of_nat (4 * i) - of_nat (4 * j) :: u32)"
      "4 \<le> unat (of_nat (4 * j) - of_nat (4 * i) :: u32)" using that assms by blast+
    ultimately show ?thesis by (simp only: apart_def)
  qed
  then show ?thesis using True by (simp add: get_field_def set_field_def load32_store32_apart)
next
  case False
  then have sep: "separate t 80 u 80" using assms(1) by (simp add: other_thread_def)
  have "inside (t + of_nat (4 * i)) 4 t 80" "inside (u + of_nat (4 * j)) 4 u 80"
    using assms by (simp_all add: inside_def unat_of_nat32 del: of_nat_mult)
  from separate_inside [OF sep this] have "apart 4 (t + of_nat (4 * i)) (u + of_nat (4 * j))"
    by (simp add: separate_def apart_def)
  then show ?thesis using False by (simp add: get_field_def set_field_def load32_store32_apart)
qed

lemma get_save_words:
  assumes "other_thread t u" "j < 20" "k + length ws \<le> 16"
  shows "get_field (fold (\<lambda>(i, w) m. set_field m t (CTXT + i) w) (zip [k..<k + length ws] ws) m) u j =
    (if t = u \<and> CTXT + k \<le> j \<and> j < CTXT + k + length ws then ws ! (j - CTXT - k) else get_field m u j)"
  using assms(3)
proof (induction ws arbitrary: k m)
  case (Cons w ws)
  have "zip [k..<k + length (w # ws)] (w # ws) = (k, w) # zip [Suc k..<Suc k + length ws] ws"
    by (simp add: upt_rec)
  with Cons.IH [of "Suc k" "set_field m t (CTXT + k) w"] Cons.prems assms show ?case
    by (auto simp: get_set_field nth_Cons' le_Suc_eq Suc_le_eq)
qed auto

lemma get_save_context:
  assumes "other_thread t u" "j < 20"
  shows "get_field (save_context m t r) u j =
    (if t = u \<and> CTXT \<le> j then context_words r ! (j - CTXT) else get_field m u j)"
proof -
  have "length (context_words r) = 16" by (simp add: context_words_def)
  with get_save_words [OF assms, of 0 "context_words r" m] assms(2) show ?thesis
    by (simp add: save_context_def)
qed

lemma load_save_context [simp]: "load_context (save_context m t r) t = r"
  by (simp add: load_context_def get_save_context other_thread_def context_words_def)

lemma load_context_cong:
  "(\<And>j. CTXT \<le> j \<Longrightarrow> j < 20 \<Longrightarrow> get_field m' t j = get_field m t j) \<Longrightarrow> load_context m' t = load_context m t"
  by (simp add: load_context_def)

lemma load_save_other: "separate t 80 u 80 \<Longrightarrow> load_context (save_context m t r) u = load_context m u"
  by (rule load_context_cong) (auto simp: get_save_context other_thread_def separate_def)

lemma filled_outside:
  assumes "separate a n u 80" "j < 20"
  shows "get_field (filled m a n b) u j = get_field m u j"
  unfolding get_field_def
proof (rule load32_cong)
  fix k :: nat assume "k < 4"
  then have "n \<le> unat (u + of_nat (4 * j + k) - a)" using assms by (intro separate_outside) (simp, linarith)
  then show "filled m a n b (u + of_nat (4 * j) + of_nat k) = m (u + of_nat (4 * j) + of_nat k)"
    by (simp add: filled_def add.assoc)
qed

lemma filled_zero:
  assumes "j < 20" "80 \<le> n"
  shows "get_field (filled m t n 0) t j = 0"
proof -
  have "filled m t n 0 (t + of_nat (4 * j) + of_nat k) = 0" if "k < 4" for k
  proof -
    have "unat (t + of_nat (4 * j) + of_nat k - t) = 4 * j + k"
      using assms that unat_of_nat32 [of "4 * j + k"] by (simp add: add.assoc)
    then show ?thesis using assms that by (simp add: filled_def)
  qed
  from this [of 0] this [of 1] this [of 2] this [of 3] show ?thesis
    by (simp add: get_field_def load32_def)
qed

section \<open>The ring\<close>

text \<open>
  A ring of threads, from the running one on: every link leads to the next thread, every back
  link to the one before, and the thread objects do not overlap.
\<close>

definition linked_to :: "mem \<Rightarrow> u32 \<Rightarrow> u32 \<Rightarrow> bool" where
  "linked_to m t u \<longleftrightarrow> get_field m t NEXT = u \<and> get_field m u PREV = t"

fun chain :: "mem \<Rightarrow> u32 \<Rightarrow> u32 list \<Rightarrow> u32 \<Rightarrow> bool" where
  "chain m c [] e \<longleftrightarrow> linked_to m c e"
| "chain m c (t # ts) e \<longleftrightarrow> linked_to m c t \<and> chain m t ts e"

definition disjoint_threads :: "u32 list \<Rightarrow> bool" where
  "disjoint_threads ts \<longleftrightarrow> sorted_wrt (\<lambda>t u. separate t 80 u 80) ts"

fun ring :: "mem \<Rightarrow> u32 list \<Rightarrow> bool" where
  "ring m [] \<longleftrightarrow> False"
| "ring m (c # ts) \<longleftrightarrow> chain m c ts c \<and> disjoint_threads (c # ts)"

lemma disjoint_threads_Cons [simp]:
  "disjoint_threads (t # ts) \<longleftrightarrow> (\<forall>u\<in>set ts. separate t 80 u 80) \<and> disjoint_threads ts" "disjoint_threads []"
  by (simp_all add: disjoint_threads_def)

lemma disjoint_threads_append:
  "disjoint_threads (ts @ us) \<longleftrightarrow> disjoint_threads ts \<and> disjoint_threads us \<and> (\<forall>t\<in>set ts. \<forall>u\<in>set us. separate t 80 u 80)"
  by (auto simp: disjoint_threads_def sorted_wrt_append)

lemma disjoint_threads_distinct: "disjoint_threads ts \<Longrightarrow> distinct ts"
  by (induction ts) (auto simp: separate_def)

lemma disjoint_threads_other:
  "disjoint_threads ts \<Longrightarrow> t \<in> set ts \<Longrightarrow> u \<in> set ts \<Longrightarrow> other_thread t u"
proof (induction ts)
  case (Cons a ts)
  then show ?case by (auto simp: other_thread_def separate_commute)
qed simp

lemma chain_append: "chain m c (ts @ [t]) e \<longleftrightarrow> chain m c ts t \<and> linked_to m t e"
  by (induction ts arbitrary: c) simp_all

lemma chain_last: "chain m c ts e \<Longrightarrow> linked_to m (last (c # ts)) e"
  by (induction ts arbitrary: c) auto

lemma chain_redirect:
  assumes "chain m c ts e" "distinct (c # ts)"
    and "\<And>u. u \<in> set (c # ts) \<Longrightarrow> u \<noteq> last (c # ts) \<Longrightarrow> get_field m' u NEXT = get_field m u NEXT"
    and "\<And>u. u \<in> set ts \<Longrightarrow> get_field m' u PREV = get_field m u PREV"
    and "linked_to m' (last (c # ts)) t"
  shows "chain m' c ts t"
  using assms
proof (induction ts arbitrary: c)
  case (Cons x ts)
  have "last (x # ts) \<noteq> c" using Cons.prems(2) by (metis distinct.simps(2) last_in_set list.distinct(1))
  then have "linked_to m' c x" using Cons.prems(1,3,4) by (auto simp: linked_to_def)
  moreover have "chain m' x ts t"
    using Cons.prems by (intro Cons.IH) auto
  ultimately show ?case by simp
qed simp

lemma chain_cong:
  assumes "\<And>u. u \<in> set (c # ts) \<Longrightarrow> get_field m' u NEXT = get_field m u NEXT"
    and "\<And>u. u \<in> set (e # ts) \<Longrightarrow> get_field m' u PREV = get_field m u PREV"
  shows "chain m' c ts e = chain m c ts e"
  using assms
proof (induction ts arbitrary: c)
  case (Cons a ts)
  from Cons.IH [of a] Cons.prems show ?case by (auto simp: linked_to_def)
qed (simp add: linked_to_def)

lemma ring_cong:
  assumes "\<And>u. u \<in> set ts \<Longrightarrow> get_field m' u NEXT = get_field m u NEXT"
    and "\<And>u. u \<in> set ts \<Longrightarrow> get_field m' u PREV = get_field m u PREV"
  shows "ring m' ts = ring m ts"
proof (cases ts)
  case (Cons c r)
  then have "chain m' c r c = chain m c r c" using assms by (intro chain_cong) auto
  with Cons show ?thesis by simp
qed simp

lemma disjoint_rotate: "disjoint_threads (rotate1 ts) = disjoint_threads ts"
  by (cases ts) (auto simp: disjoint_threads_append separate_commute)

lemma ring_rotate: "ring m ts \<Longrightarrow> ring m (rotate1 ts)"
proof (cases ts)
  case (Cons c r)
  assume "ring m ts"
  then show ?thesis using Cons disjoint_rotate [of ts] by (cases r) (simp_all add: chain_append)
qed simp

text \<open>A new thread before the running one.\<close>

lemma ring_insert:
  assumes ring: "ring m (c # ts)" and t: "\<And>u. u \<in> set (c # ts) \<Longrightarrow> separate u 80 t 80"
    and p: "p = last (c # ts)"
    and "get_field m' t NEXT = c" "get_field m' t PREV = p" "get_field m' p NEXT = t" "get_field m' c PREV = t"
    and "\<And>u. u \<in> set (c # ts) \<Longrightarrow> u \<noteq> p \<Longrightarrow> get_field m' u NEXT = get_field m u NEXT"
    and "\<And>u. u \<in> set ts \<Longrightarrow> get_field m' u PREV = get_field m u PREV"
  shows "ring m' (c # ts @ [t])"
proof -
  have dis: "disjoint_threads (c # ts)" and ch: "chain m c ts c" using ring by simp_all
  have "chain m' c ts t"
    using assms disjoint_threads_distinct [OF dis] by (intro chain_redirect [OF ch]) (auto simp: linked_to_def)
  then show ?thesis using dis t assms(4,7) by (auto simp: chain_append linked_to_def disjoint_threads_append)
qed

text \<open>The running thread leaves.\<close>

lemma ring_remove:
  assumes ring: "ring m (c # n # ts)" and p: "p = last (n # ts)"
    and "get_field m' n PREV = p" "get_field m' p NEXT = n"
    and "\<And>u. u \<in> set (n # ts) \<Longrightarrow> u \<noteq> p \<Longrightarrow> get_field m' u NEXT = get_field m u NEXT"
    and "\<And>u. u \<in> set ts \<Longrightarrow> get_field m' u PREV = get_field m u PREV"
  shows "ring m' (n # ts)"
proof -
  have dis: "disjoint_threads (n # ts)" and ch: "chain m n ts c" using ring by simp_all
  have "chain m' n ts n"
    using assms disjoint_threads_distinct [OF dis] by (intro chain_redirect [OF ch]) (auto simp: linked_to_def)
  then show ?thesis using dis by simp
qed

section \<open>Round robin\<close>

text \<open>
  The abstract scheduler is a queue of threads with their registers, the running one first.
  The threads in memory represent it when they form a ring, and the contexts of the others are
  stored in their objects.
\<close>

type_synonym run_queue = "(u32 \<times> cframe) list"

definition represents :: "'a machine_scheme \<Rightarrow> run_queue \<Rightarrow> bool" where
  "represents st q \<longleftrightarrow> ring (tmem st) (map fst q) \<and> snd (hd q) = cpu st \<and>
     (\<forall>(t, r) \<in> set (tl q). load_context (tmem st) t = r) \<and> (\<forall>(t, r) \<in> set q. cf_tp r = t)"

text \<open>What every way to switch to the next thread promises, and what follows from it.\<close>

locale scheduler =
  fixes rep :: "'s \<Rightarrow> run_queue \<Rightarrow> bool" and switch :: "'s \<Rightarrow> 's"
  assumes switch_rotates: "rep st q \<Longrightarrow> rep (switch st) (rotate1 q)"
begin

lemma switches: "rep st q \<Longrightarrow> rep ((switch ^^ k) st) (rotate k q)"
  by (induction k) (auto intro: switch_rotates)

lemma whole_round: "rep st q \<Longrightarrow> rep ((switch ^^ length q) st) q"
  using switches [of st q "length q"] by simp

lemma nobody_starves:
  assumes "rep st q" "i < length q"
  shows "\<exists>q'. rep ((switch ^^ i) st) (q ! i # q')"
proof -
  have "rotate i q = q ! i # drop (Suc i) q @ take i q"
    using assms(2) by (simp add: rotate_drop_take Cons_nth_drop_Suc [symmetric])
  then show ?thesis using switches [OF assms(1), of i] by auto
qed

end

lemma switch_represents:
  assumes "represents st q"
  shows "represents (context_switch (cf_tp (cpu st)) (get_field (tmem st) (cf_tp (cpu st)) NEXT) st) (rotate1 q)"
proof -
  obtain c x r where q: "q = (c, x) # r" using assms by (cases q) (auto simp: represents_def)
  have x: "x = cpu st" "cf_tp (cpu st) = c" using assms by (auto simp: represents_def q)
  let ?m = "save_context (tmem st) c x"
  have ring: "ring (tmem st) (map fst q)" using assms by (simp add: represents_def)
  then have dis: "disjoint_threads (map fst q)" by (simp add: q)
  have keep: "get_field ?m t j = get_field (tmem st) t j" if "t \<in> set (map fst q)" "j < CTXT" for t j
    using disjoint_threads_other [OF dis _ that(1), of c] that(2) by (simp add: q get_save_context)
  then have "ring ?m (map fst q)" using ring ring_cong [of "map fst q" ?m "tmem st"] by simp
  then have ring': "ring ?m (map fst (rotate1 q))" using ring_rotate by (fastforce simp: rotate1_map)
  have other: "load_context ?m t = y" if "(t, y) \<in> set r" for t y
  proof -
    have "separate c 80 t 80" using dis that by (force simp: q)
    then show ?thesis using assms that by (auto simp: represents_def q load_save_other)
  qed
  have tps: "\<forall>(t, r) \<in> set (rotate1 q). cf_tp r = t" using assms by (auto simp: represents_def)
  show ?thesis
  proof (cases r)
    case Nil
    then have "get_field (tmem st) c NEXT = c" using ring by (simp add: q linked_to_def)
    with Nil x ring' tps show ?thesis by (simp add: represents_def context_switch_def q Let_def)
  next
    case (Cons n r')
    then have "get_field (tmem st) c NEXT = fst n" using ring by (simp add: q linked_to_def)
    moreover have "snd n = load_context ?m (fst n)" using other [of "fst n" "snd n"] Cons by simp
    moreover have "\<forall>(t, y) \<in> set r'. load_context ?m t = y" using other Cons by auto
    ultimately show ?thesis
      using Cons x ring' tps unfolding represents_def
      by (auto simp: context_switch_def q Let_def simp del: ring.simps)
  qed
qed

section \<open>Threads come and go\<close>

lemma represents_insert:
  assumes rep: "represents st ((c, x) # r)" and cpu: "cpu st' = cpu st"
    and t: "\<And>u. u \<in> set (map fst ((c, x) # r)) \<Longrightarrow> separate u 80 t 80"
    and p: "p = get_field (tmem st) c PREV"
    and links: "get_field (tmem st') t NEXT = c" "get_field (tmem st') t PREV = p"
    and keep: "\<And>u j. u \<in> set (map fst ((c, x) # r)) \<Longrightarrow> j < 20 \<Longrightarrow> get_field (tmem st') u j =
      (if u = p \<and> j = NEXT \<or> u = c \<and> j = PREV then t else get_field (tmem st) u j)"
    and ctxt: "load_context (tmem st') t = y" "cf_tp y = t"
  shows "represents st' ((c, x) # r @ [(t, y)])"
proof -
  let ?ts = "map fst r"
  have ring: "ring (tmem st) (c # ?ts)" using rep by (simp add: represents_def)
  then have dis: "distinct (c # ?ts)" and ch: "chain (tmem st) c ?ts c"
    using disjoint_threads_distinct [of "c # ?ts"] by (auto simp del: disjoint_threads_Cons)
  have last: "p = last (c # ?ts)" using chain_last [OF ch] by (simp add: linked_to_def p)
  have pin: "p \<in> set (c # ?ts)" unfolding last by (rule last_in_set) simp
  have "ring (tmem st') (c # ?ts @ [t])"
  proof (rule ring_insert [OF ring _ last])
    show "separate u 80 t 80" if "u \<in> set (c # ?ts)" for u using t [of u] that by simp
    show "get_field (tmem st') p NEXT = t" using keep [of p NEXT] pin by simp
    show "get_field (tmem st') c PREV = t" using keep [of c PREV] by simp
    show "get_field (tmem st') u NEXT = get_field (tmem st) u NEXT" if "u \<in> set (c # ?ts)" "u \<noteq> p" for u
      using keep [of u NEXT] that by simp
    show "get_field (tmem st') u PREV = get_field (tmem st) u PREV" if "u \<in> set ?ts" for u
      using keep [of u PREV] that dis by auto
  qed (fact links)+
  moreover have "load_context (tmem st') u = z" if "(u, z) \<in> set r" for u z
  proof -
    have "u \<in> set (map fst ((c, x) # r))" using that by force
    then have "load_context (tmem st') u = load_context (tmem st) u" by (intro load_context_cong) (simp add: keep)
    then show ?thesis using rep that by (auto simp: represents_def)
  qed
  ultimately show ?thesis using rep cpu ctxt by (auto simp: represents_def)
qed

lemma represents_leave:
  assumes rep: "represents st ((c, x) # (n, y) # r)"
    and p: "p = get_field (tmem st) c PREV"
    and m: "tmem st' = set_field (set_field (set_field (set_field (tmem st) n PREV p) p NEXT n) c PREV 0) c NEXT 0"
  shows "represents (context_switch c n st') ((n, y) # r)"
proof -
  let ?ts = "map fst r" and ?m = "save_context (tmem st') c (cpu st')"
  have ring: "ring (tmem st) (c # n # ?ts)" using rep by (simp add: represents_def)
  then have dis: "distinct (c # n # ?ts)" and dt: "disjoint_threads (c # n # ?ts)" and ch: "chain (tmem st) c (n # ?ts) c"
    using disjoint_threads_distinct [of "c # n # ?ts"] by (auto simp del: disjoint_threads_Cons)
  have last: "p = last (n # ?ts)" using chain_last [OF ch] by (simp add: linked_to_def p)
  have pin: "p \<in> set (n # ?ts)" unfolding last by (rule last_in_set) simp
  have keep: "get_field ?m u j = (if u = p \<and> j = NEXT then n else if u = n \<and> j = PREV then p else get_field (tmem st) u j)"
    if "u \<in> set (n # ?ts)" "j < 20" for u j
  proof -
    have "other_thread n u" "other_thread p u" "other_thread c u" "c \<noteq> u"
      using disjoint_threads_other [OF dt, of _ u] that pin dis by auto
    then show ?thesis using that(2) by (auto simp: m get_save_context get_set_field)
  qed
  have "ring ?m (n # ?ts)"
  proof (rule ring_remove [OF ring last])
    show "get_field ?m n PREV = p" using keep [of n PREV] by simp
    show "get_field ?m p NEXT = n" using keep [of p NEXT] pin by simp
    show "get_field ?m u NEXT = get_field (tmem st) u NEXT" if "u \<in> set (n # ?ts)" "u \<noteq> p" for u
      using keep [of u NEXT] that by simp
    show "get_field ?m u PREV = get_field (tmem st) u PREV" if "u \<in> set ?ts" for u
      using keep [of u PREV] that dis by auto
  qed
  moreover have "load_context ?m u = z" if "(u, z) \<in> set ((n, y) # r)" for u z
  proof -
    have "u \<in> set (n # ?ts)" using that by force
    then have "load_context ?m u = load_context (tmem st) u" by (intro load_context_cong) (auto simp: keep)
    then show ?thesis using rep that by (auto simp: represents_def)
  qed
  then have "load_context ?m n = y" "\<forall>(u, z) \<in> set r. load_context ?m u = z" by auto
  ultimately show ?thesis using rep by (auto simp: represents_def context_switch_def Let_def)
qed

lemma get_field_same:
  "i < 20 \<Longrightarrow> j < 20 \<Longrightarrow> get_field (set_field m t i v) t j = (if i = j then v else get_field m t j)"
  by (simp add: get_set_field other_thread_def)

lemma separate_below:
  assumes "0 < n" "unat a + n \<le> unat b" "unat b + k \<le> 4294967296"
  shows "separate a n b k"
proof -
  have "unat (b - a) = unat b - unat a" "unat (a - b) = 4294967296 + unat a - unat b"
    using assms by (simp_all add: unat_sub32)
  moreover have "k \<le> 4294967296 + unat a - unat b" using assms by linarith
  ultimately show ?thesis using assms by (simp add: separate_def)
qed

text \<open>
  Memory that is left: the heap is above all threads and below the stacks, and there is room for
  \<open>n\<close> more threads, of 96 bytes and a stack each.
\<close>

definition room :: "nat \<Rightarrow> nat \<Rightarrow> 'a machine_scheme \<Rightarrow> u32 list \<Rightarrow> bool" where
  "room n stack st ts \<longleftrightarrow> (\<forall>t\<in>set ts. unat t + 80 \<le> unat (next_heap st)) \<and>
     unat (next_heap st) + 96 * n + stack * n \<le> unat (next_stack st)"

lemma room_heap:
  assumes "room (Suc n) stack st ts" "4096 \<le> stack"
  shows "u \<in> set ts \<Longrightarrow> separate u 80 (next_heap st) 80" "u \<in> set ts \<Longrightarrow> separate (next_heap st) 96 u 80"
    "unat (next_heap st + 96) = unat (next_heap st) + 96"
proof -
  have le: "unat (next_heap st) + 96 < 4294967296"
    using assms unat_lt_pow32 [of "next_stack st"] by (simp add: room_def)
  then show "unat (next_heap st + 96) = unat (next_heap st) + 96" by (subst unat_add32) simp_all
  assume "u \<in> set ts"
  then have "unat u + 80 \<le> unat (next_heap st)" using assms by (simp add: room_def)
  then have "separate u 80 (next_heap st) 96" "separate u 80 (next_heap st) 80"
    using le by (auto intro!: separate_below)
  then show "separate u 80 (next_heap st) 80" "separate (next_heap st) 96 u 80"
    by (simp_all add: separate_commute)
qed

lemma room_stack:
  assumes "room (Suc n) (unat k) st ts" "u \<in> set (next_heap st # ts)" "4096 \<le> unat k"
  shows "separate (next_stack st - k) (unat k) u 80" "unat (next_stack st - k) = unat (next_stack st) - unat k"
proof -
  have le: "unat u + 80 \<le> unat (next_heap st) + 96" "unat (next_heap st) + 96 + unat k \<le> unat (next_stack st)"
    using assms by (auto simp: room_def)
  then show eq: "unat (next_stack st - k) = unat (next_stack st) - unat k" by (simp add: unat_sub32)
  have "separate u 80 (next_stack st - k) (unat k)"
  proof (rule separate_below)
    show "unat u + 80 \<le> unat (next_stack st - k)" using le eq by linarith
    show "unat (next_stack st - k) + unat k \<le> 4294967296"
      using le eq unat_lt_pow32 [of "next_stack st"] by linarith
  qed simp
  then show "separate (next_stack st - k) (unat k) u 80" by (simp add: separate_commute)
qed

text \<open>The first part of \<open>thread_create\<close>: a new object, linked in before thread \<open>c\<close>.\<close>

definition linked_in :: "mem \<Rightarrow> u32 \<Rightarrow> u32 \<Rightarrow> u32 \<Rightarrow> mem" where
  "linked_in m t i c =
     (let p = get_field m c PREV in
      set_field (set_field (set_field (set_field (set_field (set_field (set_field (filled m t 96 0)
        t MAGIC THREAD_MAGIC) t ID i) t NEXT c) t PREV p) p NEXT t) c PREV t) t (CTXT + 3) t)"

definition can_create :: "nat \<Rightarrow> u32 \<Rightarrow> 'a machine_scheme \<Rightarrow> run_queue \<Rightarrow> bool" where
  "can_create n k st q \<longleftrightarrow> represents st q \<and> room (Suc n) (unat k) st (map fst q) \<and> 4096 \<le> unat k"

lemma created_links:
  assumes can: "can_create n k st q"
  defines "c \<equiv> cf_tp (cpu st)" and "t \<equiv> next_heap st" and "ts \<equiv> map fst q"
  shows "get_field (tmem st) c PREV \<in> set ts"
    and "u \<in> set ts \<Longrightarrow> other_thread t u" "u \<in> set ts \<Longrightarrow> other_thread u t" "u \<in> set ts \<Longrightarrow> t \<noteq> u"
    and "u \<in> set ts \<Longrightarrow> v \<in> set ts \<Longrightarrow> other_thread u v" "c \<in> set ts"
proof -
  note can = can [unfolded can_create_def]
  obtain x r where q: "q = (c, x) # r" using can by (cases q) (auto simp: represents_def c_def)
  have "ring (tmem st) ts" using can by (simp add: represents_def ts_def)
  then have dis: "disjoint_threads ts" and ch: "chain (tmem st) c (map fst r) c" by (simp_all add: ts_def q)
  show "get_field (tmem st) c PREV \<in> set ts"
    using chain_last [OF ch] last_in_set [of ts] by (simp add: linked_to_def ts_def q split: if_splits)
  show "c \<in> set ts" by (simp add: ts_def q)
  show "other_thread u v" if "u \<in> set ts" "v \<in> set ts" for u v
    using disjoint_threads_other [OF dis that] .
  show "other_thread t u" "other_thread u t" "t \<noteq> u" if "u \<in> set ts" for u
    using can room_heap(1) [of n "unat k" st ts u] that
    by (auto simp: t_def ts_def other_thread_def separate_commute) (auto simp: separate_def)
qed

lemma created_zero:
  assumes "can_create n k st q" "j < 20"
  shows "u \<in> set (map fst q) \<Longrightarrow> get_field (filled (tmem st) (next_heap st) 96 0) u j = get_field (tmem st) u j"
    "get_field (filled (tmem st) (next_heap st) 96 0) (next_heap st) j = 0"
  using assms filled_outside [OF room_heap(2) [of n "unat k" st "map fst q"]] filled_zero [of j 96]
  by (simp_all add: can_create_def)

lemma created_fields:
  assumes can: "can_create n k st q" "j < 20"
  defines "c \<equiv> cf_tp (cpu st)" and "t \<equiv> next_heap st"
  shows "u \<in> set (map fst q) \<Longrightarrow> get_field (linked_in (tmem st) t i c) u j =
     (if u = get_field (tmem st) c PREV \<and> j = NEXT \<or> u = c \<and> j = PREV then t else get_field (tmem st) u j)"
  "get_field (linked_in (tmem st) t i c) t j =
     (if j = MAGIC then THREAD_MAGIC else if j = ID then i else if j = NEXT then c
      else if j = PREV then get_field (tmem st) c PREV else if j = CTXT + 3 then t else 0)"
proof -
  note links = created_links [OF can(1)]
  from links(4) [OF links(1)] links(4) [OF links(6)]
  have "get_field (tmem st) c PREV \<noteq> t" "c \<noteq> t" by (simp_all add: c_def t_def)
  then show "u \<in> set (map fst q) \<Longrightarrow> get_field (linked_in (tmem st) t i c) u j =
     (if u = get_field (tmem st) c PREV \<and> j = NEXT \<or> u = c \<and> j = PREV then t else get_field (tmem st) u j)"
  "get_field (linked_in (tmem st) t i c) t j =
     (if j = MAGIC then THREAD_MAGIC else if j = ID then i else if j = NEXT then c
      else if j = PREV then get_field (tmem st) c PREV else if j = CTXT + 3 then t else 0)"
    using links created_zero [OF can] can(2)
    by (simp_all add: linked_in_def Let_def get_set_field get_field_same c_def t_def)
qed

lemma created_represents:
  assumes can: "can_create n k st q" and cpu: "cpu st' = cpu st"
    and heap: "next_heap st' = t + 96" "next_stack st' = next_stack st - k" and t: "t = next_heap st"
    and keep: "\<And>u j. u \<in> set (t # map fst q) \<Longrightarrow> j < 20 \<Longrightarrow> u \<noteq> t \<or> j < CTXT \<Longrightarrow>
      get_field (tmem st') u j = get_field (linked_in (tmem st) t i (cf_tp (cpu st))) u j"
    and ctxt: "load_context (tmem st') t = y" "cf_tp y = t"
  shows "represents st' (q @ [(t, y)])" "room n (unat k) st' (map fst q @ [t])"
proof -
  let ?c = "cf_tp (cpu st)" and ?ts = "map fst q"
  have rep: "represents st q" and room: "room (Suc n) (unat k) st ?ts" and k: "4096 \<le> unat k"
    using can by (simp_all add: can_create_def)
  obtain x r where q: "q = (?c, x) # r" using rep by (cases q) (auto simp: represents_def)
  note fields = created_fields [OF can]
  have "represents st' ((?c, x) # r @ [(t, y)])"
  proof (rule represents_insert [OF rep [unfolded q] cpu _ refl _ _ _ ctxt], unfold q [symmetric])
    show "separate u 80 t 80" if "u \<in> set ?ts" for u
      using room_heap(1) [OF room k that] by (simp add: t)
    show "get_field (tmem st') t NEXT = ?c" "get_field (tmem st') t PREV = get_field (tmem st) ?c PREV"
      using fields by (simp_all add: keep t)
    show "get_field (tmem st') u j = (if u = get_field (tmem st) ?c PREV \<and> j = NEXT \<or> u = ?c \<and> j = PREV then t
        else get_field (tmem st) u j)" if "u \<in> set ?ts" "j < 20" for u j
      using that created_links(4) [OF can that(1)] by (subst keep) (auto simp: fields t)
  qed
  then show "represents st' (q @ [(t, y)])" by (subst q) simp
  show "room n (unat k) st' (?ts @ [t])"
    using room room_heap(3) [OF room k] room_stack(2) [OF room _ k, of t] heap
    by (auto simp: room_def t)
qed

text \<open>Memory in which some regions were filled still represents the queue.\<close>

lemma represents_filled:
  assumes "represents st q" "\<And>t. t \<in> set (map fst q) \<Longrightarrow> separate a n t 80"
    and "tmem st' = filled (tmem st) a n b" "cpu st' = cpu st"
  shows "represents st' q"
proof -
  have keep: "get_field (tmem st') t j = get_field (tmem st) t j" if "t \<in> set (map fst q)" "j < 20" for t j
    using filled_outside [OF assms(2) [OF that(1)] that(2)] assms(3) by simp
  then have "ring (tmem st') (map fst q) = ring (tmem st) (map fst q)" by (intro ring_cong) simp_all
  moreover have "load_context (tmem st') t = load_context (tmem st) t" if "(t, r) \<in> set (tl q)" for t r
    using that by (intro load_context_cong keep) (cases q; force)+
  ultimately show ?thesis using assms(1,4) by (fastforce simp: represents_def)
qed

lemma represents_statics:
  "cf_tp (cpu st) = t \<Longrightarrow> tmem st = static_thread0 t m \<Longrightarrow> represents st [(t, cpu st)]"
  by (simp add: represents_def linked_to_def static_thread0_def Let_def get_field_same)

lemma represents_running: "represents st ((t, r) # q) \<Longrightarrow> cpu st = r"
  by (simp add: represents_def)

text \<open>A machine to start from.\<close>

definition no_registers :: cframe where
  "no_registers = \<lparr>cf_pc = 0, cf_sp = 0, cf_gp = 0, cf_tp = 0, cf_s0 = 0, cf_s1 = 0, cf_s2 = 0, cf_s3 = 0,
     cf_s4 = 0, cf_s5 = 0, cf_s6 = 0, cf_s7 = 0, cf_s8 = 0, cf_s9 = 0, cf_s10 = 0, cf_s11 = 0\<rparr>"

definition blank_machine :: machine where
  "blank_machine = \<lparr>tmem = (\<lambda>_. 0), cpu = no_registers, next_stack = 0, next_heap = 0, next_thread_id = 0,
     csr_file = (\<lambda>_. 0), tout = []\<rparr>"

lemma represents_blank:
  "represents (thread_init t (load_statics t st)) [(t, (cpu st)\<lparr>cf_tp := t\<rparr>)]"
  using represents_statics [of "thread_init t (load_statics t st)" t "tmem st"]
  by (simp add: thread_init_def threadptr_set_def load_statics_def)

end
