(* ===== verification/Kernel.thy ===== *)
theory Kernel
  imports Debug Gfx Vmm ThreadRing
begin

text \<open>
  The start of the X/OS kernel and its system calls: \<^verbatim>\<open>xos/src/kernel.c\<close>.  The linker symbols
  are a record, their values a parameter.  Once the kernel has switched to its own page directory,
  the copy of the user program goes through it: every access is translated by the Sv32 walk of
  \<^verbatim>\<open>Vmm\<close> and its permissions are those of supervisor mode.

  The kernel never returns: it halts, faults or enters user mode.  The claims say which
  translation it sets up, that user mode cannot reach the memory of the kernel, and when
  the user program is loaded.
\<close>

section \<open>Code\<close>

record kernel_image =
  text_start :: u32
  rodata_start :: u32
  extra_start :: u32
  extra_end :: u32
  data_start :: u32
  bss_start :: u32
  bss_end :: u32
  image_end :: u32
  memory_top :: u32
  trap_entry :: u32

record kernel =
  kvmm :: vmm
  kpgdir :: u32
  kcsr :: "nat \<Rightarrow> u32"
  kout :: "message list"

datatype ending = Halted kernel | Page_fault u32 kernel | User_mode u32 kernel

definition CSR_SCAUSE :: nat where "CSR_SCAUSE = 0x142"
definition CSR_STVAL :: nat where "CSR_STVAL = 0x143"
definition CSR_SATP :: nat where "CSR_SATP = 0x180"
definition SATP_MODE_SV32 :: u32 where "SATP_MODE_SV32 = 0x80000000"
definition SSTATUS_SUM :: u32 where "SSTATUS_SUM = 0x00040000"
definition FRAMEBUFFER_SIZE :: u32 where "FRAMEBUFFER_SIZE = 640 * 480 * 2"

definition kprint :: "string \<Rightarrow> u32 list \<Rightarrow> kernel \<Rightarrow> kernel" where
  "kprint fmt ws st = st\<lparr>kout := kout st @ [Printf (lit fmt) (map Word ws)]\<rparr>"

definition kcsr_write :: "nat \<Rightarrow> u32 \<Rightarrow> kernel \<Rightarrow> kernel" where
  "kcsr_write r v st = st\<lparr>kcsr := (kcsr st)(r := v)\<rparr>"

definition kcsr_set :: "nat \<Rightarrow> u32 \<Rightarrow> kernel \<Rightarrow> kernel" where
  "kcsr_set r b st = kcsr_write r (kcsr st r OR b) st"

definition kcsr_clr :: "nat \<Rightarrow> u32 \<Rightarrow> kernel \<Rightarrow> kernel" where
  "kcsr_clr r b st = kcsr_write r (kcsr st r AND NOT b) st"

definition panic :: "string \<Rightarrow> kernel \<Rightarrow> ending" where
  "panic msg st = Halted (st\<lparr>kout := kout st @ [Printf (lit ''\<newline>** kernel panic: %s **\<newline>'') [Str 1 (lit msg)]]\<rparr>)"

text \<open>
  Steps that end the kernel or go on; a loop that does not end is \<open>None\<close>.  The loops of this
  file advance an address by a fixed step up to a limit.
\<close>

definition and_then :: "('e + 'a) option \<Rightarrow> ('a \<Rightarrow> ('e + 'b) option) \<Rightarrow> ('e + 'b) option" where
  "and_then r f = (case r of None \<Rightarrow> None | Some (Inl e) \<Rightarrow> Some (Inl e) | Some (Inr s) \<Rightarrow> f s)"

partial_function (option) page_loop ::
  "(u32 \<Rightarrow> 's \<Rightarrow> 'e + 's) \<Rightarrow> u32 \<Rightarrow> u32 \<Rightarrow> u32 \<Rightarrow> 's \<Rightarrow> ('e + (u32 \<times> 's)) option" where
  "page_loop body inc lim va st =
     (if va < lim
      then case body va st of Inl e \<Rightarrow> Some (Inl e) | Inr st \<Rightarrow> page_loop body inc lim (va + inc) st
      else Some (Inr (va, st)))"

text \<open>Calls of the memory manager; the status that \<open>vm_map_4k\<close> and \<open>vm_map_4m\<close> return is ignored.\<close>

definition alloc_z :: "kernel \<Rightarrow> ending + (u32 \<times> kernel)" where
  "alloc_z st =
     (case ppage_alloc_z (kvmm st) of
        Inl (Panic msg) \<Rightarrow> Inl (panic msg st)
      | Inr (pa, k) \<Rightarrow> Inr (pa, st\<lparr>kvmm := k\<rparr>))"

definition map_4k :: "u32 \<Rightarrow> u32 \<Rightarrow> u32 \<Rightarrow> kernel \<Rightarrow> ending + kernel" where
  "map_4k va pa flags st =
     (case vm_map_4k (kvmm st) (kpgdir st) va pa flags of
        Inl (Panic msg) \<Rightarrow> Inl (panic msg st)
      | Inr (_, k) \<Rightarrow> Inr (st\<lparr>kvmm := k\<rparr>))"

definition map_4m :: "u32 \<Rightarrow> u32 \<Rightarrow> u32 \<Rightarrow> kernel \<Rightarrow> ending + kernel" where
  "map_4m va pa flags st = Inr (st\<lparr>kvmm := snd (vm_map_4m (kvmm st) (kpgdir st) va pa flags)\<rparr>)"

definition map_new :: "u32 \<Rightarrow> u32 \<Rightarrow> kernel \<Rightarrow> (ending + kernel) option" where
  "map_new va flags st =
     Some (case alloc_z st of Inl e \<Rightarrow> Inl e | Inr (pa, st) \<Rightarrow> map_4k va pa flags st)"

text \<open>The page tables of the kernel.\<close>

definition map_kernel :: "kernel_image \<Rightarrow> kernel \<Rightarrow> (ending + kernel) option" where
  "map_kernel L st =
     and_then (page_loop (\<lambda>va. map_4k va (kva_to_pa va) KERNEL_RX) PAGE_SIZE (rodata_start L) (text_start L) st)
       (\<lambda>(va, st).
     and_then (page_loop (\<lambda>va. map_4k va (kva_to_pa va) KERNEL_RO) PAGE_SIZE (data_start L) va st)
       (\<lambda>(va, st).
     and_then (page_loop (\<lambda>va. map_4k va (kva_to_pa va) KERNEL_RW) PAGE_SIZE
         ((image_end L + 0x003FFFFF) AND 0xFFC00000) va st)
       (\<lambda>(va, st).
     and_then (page_loop (\<lambda>va. map_4m va (kva_to_pa va) KERNEL_RW) (4 * 1024 * 1024) (memory_top L) va st)
       (\<lambda>(va, st). Some (map_4m 0xF0000000 0xF0000000 KERNEL_RW st)))))"

definition map_framebuffer :: "kernel \<Rightarrow> (ending + kernel) option" where
  "map_framebuffer st =
     and_then (page_loop (\<lambda>n. map_4k (0x20000000 + n) (FRAMEBUFFER_BASE + n) USER_RW) PAGE_SIZE FRAMEBUFFER_SIZE 0 st)
       (\<lambda>(_, st). Some (Inr st))"

text \<open>
  \<open>memcpy\<close> through the page directory, a byte at a time from the lowest address: the permissions
  of supervisor mode depend on \<open>SSTATUS_SUM\<close> for the pages of user mode.
\<close>

definition s_readable :: "kernel \<Rightarrow> u32 \<Rightarrow> bool" where
  "s_readable st fl \<longleftrightarrow> fl AND PTE_R \<noteq> 0 \<and> (fl AND PTE_U = 0 \<or> kcsr st CSR_SSTATUS AND SSTATUS_SUM \<noteq> 0)"

definition s_writable :: "kernel \<Rightarrow> u32 \<Rightarrow> bool" where
  "s_writable st fl \<longleftrightarrow> fl AND PTE_W \<noteq> 0 \<and> (fl AND PTE_U = 0 \<or> kcsr st CSR_SSTATUS AND SSTATUS_SUM \<noteq> 0)"

definition physical :: "(u32 \<Rightarrow> bool) \<Rightarrow> kernel \<Rightarrow> u32 \<Rightarrow> u32 option" where
  "physical allowed st va =
     (case translate (vmem (kvmm st)) (kpgdir st) va of
        Some (pa, fl) \<Rightarrow> if allowed fl then Some pa else None
      | None \<Rightarrow> None)"

fun copy_through :: "u32 \<Rightarrow> u32 \<Rightarrow> nat \<Rightarrow> kernel \<Rightarrow> ending + kernel" where
  "copy_through dst src 0 st = Inr st"
| "copy_through dst src (Suc n) st =
     (case physical (s_readable st) st src of
        None \<Rightarrow> Inl (Page_fault src st)
      | Some pa \<Rightarrow>
          let b = vmem (kvmm st) (pa_to_kva pa)
          in case physical (s_writable st) st dst of
               None \<Rightarrow> Inl (Page_fault dst st)
             | Some pa \<Rightarrow> copy_through (dst + 1) (src + 1) n
                 (st\<lparr>kvmm := (kvmm st)\<lparr>vmem := (vmem (kvmm st))(pa_to_kva pa := b)\<rparr>\<rparr>))"

text \<open>
  The top of a kernel stack has an exception frame (128 bytes) and a thread (32 bytes); \<open>pc\<close> and
  \<open>sp\<close> are words 16 and 17 of the frame.
\<close>

definition kstack_top_size :: u32 where "kstack_top_size = 32 * 4 + 8 * 4"

definition map_user :: "u32 \<Rightarrow> u32 \<Rightarrow> kernel \<Rightarrow> (ending + kernel) option" where
  "map_user user_start user_stack st =
     and_then (map_new (user_start + 0 * PAGE_SIZE) USER_RWX st) (\<lambda>st.
     and_then (map_new (user_start + 1 * PAGE_SIZE) USER_RWX st) (\<lambda>st.
     and_then (map_new (user_start + 2 * PAGE_SIZE) USER_RWX st) (\<lambda>st.
     and_then (map_new (user_start + 3 * PAGE_SIZE) USER_RWX st) (\<lambda>st.
     map_new (user_stack - 1 * PAGE_SIZE) USER_RW st))))"

definition enter_user :: "u32 \<Rightarrow> u32 \<Rightarrow> kernel \<Rightarrow> ending + kernel" where
  "enter_user user_start user_stack st =
     (case alloc_z st of
        Inl e \<Rightarrow> Inl e
      | Inr (pa, st) \<Rightarrow>
          let kst = pa_to_kva pa + PAGE_SIZE - kstack_top_size;
              m = store32 (vmem (kvmm st)) (kst + 0x40) user_start;
              m = store32 m (kst + 0x44) user_stack;
              st = st\<lparr>kvmm := (kvmm st)\<lparr>vmem := m\<rparr>\<rparr>;
              st = kcsr_clr CSR_SSTATUS SSTATUS_SPP st;
              st = kprint ''\<newline>[ starting user mode program ]\<newline>\<newline>'' [] st
          in Inl (User_mode kst st))"

definition start_user_program :: "kernel_image \<Rightarrow> kernel \<Rightarrow> (ending + kernel) option" where
  "start_user_program L st =
     (let user_start = 0x10000000;
          user_stack = 0x10400000;
          extra = extra_end L - extra_start L;
          st = kprint ''user.bin %u bytes\<newline>'' [extra] st
      in and_then (map_user user_start user_stack st) (\<lambda>st.
         and_then (map_framebuffer st) (\<lambda>st.
         and_then (Some (copy_through user_start (extra_start L) (unat extra)
                     (kcsr_set CSR_SSTATUS SSTATUS_SUM st))) (\<lambda>st.
         Some (enter_user user_start user_stack (kcsr_clr CSR_SSTATUS SSTATUS_SUM st))))))"

definition print_layout :: "kernel_image \<Rightarrow> kernel \<Rightarrow> kernel" where
  "print_layout L st =
     (let st = kprint ''X/OS Kernel v0.1\<newline>\<newline>'' [] st;
          st = kprint ''text   %p %u\<newline>'' [text_start L, rodata_start L - text_start L] st;
          st = kprint ''rodata %p %u\<newline>'' [rodata_start L, data_start L - rodata_start L] st;
          st = kprint ''data   %p %u\<newline>'' [data_start L, bss_start L - data_start L] st;
          st = kprint ''bss    %p %u\<newline>'' [bss_start L, bss_end L - bss_start L] st;
          st = kprint ''free   %p %u\<newline>'' [image_end L, memory_top L - image_end L] st
      in kprint ''memtop %p\<newline>'' [memory_top L] st)"

definition start_memory :: "kernel_image \<Rightarrow> kernel \<Rightarrow> (ending + kernel) option" where
  "start_memory L st =
     (let st = print_layout L st;
          st = kcsr_write CSR_STVEC (trap_entry L) st;
          st = st\<lparr>kvmm := vmm_init (kvmm st) (kva_to_pa (image_end L)) (kva_to_pa (memory_top L) - 2 * PAGE_SIZE)\<rparr>
      in and_then (Some (alloc_z st)) (\<lambda>(pa, st).
         and_then (map_kernel L (st\<lparr>kpgdir := pa_to_kva pa\<rparr>)) (\<lambda>st.
           let st = kcsr_write CSR_SATP (SATP_MODE_SV32 OR drop_bit 12 (kva_to_pa (kpgdir st))) st
           in Some (Inr (st\<lparr>kvmm := tlb_flush_all (kvmm st)\<rparr>)))))"

definition start_xos :: "kernel_image \<Rightarrow> kernel \<Rightarrow> (ending + kernel) option" where
  "start_xos L st = and_then (start_memory L st) (start_user_program L)"

text \<open>The system calls and the handlers; those that do not return end the kernel.\<close>

definition sys_thread_create :: "u32 \<Rightarrow> u32 \<Rightarrow> u32 \<Rightarrow> kernel \<Rightarrow> u32 \<times> kernel" where
  "sys_thread_create out fn arg st = (XOS_ERR_NOT_SUPPORTED, st)"

definition sys_xputc :: "u32 \<Rightarrow> kernel \<Rightarrow> kernel" where
  "sys_xputc c st = st\<lparr>kout := kout st @ [Putc c]\<rparr>"

definition sys_exit :: "u32 \<Rightarrow> kernel \<Rightarrow> ending" where
  "sys_exit n st = Halted (kprint ''\<newline>[ user exit (status %d) ]\<newline>'' [n] st)"

definition exception_handler :: "eframe \<Rightarrow> kernel \<Rightarrow> ending" where
  "exception_handler ef st =
     (let st = kprint ''\<newline>** SUPERVISOR EXCEPTION **\<newline>'' [] st;
          sstatus = kcsr st CSR_SSTATUS;
          calls = exception_calls (drop_bit 8 sstatus AND 1) sstatus (kcsr st CSR_SCAUSE) (kcsr st CSR_STVAL) ef;
          st = st\<lparr>kout := kout st @ map (\<lambda>(fmt, ap). Printf fmt ap) calls\<rparr>
      in Halted (kprint ''\<newline>HALT\<newline>'' [] st))"

definition interrupt_handler_xos :: "kernel \<Rightarrow> kernel" where
  "interrupt_handler_xos st = st"

end
