(* ===== verification/Tables.thy ===== *)
theory Tables
  imports Vmm
begin

text \<open>
  Page tables while a kernel starts: which pages hold them, that every valid entry has the
  type of its level, and that mapping pages takes new tables from the free pages and writes to
  tables only.  \<open>space hi U k pdir\<close> says that the tables and the pages \<open>U\<close> given out
  otherwise lie between the free pages and \<open>hi\<close>, and do not overlap.
\<close>

section \<open>Pages as regions of memory\<close>

text \<open>Address \<open>a\<close> of the linear map is a byte of the physical page \<open>q\<close>.\<close>

definition in_page :: "u32 \<Rightarrow> u32 \<Rightarrow> bool" where
  "in_page q a \<longleftrightarrow> unat (a - pa_to_kva q) < 4096"

text \<open>Two memories are the same except for the pages of a set.\<close>

definition same_outside :: "u32 set \<Rightarrow> mem \<Rightarrow> mem \<Rightarrow> bool" where
  "same_outside S m m' \<longleftrightarrow> (\<forall>a. (\<forall>q\<in>S. \<not> in_page q a) \<longrightarrow> m' a = m a)"

lemma same_outside_refl [simp]: "same_outside S m m"
  by (simp add: same_outside_def)

lemma same_outside_trans:
  "same_outside S m m' \<Longrightarrow> same_outside T m' m'' \<Longrightarrow> S \<subseteq> R \<Longrightarrow> T \<subseteq> R \<Longrightarrow> same_outside R m m''"
  unfolding same_outside_def by (metis subsetD)

lemma same_outside_mono: "same_outside S m m' \<Longrightarrow> S \<subseteq> R \<Longrightarrow> same_outside R m m'"
  unfolding same_outside_def by blast

lemma same_outside_filled: "same_outside {q} m (filled m (pa_to_kva q) 4096 b)"
  by (simp add: same_outside_def in_page_def filled_def)

lemma same_outside_set_entry:
  assumes "i < 1024" shows "same_outside {q} m (set_entry m (pa_to_kva q) i v)"
  unfolding same_outside_def
proof (intro allI impI)
  fix a assume "\<forall>q\<in>{q}. \<not> in_page q a"
  then have far: "4096 \<le> unat (a - pa_to_kva q)" by (simp add: in_page_def)
  have i: "unat (4 * i) = 4 * unat i" "unat i < 1024"
    using assms unat_word_ariths(2) [of 4 i] by (simp_all add: word_less_nat_alt)
  define x where "x = a - pa_to_kva q"
  have "unat (x - 4 * i) = unat x - 4 * unat i"
    using far i unfolding x_def [symmetric] by (simp add: unat_sub32)
  then have "unat (a - (pa_to_kva q + 4 * i)) = unat (a - pa_to_kva q) - 4 * unat i"
    by (simp add: x_def algebra_simps)
  then show "set_entry m (pa_to_kva q) i v a = m a"
    unfolding set_entry_def using far i by (intro store32_outside) linarith
qed

lemma in_page_unique:
  assumes "page p" "page q" "in_page p a" "in_page q a" shows "p = q"
proof -
  have "4096 dvd unat (pa_to_kva p)" "4096 dvd unat (pa_to_kva q)"
    using assms(1,2) by (simp_all flip: page_dvd)
  then obtain i j where ij: "unat (pa_to_kva p) = 4096 * i" "unat (pa_to_kva q) = 4096 * j"
    by (auto elim!: dvdE)
  have "i = j"
    using assms(3,4) ij unat_lt_pow32 [of a] unat_lt_pow32 [of "pa_to_kva p"] unat_lt_pow32 [of "pa_to_kva q"]
    unfolding in_page_def unat_sub32 by (auto split: if_splits)
  with ij have "pa_to_kva p = pa_to_kva q" by (simp add: word_unat_eq_iff)
  then show ?thesis by simp
qed

section \<open>The pages that hold the tables\<close>

definition tables :: "mem \<Rightarrow> u32 \<Rightarrow> u32 set" where
  "tables m pdir = insert (kva_to_pa pdir)
     {PTE_PA (entry m pdir i) | i. i < 1024 \<and> points (entry m pdir i)}"

text \<open>Every valid entry is what its level allows.\<close>

definition typed :: "mem \<Rightarrow> u32 \<Rightarrow> bool" where
  "typed m pdir \<longleftrightarrow> (\<forall>i<1024.
     (valid (entry m pdir i) \<and> leaf (entry m pdir i) \<longrightarrow> PTE_PA (entry m pdir i) AND 0x3FFFFF = 0) \<and>
     (points (entry m pdir i) \<longrightarrow> (\<forall>j<1024.
        valid (entry m (pa_to_kva (PTE_PA (entry m pdir i))) j) \<longrightarrow>
        leaf (entry m (pa_to_kva (PTE_PA (entry m pdir i))) j))))"

definition space :: "u32 \<Rightarrow> u32 set \<Rightarrow> vmm \<Rightarrow> u32 \<Rightarrow> bool" where
  "space hi U k pdir \<longleftrightarrow> vmm_wf k pdir \<and> typed (vmem k) pdir \<and> pa_top k \<le> hi \<and>
     (\<forall>q \<in> tables (vmem k) pdir. pa_top k \<le> q \<and> q < hi \<and> q \<notin> U) \<and>
     (\<forall>q \<in> U. page q \<and> pa_top k \<le> q \<and> q < hi)"

text \<open>What a step does besides changing the translation.\<close>

definition extends :: "u32 \<Rightarrow> u32 set \<Rightarrow> vmm \<Rightarrow> vmm \<Rightarrow> bool" where
  "extends pdir U k k' \<longleftrightarrow> pa_bottom k' = pa_bottom k \<and> pa_top k' \<le> pa_top k \<and>
     tables (vmem k) pdir \<subseteq> tables (vmem k') pdir \<and>
     same_outside (tables (vmem k') pdir \<union> U) (vmem k) (vmem k')"

lemma grown_refl [simp]: "extends pdir U k k"
  by (simp add: extends_def)

lemma grown_trans:
  assumes "extends pdir U k k'" "extends pdir V k' k''" "U \<subseteq> W" "V \<subseteq> W"
  shows "extends pdir W k k''"
proof -
  have "tables (vmem k') pdir \<union> U \<subseteq> tables (vmem k'') pdir \<union> W"
    using assms by (auto simp: extends_def)
  moreover have "tables (vmem k'') pdir \<union> V \<subseteq> tables (vmem k'') pdir \<union> W" using assms(4) by blast
  ultimately show ?thesis
    using assms(1,2) unfolding extends_def by (auto intro: same_outside_trans)
qed

lemma untranslated:
  assumes "typed (vmem k) pdir" "translate (vmem k) pdir va = None"
  shows "\<not> valid (dir_entry k pdir va) \<or> points (dir_entry k pdir va) \<and> \<not> valid (table_entry k pdir va)"
proof (cases "valid (dir_entry k pdir va)")
  case True
  have "va_idx1 va < 1024" "va_idx0 va < 1024" by simp_all
  with assms True show ?thesis
    unfolding typed_def translate_def dir_entry_def table_entry_def points_def Let_def
    by (metis option.distinct(1))
qed simp

lemma spaceD:
  assumes "space hi U k pdir"
  shows "vmm_ok k" "tables_ok (vmem k) pdir (vmm_free k)" "typed (vmem k) pdir"
    "page pdir" "pa_top k \<le> hi" "q \<in> tables (vmem k) pdir \<Longrightarrow> pa_top k \<le> q \<and> q < hi \<and> q \<notin> U"
    "q \<in> U \<Longrightarrow> page q \<and> pa_top k \<le> q \<and> q < hi"
    "q \<in> tables (vmem k) pdir \<Longrightarrow> page q"
proof -
  show *: "vmm_ok k" "tables_ok (vmem k) pdir (vmm_free k)" "typed (vmem k) pdir" "pa_top k \<le> hi"
    "q \<in> tables (vmem k) pdir \<Longrightarrow> pa_top k \<le> q \<and> q < hi \<and> q \<notin> U"
    "q \<in> U \<Longrightarrow> page q \<and> pa_top k \<le> q \<and> q < hi"
    using assms by (auto simp: space_def vmm_wf_def)
  show pg: "page pdir" by (rule tables_okD(1) [OF *(2)])
  have "page (kva_to_pa pdir)" using pg page_kva [of "kva_to_pa pdir"] by simp
  then show "q \<in> tables (vmem k) pdir \<Longrightarrow> page q" by (auto simp: tables_def)
qed

lemma tables_eq:
  assumes "\<And>i. i < 1024 \<Longrightarrow> entry m' pdir i = entry m pdir i" shows "tables m' pdir = tables m pdir"
  using assms unfolding tables_def by (intro arg_cong [where f = "insert _"] Collect_cong) metis

section \<open>Writes outside the tables\<close>

lemma entry_same_outside:
  assumes "same_outside S m m'" "page q" "\<And>p. p \<in> S \<Longrightarrow> page p \<and> p \<noteq> q" "j < 1024"
  shows "entry m' (pa_to_kva q) j = entry m (pa_to_kva q) j"
  unfolding entry_def
proof (rule load32_cong)
  fix k :: nat assume k: "k < 4"
  have q: "page (pa_to_kva q)" using assms(2) by simp
  have "unat (4 * j) = 4 * unat j" "unat j < 1024"
    using assms(4) unat_word_ariths(2) [of 4 j] by (simp_all add: word_less_nat_alt)
  then have "unat (4 * j + of_nat k) < 4096"
    using k by (simp add: unat_add32 unat_of_nat32)
  then have "in_page q (pa_to_kva q + 4 * j + of_nat k)"
    by (simp add: in_page_def add.assoc)
  then have "\<not> in_page p (pa_to_kva q + 4 * j + of_nat k)" if "p \<in> S" for p
    using in_page_unique [OF _ assms(2)] assms(3) [OF that] by blast
  then show "m' (pa_to_kva q + 4 * j + of_nat k) = m (pa_to_kva q + 4 * j + of_nat k)"
    using assms(1) by (simp add: same_outside_def)
qed

lemma tables_ok_mono: "tables_ok m pdir f \<Longrightarrow> (\<And>q. g q \<Longrightarrow> f q) \<Longrightarrow> tables_ok m pdir g"
  unfolding tables_ok_def by blast

text \<open>When the tables keep their entries, everything about them stays.\<close>

lemma same_entries:
  assumes "\<And>q j. q \<in> tables m pdir \<Longrightarrow> j < 1024 \<Longrightarrow> entry m' (pa_to_kva q) j = entry m (pa_to_kva q) j"
  shows "tables m' pdir = tables m pdir" "translate m' pdir va = translate m pdir va"
    "typed m' pdir = typed m pdir" "tables_ok m pdir f \<Longrightarrow> tables_ok m' pdir f"
proof -
  have dir: "entry m' pdir i = entry m pdir i" if "i < 1024" for i
    using assms [of "kva_to_pa pdir" i] that by (simp add: tables_def)
  have tbl: "entry m' (pa_to_kva (PTE_PA (entry m pdir i))) j = entry m (pa_to_kva (PTE_PA (entry m pdir i))) j"
    if "i < 1024" "j < 1024" "points (entry m pdir i)" for i j
    using that by (intro assms) (auto simp: tables_def)
  show "tables m' pdir = tables m pdir" by (rule tables_eq [OF dir])
  show "tables_ok m pdir f \<Longrightarrow> tables_ok m' pdir f" by (rule tables_ok_cong [OF _ dir])
  show "translate m' pdir va = translate m pdir va" by (rule translate_cong) (simp_all add: dir tbl)
  show "typed m' pdir = typed m pdir" unfolding typed_def by (simp add: dir tbl cong: imp_cong)
qed

lemma space_touch:
  assumes "space hi U k pdir" "same_outside S (vmem k) m'" "\<And>p. p \<in> S \<Longrightarrow> page p \<and> p \<notin> tables (vmem k) pdir"
  shows "space hi U (k\<lparr>vmem := m'\<rparr>) pdir" "tables m' pdir = tables (vmem k) pdir"
    "translate m' pdir va = translate (vmem k) pdir va"
proof -
  have "entry m' (pa_to_kva q) j = entry (vmem k) (pa_to_kva q) j" if "q \<in> tables (vmem k) pdir" "j < 1024" for q j
    using assms(3) that by (intro entry_same_outside [OF assms(2) spaceD(8) [OF assms(1)]]) auto
  note same = same_entries [OF this]
  show "tables m' pdir = tables (vmem k) pdir" "translate m' pdir va = translate (vmem k) pdir va"
    by (rule same; assumption)+
  show "space hi U (k\<lparr>vmem := m'\<rparr>) pdir"
    using assms(1) same by (simp add: space_def vmm_wf_def)
qed

lemma space_alloc:
  assumes sp: "space hi U k pdir" and a: "ppage_alloc_z k = Inr (pa, k')"
  shows "space hi (insert pa U) k' pdir" "tables (vmem k') pdir = tables (vmem k) pdir"
    "translate (vmem k') pdir va = translate (vmem k) pdir va" "extends pdir {pa} k k'"
    "pa_top k' = pa_top k - 4096" "pa < pa_top k" "pa_bottom k' = pa_bottom k" "pa_bottom k \<le> pa"
    "vmem k' = filled (vmem k) (pa_to_kva pa) 4096 0" "page pa"
    "unat (pa_top k) = unat (pa_top k') + 4096"
proof -
  note D = spaceD [OF sp]
  note ok = ppage_alloc_z_ok [OF D(1) a]
  have free: "vmm_free k pa" by (rule ok(3))
  then show pa: "page pa" "pa < pa_top k" "pa_bottom k \<le> pa" by (simp_all add: vmm_free_def)
  show top: "pa_top k' = pa_top k - 4096"
    using a by (auto simp: ppage_alloc_z_def PAGE_SIZE_def Let_def split: if_splits)
  have fields: "pa_top k' = pa" "pa_bottom k' = pa_bottom k" using ok(5) by simp_all
  then show "pa_bottom k' = pa_bottom k" by simp
  have "page (pa_top k)" "page (pa_bottom k)" "pa_bottom k < pa_top k"
    using D(1) pa by (auto simp: vmm_ok_def)
  from page_below(1) [OF this] slot_address(2) [OF this(1), of 0]
  show "unat (pa_top k) = unat (pa_top k') + 4096"
    using \<open>pa_bottom k < pa_top k\<close> \<open>page (pa_top k)\<close> unfolding top page_dvd
    by (auto simp: word_less_nat_alt dest: dvd_imp_le)
  show mem: "vmem k' = filled (vmem k) (pa_to_kva pa) 4096 0" by (rule ok(6))
  have out: "same_outside {pa} (vmem k) (vmem k')" unfolding mem by (rule same_outside_filled)
  have new: "pa \<notin> tables (vmem k) pdir" "pa \<notin> U" using D(6,7) [of pa] pa(2) by auto
  note touch = space_touch [OF sp out]
  show same: "tables (vmem k') pdir = tables (vmem k) pdir" "translate (vmem k') pdir va = translate (vmem k) pdir va"
    using new pa by (auto intro!: touch)
  then show "extends pdir {pa} k k'"
    using out fields pa by (auto simp: extends_def intro: same_outside_mono)
  have "space hi U (k\<lparr>vmem := vmem k'\<rparr>) pdir" using new pa by (auto intro!: touch)
  then have "tables_ok (vmem k') pdir (vmm_free k)" and ty: "typed (vmem k') pdir" using spaceD(2,3) by fastforce+
  then have "vmm_wf k' pdir"
    using ok(1,4) tables_ok_mono unfolding vmm_wf_def by blast
  moreover have "pa \<le> q" if "pa_top k \<le> q" for q using that pa(2) by simp
  ultimately show "space hi (insert pa U) k' pdir"
    using D(5-7) new pa fields ty unfolding space_def same(1) by auto
qed

section \<open>New tables, pages and megapages\<close>

lemma space_new_table:
  assumes sp: "space hi U k pdir" and a: "ppage_alloc_z k = Inr (q, k1)"
    and i: "i < 1024" "\<not> valid (entry (vmem k) pdir i)"
  defines "m \<equiv> set_entry (vmem k1) pdir i (drop_bit 2 q OR PTE_V)"
  shows "space hi U (k1\<lparr>vmem := m\<rparr>) pdir" "tables m pdir = insert q (tables (vmem k) pdir)"
    "same_outside (tables m pdir) (vmem k) m" "translate m pdir va = translate (vmem k) pdir va"
    "points (entry m pdir i)" "PTE_PA (entry m pdir i) = q"
    "j < 1024 \<Longrightarrow> entry m (pa_to_kva q) j = 0"
    "j < 1024 \<Longrightarrow> j \<noteq> i \<Longrightarrow> entry m pdir j = entry (vmem k) pdir j"
proof -
  note D = spaceD [OF sp] and A = space_alloc [OF sp a]
  note T = xos.new_table [OF D(1) a D(2) i, folded m_def]
  note ptr = make_pointer [OF A(10)]
  have kva: "pdir = pa_to_kva (kva_to_pa pdir)" by simp
  have new: "q \<notin> tables (vmem k) pdir" using D(6) [of q] A(6) by auto
  then have qdir: "pa_to_kva q \<noteq> pdir" by (auto simp: tables_def)
  have "same_outside {kva_to_pa pdir} (vmem k1) m"
    unfolding m_def by (subst kva, rule same_outside_set_entry [OF i(1)])
  then have out: "same_outside {q, kva_to_pa pdir} (vmem k) m"
    using same_outside_filled [of q "vmem k" 0] unfolding A(9) by (auto elim!: same_outside_trans)
  have old: "entry (vmem k1) (pa_to_kva p) j = entry (vmem k) (pa_to_kva p) j" if "p \<in> tables (vmem k) pdir" "j < 1024" for p j
    using that new A(9,10) D(8) by (auto simp: entry_filled)
  show dir: "entry m pdir j = entry (vmem k) pdir j" if "j < 1024" "j \<noteq> i" for j
    using that i(1) D(4) old [of "kva_to_pa pdir" j] by (simp add: m_def entry_set_other tables_def)
  show pts: "points (entry m pdir i)" and pa: "PTE_PA (entry m pdir i) = q" using T(3) ptr by simp_all
  show zero: "entry m (pa_to_kva q) j = 0" if "j < 1024" for j by (rule T(4) [OF that])
  show "translate m pdir va = translate (vmem k) pdir va" by (rule T(2))
  have entries: "points (entry m pdir j) \<longleftrightarrow> j = i \<or> points (entry (vmem k) pdir j)" if "j < 1024" for j
    using that dir pts by (cases "j = i") auto
  have pas: "PTE_PA (entry m pdir j) = (if j = i then q else PTE_PA (entry (vmem k) pdir j))" if "j < 1024" for j
    using that dir pa by simp
  have nopt: "\<not> points (entry (vmem k) pdir i)" using i(2) by (simp add: points_def)
  have "(\<exists>j. x = PTE_PA (entry m pdir j) \<and> j < 1024 \<and> points (entry m pdir j)) \<longleftrightarrow>
    x = q \<or> (\<exists>j. x = PTE_PA (entry (vmem k) pdir j) \<and> j < 1024 \<and> points (entry (vmem k) pdir j))" for x
    using entries pas nopt i(1) by metis
  then show tab: "tables m pdir = insert q (tables (vmem k) pdir)"
    unfolding tables_def by auto
  show "same_outside (tables m pdir) (vmem k) m"
    by (rule same_outside_mono [OF out]) (unfold tab, simp add: tables_def)
  have tbl: "entry m (pa_to_kva (PTE_PA (entry m pdir j))) x = entry (vmem k) (pa_to_kva (PTE_PA (entry (vmem k) pdir j))) x"
    if "j < 1024" "j \<noteq> i" "points (entry (vmem k) pdir j)" "x < 1024" for j x
  proof -
    have "PTE_PA (entry (vmem k) pdir j) \<in> tables (vmem k) pdir" using that by (auto simp: tables_def)
    moreover have "pa_to_kva (PTE_PA (entry (vmem k) pdir j)) \<noteq> pdir" by (rule tables_okD(4) [OF D(2) that(1,3)])
    ultimately show ?thesis
      using that i(1) D(4) old dir by (simp add: m_def entry_set_other)
  qed
  have "typed m pdir"
    unfolding typed_def
  proof (intro allI impI)
    fix j :: u32 assume j: "j < 1024"
    show "(valid (entry m pdir j) \<and> leaf (entry m pdir j) \<longrightarrow> PTE_PA (entry m pdir j) AND 0x3FFFFF = 0) \<and>
      (points (entry m pdir j) \<longrightarrow> (\<forall>x<1024. valid (entry m (pa_to_kva (PTE_PA (entry m pdir j))) x) \<longrightarrow>
        leaf (entry m (pa_to_kva (PTE_PA (entry m pdir j))) x)))"
    proof (cases "j = i")
      case True
      then show ?thesis using pts pa zero by (auto simp: points_def valid_def)
    next
      case False
      then show ?thesis using j D(3) dir tbl by (auto simp: typed_def)
    qed
  qed
  moreover have "vmm_ok k1" by (rule ppage_alloc_z_ok(1) [OF D(1) a])
  moreover have "pa_top k1 = q" using ppage_alloc_z_ok(5) [OF D(1) a] by simp
  moreover have "q \<le> p" if "pa_top k \<le> p" for p using A(6) that by simp
  moreover have "q < hi" using A(6) D(5) by simp
  moreover have "q \<notin> U" using A(6) D(7) [of q] by auto
  ultimately show "space hi U (k1\<lparr>vmem := m\<rparr>) pdir"
    using T(1) D(6,7) by (simp add: space_def vmm_wf_def tab)
qed

lemma space_map_leaf:
  fixes k pdir va pa flags
  defines "tbl \<equiv> PTE_PA (entry (vmem k) pdir (va_idx1 va))"
  defines "m \<equiv> set_entry (vmem k) (pa_to_kva tbl) (va_idx0 va) (drop_bit 2 pa OR (flags AND 0x3FF))"
  assumes sp: "space hi U k pdir" and pt: "points (entry (vmem k) pdir (va_idx1 va))"
    and pa: "page pa" and flags: "valid flags" "leaf flags"
  shows "space hi U (k\<lparr>vmem := m\<rparr>) pdir" "tables m pdir = tables (vmem k) pdir"
    "same_outside (tables m pdir) (vmem k) m" "maps_page pdir (vmem k) m va pa flags"
    "j < 1024 \<Longrightarrow> entry m pdir j = entry (vmem k) pdir j"
proof -
  note D = spaceD [OF sp]
  note L = map_leaf [OF D(2) pt pa flags, folded tbl_def, folded m_def]
  have t: "tbl \<in> tables (vmem k) pdir" using pt by (auto simp: tbl_def tables_def)
  have tdir: "pa_to_kva tbl \<noteq> pdir" using tables_okD(4) [OF D(2) _ pt] by (simp add: tbl_def)
  have out: "same_outside {tbl} (vmem k) m" unfolding m_def by (rule same_outside_set_entry) simp
  show dir: "entry m pdir j = entry (vmem k) pdir j" if "j < 1024" for j
    using that D(4) tdir D(8) [OF t] by (simp add: m_def entry_set_other)
  show tab: "tables m pdir = tables (vmem k) pdir" by (rule tables_eq [OF dir])
  show "same_outside (tables m pdir) (vmem k) m" by (rule same_outside_mono [OF out]) (simp add: tab t)
  show "maps_page pdir (vmem k) m va pa flags" using L(2) by (simp add: maps_page_def)
  have tbls: "leaf (entry m (pa_to_kva (PTE_PA (entry (vmem k) pdir j))) x)"
    if "j < 1024" "x < 1024" "points (entry (vmem k) pdir j)" "valid (entry m (pa_to_kva (PTE_PA (entry (vmem k) pdir j))) x)" for j x
  proof (cases "PTE_PA (entry (vmem k) pdir j) = tbl \<and> x = va_idx0 va")
    case True
    then show ?thesis using make_entry_bits [OF pa, of flags] flags by (simp add: m_def)
  next
    case False
    then have "entry m (pa_to_kva (PTE_PA (entry (vmem k) pdir j))) x = entry (vmem k) (pa_to_kva (PTE_PA (entry (vmem k) pdir j))) x"
      unfolding m_def using that D(8) [OF t] by (intro entry_set_other) auto
    with that D(3) show ?thesis by (simp add: typed_def)
  qed
  have "typed m pdir" using D(3) dir tbls by (simp add: typed_def)
  then show "space hi U (k\<lparr>vmem := m\<rparr>) pdir"
    using D(1) L(1) D(5-7) by (simp add: space_def vmm_wf_def tab)
qed

lemma space_map_megapage:
  fixes k pdir va pa flags
  defines "m \<equiv> set_entry (vmem k) pdir (va_idx1 va) (drop_bit 2 pa OR (flags AND 0x3FF))"
  assumes sp: "space hi U k pdir" and i: "\<not> valid (entry (vmem k) pdir (va_idx1 va))"
    and pa: "pa AND 0x3FFFFF = 0" and flags: "valid flags" "leaf flags"
  shows "space hi U (k\<lparr>vmem := m\<rparr>) pdir" "tables m pdir = tables (vmem k) pdir"
    "same_outside (tables m pdir) (vmem k) m" "maps_megapage pdir (vmem k) m va pa flags"
    "j < 1024 \<Longrightarrow> j \<noteq> va_idx1 va \<Longrightarrow> entry m pdir j = entry (vmem k) pdir j"
proof -
  note D = spaceD [OF sp]
  note L = map_megapage [OF D(2) i pa flags, folded m_def]
  let ?e = "drop_bit 2 pa OR (flags AND 0x3FF)"
  have "pa AND 0xFFF = (pa AND 0x3FFFFF) AND 0xFFF" by (simp add: and.assoc)
  then have pg: "page pa" using pa by (simp add: page_def)
  have e: "valid ?e" "leaf ?e" "PTE_PA ?e = pa"
    using make_entry [OF pg, of flags] make_entry_bits [OF pg, of flags] flags by simp_all
  have same: "entry m pdir (va_idx1 va) = ?e" by (simp add: m_def)
  show dir: "entry m pdir j = entry (vmem k) pdir j" if "j < 1024" "j \<noteq> va_idx1 va" for j
    using that D(4) by (simp add: m_def entry_set_other)
  have pts: "points (entry m pdir j) \<longleftrightarrow> j \<noteq> va_idx1 va \<and> points (entry (vmem k) pdir j)" if "j < 1024" for j
    using that same e dir i by (cases "j = va_idx1 va") (auto simp: points_def)
  show tab: "tables m pdir = tables (vmem k) pdir"
    using pts dir i unfolding tables_def
    by (intro arg_cong [where f = "insert _"] Collect_cong) (metis points_def)
  have kva: "pdir = pa_to_kva (kva_to_pa pdir)" by simp
  have "same_outside {kva_to_pa pdir} (vmem k) m"
    unfolding m_def by (subst kva, rule same_outside_set_entry) simp
  then show "same_outside (tables m pdir) (vmem k) m" by (rule same_outside_mono) (simp add: tables_def)
  show "maps_megapage pdir (vmem k) m va pa flags" using L(2) by (simp add: maps_megapage_def va_idx1_def)
  have tbl: "entry m (pa_to_kva (PTE_PA (entry (vmem k) pdir j))) x = entry (vmem k) (pa_to_kva (PTE_PA (entry (vmem k) pdir j))) x"
    if "j < 1024" "x < 1024" "points (entry (vmem k) pdir j)" for j x
    using that D(4) tables_okD(4) [OF D(2) that(1,3)] by (simp add: m_def entry_set_other)
  have "typed m pdir"
    unfolding typed_def
  proof (intro allI impI)
    fix j :: u32 assume j: "j < 1024"
    show "(valid (entry m pdir j) \<and> leaf (entry m pdir j) \<longrightarrow> PTE_PA (entry m pdir j) AND 0x3FFFFF = 0) \<and>
      (points (entry m pdir j) \<longrightarrow> (\<forall>x<1024. valid (entry m (pa_to_kva (PTE_PA (entry m pdir j))) x) \<longrightarrow>
        leaf (entry m (pa_to_kva (PTE_PA (entry m pdir j))) x)))"
    proof (cases "j = va_idx1 va")
      case True
      then show ?thesis using same e pa by (simp add: points_def)
    next
      case False
      then show ?thesis using j D(3) dir tbl by (auto simp: typed_def)
    qed
  qed
  then show "space hi U (k\<lparr>vmem := m\<rparr>) pdir"
    using D(1) L(1) D(5-7) by (simp add: space_def vmm_wf_def tab)
qed

lemma space_flush [simp]: "space hi U (tlb_flush_all k) pdir = space hi U k pdir"
  by (simp add: space_def vmm_wf_def)

text \<open>The status is \<open>XOS_OK\<close> for an address that is not translated yet.\<close>

lemma vm_map_4k_space:
  assumes sp: "space hi U k pdir" and pg: "page va" "page pa" and un: "translate (vmem k) pdir va = None"
    and flags: "valid flags" "leaf flags" and room: "pa_bottom k \<noteq> pa_top k \<or> valid (dir_entry k pdir va)"
  shows "\<exists>k'. vm_map_4k k pdir va pa flags = Inr (XOS_OK, k') \<and> space hi U k' pdir \<and> extends pdir {} k k' \<and>
    maps_page pdir (vmem k) (vmem k') va pa flags \<and> unat (pa_top k) \<le> unat (pa_top k') + 4096 \<and>
    (\<forall>j<1024. j \<noteq> va_idx1 va \<longrightarrow> entry (vmem k') pdir j = entry (vmem k) pdir j)"
proof (cases "valid (dir_entry k pdir va)")
  case True
  with untranslated [OF spaceD(3) [OF sp] un] have pt: "points (dir_entry k pdir va)"
    and free: "\<not> valid (table_entry k pdir va)" by blast+
  note L = space_map_leaf [OF sp pt [unfolded dir_entry_def] pg(2) flags, folded dir_entry_def]
  let ?m = "set_entry (vmem k) (pa_to_kva (PTE_PA (dir_entry k pdir va))) (va_idx0 va) (drop_bit 2 pa OR (flags AND 0x3FF))"
  have "vm_map_4k k pdir va pa flags = Inr (XOS_OK, tlb_flush_all (k\<lparr>vmem := ?m\<rparr>))"
    using pg pt free by (simp add: vm_map_4k_unfold points_def page_and flip: table_entry_def)
  moreover have "extends pdir {} k (tlb_flush_all (k\<lparr>vmem := ?m\<rparr>))" using L(2,3) by (simp add: extends_def)
  ultimately show ?thesis using L(1,4,5) by simp
next
  case False
  obtain q k1 where a: "ppage_alloc_z k = Inr (q, k1)" using room False ppage_alloc_z_available by metis
  note N = space_new_table [OF sp a va_idx_less(1) False [unfolded dir_entry_def]]
  let ?m1 = "set_entry (vmem k1) pdir (va_idx1 va) (drop_bit 2 q OR PTE_V)"
  let ?k1 = "k1\<lparr>vmem := ?m1\<rparr>"
  have pt: "points (entry (vmem ?k1) pdir (va_idx1 va))" and tbl: "PTE_PA (entry (vmem ?k1) pdir (va_idx1 va)) = q"
    using N(5,6) by simp_all
  note L = space_map_leaf [OF N(1) pt pg(2) flags, unfolded tbl]
  let ?m2 = "set_entry ?m1 (pa_to_kva q) (va_idx0 va) (drop_bit 2 pa OR (flags AND 0x3FF))"
  let ?k2 = "tlb_flush_all (k1\<lparr>vmem := ?m2\<rparr>)"
  have "entry ?m1 (pa_to_kva q) (va_idx0 va) = 0" by (rule N(7)) simp
  then have eq: "vm_map_4k k pdir va pa flags = Inr (XOS_OK, ?k2)"
    using pg False a by (simp add: vm_map_4k_unfold page_and valid_def dir_entry_def)
  note A = space_alloc [OF sp a]
  have "same_outside (tables ?m2 pdir) (vmem k) ?m2"
    using same_outside_trans [OF N(3)] L(2,3) by simp
  then have "extends pdir {} k ?k2"
    using N(2) L(2) A(4) by (auto simp: extends_def)
  moreover have "maps_page pdir (vmem k) (vmem ?k2) va pa flags"
    using L(4) N(4) by (simp add: maps_page_def)
  moreover have "unat (pa_top k) \<le> unat (pa_top ?k2) + 4096"
    using A(11) by simp
  ultimately show ?thesis using eq L(1,5) N(8) by simp
qed

lemma vm_map_4m_space:
  assumes sp: "space hi U k pdir" and al: "va AND 0x3FFFFF = 0" "pa AND 0x3FFFFF = 0"
    and un: "\<not> valid (entry (vmem k) pdir (va_idx1 va))" and flags: "valid flags" "leaf flags"
  shows "\<exists>k'. vm_map_4m k pdir va pa flags = (XOS_OK, k') \<and> space hi U k' pdir \<and> extends pdir {} k k' \<and>
    maps_megapage pdir (vmem k) (vmem k') va pa flags \<and> pa_top k' = pa_top k \<and>
    (\<forall>j<1024. j \<noteq> va_idx1 va \<longrightarrow> entry (vmem k') pdir j = entry (vmem k) pdir j)"
proof -
  note L = space_map_megapage [OF sp un al(2) flags]
  let ?m = "set_entry (vmem k) pdir (va_idx1 va) (drop_bit 2 pa OR (flags AND 0x3FF))"
  have "pa AND 0xFFF = (pa AND 0x3FFFFF) AND 0xFFF" by (simp add: and.assoc)
  then have "page pa" using al(2) by (simp add: page_def)
  then have "vm_map_4m k pdir va pa flags = (XOS_OK, tlb_flush_all (k\<lparr>vmem := ?m\<rparr>))"
    using al un by (simp add: vm_map_4m_def valid_def va_idx1_def page_and)
  moreover have "extends pdir {} k (tlb_flush_all (k\<lparr>vmem := ?m\<rparr>))" using L(2,3) by (simp add: extends_def)
  ultimately show ?thesis using L(1,4,5) by simp
qed

text \<open>The first page that is taken becomes the page directory: nothing is mapped.\<close>

lemma space_start:
  assumes ok: "vmm_ok k" and a: "ppage_alloc_z k = Inr (pa, k')"
  shows "space (pa_top k) {} k' (pa_to_kva pa)" "translate (vmem k') (pa_to_kva pa) va = None"
    "j < 1024 \<Longrightarrow> entry (vmem k') (pa_to_kva pa) j = 0" "same_outside {pa} (vmem k) (vmem k')"
    "tables (vmem k') (pa_to_kva pa) = {pa}"
proof -
  note A = ppage_alloc_z_ok [OF ok a]
  show zero: "entry (vmem k') (pa_to_kva pa) j = 0" if "j < 1024" for j
    using that A(2,6) by (simp add: entry_filled)
  show "translate (vmem k') (pa_to_kva pa) va = None"
    by (simp add: translate_def zero valid_def)
  show "same_outside {pa} (vmem k) (vmem k')" unfolding A(6) by (rule same_outside_filled)
  have pts: "\<not> points (entry (vmem k') (pa_to_kva pa) j)" if "j < 1024" for j
    using that zero by (simp add: points_def valid_def)
  then show tab: "tables (vmem k') (pa_to_kva pa) = {pa}" by (auto simp: tables_def)
  have "pa_top k' = pa" "pa < pa_top k" "\<not> vmm_free k' pa"
    using A(3-5) by (simp_all add: vmm_free_def)
  moreover have "typed (vmem k') (pa_to_kva pa)"
    using zero pts by (auto simp: typed_def valid_def)
  moreover have "tables_ok (vmem k') (pa_to_kva pa) (vmm_free k')"
    using A(2) calculation(3) pts by (auto simp: tables_ok_def)
  ultimately show "space (pa_top k) {} k' (pa_to_kva pa)"
    using A(1) by (simp add: space_def vmm_wf_def tab)
qed

section \<open>Properties\<close>

text \<open>
  C5: page tables stay typed.  In a space with typed page tables, mapping with flags of a leaf
  (valid, and readable, writable or executable, as all flags that the kernels use) keeps them
  typed, for any two addresses and whether it succeeds or not: every valid entry of the directory
  is an aligned megapage or a pointer to a table of its own, every valid entry of a table is a leaf,
  and tables and free pages stay apart.  An error leaves everything as it was.  With \<open>PTE_V\<close> alone
  the new entry would be no leaf.
\<close>

theorem vm_map_4k_typed:
  assumes "space hi U k pdir" and "valid flags" and "leaf flags" and "vm_map_4k k pdir va pa flags = Inr (e, k')"
  shows "typed (vmem k') pdir \<and> space hi U k' pdir \<and> (e = XOS_OK \<or> k' = k)"
proof -
  have wf: "vmm_wf k pdir" using assms(1) by (simp add: space_def)
  show ?thesis
  proof (cases "e = XOS_OK")
    case False
    then have "vm_map_4k k pdir va pa flags \<noteq> Inr (XOS_OK, k'')" for k'' using assms(4) by simp
    from vm_map_4k_outcome [OF wf assms(2,3) this] assms(4) have "k' = k" by auto
    with assms(1) show ?thesis by (simp add: space_def)
  next
    case True
    with vm_map_4k_when [OF wf assms(2,3), of va pa] assms(4)
    have pg: "page va" "page pa" and un: "points (dir_entry k pdir va) \<and> \<not> valid (table_entry k pdir va) \<or>
        \<not> valid (dir_entry k pdir va) \<and> pa_top k \<noteq> pa_bottom k"
      by (auto split: if_splits)
    have "translate (vmem k) pdir va = None"
      using un by (auto simp: translate_def points_def dir_entry_def table_entry_def Let_def)
    moreover have "pa_bottom k \<noteq> pa_top k \<or> valid (dir_entry k pdir va)" using un by (auto simp: points_def)
    ultimately show ?thesis
      using vm_map_4k_space [OF assms(1) pg _ assms(2,3)] assms(4) True by (auto simp: space_def)
  qed
qed

lemma example_space: "space 0x40003000 {} (example_vmm\<lparr>pa_top := 0x40002000\<rparr>) 0xC0002000"
proof -
  have "entry (\<lambda>_. 0) p i = 0" for p i by simp
  then show ?thesis
    by (simp add: space_def vmm_wf_def example_vmm_def vmm_ok_def tables_ok_def vmm_free_def page_def kva_to_pa_def
        KVA_BASE_def KPA_BASE_def points_def valid_def typed_def tables_def)
qed

theorem vm_map_4k_typed_witness:
  "\<exists>k'. vm_map_4k (example_vmm\<lparr>pa_top := 0x40002000\<rparr>) 0xC0002000 0x10000000 0x40005000 USER_RW = Inr (XOS_OK, k') \<and>
     typed (vmem k') 0xC0002000"
proof -
  let ?k = "example_vmm\<lparr>pa_top := 0x40002000\<rparr>"
  have fl: "valid USER_RW" "leaf USER_RW" by (simp_all add: page_flags pte_bits valid_def leaf_def)
  have wf: "vmm_wf ?k 0xC0002000" using example_space by (simp add: space_def)
  have "\<exists>k'. vm_map_4k ?k 0xC0002000 0x10000000 0x40005000 USER_RW = Inr (XOS_OK, k')"
    using vm_map_4k_when [OF wf fl, of "0x10000000" "0x40005000"]
    by (simp add: page_def dir_entry_def example_vmm_def valid_def) blast
  then show ?thesis using vm_map_4k_typed [OF example_space fl] by blast
qed

end
