(* ===== verification/KernelMap.thy ===== *)
theory KernelMap
  imports Kernel Tables
begin

text \<open>
  The address space that the X/OS kernel builds.  A range of addresses that is mapped with a fixed
  offset is \<open>linear\<close>; each loop of the code adds one such range.  \<open>layout_ok\<close> is what
  the linker script says of the symbols, with the image below the frame buffer.
\<close>

section \<open>Ranges of addresses\<close>

definition linear :: "nat \<Rightarrow> nat \<Rightarrow> u32 \<Rightarrow> u32 \<Rightarrow> (u32 \<Rightarrow> (u32 \<times> u32) option) \<Rightarrow> u32 \<Rightarrow> (u32 \<times> u32) option" where
  "linear lo hi off fl T v = (if lo \<le> unat v \<and> unat v < hi then Some (v + off, fl AND 0x3FF) else T v)"

lemma linear_empty [simp]: "linear lo lo off fl T = T"
  by (rule ext) (auto simp: linear_def)

lemma linear_join:
  "lo \<le> mid \<Longrightarrow> mid \<le> hi \<Longrightarrow> linear mid hi off fl (linear lo mid off fl T) = linear lo hi off fl T"
  by (rule ext) (auto simp: linear_def)

lemma same_block:
  fixes v va pa :: u32
  assumes "va AND mask n = 0" "n < 32"
  shows "drop_bit n v = drop_bit n va \<longleftrightarrow> unat va \<le> unat v \<and> unat v < unat va + 2 ^ n"
    and "drop_bit n v = drop_bit n va \<Longrightarrow> pa AND mask n = 0 \<Longrightarrow> pa OR (v AND mask n) = v + (pa - va)"
proof -
  have "unat (va AND mask n) = 0" using assms(1) by simp
  then have "unat va mod 2 ^ n = 0" by (simp only: unat_and_mask)
  then obtain a where a: "unat va = 2 ^ n * a" by (auto simp: mod_eq_0_iff_dvd elim: dvdE)
  have eq: "drop_bit n v = drop_bit n va \<longleftrightarrow> unat v div 2 ^ n = a"
    unfolding word_unat_eq_iff unat_drop_bit_eq unfolding drop_bit_eq_div a by simp
  also have "\<dots> \<longleftrightarrow> 2 ^ n * a \<le> unat v \<and> unat v < 2 ^ n * a + 2 ^ n"
    using times_div_less_eq_dividend [of "2 ^ n" "unat v"] dividend_less_times_div [of "2 ^ n" "unat v"]
    by (auto intro: div_nat_eqI simp: ac_simps)
  finally show *: "drop_bit n v = drop_bit n va \<longleftrightarrow> unat va \<le> unat v \<and> unat v < unat va + 2 ^ n"
    using a by simp
  assume dv: "drop_bit n v = drop_bit n va" and pa: "pa AND mask n = 0"
  have "unat (v AND mask n) = unat (v - va)"
    using dv a eq * by (simp add: unat_and_mask unat_sub32 minus_div_mult_eq_mod [symmetric] mult.commute)
  then have "v AND mask n = v - va" by (simp add: word_unat_eq_iff)
  moreover have "pa AND (v AND mask n) = (pa AND mask n) AND v" by (simp only: and.assoc and.commute and.left_commute)
  then have "pa AND (v AND mask n) = 0" using pa by simp
  then have "pa OR (v AND mask n) = pa + (v AND mask n)" by (simp add: disjunctive_add_eq_or)
  ultimately show "pa OR (v AND mask n) = v + (pa - va)" by simp
qed

section \<open>Single steps\<close>

definition address_space :: "u32 \<Rightarrow> u32 set \<Rightarrow> kernel \<Rightarrow> (u32 \<Rightarrow> (u32 \<times> u32) option) \<Rightarrow> bool" where
  "address_space hi U st T \<longleftrightarrow> space hi U (kvmm st) (kpgdir st) \<and>
     (\<forall>v. translate (vmem (kvmm st)) (kpgdir st) v = T v)"

text \<open>A step takes at most \<open>n\<close> pages and changes the memory manager only.\<close>

definition progress :: "u32 set \<Rightarrow> nat \<Rightarrow> kernel \<Rightarrow> kernel \<Rightarrow> bool" where
  "progress U n st st' \<longleftrightarrow> st' = st\<lparr>kvmm := kvmm st'\<rparr> \<and> extends (kpgdir st) U (kvmm st) (kvmm st') \<and>
     unat (pa_top (kvmm st)) \<le> unat (pa_top (kvmm st')) + n * 4096"

text \<open>The directory is unused from entry \<open>b\<close> on.\<close>

definition above :: "nat \<Rightarrow> kernel \<Rightarrow> bool" where
  "above b st \<longleftrightarrow> (\<forall>j<1024. b \<le> unat j \<longrightarrow> \<not> valid (entry (vmem (kvmm st)) (kpgdir st) j))"

lemma progress_refl [simp]: "progress U n st st"
  by (simp add: progress_def)

lemma progress_trans:
  assumes "progress U n st st'" "progress V m st' st''" "U \<subseteq> W" "V \<subseteq> W"
  shows "progress W (n + m) st st''"
proof -
  have "kpgdir st' = kpgdir st" using assms(1) unfolding progress_def by (metis kernel.select_convs(2) kernel.surjective kernel.update_convs(1))
  moreover have "st'' = st\<lparr>kvmm := kvmm st''\<rparr>"
    using assms(1,2) unfolding progress_def by (metis kernel.surjective kernel.update_convs(1))
  ultimately show ?thesis
    using assms grown_trans unfolding progress_def by (auto simp: add_mult_distrib)
qed

lemma progress_more: "progress U n st st' \<Longrightarrow> n \<le> m \<Longrightarrow> progress U m st st'"
  unfolding progress_def by auto

lemma progressD:
  assumes "progress U n st st'"
  shows "kpgdir st' = kpgdir st" "kcsr st' = kcsr st" "kout st' = kout st"
    "pa_bottom (kvmm st') = pa_bottom (kvmm st)" "unat (pa_top (kvmm st)) \<le> unat (pa_top (kvmm st')) + n * 4096"
    "pa_top (kvmm st') \<le> pa_top (kvmm st)" "extends (kpgdir st) U (kvmm st) (kvmm st')"
proof -
  obtain k where "st' = st\<lparr>kvmm := k\<rparr>" using assms unfolding progress_def by blast
  then show "kpgdir st' = kpgdir st" "kcsr st' = kcsr st" "kout st' = kout st" by simp_all
  show "pa_bottom (kvmm st') = pa_bottom (kvmm st)" "unat (pa_top (kvmm st)) \<le> unat (pa_top (kvmm st')) + n * 4096"
    "pa_top (kvmm st') \<le> pa_top (kvmm st)" "extends (kpgdir st) U (kvmm st) (kvmm st')"
    using assms by (simp_all add: progress_def extends_def)
qed

lemma page_flags_leaf:
  "flags \<in> {USER_RW, USER_RWX, KERNEL_RO, KERNEL_RW, KERNEL_RX} \<Longrightarrow> valid flags \<and> leaf flags"
  by (auto simp: page_flags pte_bits valid_def leaf_def)

lemma maps_linear:
  assumes "\<forall>v. translate m' pdir v = (if drop_bit n v = drop_bit n va then Some (pa OR (v AND mask n), flags AND 0x3FF)
      else translate m pdir v)"
    and "va AND mask n = 0" "pa AND mask n = 0" "n < 32" "\<And>v. translate m pdir v = T v"
  shows "translate m' pdir v = linear (unat va) (unat va + 2 ^ n) (pa - va) flags T v"
  using assms(1,5) same_block [OF assms(2,4)] assms(3) by (auto simp: linear_def)

lemma unat_va_idx1: "unat (va_idx1 va) = unat va div 4194304"
  unfolding va_idx1_def unat_drop_bit_eq unfolding drop_bit_eq_div by simp

lemma slot_below: "unat va < b * 4194304 \<Longrightarrow> unat (va_idx1 va) < b"
  by (simp add: unat_va_idx1 less_mult_imp_div_less)

lemma map_4k_step:
  assumes sp: "address_space hi U st T" and pg: "page va" "page pa" and T: "T va = None"
    and flags: "flags \<in> {USER_RW, USER_RWX, KERNEL_RO, KERNEL_RW, KERNEL_RX}"
    and room: "pa_bottom (kvmm st) \<noteq> pa_top (kvmm st)"
  shows "\<exists>st'. map_4k va pa flags st = Inr st' \<and> progress {} 1 st st' \<and>
    address_space hi U st' (linear (unat va) (unat va + 4096) (pa - va) flags T) \<and>
    (\<forall>b. unat va < b * 4194304 \<longrightarrow> above b st \<longrightarrow> above b st')"
proof -
  have s: "space hi U (kvmm st) (kpgdir st)" and t: "\<And>v. translate (vmem (kvmm st)) (kpgdir st) v = T v"
    using sp by (simp_all add: address_space_def)
  from vm_map_4k_space [OF s pg _ _ _ disjI1 [OF room], of flags] t [of va] T page_flags_leaf [OF flags] obtain k' where
    k': "vm_map_4k (kvmm st) (kpgdir st) va pa flags = Inr (XOS_OK, k')" "space hi U k' (kpgdir st)"
      "extends (kpgdir st) {} (kvmm st) k'" "maps_page (kpgdir st) (vmem (kvmm st)) (vmem k') va pa flags"
      "unat (pa_top (kvmm st)) \<le> unat (pa_top k') + 4096"
    and dir: "\<forall>j<1024. j \<noteq> va_idx1 va \<longrightarrow> entry (vmem k') (kpgdir st) j = entry (vmem (kvmm st)) (kpgdir st) j"
    by auto
  have "translate (vmem k') (kpgdir st) v = linear (unat va) (unat va + 2 ^ 12) (pa - va) flags T v" for v
    by (rule maps_linear [where m = "vmem (kvmm st)"]) (use k'(4) pg t in \<open>simp_all add: maps_page_def page_def page_mask\<close>)
  moreover have "above b (st\<lparr>kvmm := k'\<rparr>)" if "unat va < b * 4194304" "above b st" for b
    using that dir slot_below [OF that(1)] by (auto simp: above_def)
  ultimately show ?thesis
    using k' by (simp add: map_4k_def address_space_def progress_def)
qed

lemma map_4m_step:
  assumes sp: "address_space hi U st T" and pg: "va AND 0x3FFFFF = 0" "pa AND 0x3FFFFF = 0"
    and flags: "flags \<in> {USER_RW, USER_RWX, KERNEL_RO, KERNEL_RW, KERNEL_RX}"
    and un: "above b st" "b * 4194304 \<le> unat va"
  shows "\<exists>st'. map_4m va pa flags st = Inr st' \<and> progress {} 0 st st' \<and>
    address_space hi U st' (linear (unat va) (unat va + 4194304) (pa - va) flags T) \<and>
    above (Suc (unat (va_idx1 va))) st'"
proof -
  have s: "space hi U (kvmm st) (kpgdir st)" and t: "\<And>v. translate (vmem (kvmm st)) (kpgdir st) v = T v"
    using sp by (simp_all add: address_space_def)
  have b: "b \<le> unat (va_idx1 va)"
    using un(2) by (simp add: unat_va_idx1 less_eq_div_iff_mult_less_eq)
  then have "\<not> valid (entry (vmem (kvmm st)) (kpgdir st) (va_idx1 va))" using un(1) by (simp add: above_def)
  from vm_map_4m_space [OF s pg this, of flags] page_flags_leaf [OF flags] obtain k' where
    k': "vm_map_4m (kvmm st) (kpgdir st) va pa flags = (XOS_OK, k')" "space hi U k' (kpgdir st)"
      "extends (kpgdir st) {} (kvmm st) k'" "maps_megapage (kpgdir st) (vmem (kvmm st)) (vmem k') va pa flags"
      "pa_top k' = pa_top (kvmm st)"
    and dir: "\<forall>j<1024. j \<noteq> va_idx1 va \<longrightarrow> entry (vmem k') (kpgdir st) j = entry (vmem (kvmm st)) (kpgdir st) j"
    by auto
  have mask: "0x3FFFFF = (mask 22 :: u32)" by (simp add: mask_eq_exp_minus_1)
  have "translate (vmem k') (kpgdir st) v = linear (unat va) (unat va + 2 ^ 22) (pa - va) flags T v" for v
    by (rule maps_linear [where m = "vmem (kvmm st)"]) (use k'(4) pg t in \<open>simp_all add: maps_megapage_def mask\<close>)
  moreover have "above (Suc (unat (va_idx1 va))) (st\<lparr>kvmm := k'\<rparr>)"
    using un(1) dir b by (auto simp: above_def)
  ultimately show ?thesis
    using k' by (simp add: map_4m_def address_space_def progress_def)
qed

section \<open>Loops over pages\<close>

lemma page_loop_steps:
  assumes "\<And>i. i < n \<Longrightarrow> c + of_nat i * inc < lim" "\<not> c + of_nat n * inc < lim" "P 0 st"
    and "\<And>i st. i < n \<Longrightarrow> P i st \<Longrightarrow> \<exists>st'. body (c + of_nat i * inc) st = Inr st' \<and> P (Suc i) st'"
  shows "\<exists>st'. page_loop body inc lim c st = Some (Inr (c + of_nat n * inc, st')) \<and> P n st'"
  using assms
proof (induction n arbitrary: c st P)
  case 0
  then show ?case by (subst page_loop.simps) simp
next
  case (Suc n)
  from Suc.prems(4) [of 0, OF _ Suc.prems(3)] obtain st1 where st1: "body c st = Inr st1" "P (Suc 0) st1" by auto
  have next_c: "c + of_nat (Suc i) * inc = (c + inc) + of_nat i * inc" for i by (simp add: algebra_simps)
  have "\<exists>st'. page_loop body inc lim (c + inc) st1 = Some (Inr ((c + inc) + of_nat n * inc, st')) \<and> P (Suc n) st'"
  proof (rule Suc.IH [where P = "\<lambda>i. P (Suc i)"])
    fix i assume i: "i < n"
    show "(c + inc) + of_nat i * inc < lim" using Suc.prems(1) [of "Suc i"] i unfolding next_c by simp
    fix st assume "P (Suc i) st"
    then show "\<exists>st'. body ((c + inc) + of_nat i * inc) st = Inr st' \<and> P (Suc (Suc i)) st'"
      using Suc.prems(4) [of "Suc i"] i unfolding next_c by simp
  qed (use Suc.prems(2) st1 in \<open>simp_all add: algebra_simps\<close>)
  moreover have "c < lim" using Suc.prems(1) [of 0] by simp
  ultimately show ?case
    using st1(1) by (subst page_loop.simps) (simp add: algebra_simps)
qed

lemma page_of_nat: "page (of_nat i * 4096)"
  unfolding page_dvd using unat_word_ariths(2) [of "of_nat i :: u32" 4096]
  by (simp add: dvd_mod_iff)

lemma unat_page_step:
  fixes va :: u32
  assumes "unat va + i * 4096 < 4294967296" shows "unat (va + of_nat i * 4096) = unat va + i * 4096"
proof -
  have "unat (of_nat (i * 4096) :: u32) = i * 4096" using assms by (intro unat_of_nat32) simp
  then show ?thesis using assms by (simp add: unat_add32)
qed

lemma map_4k_region:
  assumes sp: "address_space hi U st T" and pg: "page va" "page pa"
    and bound: "unat va + n * 4096 \<le> 4294967296"
    and T: "\<And>v. unat va \<le> unat v \<Longrightarrow> unat v < unat va + n * 4096 \<Longrightarrow> T v = None"
    and flags: "flags \<in> {USER_RW, USER_RWX, KERNEL_RO, KERNEL_RW, KERNEL_RX}"
    and room: "unat (pa_bottom (kvmm st)) + n * 4096 \<le> unat (pa_top (kvmm st))"
    and body: "\<And>i. body (c + of_nat i * PAGE_SIZE) = map_4k (va + of_nat i * 4096) (pa + of_nat i * 4096) flags"
    and lim: "\<And>i. i < n \<Longrightarrow> c + of_nat i * PAGE_SIZE < lim" "\<not> c + of_nat n * PAGE_SIZE < lim"
  shows "\<exists>st'. page_loop body PAGE_SIZE lim c st = Some (Inr (c + of_nat n * PAGE_SIZE, st')) \<and>
    progress {} n st st' \<and> address_space hi U st' (linear (unat va) (unat va + n * 4096) (pa - va) flags T) \<and>
    (\<forall>b. unat va + n * 4096 \<le> b * 4194304 \<longrightarrow> above b st \<longrightarrow> above b st')"
proof (rule page_loop_steps [where P = "\<lambda>i st'. progress {} i st st' \<and>
    address_space hi U st' (linear (unat va) (unat va + i * 4096) (pa - va) flags T) \<and>
    (\<forall>b. unat va + n * 4096 \<le> b * 4194304 \<longrightarrow> above b st \<longrightarrow> above b st')"])
  fix i st1
  assume i: "i < n" and P: "progress {} i st st1 \<and>
    address_space hi U st1 (linear (unat va) (unat va + i * 4096) (pa - va) flags T) \<and>
    (\<forall>b. unat va + n * 4096 \<le> b * 4194304 \<longrightarrow> above b st \<longrightarrow> above b st1)"
  let ?va = "va + of_nat i * 4096" and ?pa = "pa + of_nat i * 4096"
  have va: "unat ?va = unat va + i * 4096" using bound i by (intro unat_page_step) simp
  have "page ?va" "page ?pa" using pg page_of_nat by (auto intro: page_plus)
  moreover have "linear (unat va) (unat va + i * 4096) (pa - va) flags T ?va = None"
    using T [of ?va] va i by (simp add: linear_def)
  moreover have "pa_bottom (kvmm st1) \<noteq> pa_top (kvmm st1)"
    using progressD(4,5) [of "{}" i st st1] P room i by (auto simp: word_unat_eq_iff)
  ultimately obtain st2 where st2: "map_4k ?va ?pa flags st1 = Inr st2" "progress {} 1 st1 st2"
    "address_space hi U st2 (linear (unat ?va) (unat ?va + 4096) (?pa - ?va) flags
       (linear (unat va) (unat va + i * 4096) (pa - va) flags T))"
    "\<forall>b. unat ?va < b * 4194304 \<longrightarrow> above b st1 \<longrightarrow> above b st2"
    using map_4k_step [of hi U st1 _ ?va ?pa flags] P flags by blast
  have "progress {} (Suc i) st st2"
    using progress_trans [of "{}" i st st1 "{}" 1 st2 "{}"] P st2(2) by simp
  moreover have "address_space hi U st2 (linear (unat va) (unat va + Suc i * 4096) (pa - va) flags T)"
    using st2(3) unfolding va by (simp add: linear_join algebra_simps)
  moreover have "above b st2" if "unat va + n * 4096 \<le> b * 4194304" "above b st" for b
    using st2(4) va i that P by auto
  ultimately show "\<exists>st'. body (c + of_nat i * PAGE_SIZE) st1 = Inr st' \<and> progress {} (Suc i) st st' \<and>
    address_space hi U st' (linear (unat va) (unat va + Suc i * 4096) (pa - va) flags T) \<and>
    (\<forall>b. unat va + n * 4096 \<le> b * 4194304 \<longrightarrow> above b st \<longrightarrow> above b st')"
    using st2(1) by (auto simp: body)
qed (use sp lim in simp_all)

text \<open>The loops over the linear map of the kernel.\<close>

lemma page_kva_to_pa [simp]: "page (kva_to_pa a) \<longleftrightarrow> page a"
  using page_kva [of "kva_to_pa a"] by simp

lemma kva_to_pa_offset: "kva_to_pa (a + d) = kva_to_pa a + d" "kva_to_pa a - a = 0x80000000"
  by (simp_all add: kva_to_pa_def KVA_BASE_def KPA_BASE_def)

lemma pages_between:
  assumes "page a" "page b" "unat a \<le> unat b"
  obtains n where "unat b = unat a + n * 4096" "b = a + of_nat n * 4096"
proof -
  obtain i j where ij: "unat a = 4096 * i" "unat b = 4096 * j"
    using assms(1,2) unfolding page_dvd by (auto elim!: dvdE)
  then have n: "unat b = unat a + (j - i) * 4096" using assms(3) by simp
  then have "unat (a + of_nat (j - i) * 4096) = unat b"
    using unat_lt_pow32 [of b] by (subst unat_page_step) simp_all
  with n that show ?thesis by (metis word_unat_eq_iff)
qed

lemma map_linear_pages:
  assumes sp: "address_space hi U st T" and pg: "page a" "page b" and ab: "unat a \<le> unat b"
    and T: "\<And>v. unat a \<le> unat v \<Longrightarrow> unat v < unat b \<Longrightarrow> T v = None"
    and flags: "flags \<in> {USER_RW, USER_RWX, KERNEL_RO, KERNEL_RW, KERNEL_RX}"
    and room: "unat (pa_bottom (kvmm st)) + (unat b - unat a) \<le> unat (pa_top (kvmm st))"
  shows "\<exists>n st'. page_loop (\<lambda>va. map_4k va (kva_to_pa va) flags) PAGE_SIZE b a st = Some (Inr (b, st')) \<and>
    unat b = unat a + n * 4096 \<and> progress {} n st st' \<and>
    address_space hi U st' (linear (unat a) (unat b) 0x80000000 flags T) \<and>
    (\<forall>i. unat b \<le> i * 4194304 \<longrightarrow> above i st \<longrightarrow> above i st')"
proof -
  from pages_between [OF pg ab] obtain n where n: "unat b = unat a + n * 4096" "b = a + of_nat n * 4096" .
  have lt: "a + of_nat i * PAGE_SIZE < b" if "i < n" for i
    using that n(1) unat_lt_pow32 [of b] unat_page_step [of a i] by (simp add: word_less_nat_alt PAGE_SIZE_def)
  have "\<exists>st'. page_loop (\<lambda>va. map_4k va (kva_to_pa va) flags) PAGE_SIZE b a st = Some (Inr (a + of_nat n * PAGE_SIZE, st')) \<and>
    progress {} n st st' \<and> address_space hi U st' (linear (unat a) (unat a + n * 4096) (kva_to_pa a - a) flags T) \<and>
    (\<forall>i. unat a + n * 4096 \<le> i * 4194304 \<longrightarrow> above i st \<longrightarrow> above i st')"
    using n room T unat_lt_pow32 [of b] lt
    by (intro map_4k_region [OF sp pg(1) _ _ _ flags]) (simp_all add: pg PAGE_SIZE_def kva_to_pa_offset)
  then show ?thesis using n by (auto simp: PAGE_SIZE_def kva_to_pa_offset)
qed

lemma unat_megapage_step:
  fixes va :: u32
  assumes "unat va + i * 4194304 < 4294967296" shows "unat (va + of_nat i * 4194304) = unat va + i * 4194304"
proof -
  have "unat (of_nat (i * 4194304) :: u32) = i * 4194304" using assms by (intro unat_of_nat32) simp
  then show ?thesis using assms by (simp add: unat_add32)
qed

lemma megapage_dvd: "(a :: u32) AND 0x3FFFFF = 0 \<longleftrightarrow> 4194304 dvd unat a"
proof -
  have "a AND 0x3FFFFF = 0 \<longleftrightarrow> unat (a AND mask 22) = 0" by (simp add: unat_eq_0 mask_eq_exp_minus_1)
  then show ?thesis by (simp add: unat_and_mask dvd_eq_mod_eq_0)
qed

lemma map_linear_megapages:
  assumes sp: "address_space hi U st T" and a: "unat a = i * 4194304" and b: "unat b = (i + n) * 4194304"
    and flags: "flags \<in> {USER_RW, USER_RWX, KERNEL_RO, KERNEL_RW, KERNEL_RX}" and ab: "above i st"
  shows "\<exists>st'. page_loop (\<lambda>va. map_4m va (kva_to_pa va) flags) 4194304 b a st = Some (Inr (b, st')) \<and>
    progress {} 0 st st' \<and> address_space hi U st' (linear (unat a) (unat b) 0x80000000 flags T) \<and> above (i + n) st'"
proof -
  have step: "unat (a + of_nat j * 4194304) = (i + j) * 4194304" if "j \<le> n" for j
    using that a b unat_lt_pow32 [of b] by (subst unat_megapage_step) (simp_all add: algebra_simps)
  have eq: "b = a + of_nat n * 4194304" using step [of n] b by (simp add: word_unat_eq_iff)
  have "\<exists>st'. page_loop (\<lambda>va. map_4m va (kva_to_pa va) flags) 4194304 b a st = Some (Inr (a + of_nat n * 4194304, st')) \<and>
    (progress {} 0 st st' \<and> address_space hi U st' (linear (unat a) ((i + n) * 4194304) 0x80000000 flags T) \<and> above (i + n) st')"
  proof (rule page_loop_steps [where P = "\<lambda>j st'. progress {} 0 st st' \<and>
      address_space hi U st' (linear (unat a) ((i + j) * 4194304) 0x80000000 flags T) \<and> above (i + j) st'"])
    fix j st1
    assume j: "j < n" and P: "progress {} 0 st st1 \<and>
      address_space hi U st1 (linear (unat a) ((i + j) * 4194304) 0x80000000 flags T) \<and> above (i + j) st1"
    let ?va = "a + of_nat j * 4194304"
    have va: "unat ?va = (i + j) * 4194304" using step [of j] j by simp
    then have al: "?va AND 0x3FFFFF = 0" by (simp add: megapage_dvd)
    moreover have "unat (kva_to_pa ?va) = (if 0x80000000 \<le> unat ?va then unat ?va - 0x80000000 else unat ?va + 0x80000000)"
      by (simp add: kva_to_pa_def KVA_BASE_def KPA_BASE_def unat_sub32)
    then have "kva_to_pa ?va AND 0x3FFFFF = 0" unfolding megapage_dvd va by (auto intro!: dvd_diff_nat)
    ultimately obtain st2 where st2: "map_4m ?va (kva_to_pa ?va) flags st1 = Inr st2" "progress {} 0 st1 st2"
      "address_space hi U st2 (linear (unat ?va) (unat ?va + 4194304) (kva_to_pa ?va - ?va) flags
         (linear (unat a) ((i + j) * 4194304) 0x80000000 flags T))" "above (Suc (unat (va_idx1 ?va))) st2"
      using map_4m_step [of hi U st1 _ ?va "kva_to_pa ?va" flags "i + j"] P flags va by auto
    have "progress {} 0 st st2" using progress_trans [of "{}" 0 st st1 "{}" 0 st2 "{}"] P st2(2) by simp
    moreover have "address_space hi U st2 (linear (unat a) ((i + Suc j) * 4194304) 0x80000000 flags T)"
      using st2(3) a unfolding va by (simp add: kva_to_pa_offset linear_join algebra_simps)
    moreover have "above (i + Suc j) st2" using st2(4) unfolding unat_va_idx1 va by simp
    ultimately show "\<exists>st'. map_4m ?va (kva_to_pa ?va) flags st1 = Inr st' \<and> progress {} 0 st st' \<and>
      address_space hi U st' (linear (unat a) ((i + Suc j) * 4194304) 0x80000000 flags T) \<and> above (i + Suc j) st'"
      using st2(1) by blast
  next
    show "a + of_nat j * 4194304 < b" if "j < n" for j
      using step [of j] that b by (simp add: word_less_nat_alt)
  qed (use sp ab a eq in simp_all)
  then show ?thesis using b eq by simp
qed

section \<open>The layout of the kernel\<close>

definition layout_ok :: "kernel_image \<Rightarrow> bool" where
  "layout_ok L \<longleftrightarrow> page (text_start L) \<and> page (rodata_start L) \<and> page (data_start L) \<and> page (image_end L) \<and>
     KVA_BASE \<le> text_start L \<and> text_start L \<le> rodata_start L \<and> rodata_start L \<le> extra_start L \<and>
     extra_start L \<le> extra_end L \<and> extra_end L \<le> data_start L \<and> data_start L \<le> image_end L \<and>
     image_end L \<le> pa_to_kva FRAMEBUFFER_BASE \<and> memory_top L = 0xC2000000"

definition layout_map :: "kernel_image \<Rightarrow> u32 \<Rightarrow> (u32 \<times> u32) option" where
  "layout_map L v =
     (if text_start L \<le> v \<and> v < rodata_start L then Some (kva_to_pa v, KERNEL_RX)
      else if rodata_start L \<le> v \<and> v < data_start L then Some (kva_to_pa v, KERNEL_RO)
      else if data_start L \<le> v \<and> v < memory_top L then Some (kva_to_pa v, KERNEL_RW)
      else if 0xF0000000 \<le> v \<and> v < 0xF0400000 then Some (v, KERNEL_RW)
      else None)"

lemma layout_bounds:
  assumes "layout_ok L"
  shows "0xC0000000 \<le> unat (text_start L)" "unat (text_start L) \<le> unat (rodata_start L)"
    "unat (rodata_start L) \<le> unat (data_start L)" "unat (data_start L) \<le> unat (image_end L)"
    "unat (image_end L) \<le> 0xC0C00000" "unat (memory_top L) = 0xC2000000"
    "unat (rodata_start L) \<le> unat (extra_start L)" "unat (extra_start L) \<le> unat (extra_end L)"
    "unat (extra_end L) \<le> unat (data_start L)"
  using assms by (simp_all add: layout_ok_def word_le_nat_alt KVA_BASE_def KPA_BASE_def pa_to_kva_def FRAMEBUFFER_BASE_def)

lemma flags_low: "KERNEL_RX AND 0x3FF = KERNEL_RX" "KERNEL_RO AND 0x3FF = KERNEL_RO" "KERNEL_RW AND 0x3FF = KERNEL_RW"
    "USER_RW AND 0x3FF = USER_RW" "USER_RWX AND 0x3FF = USER_RWX"
  by (simp_all add: page_flags pte_bits)

lemma layout_map_linear:
  assumes "layout_ok L"
  shows "layout_map L = linear 0xF0000000 0xF0400000 0 KERNEL_RW
    (linear (unat (data_start L)) 0xC2000000 0x80000000 KERNEL_RW
    (linear (unat (rodata_start L)) (unat (data_start L)) 0x80000000 KERNEL_RO
    (linear (unat (text_start L)) (unat (rodata_start L)) 0x80000000 KERNEL_RX (\<lambda>_. None))))"
proof
  fix v
  have "kva_to_pa v = v + 0x80000000" by (simp add: kva_to_pa_def KVA_BASE_def KPA_BASE_def)
  then show "layout_map L v = linear 0xF0000000 0xF0400000 0 KERNEL_RW
    (linear (unat (data_start L)) 0xC2000000 0x80000000 KERNEL_RW
    (linear (unat (rodata_start L)) (unat (data_start L)) 0x80000000 KERNEL_RO
    (linear (unat (text_start L)) (unat (rodata_start L)) 0x80000000 KERNEL_RX (\<lambda>_. None)))) v"
    using layout_bounds [OF assms]
    by (auto simp: layout_map_def linear_def flags_low word_le_nat_alt word_less_nat_alt)
qed

lemma megapage_round:
  fixes a :: u32
  assumes "unat a + 0x3FFFFF < 4294967296"
  shows "unat ((a + 0x003FFFFF) AND 0xFFC00000) = (unat a + 0x3FFFFF) div 4194304 * 4194304"
proof -
  let ?x = "a + 0x003FFFFF"
  have m: "(0xFFC00000 :: u32) = NOT (mask 22)" by (simp add: mask_eq_exp_minus_1)
  have "(?x AND NOT (mask 22)) AND (?x AND mask 22) = 0"
    by (rule bit_word_eqI) (auto simp: bit_simps)
  moreover have "(?x AND NOT (mask 22)) OR (?x AND mask 22) = ?x"
    by (rule bit_word_eqI) (auto simp: bit_simps)
  ultimately have "(?x AND NOT (mask 22)) + (?x AND mask 22) = ?x" by (simp add: disjunctive_add_eq_or)
  then have "?x AND NOT (mask 22) = ?x - (?x AND mask 22)" by (simp add: eq_diff_eq)
  moreover have x: "unat ?x = unat a + 0x3FFFFF" using assms by (simp add: unat_add32)
  moreover have "unat (?x AND mask 22) = unat ?x mod 4194304" by (simp add: unat_and_mask)
  ultimately have "unat (?x AND NOT (mask 22)) = unat ?x - unat ?x mod 4194304"
    by (simp add: unat_sub32)
  then show ?thesis unfolding m x by (simp add: minus_mod_eq_div_mult)
qed

lemma and_then_Inr [simp]: "and_then (Some (Inr x)) f = f x" "and_then (Some (Inl e)) f = Some (Inl e)"
  "and_then None f = None"
  by (simp_all add: and_then_def)

text \<open>The three loops over small pages, up to the first megapage \<open>i\<close>.\<close>

lemma map_kernel_pages:
  assumes L: "layout_ok L" and sp: "address_space hi U st (\<lambda>_. None)" and ab: "above i st"
    and i: "unat (image_end L) \<le> i * 4194304" "i \<le> 771" and e: "unat e = i * 4194304"
    and room: "unat (pa_bottom (kvmm st)) + 0xC00000 \<le> unat (pa_top (kvmm st))"
  obtains s1 s2 s3 where
    "page_loop (\<lambda>va. map_4k va (kva_to_pa va) KERNEL_RX) PAGE_SIZE (rodata_start L) (text_start L) st = Some (Inr (rodata_start L, s1))"
    "page_loop (\<lambda>va. map_4k va (kva_to_pa va) KERNEL_RO) PAGE_SIZE (data_start L) (rodata_start L) s1 = Some (Inr (data_start L, s2))"
    "page_loop (\<lambda>va. map_4k va (kva_to_pa va) KERNEL_RW) PAGE_SIZE e (data_start L) s2 = Some (Inr (e, s3))"
    "progress {} 3072 st s3" "above i s3"
    "address_space hi U s3 (linear (unat (data_start L)) (unat e) 0x80000000 KERNEL_RW
      (linear (unat (rodata_start L)) (unat (data_start L)) 0x80000000 KERNEL_RO
      (linear (unat (text_start L)) (unat (rodata_start L)) 0x80000000 KERNEL_RX (\<lambda>_. None))))"
proof -
  note B = layout_bounds [OF L]
  have pg: "page (text_start L)" "page (rodata_start L)" "page (data_start L)" "page e"
    using L by (simp_all add: layout_ok_def page_dvd e)
  have flags: "f \<in> {USER_RW, USER_RWX, KERNEL_RO, KERNEL_RW, KERNEL_RX}" if "f \<in> {KERNEL_RX, KERNEL_RO, KERNEL_RW}" for f
    using that by auto
  have le: "unat (rodata_start L) \<le> i * 4194304" "unat (data_start L) \<le> i * 4194304" "unat e \<le> i * 4194304"
    "unat (data_start L) \<le> unat e"
    using B i e by linarith+
  have none: "linear lo hi off fl T v = None" if "hi \<le> unat v" "T v = None" for lo hi off fl T v
    using that by (simp add: linear_def)
  have "unat (pa_bottom (kvmm st)) + (unat (rodata_start L) - unat (text_start L)) \<le> unat (pa_top (kvmm st))"
    using B room by linarith
  from map_linear_pages [OF sp pg(1,2) B(2) refl flags this, of KERNEL_RX] obtain n1 s1 where
    s1: "page_loop (\<lambda>va. map_4k va (kva_to_pa va) KERNEL_RX) PAGE_SIZE (rodata_start L) (text_start L) st = Some (Inr (rodata_start L, s1))"
      "unat (rodata_start L) = unat (text_start L) + n1 * 4096" "progress {} n1 st s1"
      "address_space hi U s1 (linear (unat (text_start L)) (unat (rodata_start L)) 0x80000000 KERNEL_RX (\<lambda>_. None))" "above i s1"
    using le ab by auto
  have "unat (pa_bottom (kvmm s1)) + (unat (data_start L) - unat (rodata_start L)) \<le> unat (pa_top (kvmm s1))"
    unfolding progressD(4) [OF s1(3)] using B room s1(2) progressD(5) [OF s1(3)] by linarith
  from map_linear_pages [OF s1(4) pg(2,3) B(3) none flags this, of KERNEL_RO] obtain n2 s2 where
    s2: "page_loop (\<lambda>va. map_4k va (kva_to_pa va) KERNEL_RO) PAGE_SIZE (data_start L) (rodata_start L) s1 = Some (Inr (data_start L, s2))"
      "unat (data_start L) = unat (rodata_start L) + n2 * 4096" "progress {} n2 s1 s2"
      "address_space hi U s2 (linear (unat (rodata_start L)) (unat (data_start L)) 0x80000000 KERNEL_RO
        (linear (unat (text_start L)) (unat (rodata_start L)) 0x80000000 KERNEL_RX (\<lambda>_. None)))" "above i s2"
    using le s1(5) by auto
  have p2: "progress {} (n1 + n2) st s2" by (rule progress_trans [OF s1(3) s2(3)]) simp_all
  have "unat (pa_bottom (kvmm s2)) + (unat e - unat (data_start L)) \<le> unat (pa_top (kvmm s2))"
    unfolding progressD(4) [OF p2] using B(1) room s1(2) s2(2) progressD(5) [OF p2] e i le(4)
    by (simp add: add_mult_distrib)
  from map_linear_pages [OF s2(4) pg(3,4) le(4) none [OF _ none] flags this, of KERNEL_RW] obtain n3 s3 where
    s3: "page_loop (\<lambda>va. map_4k va (kva_to_pa va) KERNEL_RW) PAGE_SIZE e (data_start L) s2 = Some (Inr (e, s3))"
      "unat e = unat (data_start L) + n3 * 4096" "progress {} n3 s2 s3"
      "address_space hi U s3 (linear (unat (data_start L)) (unat e) 0x80000000 KERNEL_RW
        (linear (unat (rodata_start L)) (unat (data_start L)) 0x80000000 KERNEL_RO
        (linear (unat (text_start L)) (unat (rodata_start L)) 0x80000000 KERNEL_RX (\<lambda>_. None))))" "above i s3"
    using le B(3) s2(5) by auto
  have "progress {} (n1 + n2 + n3) st s3" by (rule progress_trans [OF p2 s3(3)]) simp_all
  then have "progress {} 3072 st s3"
    by (rule progress_more) (use s1(2) s2(2) s3(2) e i B in linarith)
  with that s1(1) s2(1) s3(1,4,5) show ?thesis by blast
qed

lemma map_kernel_ok:
  assumes L: "layout_ok L" and sp: "address_space hi U st (\<lambda>_. None)" and ab: "above 0 st"
    and room: "unat (pa_bottom (kvmm st)) + 0xC00000 \<le> unat (pa_top (kvmm st))"
  shows "\<exists>st'. map_kernel L st = Some (Inr st') \<and> progress {} 3072 st st' \<and> address_space hi U st' (layout_map L)"
proof -
  note B = layout_bounds [OF L]
  let ?e = "(image_end L + 0x003FFFFF) AND 0xFFC00000"
  define i where "i = (unat (image_end L) + 0x3FFFFF) div 4194304"
  have e: "unat ?e = i * 4194304" unfolding i_def using B by (intro megapage_round) simp
  have i: "unat (image_end L) \<le> i * 4194304" "i \<le> 771" using B unfolding i_def by simp_all
  have kw: "KERNEL_RW \<in> {USER_RW, USER_RWX, KERNEL_RO, KERNEL_RW, KERNEL_RX}" by simp
  have ab: "above i st" using ab by (simp add: above_def)
  from map_kernel_pages [OF L sp ab i e room] obtain s1 s2 s3 where
    s: "page_loop (\<lambda>va. map_4k va (kva_to_pa va) KERNEL_RX) PAGE_SIZE (rodata_start L) (text_start L) st = Some (Inr (rodata_start L, s1))"
    "page_loop (\<lambda>va. map_4k va (kva_to_pa va) KERNEL_RO) PAGE_SIZE (data_start L) (rodata_start L) s1 = Some (Inr (data_start L, s2))"
    "page_loop (\<lambda>va. map_4k va (kva_to_pa va) KERNEL_RW) PAGE_SIZE ?e (data_start L) s2 = Some (Inr (?e, s3))"
    and s3: "progress {} 3072 st s3" "above i s3"
    "address_space hi U s3 (linear (unat (data_start L)) (unat ?e) 0x80000000 KERNEL_RW
      (linear (unat (rodata_start L)) (unat (data_start L)) 0x80000000 KERNEL_RO
      (linear (unat (text_start L)) (unat (rodata_start L)) 0x80000000 KERNEL_RX (\<lambda>_. None))))" .
  have "unat (memory_top L) = (i + (776 - i)) * 4194304" using B i by simp
  from map_linear_megapages [OF s3(3) e this kw s3(2)] obtain s4 where
    s4: "page_loop (\<lambda>va. map_4m va (kva_to_pa va) KERNEL_RW) 4194304 (memory_top L) ?e s3 = Some (Inr (memory_top L, s4))"
    "progress {} 0 s3 s4" "above 776 s4"
    "address_space hi U s4 (linear (unat ?e) (unat (memory_top L)) 0x80000000 KERNEL_RW (linear (unat (data_start L)) (unat ?e) 0x80000000 KERNEL_RW
      (linear (unat (rodata_start L)) (unat (data_start L)) 0x80000000 KERNEL_RO
      (linear (unat (text_start L)) (unat (rodata_start L)) 0x80000000 KERNEL_RX (\<lambda>_. None)))))"
    using i by auto
  have "address_space hi U s4 (linear (unat (data_start L)) 0xC2000000 0x80000000 KERNEL_RW
      (linear (unat (rodata_start L)) (unat (data_start L)) 0x80000000 KERNEL_RO
      (linear (unat (text_start L)) (unat (rodata_start L)) 0x80000000 KERNEL_RX (\<lambda>_. None))))"
    using s4(4) B e i by (simp add: linear_join)
  from map_4m_step [OF this _ _ kw s4(3), of "0xF0000000" "0xF0000000"] obtain s5 where
    s5: "map_4m 0xF0000000 0xF0000000 KERNEL_RW s4 = Inr s5" "progress {} 0 s4 s5" "address_space hi U s5 (layout_map L)"
    unfolding layout_map_linear [OF L] by auto
  have "progress {} (3072 + 0 + 0) st s5"
    by (rule progress_trans [OF progress_trans [OF s3(1) s4(2)] s5(2)]) simp_all
  moreover have "map_kernel L st = Some (Inr s5)"
    by (simp add: map_kernel_def s s4(1) s5(1))
  ultimately show ?thesis using s5(3) by auto
qed

section \<open>Starting the memory manager\<close>

lemma same_outside_extends:
  "extends pdir {} k k' \<Longrightarrow> same_outside (tables (vmem k) pdir) m (vmem k) \<Longrightarrow> same_outside (tables (vmem k') pdir) m (vmem k')"
  unfolding extends_def by (auto intro: same_outside_trans)

lemma print_layout_same [simp]:
  "kvmm (print_layout L st) = kvmm st" "kpgdir (print_layout L st) = kpgdir st" "kcsr (print_layout L st) = kcsr st"
  by (simp_all add: print_layout_def kprint_def)

lemma kcsr_write_same [simp]:
  "kvmm (kcsr_write r v st) = kvmm st" "kpgdir (kcsr_write r v st) = kpgdir st" "kcsr (kcsr_write r v st) = (kcsr st)(r := v)"
  "kvmm (kcsr_set r v st) = kvmm st" "kpgdir (kcsr_set r v st) = kpgdir st"
  "kcsr (kcsr_set r v st) = (kcsr st)(r := kcsr st r OR v)"
  "kvmm (kcsr_clr r v st) = kvmm st" "kpgdir (kcsr_clr r v st) = kpgdir st"
  "kcsr (kcsr_clr r v st) = (kcsr st)(r := kcsr st r AND NOT v)"
  by (simp_all add: kcsr_write_def kcsr_set_def kcsr_clr_def)

text \<open>The page directory is the first page that the memory manager gives out.\<close>

lemma first_page:
  assumes L: "layout_ok L" and k: "pa_top (kvmm st) = 0x41FFE000" "pa_bottom (kvmm st) = kva_to_pa (image_end L)"
  shows "\<exists>pa k1. alloc_z st = Inr (pa, st\<lparr>kvmm := k1\<rparr>) \<and>
    address_space 0x41FFE000 {} (st\<lparr>kvmm := k1, kpgdir := pa_to_kva pa\<rparr>) (\<lambda>_. None) \<and>
    above 0 (st\<lparr>kvmm := k1, kpgdir := pa_to_kva pa\<rparr>) \<and>
    pa_top k1 = 0x41FFD000 \<and> pa_bottom k1 = kva_to_pa (image_end L) \<and>
    unat (pa_bottom k1) + 0xC00000 \<le> unat (pa_top k1) \<and>
    same_outside (tables (vmem k1) (pa_to_kva pa)) (vmem (kvmm st)) (vmem k1)"
proof -
  note B = layout_bounds [OF L]
  have pgi: "page (image_end L)" using L by (simp add: layout_ok_def)
  have bottom: "unat (kva_to_pa (image_end L)) = unat (image_end L) - 0x80000000"
    using B by (simp add: kva_to_pa_def KVA_BASE_def KPA_BASE_def unat_sub32)
  have ok: "vmm_ok (kvmm st)"
    unfolding vmm_ok_def k word_le_nat_alt bottom
  proof (intro conjI)
    show "page (0x41FFE000 :: u32)" by (simp add: page_def)
    show "page (kva_to_pa (image_end L))" using pgi by simp
    show "unat (image_end L) - 0x80000000 \<le> unat (0x41FFE000 :: u32)" using B(5) by simp
  qed
  have "pa_top (kvmm st) \<noteq> pa_bottom (kvmm st)" using B bottom unfolding k word_unat_eq_iff by simp
  then obtain pa k1 where a: "ppage_alloc_z (kvmm st) = Inr (pa, k1)" using ppage_alloc_z_available by blast
  note S = space_start [OF ok a]
  have "pa_top k1 = pa_top (kvmm st) - 4096" "pa_bottom k1 = pa_bottom (kvmm st)"
    using a by (auto simp: ppage_alloc_z_def Let_def PAGE_SIZE_def split: if_splits)
  then have k1: "pa_top k1 = 0x41FFD000" "pa_bottom k1 = kva_to_pa (image_end L)" by (simp_all add: k)
  moreover have "unat (pa_bottom k1) + 0xC00000 \<le> unat (pa_top k1)" using B(5) bottom by (simp add: k1)
  ultimately show ?thesis
    using S a by (intro exI [of _ pa] exI [of _ k1]) (simp add: alloc_z_def address_space_def k above_def valid_def)
qed

lemma start_memory_ok:
  assumes L: "layout_ok L"
  shows "\<exists>st'. start_memory L st = Some (Inr st') \<and> address_space 0x41FFE000 {} st' (layout_map L) \<and>
    same_outside (tables (vmem (kvmm st')) (kpgdir st')) (vmem (kvmm st)) (vmem (kvmm st')) \<and>
    0x413FD000 \<le> unat (pa_top (kvmm st')) \<and> pa_bottom (kvmm st') = kva_to_pa (image_end L) \<and>
    kcsr st' = (kcsr st)(CSR_STVEC := trap_entry L, CSR_SATP := SATP_MODE_SV32 OR drop_bit 12 (kva_to_pa (kpgdir st')))"
proof -
  define st0 where "st0 = kcsr_write CSR_STVEC (trap_entry L) (print_layout L st)"
  define st1 where "st1 = st0\<lparr>kvmm := vmm_init (kvmm st0) (kva_to_pa (image_end L)) (kva_to_pa (memory_top L) - 2 * PAGE_SIZE)\<rparr>"
  have st1: "pa_top (kvmm st1) = 0x41FFE000" "pa_bottom (kvmm st1) = kva_to_pa (image_end L)" "vmem (kvmm st1) = vmem (kvmm st)"
    "kcsr st1 = (kcsr st)(CSR_STVEC := trap_entry L)"
    using L by (simp_all add: st1_def st0_def vmm_init_def layout_ok_def kva_to_pa_def KVA_BASE_def KPA_BASE_def PAGE_SIZE_def)
  from first_page [OF L st1(1,2)] obtain pa k where
    a: "alloc_z st1 = Inr (pa, st1\<lparr>kvmm := k\<rparr>)"
    and sp: "address_space 0x41FFE000 {} (st1\<lparr>kvmm := k, kpgdir := pa_to_kva pa\<rparr>) (\<lambda>_. None)"
      "above 0 (st1\<lparr>kvmm := k, kpgdir := pa_to_kva pa\<rparr>)"
    and k: "pa_top k = 0x41FFD000" "pa_bottom k = kva_to_pa (image_end L)" "unat (pa_bottom k) + 0xC00000 \<le> unat (pa_top k)"
      "same_outside (tables (vmem k) (pa_to_kva pa)) (vmem (kvmm st)) (vmem k)"
    unfolding st1(3) by blast
  from map_kernel_ok [OF L sp] k(3) obtain st2 where
    st2: "map_kernel L (st1\<lparr>kvmm := k, kpgdir := pa_to_kva pa\<rparr>) = Some (Inr st2)"
      "progress {} 3072 (st1\<lparr>kvmm := k, kpgdir := pa_to_kva pa\<rparr>) st2" "address_space 0x41FFE000 {} st2 (layout_map L)"
    by auto
  note P = progressD [OF st2(2), simplified]
  let ?st' = "(kcsr_write CSR_SATP (SATP_MODE_SV32 OR drop_bit 12 (kva_to_pa (kpgdir st2))) st2)\<lparr>kvmm := tlb_flush_all (kvmm st2)\<rparr>"
  have "start_memory L st = Some (Inr ?st')"
    using a st2(1) unfolding st1_def st0_def
    by (simp add: start_memory_def kcsr_write_def Let_def)
  moreover have "address_space 0x41FFE000 {} ?st' (layout_map L)"
    using st2(3) by (simp add: address_space_def)
  moreover have "same_outside (tables (vmem (kvmm st2)) (kpgdir st2)) (vmem (kvmm st)) (vmem (kvmm st2))"
    using same_outside_extends [OF P(7) k(4)] P(1) by simp
  ultimately show ?thesis
    using P k st1 by (intro exI [of _ ?st']) simp
qed

section \<open>Properties\<close>

text \<open>
  C2: the page directory that the kernel switches to translates exactly the layout of the linker
  script: text to its physical address, readable and executable, constants readable, data and the
  rest of the memory readable and writable, the device registers, and nothing else.  The search
  for a free page always succeeds, and the loops end.
\<close>

theorem start_memory_layout:
  assumes "layout_ok L"
  shows "\<exists>st'. start_memory L st = Some (Inr st') \<and>
    (\<forall>v. translate (vmem (kvmm st')) (kpgdir st') v = layout_map L v) \<and>
    kcsr st' CSR_SATP = SATP_MODE_SV32 OR drop_bit 12 (kva_to_pa (kpgdir st')) \<and>
    kcsr st' CSR_STVEC = trap_entry L"
proof -
  from start_memory_ok [OF assms, of st] obtain st' where st': "start_memory L st = Some (Inr st')"
      "address_space 0x41FFE000 {} st' (layout_map L)"
      "kcsr st' = (kcsr st)(CSR_STVEC := trap_entry L, CSR_SATP := SATP_MODE_SV32 OR drop_bit 12 (kva_to_pa (kpgdir st')))"
    by blast
  have "CSR_STVEC \<noteq> CSR_SATP" by (simp add: CSR_STVEC_def CSR_SATP_def)
  with st' show ?thesis by (intro exI [of _ st']) (simp add: address_space_def)
qed

definition example_image :: kernel_image where
  "example_image = \<lparr>text_start = 0xC0008000, rodata_start = 0xC000A000, extra_start = 0xC000B000, extra_end = 0xC000B800,
     data_start = 0xC000C000, bss_start = 0xC000D000, bss_end = 0xC000E000, image_end = 0xC000E000,
     memory_top = 0xC2000000, trap_entry = 0xC0008100\<rparr>"

definition example_kernel :: kernel where
  "example_kernel = \<lparr>kvmm = \<lparr>vmem = (\<lambda>_. 0), pa_top = 0, pa_bottom = 0, tlb_flushes = 0\<rparr>, kpgdir = 0, kcsr = (\<lambda>_. 0), kout = []\<rparr>"

lemma example_image_ok: "layout_ok example_image"
  by (simp add: layout_ok_def example_image_def page_def KVA_BASE_def KPA_BASE_def pa_to_kva_def FRAMEBUFFER_BASE_def)

theorem start_memory_layout_witness:
  "\<exists>st'. start_memory example_image example_kernel = Some (Inr st') \<and>
     translate (vmem (kvmm st')) (kpgdir st') 0xC0009004 = Some (0x40009004, KERNEL_RX) \<and>
     translate (vmem (kvmm st')) (kpgdir st') 0x00000000 = None"
proof -
  from start_memory_layout [OF example_image_ok, of example_kernel] obtain st' where
    st': "start_memory example_image example_kernel = Some (Inr st')"
      "\<And>v. translate (vmem (kvmm st')) (kpgdir st') v = layout_map example_image v" by blast
  have "layout_map example_image 0xC0009004 = Some (0x40009004, KERNEL_RX)" "layout_map example_image 0 = None"
    by (simp_all add: layout_map_def example_image_def kva_to_pa_def KVA_BASE_def KPA_BASE_def)
  with st' show ?thesis by (intro exI [of _ st']) simp
qed

end
