(* ===== verification/KernelUser.thy ===== *)
theory KernelUser
  imports KernelMap
begin

text \<open>
  The X/OS kernel starts the user program: the pages it maps for user mode, the copy of the
  program through the page directory and the first exception frame.
\<close>

section \<open>Mapping the pages of the user program\<close>

lemma page_kept:
  assumes "progress V n st st'" "address_space hi U st' T" "u \<in> U" "u \<notin> V" "\<And>q. q \<in> V \<Longrightarrow> page q" "in_page u a"
  shows "vmem (kvmm st') a = vmem (kvmm st) a"
proof -
  have sp: "space hi U (kvmm st') (kpgdir st)"
    using assms(2) progressD(1) [OF assms(1)] by (simp add: address_space_def)
  have "\<not> in_page q a" if "q \<in> tables (vmem (kvmm st')) (kpgdir st) \<union> V" for q
    using that spaceD(6-8) [OF sp] assms(3-6) in_page_unique [of u q a] by blast
  then show ?thesis
    using progressD(7) [OF assms(1)] by (simp add: extends_def same_outside_def)
qed

lemma map_new_ok:
  assumes sp: "address_space hi U st T" and va: "page va" "T va = None"
    and flags: "flags \<in> {USER_RW, USER_RWX, KERNEL_RO, KERNEL_RW, KERNEL_RX}"
    and room: "unat (pa_bottom (kvmm st)) + 8192 \<le> unat (pa_top (kvmm st))"
  shows "\<exists>pa st'. map_new va flags st = Some (Inr st') \<and> progress {pa} 2 st st' \<and> page pa \<and> pa \<notin> U \<and>
    address_space hi (insert pa U) st' (linear (unat va) (unat va + 4096) (pa - va) flags T) \<and>
    (\<forall>a. in_page pa a \<longrightarrow> vmem (kvmm st') a = 0) \<and>
    (\<forall>u\<in>U. \<forall>a. in_page u a \<longrightarrow> vmem (kvmm st') a = vmem (kvmm st) a)"
proof -
  have s: "space hi U (kvmm st) (kpgdir st)" and t: "\<And>v. translate (vmem (kvmm st)) (kpgdir st) v = T v"
    using sp by (simp_all add: address_space_def)
  have "pa_top (kvmm st) \<noteq> pa_bottom (kvmm st)" using room by auto
  then obtain pa k where a: "ppage_alloc_z (kvmm st) = Inr (pa, k)" using ppage_alloc_z_available by blast
  note A = space_alloc [OF s a]
  let ?s1 = "st\<lparr>kvmm := k\<rparr>"
  have sp1: "address_space hi (insert pa U) ?s1 T" using A(1,3) t by (simp add: address_space_def)
  have p1: "progress {pa} 1 st ?s1" using A(4,11) by (simp add: progress_def)
  have room1: "pa_bottom (kvmm ?s1) \<noteq> pa_top (kvmm ?s1)" using room A(7,11) by auto
  from map_4k_step [OF sp1 va(1) A(10) va(2) flags room1] obtain s2 where
    s2: "map_4k va pa flags ?s1 = Inr s2" "progress {} 1 ?s1 s2"
      "address_space hi (insert pa U) s2 (linear (unat va) (unat va + 4096) (pa - va) flags T)" by blast
  have p2: "progress {pa} (1 + 1) st s2" by (rule progress_trans [OF p1 s2(2)]) simp_all
  moreover have new: "pa \<notin> U" using spaceD(7) [OF s, of pa] A(6) by auto
  moreover have "vmem (kvmm s2) b = vmem (kvmm st) b" if "u \<in> U" "in_page u b" for u b
    using page_kept [OF p2 s2(3), of u b] that new A(10) by auto
  moreover have "vmem (kvmm s2) b = 0" if "in_page pa b" for b
    using page_kept [OF s2(2,3), of pa b] that A(9) by (simp add: filled_def in_page_def)
  ultimately show ?thesis
    using a s2(1,3) A(10) by (auto simp: map_new_def alloc_z_def numeral_2_eq_2)
qed

text \<open>A list of pages that are mapped one after the other, and the address space after it.\<close>

fun map_list :: "(u32 \<times> u32) list \<Rightarrow> kernel \<Rightarrow> (ending + kernel) option" where
  "map_list [] st = Some (Inr st)"
| "map_list ((va, fl) # xs) st = and_then (map_new va fl st) (map_list xs)"

fun user_map :: "(u32 \<times> u32) list \<Rightarrow> u32 list \<Rightarrow> (u32 \<Rightarrow> (u32 \<times> u32) option) \<Rightarrow> u32 \<Rightarrow> (u32 \<times> u32) option" where
  "user_map ((va, fl) # xs) (p # ps) T = user_map xs ps (linear (unat va) (unat va + 4096) (p - va) fl T)"
| "user_map _ _ T = T"

definition user_pages :: "(u32 \<times> u32) list" where
  "user_pages = [(0x10000000, USER_RWX), (0x10001000, USER_RWX), (0x10002000, USER_RWX), (0x10003000, USER_RWX),
     (0x103FF000, USER_RW)]"

lemma and_then_return [simp]: "and_then r (\<lambda>st. Some (Inr st)) = r"
  by (simp add: and_then_def split: option.splits sum.splits)

lemma map_list_eta: "map_list [] = (\<lambda>st. Some (Inr st))"
  "map_list ((va, fl) # xs) = (\<lambda>st. and_then (map_new va fl st) (map_list xs))"
  by (simp_all add: fun_eq_iff)

lemma map_user_list: "map_user 0x10000000 0x10400000 st = map_list user_pages st"
  by (simp add: map_user_def user_pages_def PAGE_SIZE_def map_list_eta)

lemma linear_other_page:
  assumes "page va" "page w" "w \<noteq> va" shows "linear (unat va) (unat va + 4096) off fl T w = T w"
proof -
  obtain i j where "unat va = 4096 * i" "unat w = 4096 * j"
    using assms(1,2) unfolding page_dvd by (auto elim!: dvdE)
  moreover have "unat w \<noteq> unat va" using assms(3) by (simp add: word_unat_eq_iff)
  ultimately show ?thesis unfolding linear_def by auto
qed

lemma map_list_ok:
  assumes "address_space hi U st T" "distinct (map fst xs)"
    and "\<And>va fl. (va, fl) \<in> set xs \<Longrightarrow> page va \<and> T va = None \<and> fl \<in> {USER_RW, USER_RWX, KERNEL_RO, KERNEL_RW, KERNEL_RX}"
    and "unat (pa_bottom (kvmm st)) + length xs * 8192 \<le> unat (pa_top (kvmm st))"
  shows "\<exists>ps st'. map_list xs st = Some (Inr st') \<and> length ps = length xs \<and> distinct ps \<and> set ps \<inter> U = {} \<and>
    progress (set ps) (2 * length xs) st st' \<and> address_space hi (set ps \<union> U) st' (user_map xs ps T) \<and>
    (\<forall>q\<in>set ps. page q \<and> (\<forall>a. in_page q a \<longrightarrow> vmem (kvmm st') a = 0)) \<and>
    (\<forall>u\<in>U. \<forall>a. in_page u a \<longrightarrow> vmem (kvmm st') a = vmem (kvmm st) a)"
  using assms
proof (induction xs arbitrary: st T U)
  case Nil
  then show ?case by (intro exI [of _ "[]"]) simp
next
  case (Cons x xs)
  obtain va fl where x: "x = (va, fl)" by (cases x)
  have va: "page va" "T va = None" "fl \<in> {USER_RW, USER_RWX, KERNEL_RO, KERNEL_RW, KERNEL_RX}"
    using Cons.prems(3) [of va fl] by (simp_all add: x)
  from map_new_ok [OF Cons.prems(1) va] Cons.prems(4) obtain p st1 where
    st1: "map_new va fl st = Some (Inr st1)" "progress {p} 2 st st1" "page p" "p \<notin> U"
      "address_space hi (insert p U) st1 (linear (unat va) (unat va + 4096) (p - va) fl T)"
      "\<forall>a. in_page p a \<longrightarrow> vmem (kvmm st1) a = 0" "\<forall>u\<in>U. \<forall>a. in_page u a \<longrightarrow> vmem (kvmm st1) a = vmem (kvmm st) a"
    by auto
  have "page w \<and> linear (unat va) (unat va + 4096) (p - va) fl T w = None \<and> f \<in> {USER_RW, USER_RWX, KERNEL_RO, KERNEL_RW, KERNEL_RX}"
    if "(w, f) \<in> set xs" for w f
  proof -
    have "page w" "T w = None" "w \<noteq> va" using Cons.prems(2,3) that by (auto simp: x rev_image_eqI)
    then show ?thesis using linear_other_page [OF va(1)] Cons.prems(3) [of w f] that by simp
  qed
  with Cons.IH [OF st1(5)] Cons.prems(2,4) progressD(4,5) [OF st1(2)] obtain ps st2 where
    st2: "map_list xs st1 = Some (Inr st2)" "length ps = length xs" "distinct ps" "set ps \<inter> insert p U = {}"
      "progress (set ps) (2 * length xs) st1 st2"
      "address_space hi (set ps \<union> insert p U) st2 (user_map xs ps (linear (unat va) (unat va + 4096) (p - va) fl T))"
      "\<forall>q\<in>set ps. page q \<and> (\<forall>a. in_page q a \<longrightarrow> vmem (kvmm st2) a = 0)"
      "\<forall>u\<in>insert p U. \<forall>a. in_page u a \<longrightarrow> vmem (kvmm st2) a = vmem (kvmm st1) a"
    by auto
  have "progress (insert p (set ps)) (2 + 2 * length xs) st st2"
    by (rule progress_trans [OF st1(2) st2(5)]) auto
  with st1 st2 show ?case by (intro exI [of _ "p # ps"] exI [of _ st2]) (auto simp: x)
qed

section \<open>The copy of the user program\<close>

lemma copy_through_ok:
  assumes "address_space hi U st T"
    and "\<And>i. i < n \<Longrightarrow> \<exists>fl. T (src + of_nat i) = Some (s i, fl) \<and> s_readable st fl"
    and "\<And>i. i < n \<Longrightarrow> \<exists>fl. T (dst + of_nat i) = Some (d i, fl) \<and> s_writable st fl"
    and "\<And>i. i < n \<Longrightarrow> \<exists>q\<in>U. in_page q (pa_to_kva (d i))"
    and "\<And>i q. i < n \<Longrightarrow> q \<in> U \<Longrightarrow> \<not> in_page q (pa_to_kva (s i))"
    and "inj_on d {..<n}"
  shows "\<exists>m. copy_through dst src n st = Inr (st\<lparr>kvmm := (kvmm st)\<lparr>vmem := m\<rparr>\<rparr>) \<and>
    same_outside U (vmem (kvmm st)) m \<and> (\<forall>i<n. m (pa_to_kva (d i)) = vmem (kvmm st) (pa_to_kva (s i))) \<and>
    (\<forall>a. (\<forall>i<n. a \<noteq> pa_to_kva (d i)) \<longrightarrow> m a = vmem (kvmm st) a)"
  using assms
proof (induction n arbitrary: dst src st s d)
  case 0
  then show ?case by (intro exI [of _ "vmem (kvmm st)"]) simp
next
  case (Suc n)
  let ?b = "vmem (kvmm st) (pa_to_kva (s 0))"
  define m1 where "m1 = (vmem (kvmm st))(pa_to_kva (d 0) := ?b)"
  define st1 where "st1 = st\<lparr>kvmm := (kvmm st)\<lparr>vmem := m1\<rparr>\<rparr>"
  have sp: "space hi U (kvmm st) (kpgdir st)" and t: "\<And>v. translate (vmem (kvmm st)) (kpgdir st) v = T v"
    using Suc.prems(1) by (simp_all add: address_space_def)
  obtain fs fd where f: "T src = Some (s 0, fs)" "s_readable st fs" "T dst = Some (d 0, fd)" "s_writable st fd"
    using Suc.prems(2,3) [of 0] by auto
  have step: "copy_through dst src (Suc n) st = copy_through (dst + 1) (src + 1) n st1"
    using f by (simp add: physical_def t st1_def m1_def)
  have out: "same_outside U (vmem (kvmm st)) m1"
    using Suc.prems(4) [of 0] by (auto simp: same_outside_def m1_def)
  have "page p \<and> p \<notin> tables (vmem (kvmm st)) (kpgdir st)" if "p \<in> U" for p
    using spaceD(6,7) [OF sp] that by blast
  from space_touch [OF sp out this] have sp1: "address_space hi U st1 T"
    using t by (simp add: address_space_def st1_def)
  have r: "s_readable st1 = s_readable st" "s_writable st1 = s_writable st"
    by (simp_all add: fun_eq_iff s_readable_def s_writable_def st1_def)
  have idx: "dst + 1 + of_nat i = dst + of_nat (Suc i)" "src + 1 + of_nat i = src + of_nat (Suc i)" for i by simp_all
  have "\<exists>m. copy_through (dst + 1) (src + 1) n st1 = Inr (st1\<lparr>kvmm := (kvmm st1)\<lparr>vmem := m\<rparr>\<rparr>) \<and>
      same_outside U (vmem (kvmm st1)) m \<and> (\<forall>i<n. m (pa_to_kva (d (Suc i))) = vmem (kvmm st1) (pa_to_kva (s (Suc i)))) \<and>
      (\<forall>a. (\<forall>i<n. a \<noteq> pa_to_kva (d (Suc i))) \<longrightarrow> m a = vmem (kvmm st1) a)"
  proof (rule Suc.IH [OF sp1])
    show "inj_on (\<lambda>i. d (Suc i)) {..<n}" using Suc.prems(6) by (auto simp: inj_on_def)
    fix i assume i: "i < n"
    show "\<exists>fl. T (src + 1 + of_nat i) = Some (s (Suc i), fl) \<and> s_readable st1 fl"
      unfolding idx r using Suc.prems(2) i by blast
    show "\<exists>fl. T (dst + 1 + of_nat i) = Some (d (Suc i), fl) \<and> s_writable st1 fl"
      unfolding idx r using Suc.prems(3) i by blast
    show "\<exists>q\<in>U. in_page q (pa_to_kva (d (Suc i)))" using Suc.prems(4) i by blast
    show "\<not> in_page q (pa_to_kva (s (Suc i)))" if "q \<in> U" for q using Suc.prems(5) i that by blast
  qed
  then obtain m where m: "copy_through (dst + 1) (src + 1) n st1 = Inr (st\<lparr>kvmm := (kvmm st)\<lparr>vmem := m\<rparr>\<rparr>)"
      "same_outside U m1 m" "\<And>i. i < n \<Longrightarrow> m (pa_to_kva (d (Suc i))) = m1 (pa_to_kva (s (Suc i)))"
      "\<And>a. (\<forall>i<n. a \<noteq> pa_to_kva (d (Suc i))) \<Longrightarrow> m a = m1 a"
    by (auto simp: st1_def)
  have "d 0 \<noteq> d (Suc i)" if "i < n" for i using Suc.prems(6) that by (auto simp: inj_on_def)
  then have "m (pa_to_kva (d 0)) = ?b" using m(4) by (simp add: m1_def)
  moreover have "m1 (pa_to_kva (s (Suc i))) = vmem (kvmm st) (pa_to_kva (s (Suc i)))" if "i < n" for i
    using Suc.prems(4) [of 0] Suc.prems(5) [of "Suc i"] that by (auto simp: m1_def)
  ultimately have "m (pa_to_kva (d i)) = vmem (kvmm st) (pa_to_kva (s i))" if "i < Suc n" for i
    using m(3) that by (cases i) simp_all
  moreover have "m a = vmem (kvmm st) a" if "\<forall>i<Suc n. a \<noteq> pa_to_kva (d i)" for a
    using m(4) [of a] that by (auto simp: m1_def)
  moreover have "same_outside U (vmem (kvmm st)) m" by (rule same_outside_trans [OF out m(2)]) simp_all
  ultimately show ?case using step m(1) by auto
qed

lemma copy_through_add:
  "copy_through dst src (m + n) st =
     (case copy_through dst src m st of Inl e \<Rightarrow> Inl e | Inr st \<Rightarrow> copy_through (dst + of_nat m) (src + of_nat m) n st)"
proof (induction m arbitrary: dst src st)
  case (Suc m)
  have "x + 1 + of_nat m = x + of_nat (Suc m)" for x :: u32 by simp
  then show ?case by (simp only: add_Suc copy_through.simps Suc.IH Let_def) (simp split: option.split)
qed simp

section \<open>The address space of the user program\<close>

definition user_space :: "kernel_image \<Rightarrow> u32 list \<Rightarrow> u32 \<Rightarrow> (u32 \<times> u32) option" where
  "user_space L ps = linear 0x20000000 0x20096000 0x20C00000 USER_RW (user_map user_pages ps (layout_map L))"

lemma map_framebuffer_ok:
  assumes sp: "address_space hi U st T" and T: "\<And>v. 0x20000000 \<le> unat v \<Longrightarrow> unat v < 0x20096000 \<Longrightarrow> T v = None"
    and room: "unat (pa_bottom (kvmm st)) + 150 * 4096 \<le> unat (pa_top (kvmm st))"
  shows "\<exists>st'. map_framebuffer st = Some (Inr st') \<and> progress {} 150 st st' \<and>
    address_space hi U st' (linear 0x20000000 0x20096000 0x20C00000 USER_RW T)"
proof -
  have lt: "of_nat i * 4096 < (614400 :: u32) \<longleftrightarrow> i < 150" if "i \<le> 150" for i
    using unat_page_step [of 0 i] that by (simp add: word_less_nat_alt)
  have "\<exists>st'. page_loop (\<lambda>n. map_4k (0x20000000 + n) (FRAMEBUFFER_BASE + n) USER_RW) PAGE_SIZE FRAMEBUFFER_SIZE 0 st
      = Some (Inr (0 + of_nat 150 * PAGE_SIZE, st')) \<and> progress {} 150 st st' \<and>
    address_space hi U st' (linear (unat (0x20000000 :: u32)) (unat (0x20000000 :: u32) + 150 * 4096) (FRAMEBUFFER_BASE - 0x20000000) USER_RW T) \<and>
    (\<forall>b. unat (0x20000000 :: u32) + 150 * 4096 \<le> b * 4194304 \<longrightarrow> above b st \<longrightarrow> above b st')"
  proof (rule map_4k_region [OF sp])
    show "0 + of_nat i * PAGE_SIZE < FRAMEBUFFER_SIZE" if "i < 150" for i
      using lt [of i] that by (simp add: PAGE_SIZE_def FRAMEBUFFER_SIZE_def)
    show "\<not> 0 + of_nat 150 * PAGE_SIZE < FRAMEBUFFER_SIZE" by (simp add: PAGE_SIZE_def FRAMEBUFFER_SIZE_def)
  qed (use T room in \<open>simp_all add: page_def FRAMEBUFFER_BASE_def PAGE_SIZE_def\<close>)
  then show ?thesis by (auto simp: map_framebuffer_def FRAMEBUFFER_BASE_def)
qed

lemma five: "length ps = 5 \<Longrightarrow> \<exists>a b c d e. ps = [a, b, c, d, e]"
  by (auto simp: length_Suc_conv numeral_eq_Suc)

lemma user_space_kernel: "length ps = 5 \<Longrightarrow> 0xC0000000 \<le> unat v \<Longrightarrow> user_space L ps v = layout_map L v"
  by (drule five) (auto simp: user_space_def user_pages_def linear_def)

lemma layout_map_low: "layout_ok L \<Longrightarrow> unat v < 0xC0000000 \<Longrightarrow> layout_map L v = None"
  using layout_bounds [of L] by (simp add: layout_map_def word_le_nat_alt not_le)

text \<open>What user mode can reach: the pages of the program, its stack and the frame buffer.\<close>

lemma user_space_low:
  assumes "layout_ok L" "length ps = 5" "unat v < 0xC0000000"
  shows "user_space L ps v =
    (if 0x20000000 \<le> unat v \<and> unat v < 0x20096000 then Some (v + 0x20C00000, USER_RW)
     else if 0x103FF000 \<le> unat v \<and> unat v < 0x10400000 then Some (v + (ps ! 4 - 0x103FF000), USER_RW)
     else if 0x10003000 \<le> unat v \<and> unat v < 0x10004000 then Some (v + (ps ! 3 - 0x10003000), USER_RWX)
     else if 0x10002000 \<le> unat v \<and> unat v < 0x10003000 then Some (v + (ps ! 2 - 0x10002000), USER_RWX)
     else if 0x10001000 \<le> unat v \<and> unat v < 0x10002000 then Some (v + (ps ! 1 - 0x10001000), USER_RWX)
     else if 0x10000000 \<le> unat v \<and> unat v < 0x10001000 then Some (v + (ps ! 0 - 0x10000000), USER_RWX)
     else None)"
  using five [OF assms(2)] layout_map_low [OF assms(1,3)]
  by (auto simp: user_space_def user_pages_def linear_def flags_low)

lemma in_page_offset: "in_page p (pa_to_kva (v + (p - a))) \<longleftrightarrow> unat (v - a) < 4096"
  by (simp add: in_page_def pa_to_kva_def)

text \<open>A byte of the program lies in the page of its number.\<close>

lemma user_text:
  assumes "layout_ok L" "length ps = 5" "i < 0x4000"
  shows "\<exists>pa. user_space L ps (0x10000000 + of_nat i) = Some (pa, USER_RWX) \<and> in_page (ps ! (i div 4096)) (pa_to_kva pa) \<and>
    pa = of_nat (i mod 4096) + ps ! (i div 4096)"
proof -
  let ?v = "0x10000000 + of_nat i :: u32"
  have v: "unat ?v = 0x10000000 + i" using assms(3) by (simp add: unat_add32 unat_of_nat32)
  define j where "j = i mod 4096"
  have i: "i div 4096 < 4" "i = i div 4096 * 4096 + j" "j < 4096" using assms(3) by (auto simp: j_def)
  have jv: "unat (of_nat j :: u32) = j" using i(3) by (intro unat_of_nat32) simp
  have "?v - (0x10000000 + of_nat (i div 4096) * 4096) = of_nat j"
    using arg_cong [OF i(2), of "of_nat :: nat \<Rightarrow> u32"] by simp
  moreover consider "i div 4096 = 0" | "i div 4096 = 1" | "i div 4096 = 2" | "i div 4096 = 3" using i(1) by linarith
  then have "user_space L ps ?v = Some (?v + (ps ! (i div 4096) - (0x10000000 + of_nat (i div 4096) * 4096)), USER_RWX)"
  proof cases
    case 1 then show ?thesis using i v user_space_low [OF assms(1,2), of ?v] by simp
  next
    case 2 then show ?thesis using i v user_space_low [OF assms(1,2), of ?v] by simp
  next
    case 3 then show ?thesis using i v user_space_low [OF assms(1,2), of ?v] by simp
  next
    case 4 then show ?thesis using i v user_space_low [OF assms(1,2), of ?v] by simp
  qed
  ultimately show ?thesis
    using jv i(3) by (simp add: in_page_offset flip: j_def)
qed

section \<open>From the page tables to user mode\<close>

text \<open>The image lies below the pages that are given out.\<close>

lemma image_apart:
  assumes L: "layout_ok L" and q: "kva_to_pa (image_end L) \<le> q" "q < 0x41FFE000"
    and a: "0xC0000000 \<le> unat a" "unat a < unat (image_end L)"
  shows "\<not> in_page q a"
proof -
  note B = layout_bounds [OF L]
  have "unat (kva_to_pa (image_end L)) = unat (image_end L) - 0x80000000"
    using B(1-5) by (simp add: kva_to_pa_def KVA_BASE_def KPA_BASE_def unat_sub32)
  then have q': "unat (image_end L) - 0x80000000 \<le> unat q" "unat q < 0x41FFE000"
    using q by (simp_all add: word_le_nat_alt word_less_nat_alt)
  then have "unat (pa_to_kva q) = unat q + 0x80000000"
    by (simp add: pa_to_kva_def KVA_BASE_def KPA_BASE_def unat_add32)
  moreover have "unat a < unat q + 0x80000000" using q' a B(1-5) by linarith
  ultimately show ?thesis using q' a by (simp add: in_page_def unat_sub32)
qed

lemma kprint_same [simp]:
  "kvmm (kprint f ws st) = kvmm st" "kpgdir (kprint f ws st) = kpgdir st" "kcsr (kprint f ws st) = kcsr st"
  by (simp_all add: kprint_def)

lemma start_user_maps:
  assumes L: "layout_ok L" and sp: "address_space 0x41FFE000 {} st (layout_map L)"
    and pages: "pa_bottom (kvmm st) = kva_to_pa (image_end L)" "0x413FD000 \<le> unat (pa_top (kvmm st))"
  shows "\<exists>ps st1 st2. map_user 0x10000000 0x10400000 st = Some (Inr st1) \<and> map_framebuffer st1 = Some (Inr st2) \<and>
    length ps = 5 \<and> distinct ps \<and> progress (set ps) 160 st st2 \<and> address_space 0x41FFE000 (set ps) st2 (user_space L ps) \<and>
    (\<forall>q\<in>set ps. page q \<and> (\<forall>a. in_page q a \<longrightarrow> vmem (kvmm st2) a = 0))"
proof -
  note B = layout_bounds [OF L]
  have bot: "unat (pa_bottom (kvmm st)) = unat (image_end L) - 0x80000000"
    using B(1-5) unfolding pages(1) by (simp add: kva_to_pa_def KVA_BASE_def KPA_BASE_def unat_sub32)
  have len: "length user_pages = 5" by (simp add: user_pages_def)
  have dist: "distinct (map fst user_pages)" by (simp add: user_pages_def)
  have ok: "page va \<and> layout_map L va = None \<and> fl \<in> {USER_RW, USER_RWX, KERNEL_RO, KERNEL_RW, KERNEL_RX}"
    if "(va, fl) \<in> set user_pages" for va fl
    using that layout_map_low [OF L, of va] by (auto simp: user_pages_def page_def)
  have "unat (pa_bottom (kvmm st)) + length user_pages * 8192 \<le> unat (pa_top (kvmm st))"
    using B(5) bot pages(2) by (simp add: len)
  from map_list_ok [OF sp dist ok this] obtain ps st1 where st1: "map_list user_pages st = Some (Inr st1)" "length ps = 5" "distinct ps"
      "progress (set ps) 10 st st1" "address_space 0x41FFE000 (set ps) st1 (user_map user_pages ps (layout_map L))"
      "\<forall>q\<in>set ps. page q \<and> (\<forall>a. in_page q a \<longrightarrow> vmem (kvmm st1) a = 0)"
    by (auto simp: len)
  have none: "user_map user_pages ps (layout_map L) v = None" if "0x20000000 \<le> unat v" "unat v < 0x20096000" for v
    using five [OF st1(2)] that layout_map_low [OF L, of v] by (auto simp: user_pages_def linear_def)
  have "unat (pa_bottom (kvmm st1)) + 150 * 4096 \<le> unat (pa_top (kvmm st1))"
    unfolding progressD(4) [OF st1(4)] using progressD(5) [OF st1(4)] B(5) bot pages(2) by simp
  from map_framebuffer_ok [OF st1(5) none this] obtain st2 where
    st2: "map_framebuffer st1 = Some (Inr st2)" "progress {} 150 st1 st2" "address_space 0x41FFE000 (set ps) st2 (user_space L ps)"
    unfolding user_space_def by blast
  have "progress (set ps) (10 + 150) st st2" by (rule progress_trans [OF st1(4) st2(2)]) auto
  moreover have "vmem (kvmm st2) a = 0" if "q \<in> set ps" "in_page q a" for q a
    using page_kept [OF st2(2,3) that(1) _ _ that(2)] st1(6) that by auto
  ultimately show ?thesis
    using st1(1-3,6) st2 by (auto simp: map_user_list)
qed

text \<open>Physical address of byte \<open>i\<close> of the program.\<close>

definition program_pa :: "u32 list \<Rightarrow> nat \<Rightarrow> u32" where
  "program_pa ps i = of_nat (i mod 4096) + ps ! (i div 4096)"

lemma program_pa_inj:
  assumes "length ps = 5" "distinct ps" "\<And>q. q \<in> set ps \<Longrightarrow> page q" "i < 0x4000" "j < 0x4000"
    and "program_pa ps i = program_pa ps j"
  shows "i = j"
proof -
  have idx: "i div 4096 < 4" "j div 4096 < 4" using assms(4,5) by auto
  have low: "unat (of_nat (n mod 4096) :: u32) = n mod 4096" for n :: nat
    by (rule unat_of_nat32) (rule less_trans [of _ 4096], simp_all)
  have in_pg: "in_page (ps ! (n div 4096)) (pa_to_kva (program_pa ps n))" for n
    unfolding in_page_def program_pa_def pa_to_kva_def by (simp add: low)
  have pi: "in_page (ps ! (j div 4096)) (pa_to_kva (program_pa ps i))" using in_pg [of j] assms(6) by simp
  have mem: "ps ! (i div 4096) \<in> set ps" "ps ! (j div 4096) \<in> set ps" using idx assms(1) by simp_all
  have "ps ! (i div 4096) = ps ! (j div 4096)"
    by (rule in_page_unique [OF assms(3) [OF mem(1)] assms(3) [OF mem(2)] in_pg pi])
  then have *: "i div 4096 = j div 4096"
    using nth_eq_iff_index_eq [OF assms(2), of "i div 4096" "j div 4096"] assms(1) idx by linarith
  have "of_nat (i mod 4096) = (of_nat (j mod 4096) :: u32)" using assms(6) * by (simp add: program_pa_def)
  then have "i mod 4096 = j mod 4096"
    using low [of i] low [of j] by metis
  with * show ?thesis by (metis div_mult_mod_eq)
qed

lemma user_space_rodata:
  assumes "layout_ok L" "length ps = 5" "unat (rodata_start L) \<le> unat v" "unat v < unat (data_start L)"
  shows "user_space L ps v = Some (kva_to_pa v, KERNEL_RO)"
  using user_space_kernel [OF assms(2), of v L] layout_bounds [OF assms(1)] assms(3,4)
  by (simp add: layout_map_def word_le_nat_alt word_less_nat_alt)

lemma given_out:
  assumes "address_space hi U st T" "q \<in> tables (vmem (kvmm st)) (kpgdir st) \<union> U"
  shows "pa_bottom (kvmm st) \<le> q" "q < hi" "page q" "pa_top (kvmm st) \<le> q"
proof -
  have sp: "space hi U (kvmm st) (kpgdir st)" using assms(1) by (simp add: address_space_def)
  show "q < hi" "page q" "pa_top (kvmm st) \<le> q" using spaceD(6-8) [OF sp] assms(2) by blast+
  then show "pa_bottom (kvmm st) \<le> q" using spaceD(1) [OF sp] by (auto simp: vmm_ok_def)
qed

lemma start_user_copies:
  assumes L: "layout_ok L" and ps: "length ps = 5" "distinct ps" and sp: "address_space 0x41FFE000 (set ps) st (user_space L ps)"
    and bot: "pa_bottom (kvmm st) = kva_to_pa (image_end L)" and n: "n \<le> 0x4000" "unat (extra_start L) + n \<le> unat (data_start L)"
    and zero: "\<And>q a. q \<in> set ps \<Longrightarrow> in_page q a \<Longrightarrow> vmem (kvmm st) a = 0"
    and sum_bit: "kcsr st CSR_SSTATUS AND SSTATUS_SUM \<noteq> 0"
  shows "\<exists>m. copy_through 0x10000000 (extra_start L) n st = Inr (st\<lparr>kvmm := (kvmm st)\<lparr>vmem := m\<rparr>\<rparr>) \<and>
    same_outside (set ps) (vmem (kvmm st)) m \<and>
    (\<forall>i<0x4000. m (pa_to_kva (program_pa ps i)) = (if i < n then vmem (kvmm st) (extra_start L + of_nat i) else 0))"
proof -
  note B = layout_bounds [OF L]
  have pg: "page q" "kva_to_pa (image_end L) \<le> q" "q < 0x41FFE000" if "q \<in> set ps" for q
    using given_out [OF sp, of q] that bot by auto
  have src: "unat (extra_start L + of_nat i) = unat (extra_start L) + i" if "i < n" for i
    using that n B by (simp add: unat_add32 unat_of_nat32)
  have prog: "user_space L ps (0x10000000 + of_nat i) = Some (program_pa ps i, USER_RWX)"
    "in_page (ps ! (i div 4096)) (pa_to_kva (program_pa ps i))" "ps ! (i div 4096) \<in> set ps" if "i < 0x4000" for i
    using user_text [OF L ps(1) that] that ps(1) by (auto simp: program_pa_def)
  have "\<exists>m. copy_through 0x10000000 (extra_start L) n st = Inr (st\<lparr>kvmm := (kvmm st)\<lparr>vmem := m\<rparr>\<rparr>) \<and>
    same_outside (set ps) (vmem (kvmm st)) m \<and>
    (\<forall>i<n. m (pa_to_kva (program_pa ps i)) = vmem (kvmm st) (pa_to_kva (kva_to_pa (extra_start L + of_nat i)))) \<and>
    (\<forall>a. (\<forall>i<n. a \<noteq> pa_to_kva (program_pa ps i)) \<longrightarrow> m a = vmem (kvmm st) a)"
  proof (rule copy_through_ok [OF sp])
    fix i assume i: "i < n"
    let ?v = "extra_start L + of_nat i"
    have v: "unat (rodata_start L) \<le> unat ?v" "unat ?v < unat (data_start L)" using src [OF i] B i n by linarith+
    then have "user_space L ps ?v = Some (kva_to_pa ?v, KERNEL_RO)" by (rule user_space_rodata [OF L ps(1)])
    moreover have "s_readable st KERNEL_RO" by (simp add: s_readable_def page_flags pte_bits)
    ultimately show "\<exists>fl. user_space L ps ?v = Some (kva_to_pa ?v, fl) \<and> s_readable st fl" by blast
    have "s_writable st USER_RWX" using sum_bit by (simp add: s_writable_def page_flags pte_bits)
    then show "\<exists>fl. user_space L ps (0x10000000 + of_nat i) = Some (program_pa ps i, fl) \<and> s_writable st fl"
      using prog(1) [of i] i n by auto
    show "\<exists>q\<in>set ps. in_page q (pa_to_kva (program_pa ps i))" using prog(2,3) [of i] i n by auto
    show "\<not> in_page q (pa_to_kva (kva_to_pa ?v))" if "q \<in> set ps" for q
      using image_apart [OF L pg(2,3) [OF that], of ?v] v B by simp
  next
    show "inj_on (program_pa ps) {..<n}"
      using program_pa_inj [OF ps pg(1)] n(1) by (auto intro!: inj_onI)
  qed
  then obtain m where m: "copy_through 0x10000000 (extra_start L) n st = Inr (st\<lparr>kvmm := (kvmm st)\<lparr>vmem := m\<rparr>\<rparr>)"
    "same_outside (set ps) (vmem (kvmm st)) m"
    "\<And>i. i < n \<Longrightarrow> m (pa_to_kva (program_pa ps i)) = vmem (kvmm st) (extra_start L + of_nat i)"
    "\<And>a. (\<forall>i<n. a \<noteq> pa_to_kva (program_pa ps i)) \<Longrightarrow> m a = vmem (kvmm st) a" by auto
  have "m (pa_to_kva (program_pa ps i)) = 0" if "i < 0x4000" "\<not> i < n" for i
  proof -
    have "program_pa ps i \<noteq> program_pa ps j" if "j < n" for j
    proof
      assume "program_pa ps i = program_pa ps j"
      then have "i = j" using program_pa_inj [OF ps pg(1) \<open>i < 0x4000\<close>, of j] that n(1) by simp
      with that \<open>\<not> i < n\<close> show False by simp
    qed
    then have "m (pa_to_kva (program_pa ps i)) = vmem (kvmm st) (pa_to_kva (program_pa ps i))"
      by (intro m(4)) simp
    then show ?thesis using zero prog(2,3) [OF that(1)] by simp
  qed
  with m(1-3) show ?thesis by auto
qed

lemma frame_stores:
  fixes m q a b
  defines "kst \<equiv> pa_to_kva q + PAGE_SIZE - kstack_top_size"
  defines "m' \<equiv> store32 (store32 m (kst + 0x40) a) (kst + 0x44) b"
  shows "same_outside {q} m m'" "load32 m' (kst + 0x40) = a" "load32 m' (kst + 0x44) = b" "in_page q kst"
proof -
  have kst: "kst = pa_to_kva q + 3936" by (simp add: kst_def PAGE_SIZE_def kstack_top_size_def)
  have m': "m' = set_entry (set_entry m (pa_to_kva q) 1000 a) (pa_to_kva q) 1001 b"
    by (simp add: m'_def kst set_entry_def algebra_simps)
  show "same_outside {q} m m'"
    unfolding m' by (rule same_outside_trans [OF same_outside_set_entry same_outside_set_entry]) simp_all
  show "load32 m' (kst + 0x44) = b" by (simp add: m'_def)
  have "apart 4 (kst + 0x44) (kst + 0x40)" by (simp add: apart_def)
  then show "load32 m' (kst + 0x40) = a"
    unfolding m'_def by (subst load32_store32_apart) simp_all
  show "in_page q kst" by (simp add: in_page_def kst)
qed

lemma image_kept:
  assumes "layout_ok L" "address_space 0x41FFE000 U st T" "pa_bottom (kvmm st) = kva_to_pa (image_end L)"
    and "same_outside (tables (vmem (kvmm st)) (kpgdir st) \<union> U) m (vmem (kvmm st))"
    and "0xC0000000 \<le> unat a" "unat a < unat (image_end L)"
  shows "vmem (kvmm st) a = m a"
  using assms(4) image_apart [OF assms(1) _ _ assms(5,6)] given_out(1,2) [OF assms(2)] assms(3)
  by (auto simp: same_outside_def)

text \<open>The state in which the user program is copied.\<close>

lemma start_until_copy:
  assumes L: "layout_ok L"
  shows "\<exists>ps st2. start_xos L st = and_then
      (Some (copy_through 0x10000000 (extra_start L) (unat (extra_end L - extra_start L)) (kcsr_set CSR_SSTATUS SSTATUS_SUM st2)))
      (\<lambda>st. Some (enter_user 0x10000000 0x10400000 (kcsr_clr CSR_SSTATUS SSTATUS_SUM st))) \<and>
    length ps = 5 \<and> distinct ps \<and> address_space 0x41FFE000 (set ps) st2 (user_space L ps) \<and>
    pa_bottom (kvmm st2) = kva_to_pa (image_end L) \<and> 0x4135D000 \<le> unat (pa_top (kvmm st2)) \<and>
    (\<forall>q\<in>set ps. page q \<and> (\<forall>a. in_page q a \<longrightarrow> vmem (kvmm st2) a = 0)) \<and>
    (\<forall>a. 0xC0000000 \<le> unat a \<longrightarrow> unat a < unat (image_end L) \<longrightarrow> vmem (kvmm st2) a = vmem (kvmm st) a)"
proof -
  from start_memory_ok [OF L, of st] obtain s where s: "start_memory L st = Some (Inr s)"
      "address_space 0x41FFE000 {} s (layout_map L)" "same_outside (tables (vmem (kvmm s)) (kpgdir s)) (vmem (kvmm st)) (vmem (kvmm s))"
      "0x413FD000 \<le> unat (pa_top (kvmm s))" "pa_bottom (kvmm s) = kva_to_pa (image_end L)" by blast
  let ?s = "kprint ''user.bin %u bytes\<newline>'' [extra_end L - extra_start L] s"
  have "address_space 0x41FFE000 {} ?s (layout_map L)" using s(2) by (simp add: address_space_def)
  from start_user_maps [OF L this] s(4,5) obtain ps s1 s2 where
    m: "map_user 0x10000000 0x10400000 ?s = Some (Inr s1)" "map_framebuffer s1 = Some (Inr s2)" and ps: "length ps = 5" "distinct ps"
      and p: "progress (set ps) 160 ?s s2" and sp: "address_space 0x41FFE000 (set ps) s2 (user_space L ps)"
      and z: "\<forall>q\<in>set ps. page q \<and> (\<forall>a. in_page q a \<longrightarrow> vmem (kvmm s2) a = 0)" by auto
  note P = progressD [OF p]
  have bot: "pa_bottom (kvmm s2) = kva_to_pa (image_end L)" using P(4) s(5) by simp
  have "same_outside (tables (vmem (kvmm s2)) (kpgdir s2) \<union> set ps) (vmem (kvmm s)) (vmem (kvmm s2))"
    using P(1,7) by (simp add: extends_def)
  then have "vmem (kvmm s2) a = vmem (kvmm s) a" "vmem (kvmm s) a = vmem (kvmm st) a"
    if "0xC0000000 \<le> unat a" "unat a < unat (image_end L)" for a
    using image_kept [OF L sp bot _ that] image_kept [OF L s(2,5) _ that] s(3) by simp_all
  moreover have "0x4135D000 \<le> unat (pa_top (kvmm s2))" using P(5) s(4) by simp
  ultimately show ?thesis
    using s(1) m ps sp z bot unfolding start_xos_def
    by (intro exI [of _ ps] exI [of _ s2]) (simp add: start_user_program_def Let_def)
qed

lemma enter_user_ok:
  assumes sp: "address_space hi U st T" and room: "pa_bottom (kvmm st) \<noteq> pa_top (kvmm st)"
  shows "\<exists>q kst st'. enter_user a b st = Inl (User_mode kst st') \<and> page q \<and> in_page q kst \<and> q \<notin> U \<and>
    address_space hi (insert q U) st' T \<and> unat (pa_top (kvmm st)) = unat (pa_top (kvmm st')) + 4096 \<and>
    pa_bottom (kvmm st') = pa_bottom (kvmm st) \<and> kcsr st' = (kcsr st)(CSR_SSTATUS := kcsr st CSR_SSTATUS AND NOT SSTATUS_SPP) \<and>
    load32 (vmem (kvmm st')) (kst + 0x40) = a \<and> load32 (vmem (kvmm st')) (kst + 0x44) = b \<and>
    (\<forall>u\<in>U. \<forall>x. in_page u x \<longrightarrow> vmem (kvmm st') x = vmem (kvmm st) x)"
proof -
  have s: "space hi U (kvmm st) (kpgdir st)" and t: "\<And>v. translate (vmem (kvmm st)) (kpgdir st) v = T v"
    using sp by (simp_all add: address_space_def)
  obtain q k where al: "ppage_alloc_z (kvmm st) = Inr (q, k)" using room ppage_alloc_z_available by metis
  note A = space_alloc [OF s al]
  define kst where "kst = pa_to_kva q + PAGE_SIZE - kstack_top_size"
  define m where "m = store32 (store32 (vmem k) (kst + 0x40) a) (kst + 0x44) b"
  note F4 = frame_stores(4) [of q, folded kst_def]
  note F = frame_stores(1-3) [where q = q and m = "vmem k" and a = a and b = b, folded kst_def, folded m_def]
  let ?st' = "kprint ''\<newline>[ starting user mode program ]\<newline>\<newline>'' [] (kcsr_clr CSR_SSTATUS SSTATUS_SPP (st\<lparr>kvmm := k\<lparr>vmem := m\<rparr>\<rparr>))"
  have new: "q \<notin> U" "q \<notin> tables (vmem k) (kpgdir st)" using A(2,6) spaceD(6,7) [OF s, of q] by auto
  have "enter_user a b st = Inl (User_mode kst ?st')"
    using al by (simp add: enter_user_def alloc_z_def kst_def m_def Let_def)
  moreover have "address_space hi (insert q U) ?st' T"
    using space_touch [OF A(1) F(1)] new(2) A(3,10) t by (simp add: address_space_def)
  moreover have "m x = vmem (kvmm st) x" if "u \<in> U" "in_page u x" for u x
  proof -
    have "\<not> in_page q x" using in_page_unique [OF A(10) _ _ that(2)] spaceD(7) [OF s that(1)] new(1) that(1) by blast
    then show ?thesis using F(1) A(9) by (auto simp: same_outside_def filled_def in_page_def)
  qed
  ultimately show ?thesis using A(7,10,11) F(2,3) F4 new(1) by (intro exI [of _ q] exI [of _ kst] exI [of _ ?st']) simp
qed

lemma copy_program:
  assumes L: "layout_ok L" and ps: "length ps = 5" "distinct ps" and sp: "address_space 0x41FFE000 (set ps) st (user_space L ps)"
    and bot: "pa_bottom (kvmm st) = kva_to_pa (image_end L)" and n: "n \<le> 0x4000" "unat (extra_start L) + n \<le> unat (data_start L)"
    and zero: "\<forall>q\<in>set ps. \<forall>a. in_page q a \<longrightarrow> vmem (kvmm st) a = 0"
  shows "\<exists>st'. copy_through 0x10000000 (extra_start L) n (kcsr_set CSR_SSTATUS SSTATUS_SUM st) = Inr st' \<and>
    address_space 0x41FFE000 (set ps) st' (user_space L ps) \<and> kcsr st' = kcsr (kcsr_set CSR_SSTATUS SSTATUS_SUM st) \<and>
    pa_bottom (kvmm st') = pa_bottom (kvmm st) \<and> pa_top (kvmm st') = pa_top (kvmm st) \<and>
    (\<forall>i<0x4000. vmem (kvmm st') (pa_to_kva (program_pa ps i)) =
       (if i < n then vmem (kvmm st) (extra_start L + of_nat i) else 0))"
proof -
  let ?s = "kcsr_set CSR_SSTATUS SSTATUS_SUM st"
  have sp': "address_space 0x41FFE000 (set ps) ?s (user_space L ps)" using sp by (simp add: address_space_def)
  have "bit (kcsr ?s CSR_SSTATUS AND SSTATUS_SUM) 18" by (simp add: SSTATUS_SUM_def bit_simps)
  then have bit: "kcsr ?s CSR_SSTATUS AND SSTATUS_SUM \<noteq> 0" by auto
  from start_user_copies [OF L ps sp' _ n _ bit] bot zero obtain m where
    m: "copy_through 0x10000000 (extra_start L) n ?s = Inr (?s\<lparr>kvmm := (kvmm ?s)\<lparr>vmem := m\<rparr>\<rparr>)"
      "same_outside (set ps) (vmem (kvmm st)) m"
      "\<forall>i<0x4000. m (pa_to_kva (program_pa ps i)) = (if i < n then vmem (kvmm st) (extra_start L + of_nat i) else 0)" by auto
  have s2: "space 0x41FFE000 (set ps) (kvmm st) (kpgdir st)" using sp by (simp add: address_space_def)
  have "page p \<and> p \<notin> tables (vmem (kvmm st)) (kpgdir st)" if "p \<in> set ps" for p
    using spaceD(6,7) [OF s2] that by blast
  from space_touch [OF s2 m(2) this] sp
  have "address_space 0x41FFE000 (set ps) (?s\<lparr>kvmm := (kvmm ?s)\<lparr>vmem := m\<rparr>\<rparr>) (user_space L ps)"
    by (simp add: address_space_def)
  with m(1,3) show ?thesis by simp
qed

text \<open>The state after the copy.\<close>

lemma start_until_enter:
  assumes L: "layout_ok L" and small: "unat (extra_end L) - unat (extra_start L) \<le> 0x4000"
  shows "\<exists>ps s3. start_xos L st = Some (enter_user 0x10000000 0x10400000 s3) \<and> length ps = 5 \<and>
    address_space 0x41FFE000 (set ps) s3 (user_space L ps) \<and> kcsr s3 CSR_SSTATUS AND SSTATUS_SUM = 0 \<and>
    pa_bottom (kvmm s3) = kva_to_pa (image_end L) \<and> 0x4135D000 \<le> unat (pa_top (kvmm s3)) \<and>
    (\<forall>i<0x4000. vmem (kvmm s3) (pa_to_kva (program_pa ps i)) =
       (if i < unat (extra_end L) - unat (extra_start L) then vmem (kvmm st) (extra_start L + of_nat i) else 0))"
proof -
  note B = layout_bounds [OF L]
  let ?n = "unat (extra_end L) - unat (extra_start L)"
  have n: "unat (extra_end L - extra_start L) = ?n" using B(8) by (simp add: unat_sub32)
  from start_until_copy [OF L, of st] obtain ps st2 where s: "start_xos L st = and_then
      (Some (copy_through 0x10000000 (extra_start L) ?n (kcsr_set CSR_SSTATUS SSTATUS_SUM st2)))
      (\<lambda>st. Some (enter_user 0x10000000 0x10400000 (kcsr_clr CSR_SSTATUS SSTATUS_SUM st)))"
    and ps: "length ps = 5" "distinct ps" and sp: "address_space 0x41FFE000 (set ps) st2 (user_space L ps)"
    and bot: "pa_bottom (kvmm st2) = kva_to_pa (image_end L)" "0x4135D000 \<le> unat (pa_top (kvmm st2))"
    and z: "\<forall>q\<in>set ps. \<forall>a. in_page q a \<longrightarrow> vmem (kvmm st2) a = 0"
    and img: "\<And>a. 0xC0000000 \<le> unat a \<Longrightarrow> unat a < unat (image_end L) \<Longrightarrow> vmem (kvmm st2) a = vmem (kvmm st) a"
    unfolding n by blast
  have le: "unat (extra_start L) + ?n \<le> unat (data_start L)" using B by linarith
  from copy_program [OF L ps sp bot(1) small le z] obtain s2 where
    m: "copy_through 0x10000000 (extra_start L) ?n (kcsr_set CSR_SSTATUS SSTATUS_SUM st2) = Inr s2"
      "address_space 0x41FFE000 (set ps) s2 (user_space L ps)" "pa_bottom (kvmm s2) = pa_bottom (kvmm st2)"
      "pa_top (kvmm s2) = pa_top (kvmm st2)" "\<forall>i<0x4000. vmem (kvmm s2) (pa_to_kva (program_pa ps i)) =
         (if i < ?n then vmem (kvmm st2) (extra_start L + of_nat i) else 0)" by blast
  let ?s3 = "kcsr_clr CSR_SSTATUS SSTATUS_SUM s2"
  have "address_space 0x41FFE000 (set ps) ?s3 (user_space L ps)" using m(2) by (simp add: address_space_def)
  moreover have "kcsr ?s3 CSR_SSTATUS AND SSTATUS_SUM = 0" by (simp add: and.assoc)
  moreover have "vmem (kvmm st2) (extra_start L + of_nat i) = vmem (kvmm st) (extra_start L + of_nat i)" if "i < ?n" for i
  proof (rule img)
    have "unat (extra_start L + of_nat i) = unat (extra_start L) + i" using that B by (simp add: unat_add32 unat_of_nat32)
    then show "0xC0000000 \<le> unat (extra_start L + of_nat i)" "unat (extra_start L + of_nat i) < unat (image_end L)"
      using that B by linarith+
  qed
  ultimately show ?thesis
    using s m(1,3-5) ps bot by (intro exI [of _ ps] exI [of _ ?s3]) simp
qed

text \<open>Everything about the state in which the kernel enters user mode.\<close>

lemma start_xos_ok:
  assumes L: "layout_ok L" and small: "unat (extra_end L) - unat (extra_start L) \<le> 0x4000"
  shows "\<exists>kst ps q st'. start_xos L st = Some (Inl (User_mode kst st')) \<and> length ps = 5 \<and> page q \<and> in_page q kst \<and>
    q \<notin> set ps \<and> address_space 0x41FFE000 (insert q (set ps)) st' (user_space L ps) \<and>
    pa_bottom (kvmm st') = kva_to_pa (image_end L) \<and> 0x4135C000 \<le> unat (pa_top (kvmm st')) \<and>
    kcsr st' CSR_SSTATUS AND (SSTATUS_SUM OR SSTATUS_SPP) = 0 \<and>
    load32 (vmem (kvmm st')) (kst + 0x40) = 0x10000000 \<and> load32 (vmem (kvmm st')) (kst + 0x44) = 0x10400000 \<and>
    (\<forall>i<0x4000. vmem (kvmm st') (pa_to_kva (program_pa ps i)) =
       (if i < unat (extra_end L) - unat (extra_start L) then vmem (kvmm st) (extra_start L + of_nat i) else 0))"
proof -
  from start_until_enter [OF L small, of st] obtain ps s3 where
    s: "start_xos L st = Some (enter_user 0x10000000 0x10400000 s3)" and ps: "length ps = 5"
    and sp: "address_space 0x41FFE000 (set ps) s3 (user_space L ps)" and csr: "kcsr s3 CSR_SSTATUS AND SSTATUS_SUM = 0"
    and bot: "pa_bottom (kvmm s3) = kva_to_pa (image_end L)" "0x4135D000 \<le> unat (pa_top (kvmm s3))"
    and prog: "\<forall>i<0x4000. vmem (kvmm s3) (pa_to_kva (program_pa ps i)) =
       (if i < unat (extra_end L) - unat (extra_start L) then vmem (kvmm st) (extra_start L + of_nat i) else 0)" by blast
  have "unat (image_end L) - 0x80000000 = unat (pa_bottom (kvmm s3))"
    using layout_bounds(1-5) [OF L] bot(1) by (simp add: kva_to_pa_def KVA_BASE_def KPA_BASE_def unat_sub32)
  then have "pa_bottom (kvmm s3) \<noteq> pa_top (kvmm s3)" using layout_bounds(5) [OF L] bot(2) by auto
  from enter_user_ok [OF sp this, of "0x10000000" "0x10400000"] obtain q kst st' where
    e: "enter_user 0x10000000 0x10400000 s3 = Inl (User_mode kst st')" "page q" "in_page q kst" "q \<notin> set ps"
      "address_space 0x41FFE000 (insert q (set ps)) st' (user_space L ps)" "unat (pa_top (kvmm s3)) = unat (pa_top (kvmm st')) + 4096"
      "pa_bottom (kvmm st') = kva_to_pa (image_end L)"
      "load32 (vmem (kvmm st')) (kst + 0x40) = 0x10000000" "load32 (vmem (kvmm st')) (kst + 0x44) = 0x10400000"
      "kcsr st' CSR_SSTATUS = kcsr s3 CSR_SSTATUS AND NOT SSTATUS_SPP"
      "\<forall>u\<in>set ps. \<forall>x. in_page u x \<longrightarrow> vmem (kvmm st') x = vmem (kvmm s3) x"
    unfolding bot(1) by auto
  have csr': "kcsr st' CSR_SSTATUS AND (SSTATUS_SUM OR SSTATUS_SPP) = 0"
    unfolding e(10) using csr by (simp add: bit_eq_iff bit_simps)
  have "vmem (kvmm st') (pa_to_kva (program_pa ps i)) = vmem (kvmm s3) (pa_to_kva (program_pa ps i))" if "i < 0x4000" for i
  proof -
    have "ps ! (i div 4096) \<in> set ps" "in_page (ps ! (i div 4096)) (pa_to_kva (program_pa ps i))"
      using user_text [OF L ps that] that ps by (auto simp: program_pa_def)
    then show ?thesis using e(11) by blast
  qed
  then show ?thesis using s ps e csr' bot(2) prog
    by (intro exI [of _ kst] exI [of _ ps] exI [of _ q] exI [of _ st']) simp
qed

section \<open>Properties\<close>

text \<open>
  What user mode reads at an address, and which physical pages it can access.
\<close>

definition user_reads :: "kernel \<Rightarrow> u32 \<Rightarrow> u8 option" where
  "user_reads st v =
     (case translate (vmem (kvmm st)) (kpgdir st) v of
        Some (pa, fl) \<Rightarrow> if fl AND PTE_U \<noteq> 0 \<and> fl AND PTE_R \<noteq> 0 then Some (vmem (kvmm st) (pa_to_kva pa)) else None
      | None \<Rightarrow> None)"

definition user_page :: "kernel \<Rightarrow> u32 \<Rightarrow> bool" where
  "user_page st q \<longleftrightarrow> (\<exists>v pa fl. translate (vmem (kvmm st)) (kpgdir st) v = Some (pa, fl) \<and> fl AND PTE_U \<noteq> 0 \<and>
     in_page q (pa_to_kva pa))"

lemma user_space_pages:
  assumes L: "layout_ok L" and ps: "length ps = 5" and v: "user_space L ps v = Some (pa, fl)" "fl AND PTE_U \<noteq> 0"
  shows "(\<exists>p\<in>set ps. in_page p (pa_to_kva pa)) \<or> 0x40C00000 \<le> unat pa \<and> unat pa < 0x40C96000"
proof (cases "unat v < 0xC0000000")
  case False
  then have "layout_map L v = Some (pa, fl)" using user_space_kernel [OF ps, of v L] v(1) by simp
  then show ?thesis using v(2) by (auto simp: layout_map_def page_flags pte_bits split: if_splits)
next
  case True
  have off: "in_page p (pa_to_kva (v + (p - a)))" if "unat a \<le> unat v" "unat v < unat a + 4096" for p a
    using that by (simp add: in_page_offset unat_sub32)
  have mem: "ps ! 0 \<in> set ps" "ps ! 1 \<in> set ps" "ps ! 2 \<in> set ps" "ps ! 3 \<in> set ps" "ps ! 4 \<in> set ps" using ps by simp_all
  show ?thesis
  proof (cases "0x20000000 \<le> unat v \<and> unat v < 0x20096000")
    case True
    with v(1) user_space_low [OF L ps \<open>unat v < 0xC0000000\<close>] have "pa = v + 0x20C00000" by simp
    then show ?thesis using True by (simp add: unat_add32)
  next
    case False
    with v(1) user_space_low [OF L ps True] consider
        "0x103FF000 \<le> unat v" "unat v < 0x10400000" "pa = v + (ps ! 4 - 0x103FF000)"
      | "0x10003000 \<le> unat v" "unat v < 0x10004000" "pa = v + (ps ! 3 - 0x10003000)"
      | "0x10002000 \<le> unat v" "unat v < 0x10003000" "pa = v + (ps ! 2 - 0x10002000)"
      | "0x10001000 \<le> unat v" "unat v < 0x10002000" "pa = v + (ps ! 1 - 0x10001000)"
      | "0x10000000 \<le> unat v" "unat v < 0x10001000" "pa = v + (ps ! 0 - 0x10000000)"
      by (auto split: if_splits)
    then have "\<exists>p\<in>set ps. in_page p (pa_to_kva pa)"
      by cases (use mem off [of "0x103FF000"] off [of "0x10003000"] off [of "0x10002000"] off [of "0x10001000"]
        off [of "0x10000000"] in auto)
    then show ?thesis ..
  qed
qed

lemma frame_page:
  assumes "page q" "in_page q (pa_to_kva pa)" "0x40C00000 \<le> unat pa \<and> unat pa < 0x40C96000"
  shows "0x40C00000 \<le> unat q" "unat q < 0x40C96000"
proof -
  have "pa_to_kva pa - pa_to_kva q = pa - q" by (simp add: pa_to_kva_def)
  then have d: "unat (pa - q) < 4096" using assms(2) by (simp add: in_page_def)
  then have "unat q \<le> unat pa" using assms(3) unat_lt_pow32 [of q] by (simp add: unat_sub32 split: if_splits)
  with d have "unat pa < unat q + 4096" by (simp add: unat_sub32)
  moreover obtain k where "unat q = 4096 * k" using assms(1) unfolding page_dvd by (auto elim: dvdE)
  ultimately show "0x40C00000 \<le> unat q" "unat q < 0x40C96000" using assms(3) \<open>unat q \<le> unat pa\<close> by simp_all
qed

text \<open>
  C3: user mode is isolated.  When the kernel enters user mode, every physical page that user mode
  can access lies behind the kernel's image and below the boot page directory, and is neither a
  page table nor the kernel stack with the exception frame.
\<close>

theorem start_xos_isolates:
  assumes "layout_ok L" and "unat (extra_end L) - unat (extra_start L) \<le> 0x4000"
  shows "\<exists>kst st'. start_xos L st = Some (Inl (User_mode kst st')) \<and>
    (\<forall>q. page q \<longrightarrow> user_page st' q \<longrightarrow>
       q \<notin> tables (vmem (kvmm st')) (kpgdir st') \<and> \<not> in_page q kst \<and> kva_to_pa (image_end L) \<le> q \<and> q < 0x41FFE000)"
proof -
  from start_xos_ok [OF assms, of st] obtain kst ps q0 st' where
    s: "start_xos L st = Some (Inl (User_mode kst st'))" and ps: "length ps = 5" and q0: "page q0" "in_page q0 kst" "q0 \<notin> set ps"
    and sp: "address_space 0x41FFE000 (insert q0 (set ps)) st' (user_space L ps)"
    and bot: "pa_bottom (kvmm st') = kva_to_pa (image_end L)" "0x4135C000 \<le> unat (pa_top (kvmm st'))" by blast
  have sp': "space 0x41FFE000 (insert q0 (set ps)) (kvmm st') (kpgdir st')" using sp by (simp add: address_space_def)
  have "q \<notin> tables (vmem (kvmm st')) (kpgdir st') \<and> \<not> in_page q kst \<and> kva_to_pa (image_end L) \<le> q \<and> q < 0x41FFE000"
    if q: "page q" "user_page st' q" for q
  proof -
    obtain v pa fl where v: "user_space L ps v = Some (pa, fl)" "fl AND PTE_U \<noteq> 0" "in_page q (pa_to_kva pa)"
      using q(2) sp by (auto simp: user_page_def address_space_def)
    from user_space_pages [OF assms(1) ps v(1,2)] show ?thesis
    proof
      assume "\<exists>p\<in>set ps. in_page p (pa_to_kva pa)"
      then have "q \<in> set ps" using in_page_unique [OF q(1) _ v(3)] spaceD(7) [OF sp'] by blast
      then show ?thesis
        using given_out [OF sp, of q] spaceD(6) [OF sp', of q] q0 in_page_unique [OF q(1) q0(1), of kst] bot(1) by auto
    next
      assume fb: "0x40C00000 \<le> unat pa \<and> unat pa < 0x40C96000"
      from frame_page [OF q(1) v(3) this] have fq: "0x40C00000 \<le> unat q" "unat q < 0x40C96000" .
      have "unat (kva_to_pa (image_end L)) \<le> 0x40C00000"
        using layout_bounds(1-5) [OF assms(1)] by (simp add: kva_to_pa_def KVA_BASE_def KPA_BASE_def unat_sub32)
      moreover have low: "\<not> pa_top (kvmm st') \<le> q" using fq bot(2) by (simp add: word_le_nat_alt)
      then have "q \<notin> tables (vmem (kvmm st')) (kpgdir st')" "q \<noteq> q0"
        using given_out(4) [OF sp] by blast+
      ultimately show ?thesis
        using fq in_page_unique [OF q(1) q0(1) _ q0(2)] by (auto simp: word_le_nat_alt word_less_nat_alt)
    qed
  qed
  with s show ?thesis by blast
qed

lemma example_image_size: "unat (extra_end example_image) - unat (extra_start example_image) \<le> 0x4000"
  by (simp add: example_image_def)

theorem start_xos_isolates_witness:
  "\<exists>kst st'. start_xos example_image example_kernel = Some (Inl (User_mode kst st')) \<and> \<not> user_page st' 0x40008000"
proof -
  from start_xos_isolates [OF example_image_ok example_image_size, of example_kernel] obtain kst st' where
    s: "start_xos example_image example_kernel = Some (Inl (User_mode kst st'))"
      "\<And>q. page q \<Longrightarrow> user_page st' q \<Longrightarrow> kva_to_pa (image_end example_image) \<le> q" by blast
  have "\<not> user_page st' 0x40008000"
    using s(2) [of "0x40008000"] by (auto simp: page_def example_image_def kva_to_pa_def KVA_BASE_def KPA_BASE_def)
  with s(1) show ?thesis by blast
qed

text \<open>
  C4: the kernel loads the user program.  When its image fits the four pages, user mode starts
  at 0x10000000 with the stack pointer at 0x10400000, reads the bytes of the image followed by zeros
  up to 0x10004000, in user privilege and with supervisor access to user pages switched off.
\<close>

theorem start_xos_loads:
  assumes "layout_ok L" and "unat (extra_end L) - unat (extra_start L) \<le> 0x4000"
  shows "\<exists>kst st'. start_xos L st = Some (Inl (User_mode kst st')) \<and>
    load32 (vmem (kvmm st')) (kst + 0x40) = 0x10000000 \<and> load32 (vmem (kvmm st')) (kst + 0x44) = 0x10400000 \<and>
    kcsr st' CSR_SSTATUS AND (SSTATUS_SUM OR SSTATUS_SPP) = 0 \<and>
    (\<forall>i<0x4000. user_reads st' (0x10000000 + of_nat i) =
       Some (if i < unat (extra_end L) - unat (extra_start L) then vmem (kvmm st) (extra_start L + of_nat i) else 0))"
proof -
  from start_xos_ok [OF assms, of st] obtain kst ps q0 st' where
    s: "start_xos L st = Some (Inl (User_mode kst st'))" and ps: "length ps = 5"
    and sp: "address_space 0x41FFE000 (insert q0 (set ps)) st' (user_space L ps)"
    and csr: "kcsr st' CSR_SSTATUS AND (SSTATUS_SUM OR SSTATUS_SPP) = 0"
    and frame: "load32 (vmem (kvmm st')) (kst + 0x40) = 0x10000000" "load32 (vmem (kvmm st')) (kst + 0x44) = 0x10400000"
    and prog: "\<forall>i<0x4000. vmem (kvmm st') (pa_to_kva (program_pa ps i)) =
       (if i < unat (extra_end L) - unat (extra_start L) then vmem (kvmm st) (extra_start L + of_nat i) else 0)" by blast
  have "user_reads st' (0x10000000 + of_nat i) = Some (vmem (kvmm st') (pa_to_kva (program_pa ps i)))" if "i < 0x4000" for i
    using user_text [OF assms(1) ps that] sp
    by (auto simp: user_reads_def address_space_def program_pa_def page_flags pte_bits)
  with s csr frame prog show ?thesis by (intro exI [of _ kst] exI [of _ st']) simp
qed

theorem start_xos_loads_witness:
  "\<exists>kst st'. start_xos example_image (example_kernel\<lparr>kvmm := (kvmm example_kernel)\<lparr>vmem := (\<lambda>a. ucast a)\<rparr>\<rparr>) =
       Some (Inl (User_mode kst st')) \<and>
     user_reads st' 0x10000012 = Some 0x12 \<and> user_reads st' 0x10000800 = Some 0"
proof -
  let ?st = "example_kernel\<lparr>kvmm := (kvmm example_kernel)\<lparr>vmem := (\<lambda>a. ucast a)\<rparr>\<rparr>"
  from start_xos_loads [OF example_image_ok example_image_size, of ?st] obtain kst st' where
    s: "start_xos example_image ?st = Some (Inl (User_mode kst st'))"
      "\<forall>i<0x4000. user_reads st' (0x10000000 + of_nat i) =
       Some (if i < unat (extra_end example_image) - unat (extra_start example_image)
             then vmem (kvmm ?st) (extra_start example_image + of_nat i) else 0)" by blast
  have "user_reads st' 0x10000012 = Some 0x12" using s(2) [rule_format, of "0x12"] by (simp add: example_image_def)
  moreover have "user_reads st' 0x10000800 = Some 0" using s(2) [rule_format, of "0x800"] by (simp add: example_image_def)
  ultimately show ?thesis using s(1) by blast
qed

text \<open>
  C11: a user program of more than 16 kB is not refused: the copy runs into the first page that is
  not mapped and the kernel faults on 0x10004000.
\<close>

theorem start_xos_large:
  assumes "layout_ok L" and "0x4000 < unat (extra_end L) - unat (extra_start L)"
  shows "\<exists>st'. start_xos L st = Some (Inl (Page_fault 0x10004000 st'))"
proof -
  note L = assms(1) and B = layout_bounds [OF assms(1)]
  obtain k where k: "unat (extra_end L - extra_start L) = 0x4000 + Suc k"
    using assms(2) B(8) less_imp_Suc_add [OF assms(2)] by (auto simp: unat_sub32)
  from start_until_copy [OF L, of st] obtain ps st2 where s: "start_xos L st = and_then
      (Some (copy_through 0x10000000 (extra_start L) (0x4000 + Suc k) (kcsr_set CSR_SSTATUS SSTATUS_SUM st2)))
      (\<lambda>st. Some (enter_user 0x10000000 0x10400000 (kcsr_clr CSR_SSTATUS SSTATUS_SUM st)))"
    and ps: "length ps = 5" "distinct ps" and sp: "address_space 0x41FFE000 (set ps) st2 (user_space L ps)"
    and bot: "pa_bottom (kvmm st2) = kva_to_pa (image_end L)"
    and z: "\<forall>q\<in>set ps. \<forall>a. in_page q a \<longrightarrow> vmem (kvmm st2) a = 0"
    unfolding k by blast
  have len: "unat (extra_start L) + 0x4000 \<le> unat (data_start L)" using B assms(2) by linarith
  from copy_program [OF L ps sp bot order_refl len z] obtain s3 where
    m: "copy_through 0x10000000 (extra_start L) 0x4000 (kcsr_set CSR_SSTATUS SSTATUS_SUM st2) = Inr s3"
      "address_space 0x41FFE000 (set ps) s3 (user_space L ps)" by blast
  have t: "translate (vmem (kvmm s3)) (kpgdir s3) v = user_space L ps v" for v using m(2) by (simp add: address_space_def)
  have "unat (extra_start L + 0x4000) = unat (extra_start L) + 0x4000" using B len by (simp add: unat_add32)
  then have "user_space L ps (extra_start L + 0x4000) = Some (kva_to_pa (extra_start L + 0x4000), KERNEL_RO)"
    using B assms(2) by (intro user_space_rodata [OF L ps(1)]) linarith+
  then have "physical (s_readable s3) s3 (extra_start L + 0x4000) = Some (kva_to_pa (extra_start L + 0x4000))"
    by (simp add: physical_def t s_readable_def page_flags pte_bits)
  moreover have "physical (s_writable s3) s3 0x10004000 = None"
    using user_space_low [OF L ps(1), of "0x10004000"] by (simp add: physical_def t)
  ultimately have "copy_through 0x10004000 (extra_start L + 0x4000) (Suc k) s3 = Inl (Page_fault 0x10004000 s3)"
    by simp
  then have "copy_through 0x10000000 (extra_start L) (0x4000 + Suc k) (kcsr_set CSR_SSTATUS SSTATUS_SUM st2) =
      Inl (Page_fault 0x10004000 s3)"
    unfolding copy_through_add m(1) by (simp del: copy_through.simps)
  then show ?thesis unfolding s by simp
qed

definition large_image :: kernel_image where
  "large_image = example_image\<lparr>data_start := 0xC0012000, extra_end := 0xC0011000, image_end := 0xC0014000\<rparr>"

theorem start_xos_large_witness:
  "\<exists>st'. start_xos large_image example_kernel = Some (Inl (Page_fault 0x10004000 st'))"
  by (rule start_xos_large)
    (simp_all add: large_image_def example_image_def layout_ok_def page_def KVA_BASE_def KPA_BASE_def pa_to_kva_def FRAMEBUFFER_BASE_def)

end
