(* ===== verification/Kernel25.thy ===== *)
theory Kernel25
  imports KernelUser
begin

text \<open>
  The earlier kernel of \<^verbatim>\<open>example/ex25-kernel.c\<close>: its start, the user program and its
  two system calls.  Its page allocator has no lower bound and does not fail; otherwise it builds
  its page tables as X/OS does, which is proved as a simulation.
\<close>

section \<open>Code\<close>

record kernel25 =
  mem25 :: ex25
  pdir25 :: u32
  csr25 :: "nat \<Rightarrow> u32"
  out25 :: "message list"

datatype ending25 = Halted25 kernel25 | Page_fault25 u32 kernel25 | User_mode25 u32 kernel25 | Resumed eframe kernel25

definition print25 :: "string \<Rightarrow> u32 list \<Rightarrow> kernel25 \<Rightarrow> kernel25" where
  "print25 fmt ws st = st\<lparr>out25 := out25 st @ [Printf (lit fmt) (map Word ws)]\<rparr>"

definition csr_write25 :: "nat \<Rightarrow> u32 \<Rightarrow> kernel25 \<Rightarrow> kernel25" where
  "csr_write25 r v st = st\<lparr>csr25 := (csr25 st)(r := v)\<rparr>"

definition alloc_page25 :: "kernel25 \<Rightarrow> u32 \<times> kernel25" where
  "alloc_page25 st = (let (pa, k) = alloc_ppage (mem25 st) in (pa, st\<lparr>mem25 := k\<rparr>))"

definition map25 :: "u32 \<Rightarrow> u32 \<Rightarrow> u32 \<Rightarrow> kernel25 \<Rightarrow> ending25 + kernel25" where
  "map25 va pa flags st = Inr (st\<lparr>mem25 := snd (map_page (mem25 st) (pdir25 st) va pa flags)\<rparr>)"

definition map25_4m :: "u32 \<Rightarrow> u32 \<Rightarrow> u32 \<Rightarrow> kernel25 \<Rightarrow> ending25 + kernel25" where
  "map25_4m va pa flags st = Inr (st\<lparr>mem25 := snd (map_page_4m (mem25 st) (pdir25 st) va pa flags)\<rparr>)"

definition map_new25 :: "u32 \<Rightarrow> u32 \<Rightarrow> kernel25 \<Rightarrow> (ending25 + kernel25) option" where
  "map_new25 va flags st = (let (pa, st) = alloc_page25 st in Some (map25 va pa flags st))"

definition map_kernel25 :: "kernel_image \<Rightarrow> kernel25 \<Rightarrow> (ending25 + kernel25) option" where
  "map_kernel25 L st =
     and_then (page_loop (\<lambda>va. map25 va (kva_to_pa va) KERNEL_RX) PAGE_SIZE (rodata_start L) (text_start L) st)
       (\<lambda>(va, st).
     and_then (page_loop (\<lambda>va. map25 va (kva_to_pa va) KERNEL_RO) PAGE_SIZE (data_start L) va st)
       (\<lambda>(va, st).
     and_then (page_loop (\<lambda>va. map25 va (kva_to_pa va) KERNEL_RW) PAGE_SIZE
         ((image_end L + 0x003FFFFF) AND 0xFFC00000) va st)
       (\<lambda>(va, st).
     and_then (page_loop (\<lambda>va. map25_4m va (kva_to_pa va) KERNEL_RW) (4 * 1024 * 1024) (memory_top L) va st)
       (\<lambda>(va, st). Some (map25_4m 0xF0000000 0xF0000000 KERNEL_RW st)))))"

definition print_layout25 :: "kernel_image \<Rightarrow> kernel25 \<Rightarrow> kernel25" where
  "print_layout25 L st =
     (let st = print25 ''Example 25 - kernel\<newline>\<newline>'' [] st;
          st = print25 ''text   %p %u\<newline>'' [text_start L, rodata_start L - text_start L] st;
          st = print25 ''rodata %p %u\<newline>'' [rodata_start L, data_start L - rodata_start L] st;
          st = print25 ''data   %p %u\<newline>'' [data_start L, bss_start L - data_start L] st;
          st = print25 ''bss    %p %u\<newline>'' [bss_start L, bss_end L - bss_start L] st;
          st = print25 ''free   %p %u\<newline>'' [image_end L, memory_top L - image_end L] st
      in print25 ''memtop %p\<newline>'' [memory_top L] st)"

definition start_memory25 :: "kernel_image \<Rightarrow> kernel25 \<Rightarrow> (ending25 + kernel25) option" where
  "start_memory25 L st =
     (let st = print_layout25 L st;
          st = csr_write25 CSR_STVEC (trap_entry L) st;
          st = st\<lparr>mem25 := (mem25 st)\<lparr>ppage_next := kva_to_pa (memory_top L) - 2 * PAGE_SIZE\<rparr>\<rparr>;
          (pa, st) = alloc_page25 st;
          st = st\<lparr>pdir25 := pa_to_kva pa\<rparr>
      in and_then (map_kernel25 L st) (\<lambda>st.
           let st = csr_write25 CSR_SATP (SATP_MODE_SV32 OR drop_bit 12 (kva_to_pa (pdir25 st))) st
           in Some (Inr (st\<lparr>mem25 := (mem25 st)\<lparr>xflushes := Suc (xflushes (mem25 st))\<rparr>\<rparr>))))"

definition map_user25 :: "u32 \<Rightarrow> u32 \<Rightarrow> kernel25 \<Rightarrow> (ending25 + kernel25) option" where
  "map_user25 user_start user_stack st =
     and_then (map_new25 (user_start + 0 * PAGE_SIZE) USER_RWX st) (\<lambda>st.
     and_then (map_new25 (user_start + 1 * PAGE_SIZE) USER_RWX st) (\<lambda>st.
     and_then (map_new25 (user_start + 2 * PAGE_SIZE) USER_RWX st) (\<lambda>st.
     and_then (map_new25 (user_start + 3 * PAGE_SIZE) USER_RWX st) (\<lambda>st.
     map_new25 (user_stack - 1 * PAGE_SIZE) USER_RW st))))"

text \<open>\<open>memcpy\<close> goes through the same hardware: the part of the state that it depends on.\<close>

definition as_kernel :: "kernel25 \<Rightarrow> kernel" where
  "as_kernel st = \<lparr>kvmm = \<lparr>vmem = xmem (mem25 st), pa_top = ppage_next (mem25 st), pa_bottom = 0,
     tlb_flushes = xflushes (mem25 st)\<rparr>, kpgdir = pdir25 st, kcsr = csr25 st, kout = out25 st\<rparr>"

definition copy25 :: "u32 \<Rightarrow> u32 \<Rightarrow> nat \<Rightarrow> kernel25 \<Rightarrow> ending25 + kernel25" where
  "copy25 dst src n st =
     (case copy_through dst src n (as_kernel st) of
        Inr k \<Rightarrow> Inr (st\<lparr>mem25 := (mem25 st)\<lparr>xmem := vmem (kvmm k)\<rparr>\<rparr>)
      | Inl (Page_fault a k) \<Rightarrow> Inl (Page_fault25 a (st\<lparr>mem25 := (mem25 st)\<lparr>xmem := vmem (kvmm k)\<rparr>\<rparr>))
      | Inl _ \<Rightarrow> Inr st)"

text \<open>The exception frame (128 bytes) is at the top of the page.\<close>

definition start_user_program25 :: "kernel_image \<Rightarrow> kernel25 \<Rightarrow> (ending25 + kernel25) option" where
  "start_user_program25 L st =
     (let user_start = 0x10000000;
          user_stack = 0x10400000;
          extra = extra_end L - extra_start L;
          st = print25 ''user.bin %u bytes\<newline>'' [extra] st
      in and_then (map_user25 user_start user_stack st) (\<lambda>st.
         let st = csr_write25 CSR_SSTATUS (csr25 st CSR_SSTATUS OR SSTATUS_SUM) st
         in and_then (Some (copy25 user_start (extra_start L) (unat extra) st)) (\<lambda>st.
           let st = csr_write25 CSR_SSTATUS (csr25 st CSR_SSTATUS AND NOT SSTATUS_SUM) st;
               (pa, st) = alloc_page25 st;
               ef = pa_to_kva (pa + PAGE_SIZE - 32 * 4);
               m = store32 (xmem (mem25 st)) (ef + 0x40) user_start;
               m = store32 m (ef + 0x44) user_stack;
               st = st\<lparr>mem25 := (mem25 st)\<lparr>xmem := m\<rparr>\<rparr>;
               st = csr_write25 CSR_SSTATUS (csr25 st CSR_SSTATUS AND NOT SSTATUS_SPP) st;
               st = print25 ''\<newline>[ starting user mode program ]\<newline>\<newline>'' [] st
           in Some (Inl (User_mode25 ef st)))))"

definition start25 :: "kernel_image \<Rightarrow> kernel25 \<Rightarrow> (ending25 + kernel25) option" where
  "start25 L st = and_then (start_memory25 L st) (start_user_program25 L)"

text \<open>The handler of exceptions, with the frame of the interrupted program.\<close>

definition EXCn_ECALL_UMODE :: u32 where "EXCn_ECALL_UMODE = 8"
definition SYS_EXIT :: u32 where "SYS_EXIT = 0"
definition SYS_XPUTC :: u32 where "SYS_XPUTC = 1"

definition exception_handler25 :: "eframe \<Rightarrow> kernel25 \<Rightarrow> ending25" where
  "exception_handler25 ef st =
     (if csr25 st CSR_SCAUSE = EXCn_ECALL_UMODE
      then if ef_t0 ef = SYS_EXIT
           then Halted25 (print25 ''\<newline>[ user exit (status %d) ]\<newline>'' [ef_a0 ef] st)
           else if ef_t0 ef = SYS_XPUTC
           then Resumed (ef\<lparr>ef_pc := ef_pc ef + 4\<rparr>) (st\<lparr>out25 := out25 st @ [Putc (ef_a0 ef)]\<rparr>)
           else Halted25 (print25 ''\<newline>[ invalid syscall %u ]\<newline>'' [ef_t0 ef] st)
      else let st = print25 ''\<newline>** SUPERVISOR EXCEPTION **\<newline>'' [] st;
               sstatus = csr25 st CSR_SSTATUS;
               calls = exception_calls (drop_bit 8 sstatus AND 1) sstatus (csr25 st CSR_SCAUSE) (csr25 st CSR_STVAL) ef;
               st = st\<lparr>out25 := out25 st @ map (\<lambda>(fmt, ap). Printf fmt ap) calls\<rparr>
           in Halted25 (print25 ''\<newline>HALT\<newline>'' [] st))"

section \<open>The simulation by X/OS\<close>

text \<open>The same memory, allocator, page directory and control registers.\<close>

definition same_kernel :: "kernel25 \<Rightarrow> kernel \<Rightarrow> bool" where
  "same_kernel s st \<longleftrightarrow> xmem (mem25 s) = vmem (kvmm st) \<and> ppage_next (mem25 s) = pa_top (kvmm st) \<and>
     pdir25 s = kpgdir st \<and> csr25 s = kcsr st"

lemma alloc_same:
  assumes "same_kernel s st" "alloc_z st = Inr (pa, st')"
  shows "\<exists>s'. alloc_page25 s = (pa, s') \<and> same_kernel s' st'"
  using assms
  by (auto simp: alloc_page25_def alloc_z_def alloc_ppage_def ppage_alloc_z_def same_kernel_def Let_def
      split: sum.splits halted.splits prod.splits if_splits)

lemma map_same:
  assumes "same_kernel s st" "page va" "page pa" "map_4k va pa flags st = Inr st'"
  shows "\<exists>s'. map25 va pa flags s = Inr s' \<and> same_kernel s' st'"
  using assms unfolding page_def
  by (auto simp: map25_def map_4k_def map_page_def vm_map_4k_def alloc_ppage_def ppage_alloc_z_def same_kernel_def Let_def
      split: sum.splits halted.splits prod.splits if_splits)

lemma map_4m_same:
  assumes "same_kernel s st" "va AND 0x3FFFFF = 0" "pa AND 0x3FFFFF = 0" "map_4m va pa flags st = Inr st'"
  shows "\<exists>s'. map25_4m va pa flags s = Inr s' \<and> same_kernel s' st'"
  using assms
  by (auto simp: map25_4m_def map_4m_def map_page_4m_def vm_map_4m_def same_kernel_def Let_def split: if_splits)

lemma page_loop_same:
  assumes step: "\<And>va s st st'. Q va \<Longrightarrow> R s st \<Longrightarrow> body va st = Inr st' \<Longrightarrow> \<exists>s'. body' va s = Inr s' \<and> R s' st'"
    and next_va: "\<And>va. Q va \<Longrightarrow> Q (va + inc)"
    and run: "page_loop body inc lim va st = Some r" "r = Inr (va', st')" "Q va" "R s st"
  shows "\<exists>s'. page_loop body' inc lim va s = Some (Inr (va', s')) \<and> R s' st' \<and> Q va'"
  using run(1) step next_va run(2-)
proof (induction arbitrary: s rule: page_loop.raw_induct [rotated 1, consumes 1])
  case (1 loop body inc lim va st r)
  show ?case
  proof (cases "va < lim")
    case False
    with 1 show ?thesis by (subst page_loop.simps) auto
  next
    case True
    then obtain st1 where st1: "body va st = Inr st1" "loop body inc lim (va + inc) st1 = Some r"
      using "1.hyps" "1.prems" by (auto split: sum.splits)
    from "1.prems"(1) [OF "1.prems"(4,5) st1(1)] obtain s1 where s1: "body' va s = Inr s1" "R s1 st1" by blast
    from "1.IH" [OF st1(2) "1.prems"(1,2,3) "1.prems"(2) [OF "1.prems"(4)] s1(2)] show ?thesis
      using True s1(1) by (subst page_loop.simps) simp
  qed
qed

lemma pages_same:
  assumes "page_loop (\<lambda>va. map_4k va (kva_to_pa va) flags) PAGE_SIZE lim va st = Some (Inr (va', st'))"
    and "same_kernel s st" "page va"
  shows "\<exists>s'. page_loop (\<lambda>va. map25 va (kva_to_pa va) flags) PAGE_SIZE lim va s = Some (Inr (va', s')) \<and> same_kernel s' st'"
proof -
  have "page (PAGE_SIZE)" by (simp add: page_def PAGE_SIZE_def)
  then show ?thesis
    using page_loop_same [where Q = page and R = same_kernel, OF _ _ assms(1) refl assms(3,2),
        of "\<lambda>va. map25 va (kva_to_pa va) flags"] map_same page_plus by fastforce
qed

lemma megapages_same:
  assumes "page_loop (\<lambda>va. map_4m va (kva_to_pa va) flags) 4194304 lim va st = Some (Inr (va', st'))"
    and "same_kernel s st" "va AND 0x3FFFFF = 0"
  shows "\<exists>s'. page_loop (\<lambda>va. map25_4m va (kva_to_pa va) flags) 4194304 lim va s = Some (Inr (va', s')) \<and> same_kernel s' st'"
proof -
  have plus: "(va + 4194304) AND 0x3FFFFF = (0 :: u32)" if "va AND 0x3FFFFF = 0" for va :: u32
    using that unfolding megapage_dvd by (auto simp: unat_add32 dvd_diff_nat)
  have pa: "kva_to_pa va AND 0x3FFFFF = 0" if "va AND 0x3FFFFF = 0" for va
    using that unfolding megapage_dvd kva_to_pa_def KVA_BASE_def KPA_BASE_def by (auto simp: unat_sub32 dvd_diff_nat)
  show ?thesis
    using page_loop_same [where Q = "\<lambda>va. va AND 0x3FFFFF = 0" and R = same_kernel, OF _ _ assms(1) refl assms(3,2),
        of "\<lambda>va. map25_4m va (kva_to_pa va) flags"] map_4m_same pa plus by fastforce
qed

lemma map_kernel_same:
  assumes L: "layout_ok L" and sp: "address_space hi U st (\<lambda>_. None)" and ab: "above 0 st"
    and room: "unat (pa_bottom (kvmm st)) + 0xC00000 \<le> unat (pa_top (kvmm st))"
    and same: "same_kernel s st" and run: "map_kernel L st = Some (Inr st')"
  shows "\<exists>s'. map_kernel25 L s = Some (Inr s') \<and> same_kernel s' st'"
proof -
  let ?e = "(image_end L + 0x003FFFFF) AND 0xFFC00000"
  define i where "i = (unat (image_end L) + 0x3FFFFF) div 4194304"
  have e: "unat ?e = i * 4194304" unfolding i_def using layout_bounds [OF L] by (intro megapage_round) simp
  have i: "unat (image_end L) \<le> i * 4194304" "i \<le> 771" using layout_bounds [OF L] unfolding i_def by simp_all
  have ab: "above i st" using ab by (simp add: above_def)
  have al: "?e AND 0x3FFFFF = 0" unfolding megapage_dvd e by simp
  have pg: "page (text_start L)" "page (rodata_start L)" "page (data_start L)" using L by (simp_all add: layout_ok_def)
  from map_kernel_pages [OF L sp ab i e room] obtain s1 s2 s3 where
    r: "page_loop (\<lambda>va. map_4k va (kva_to_pa va) KERNEL_RX) PAGE_SIZE (rodata_start L) (text_start L) st = Some (Inr (rodata_start L, s1))"
    "page_loop (\<lambda>va. map_4k va (kva_to_pa va) KERNEL_RO) PAGE_SIZE (data_start L) (rodata_start L) s1 = Some (Inr (data_start L, s2))"
    "page_loop (\<lambda>va. map_4k va (kva_to_pa va) KERNEL_RW) PAGE_SIZE ?e (data_start L) s2 = Some (Inr (?e, s3))" .
  from pages_same [OF r(1) same pg(1)] obtain t1 where t1: "page_loop (\<lambda>va. map25 va (kva_to_pa va) KERNEL_RX) PAGE_SIZE
      (rodata_start L) (text_start L) s = Some (Inr (rodata_start L, t1))" "same_kernel t1 s1" by blast
  from pages_same [OF r(2) t1(2) pg(2)] obtain t2 where t2: "page_loop (\<lambda>va. map25 va (kva_to_pa va) KERNEL_RO) PAGE_SIZE
      (data_start L) (rodata_start L) t1 = Some (Inr (data_start L, t2))" "same_kernel t2 s2" by blast
  from pages_same [OF r(3) t2(2) pg(3)] obtain t3 where t3: "page_loop (\<lambda>va. map25 va (kva_to_pa va) KERNEL_RW) PAGE_SIZE
      ?e (data_start L) t2 = Some (Inr (?e, t3))" "same_kernel t3 s3" by blast
  obtain va s4 where s4: "page_loop (\<lambda>va. map_4m va (kva_to_pa va) KERNEL_RW) 4194304 (memory_top L) ?e s3 = Some (Inr (va, s4))"
    "map_4m 0xF0000000 0xF0000000 KERNEL_RW s4 = Inr st'"
    using run by (auto simp: map_kernel_def r and_then_def split: option.splits sum.splits)
  from megapages_same [OF s4(1) t3(2) al] obtain t4 where t4: "page_loop (\<lambda>va. map25_4m va (kva_to_pa va) KERNEL_RW) 4194304
      (memory_top L) ?e t3 = Some (Inr (va, t4))" "same_kernel t4 s4" by blast
  from map_4m_same [OF t4(2) _ _ s4(2)] obtain t5 where
    "map25_4m 0xF0000000 0xF0000000 KERNEL_RW t4 = Inr t5" "same_kernel t5 st'" by auto
  then show ?thesis by (simp add: map_kernel25_def t1(1) t2(1) t3(1) t4(1))
qed

text \<open>The pages that are given out are aligned, because the first one is.\<close>

lemma page_4096: "page (4096 :: u32)"
  by (simp add: page_def)

lemma alloc_z_page:
  "alloc_z st = Inr (pa, st') \<Longrightarrow> page (pa_top (kvmm st)) \<Longrightarrow> page pa \<and> page (pa_top (kvmm st'))"
  by (auto simp: alloc_z_def ppage_alloc_z_def Let_def PAGE_SIZE_def page_minus page_4096
      split: sum.splits halted.splits prod.splits if_splits)

lemma map_4k_page: "map_4k va pa flags st = Inr st' \<Longrightarrow> page (pa_top (kvmm st)) \<Longrightarrow> page (pa_top (kvmm st'))"
  by (auto simp: map_4k_def vm_map_4k_def ppage_alloc_z_def Let_def PAGE_SIZE_def page_minus page_4096
      split: sum.splits halted.splits prod.splits if_splits)

lemma map_new_same:
  assumes "same_kernel s st" "page va" "page (pa_top (kvmm st))" "map_new va flags st = Some (Inr st')"
  shows "\<exists>s'. map_new25 va flags s = Some (Inr s') \<and> same_kernel s' st' \<and> page (pa_top (kvmm st'))"
proof -
  obtain pa st1 where a: "alloc_z st = Inr (pa, st1)" "map_4k va pa flags st1 = Inr st'"
    using assms(4) by (auto simp: map_new_def split: sum.splits)
  from alloc_z_page [OF a(1) assms(3)] have pg: "page pa" "page (pa_top (kvmm st'))" using map_4k_page [OF a(2)] by auto
  obtain s1 where s1: "alloc_page25 s = (pa, s1)" "same_kernel s1 st1" using alloc_same [OF assms(1) a(1)] by blast
  from map_same [OF s1(2) assms(2) pg(1) a(2)] s1(1) pg(2) show ?thesis by (auto simp: map_new25_def)
qed

lemma and_then_SomeE:
  assumes "and_then r f = Some (Inr y)" obtains x where "r = Some (Inr x)" "f x = Some (Inr y)"
  using assms by (auto simp: and_then_def split: option.splits sum.splits)

lemma map_user_same:
  assumes "same_kernel s st" "page (pa_top (kvmm st))" "map_user 0x10000000 0x10400000 st = Some (Inr st')"
  shows "\<exists>s'. map_user25 0x10000000 0x10400000 s = Some (Inr s') \<and> same_kernel s' st'"
proof -
  have pg: "page (0x10000000 :: u32)" "page (0x10001000 :: u32)" "page (0x10002000 :: u32)" "page (0x10003000 :: u32)"
    "page (0x103FF000 :: u32)" by (simp_all add: page_def)
  from assms(3) obtain x0 x1 x2 x3 where r: "map_new 0x10000000 USER_RWX st = Some (Inr x0)"
      "map_new 0x10001000 USER_RWX x0 = Some (Inr x1)" "map_new 0x10002000 USER_RWX x1 = Some (Inr x2)"
      "map_new 0x10003000 USER_RWX x2 = Some (Inr x3)" "map_new 0x103FF000 USER_RW x3 = Some (Inr st')"
    by (auto simp: map_user_def PAGE_SIZE_def elim!: and_then_SomeE)
  from map_new_same [OF assms(1) pg(1) assms(2) r(1)] obtain s0 where
    s0: "map_new25 0x10000000 USER_RWX s = Some (Inr s0)" "same_kernel s0 x0" "page (pa_top (kvmm x0))" by blast
  from map_new_same [OF s0(2) pg(2) s0(3) r(2)] obtain s1 where
    s1: "map_new25 0x10001000 USER_RWX s0 = Some (Inr s1)" "same_kernel s1 x1" "page (pa_top (kvmm x1))" by blast
  from map_new_same [OF s1(2) pg(3) s1(3) r(3)] obtain s2 where
    s2: "map_new25 0x10002000 USER_RWX s1 = Some (Inr s2)" "same_kernel s2 x2" "page (pa_top (kvmm x2))" by blast
  from map_new_same [OF s2(2) pg(4) s2(3) r(4)] obtain s3 where
    s3: "map_new25 0x10003000 USER_RWX s2 = Some (Inr s3)" "same_kernel s3 x3" "page (pa_top (kvmm x3))" by blast
  from map_new_same [OF s3(2) pg(5) s3(3) r(5)] show ?thesis
    by (auto simp: map_user25_def PAGE_SIZE_def s0(1) s1(1) s2(1) s3(1))
qed

lemma print_layout25_same [simp]:
  "mem25 (print_layout25 L s) = mem25 s" "pdir25 (print_layout25 L s) = pdir25 s" "csr25 (print_layout25 L s) = csr25 s"
  by (simp_all add: print_layout25_def print25_def)

lemma start_memory_same:
  assumes L: "layout_ok L" and same: "xmem (mem25 s) = vmem (kvmm st)" "csr25 s = kcsr st"
    and run: "start_memory L st = Some (Inr st')"
  shows "\<exists>s'. start_memory25 L s = Some (Inr s') \<and> same_kernel s' st'"
proof -
  define st0 where "st0 = kcsr_write CSR_STVEC (trap_entry L) (print_layout L st)"
  define st1 where "st1 = st0\<lparr>kvmm := vmm_init (kvmm st0) (kva_to_pa (image_end L)) (kva_to_pa (memory_top L) - 2 * PAGE_SIZE)\<rparr>"
  have st1: "pa_top (kvmm st1) = 0x41FFE000" "pa_bottom (kvmm st1) = kva_to_pa (image_end L)"
    using L by (simp_all add: st1_def st0_def vmm_init_def layout_ok_def kva_to_pa_def KVA_BASE_def KPA_BASE_def PAGE_SIZE_def)
  from first_page [OF L st1] obtain pa k where
    a: "alloc_z st1 = Inr (pa, st1\<lparr>kvmm := k\<rparr>)"
    and sp: "address_space 0x41FFE000 {} (st1\<lparr>kvmm := k, kpgdir := pa_to_kva pa\<rparr>) (\<lambda>_. None)"
      "above 0 (st1\<lparr>kvmm := k, kpgdir := pa_to_kva pa\<rparr>)"
    and room: "unat (pa_bottom k) + 0xC00000 \<le> unat (pa_top k)" by blast
  obtain st2 where st2: "map_kernel L (st1\<lparr>kvmm := k, kpgdir := pa_to_kva pa\<rparr>) = Some (Inr st2)"
      "st' = (kcsr_write CSR_SATP (SATP_MODE_SV32 OR drop_bit 12 (kva_to_pa (kpgdir st2))) st2)\<lparr>kvmm := tlb_flush_all (kvmm st2)\<rparr>"
    using run a unfolding st1_def st0_def
    by (auto simp: start_memory_def Let_def kcsr_write_def elim!: and_then_SomeE)
  define s1 where "s1 = (csr_write25 CSR_STVEC (trap_entry L) (print_layout25 L s))
    \<lparr>mem25 := (mem25 s)\<lparr>ppage_next := kva_to_pa (memory_top L) - 2 * PAGE_SIZE\<rparr>\<rparr>"
  have "same_kernel (s1\<lparr>pdir25 := kpgdir st1\<rparr>) st1"
    using same by (simp add: same_kernel_def s1_def csr_write25_def st1_def st0_def vmm_init_def)
  from alloc_same [OF this a] obtain s2 where s2: "alloc_page25 s1 = (pa, s2)" "same_kernel (s2\<lparr>pdir25 := kpgdir st1\<rparr>) (st1\<lparr>kvmm := k\<rparr>)"
    by (auto simp: alloc_page25_def same_kernel_def split: prod.splits)
  then have "same_kernel (s2\<lparr>pdir25 := pa_to_kva pa\<rparr>) (st1\<lparr>kvmm := k, kpgdir := pa_to_kva pa\<rparr>)" by (simp add: same_kernel_def)
  from map_kernel_same [OF L sp _ this st2(1)] room obtain s3 where
    s3: "map_kernel25 L (s2\<lparr>pdir25 := pa_to_kva pa\<rparr>) = Some (Inr s3)" "same_kernel s3 st2" by auto
  let ?s' = "(csr_write25 CSR_SATP (SATP_MODE_SV32 OR drop_bit 12 (kva_to_pa (pdir25 s3))) s3)
    \<lparr>mem25 := (mem25 s3)\<lparr>xflushes := Suc (xflushes (mem25 s3))\<rparr>\<rparr>"
  have "start_memory25 L s = Some (Inr ?s')"
    using s2(1) s3(1) unfolding s1_def by (simp add: start_memory25_def csr_write25_def Let_def)
  moreover have "same_kernel ?s' st'" using s3(2) st2(2) by (simp add: same_kernel_def csr_write25_def)
  ultimately show ?thesis by blast
qed

section \<open>Properties\<close>

text \<open>
  C12: the kernel of example 25 builds the same page tables as X/OS.  Started on the same memory
  and control registers, both leave the same memory, next free page, page directory and control
  registers: when they switch to their page tables, and again when the pages of the user
  program are mapped.
\<close>

theorem start25_as_xos:
  assumes "layout_ok L" and "xmem (mem25 s) = vmem (kvmm st)" and "csr25 s = kcsr st"
  shows "\<exists>s1 st1 s2 st2. start_memory25 L s = Some (Inr s1) \<and> start_memory L st = Some (Inr st1) \<and> same_kernel s1 st1 \<and>
    (\<forall>v. translate (xmem (mem25 s1)) (pdir25 s1) v = layout_map L v) \<and>
    map_user25 0x10000000 0x10400000 s1 = Some (Inr s2) \<and> map_user 0x10000000 0x10400000 st1 = Some (Inr st2) \<and>
    same_kernel s2 st2"
proof -
  from start_memory_ok [OF assms(1), of st] obtain st1 where st1: "start_memory L st = Some (Inr st1)"
      "address_space 0x41FFE000 {} st1 (layout_map L)" "0x413FD000 \<le> unat (pa_top (kvmm st1))"
      "pa_bottom (kvmm st1) = kva_to_pa (image_end L)" by blast
  from start_memory_same [OF assms st1(1)] obtain s1 where
    s1: "start_memory25 L s = Some (Inr s1)" "same_kernel s1 st1" by blast
  have "translate (xmem (mem25 s1)) (pdir25 s1) v = layout_map L v" for v
    using s1(2) st1(2) by (simp add: same_kernel_def address_space_def)
  moreover obtain st2 where st2: "map_user 0x10000000 0x10400000 st1 = Some (Inr st2)"
    using start_user_maps [OF assms(1) st1(2,4,3)] by blast
  moreover have "page (pa_top (kvmm st1))" using st1(2) spaceD(1) by (auto simp: address_space_def vmm_ok_def)
  from map_user_same [OF s1(2) this st2] obtain s2 where
    "map_user25 0x10000000 0x10400000 s1 = Some (Inr s2)" "same_kernel s2 st2" by blast
  ultimately show ?thesis using st1(1) s1 by blast
qed

definition example_kernel25 :: kernel25 where
  "example_kernel25 = \<lparr>mem25 = \<lparr>xmem = (\<lambda>_. 0), ppage_next = 0, xflushes = 0\<rparr>, pdir25 = 0, csr25 = (\<lambda>_. 0), out25 = []\<rparr>"

theorem start25_as_xos_witness:
  "\<exists>s1. start_memory25 example_image example_kernel25 = Some (Inr s1) \<and>
     translate (xmem (mem25 s1)) (pdir25 s1) 0xC0009004 = Some (0x40009004, KERNEL_RX)"
proof -
  have "xmem (mem25 example_kernel25) = vmem (kvmm example_kernel)" "csr25 example_kernel25 = kcsr example_kernel"
    by (simp_all add: example_kernel25_def example_kernel_def)
  from start25_as_xos [OF example_image_ok this] obtain s1 where
    "start_memory25 example_image example_kernel25 = Some (Inr s1)"
    "\<forall>v. translate (xmem (mem25 s1)) (pdir25 s1) v = layout_map example_image v" by blast
  then show ?thesis
    by (intro exI [of _ s1]) (simp add: layout_map_def example_image_def kva_to_pa_def KVA_BASE_def KPA_BASE_def)
qed

end
