(* ===== verification/Packets.thy ===== *)
theory Packets
  imports Net Regions
begin

text \<open>
  What the network stack of \<^verbatim>\<open>Net\<close> does with packets.  Frames are lists of bytes: \<open>ip6_frame\<close>
  is a frame on the wire, \<open>checksum_valid\<close> the condition a receiver checks, \<open>udp_packet\<close> the
  datagram that a host with a given ethernet address reads from a frame.  The stack's addresses
  belong together (\<open>net_ready\<close>) and its objects are apart from each other (\<open>linked\<close>).
\<close>

section \<open>Stores as runs of bytes\<close>

definition be16 :: "u16 \<Rightarrow> u8 list" where
  "be16 v = [ucast (drop_bit 8 v), ucast v]"

lemma length_be16 [simp]: "length (be16 v) = 2"
  by (simp add: be16_def)

lemma store16_htons: "store16 m a (htons v) = put_bytes m a (be16 v)"
proof -
  have "ucast (htons v) = (ucast (drop_bit 8 v) :: u8)"
    by (rule bit_word_eqI) (auto simp: htons_def bit_simps)
  moreover have "ucast (drop_bit 8 (htons v)) = (ucast v :: u8)"
    by (rule bit_word_eqI) (auto simp: htons_def bit_simps)
  ultimately show ?thesis by (simp add: store16_put_bytes be16_def del: put_bytes.simps)
qed

lemma htons_load16: "htons (load16 m a) = word_cat (m a) (m (a + 1))"
  by (rule bit_word_eqI) (auto simp: htons_def load16_def bit_simps)

lemma half_copy: "store16 m d (load16 m s) = copied m d s 2"
proof -
  have "[ucast (load16 m s), ucast (drop_bit 8 (load16 m s))] = bytes m s 2"
    by (simp add: bytes_Suc load16_def) (auto intro!: bit_word_eqI simp: bit_simps)
  then show ?thesis by (simp only: store16_put_bytes put_bytes_bytes)
qed

lemma separate_le: "separate a n b k \<Longrightarrow> k \<le> unat (a - b)"
  by (simp add: separate_def)

lemma eth_addr_copy_put:
  assumes "separate d 6 s 6"
  shows "eth_addr_copy m d s = put_bytes m d (bytes m s 6)"
proof -
  have "6 \<le> unat (d - s)" using assms by (simp add: separate_def)
  then show ?thesis
    using copied_forward [of d s 2 2 m] copied_forward [of d s 4 2 m]
    by (simp only: eth_addr_copy_def Let_def half_copy put_bytes_bytes) simp
qed

lemma ip6_addr_copy_put:
  assumes "separate d 16 s 16"
  shows "ip6_addr_copy m d s = put_bytes m d (bytes m s 16)"
proof -
  have "16 \<le> unat (d - s)" using assms by (simp add: separate_def)
  then show ?thesis
    using copied_forward [of d s 4 4 m] copied_forward [of d s 8 4 m] copied_forward [of d s 12 4 m]
    by (simp only: ip6_addr_copy_def Let_def word_copy put_bytes_bytes) simp
qed

lemma memcpy_put:
  assumes "unat n \<le> unat (d - s)" "unat n < 2147483648"
  shows "memcpy m d s n = put_bytes m d (bytes m s (unat n))"
  using assms cpy.copy_copied [of d s n m] unat_lt_pow32 [of n]
  by (simp add: put_bytes_bytes memcpy_supports_def)

section \<open>Checksums\<close>

text \<open>The sum of the 16-bit words of a run of bytes, in the byte order of the machine and of the network.\<close>

fun le_sum :: "u8 list \<Rightarrow> nat" where
  "le_sum (a # b # bs) = unat a + 256 * unat b + le_sum bs"
| "le_sum [a] = unat a"
| "le_sum [] = 0"

fun be_sum :: "u8 list \<Rightarrow> nat" where
  "be_sum (a # b # bs) = 256 * unat a + unat b + be_sum bs"
| "be_sum [a] = 256 * unat a"
| "be_sum [] = 0"

lemma le_sum_append: "even (length xs) \<Longrightarrow> le_sum (xs @ ys) = le_sum xs + le_sum ys"
  by (induction xs rule: le_sum.induct) simp_all

lemma be_sum_append: "even (length xs) \<Longrightarrow> be_sum (xs @ ys) = be_sum xs + be_sum ys"
  by (induction xs rule: be_sum.induct) simp_all

lemma be_sum_swap: "(be_sum bs) mod 65535 = (256 * le_sum bs) mod 65535"
proof (induction bs rule: be_sum.induct)
  case (1 a b bs)
  have "256 * le_sum (a # b # bs) = (256 * unat a + unat b + 256 * le_sum bs) + 65535 * unat b"
    by simp
  then have "(256 * le_sum (a # b # bs)) mod 65535 = (256 * unat a + unat b + 256 * le_sum bs) mod 65535"
    by (simp only: mod_mult_self2)
  also have "\<dots> = (256 * unat a + unat b + be_sum bs) mod 65535"
    using 1 by (metis mod_add_right_eq)
  finally show ?case by simp
qed simp_all

lemma le_sum_bound: "le_sum bs \<le> 65535 * length bs"
proof (induction bs rule: le_sum.induct)
  case (1 a b bs)
  then show ?case using unsigned_less [of a, where ?'a = nat] unsigned_less [of b, where ?'a = nat]
    by simp
next
  case (2 a)
  then show ?case using unsigned_less [of a, where ?'a = nat] by simp
qed simp

lemma unat_load16: "unat (load16 m a) = unat (m a) + 256 * unat (m (a + 1))"
proof -
  have "load16 m a = push_bit 8 (ucast (m (a + 1))) OR ucast (m a)"
    by (rule bit_word_eqI) (auto simp: load16_def bit_simps dest: bit_imp_le_length)
  also have "\<dots> = push_bit 8 (ucast (m (a + 1))) + ucast (m a)"
    by (rule disjunctive_add [symmetric]) (auto simp: bit_simps dest: bit_imp_le_length)
  finally have eq: "load16 m a = of_nat (256 * unat (m (a + 1)) + unat (m a))"
    by (simp add: push_bit_eq_mult)
  have "256 * unat (m (a + 1)) + unat (m a) < 65536"
    using unsigned_less [of "m a", where ?'a = nat] unsigned_less [of "m (a + 1)", where ?'a = nat]
    by simp
  then have "unat (of_nat (256 * unat (m (a + 1)) + unat (m a)) :: u16) =
      256 * unat (m (a + 1)) + unat (m a)"
    by (intro of_nat_inverse [OF refl]) simp
  then show ?thesis unfolding eq by simp
qed

lemma unat_load16_low: "unat (load16 m a AND 0xFF) = unat (m a)"
proof -
  have ff: "0xFF = (mask 8 :: u16)" by (simp add: mask_eq_exp_minus_1)
  have "load16 m a AND 0xFF = ucast (m a)"
    unfolding ff by (rule bit_word_eqI) (auto simp: load16_def bit_simps dest: bit_imp_le_length)
  then show ?thesis
    using unsigned_less [of "m a", where ?'a = nat]
    by (simp add: unsigned_ucast_eq take_bit_nat_eq_self_iff)
qed

lemma checksum_words_sum:
  assumes "unat acc + le_sum (bytes m data (unat len)) < 4294967296"
  shows "(case checksum_words m data len acc of (d, l, a) \<Rightarrow>
      unat (if l \<noteq> 0 then a + ucast (load16 m d AND 0xFF) else a)) =
    unat acc + le_sum (bytes m data (unat len))"
  using assms
proof (induction m data len acc rule: checksum_words.induct)
  case (1 m data len acc)
  show ?case
  proof (cases "1 < len")
    case True
    then have "2 \<le> unat len" by (simp add: word_less_nat_alt)
    then have len: "unat len = Suc (Suc (unat (len - 2)))" by (simp add: unat_sub32)
    have sum: "le_sum (bytes m data (unat len)) =
        unat (load16 m data) + le_sum (bytes m (data + 2) (unat (len - 2)))"
      unfolding len by (simp add: bytes_Suc unat_load16 add.assoc)
    have acc: "unat (acc + ucast (load16 m data)) = unat acc + unat (load16 m data)"
      using 1(2) unfolding sum by (simp add: unat_add32)
    show ?thesis
      using 1(1) [OF True] 1(2) True unfolding sum acc
      by (subst checksum_words.simps) (simp add: add.assoc)
  next
    case False
    then have "len = 0 \<or> len = 1"
      by (metis less_one linorder_neqE_nat not_less_iff_gr_or_eq unat_0 unat_1 word_less_nat_alt word_unat_eq_iff)
    then show ?thesis
      using 1(2) by (subst checksum_words.simps) (auto simp: unat_add32 unat_load16_low)
  qed
qed

lemma checksum_fold_mod:
  "unat (checksum_fold s) mod 65535 = unat s mod 65535 \<and> unat (checksum_fold s) \<le> 65535 \<and>
     (checksum_fold s = 0 \<longleftrightarrow> s = 0)"
proof (induction s rule: checksum_fold.induct)
  case (1 s)
  show ?case
  proof (cases "0xFFFF < s")
    case True
    let ?t = "(s AND 0xFFFF) + drop_bit 16 s"
    have low: "unat (s AND 0xFFFF) = unat s mod 65536"
      using unat_and_mask [of s 16] by (simp add: mask_eq_exp_minus_1)
    have high: "unat (drop_bit 16 s) = unat s div 65536"
      by (simp add: drop_bit_eq_div unat_div)
    have "unat s mod 65536 + unat s div 65536 < 4294967296"
      using unat_lt_pow32 [of s] by linarith
    then have t: "unat ?t = unat s mod 65536 + unat s div 65536"
      using unat_add32 [of "s AND 0xFFFF" "drop_bit 16 s"] unfolding low high by simp
    have "unat s = (unat s mod 65536 + unat s div 65536) + 65535 * (unat s div 65536)"
      using mod_mult_div_eq [of "unat s" 65536] by linarith
    then have "unat s mod 65535 = (unat s mod 65536 + unat s div 65536) mod 65535"
      by (metis mod_mult_self2)
    moreover have "?t \<noteq> 0"
    proof
      assume "?t = 0"
      then have "unat s div 65536 = 0" using t by simp
      then show False using True by (simp add: word_less_nat_alt div_eq_0_iff)
    qed
    ultimately show ?thesis
      using 1 [OF True] True t by (subst (1 2 3) checksum_fold.simps) auto
  next
    case False
    then show ?thesis
      by (subst (1 2 3) checksum_fold.simps) (simp add: word_less_nat_alt not_less)
  qed
qed

lemma checksum_sum:
  assumes "unat acc + le_sum (bytes m data (unat len)) < 4294967296"
  shows "unat (checksum m data len acc) mod 65535 =
      (unat acc + le_sum (bytes m data (unat len))) mod 65535"
    and "unat (checksum m data len acc) \<le> 65535"
proof -
  obtain d l a where w: "checksum_words m data len acc = (d, l, a)" by (cases "checksum_words m data len acc") auto
  have "unat (if l \<noteq> 0 then a + ucast (load16 m d AND 0xFF) else a) =
      unat acc + le_sum (bytes m data (unat len))"
    using checksum_words_sum [OF assms] by (simp add: w)
  moreover have "checksum m data len acc = checksum_fold (if l \<noteq> 0 then a + ucast (load16 m d AND 0xFF) else a)"
    by (simp add: checksum_def w)
  ultimately show "unat (checksum m data len acc) mod 65535 =
      (unat acc + le_sum (bytes m data (unat len))) mod 65535"
    and "unat (checksum m data len acc) \<le> 65535"
    using checksum_fold_mod by metis+
qed

section \<open>Packets\<close>

text \<open>
  An IPv6 packet in an ethernet frame, as it is on the wire; the pseudo header and payload that
  the checksum of a UDP or ICMPv6 packet covers; and a valid checksum: in network byte order
  the words add up to a multiple of \<open>0xFFFF\<close>.
\<close>

definition ip6_frame :: "u8 list \<Rightarrow> u8 list \<Rightarrow> u8 \<Rightarrow> u8 list \<Rightarrow> u8 list \<Rightarrow> u8 list \<Rightarrow> u8 list" where
  "ip6_frame dmac smac nh sip dip payload =
     dmac @ smac @ [0x86, 0xDD] @ [0x60, 0, 0, 0] @ be16 (of_nat (length payload)) @ [nh, 255]
       @ sip @ dip @ payload"

definition pseudo_header :: "u8 \<Rightarrow> u8 list \<Rightarrow> u8 list \<Rightarrow> u8 list \<Rightarrow> u8 list" where
  "pseudo_header nh sip dip payload =
     sip @ dip @ [0, 0] @ be16 (of_nat (length payload)) @ [0, 0, 0, nh] @ payload"

definition checksum_valid :: "u8 \<Rightarrow> u8 list \<Rightarrow> u8 list \<Rightarrow> u8 list \<Rightarrow> bool" where
  "checksum_valid nh sip dip payload \<longleftrightarrow> be_sum (pseudo_header nh sip dip payload) mod 65535 = 0"

definition le16 :: "u16 \<Rightarrow> u8 list" where
  "le16 v = [ucast v, ucast (drop_bit 8 v)]"

lemma store16_le16: "store16 m a v = put_bytes m a (le16 v)"
  by (simp add: store16_put_bytes le16_def)

lemma length_le16 [simp]: "length (le16 v) = 2"
  by (simp add: le16_def)

lemma le_sum_le16: "le_sum (le16 v) = unat v"
proof -
  have "v = push_bit 8 (ucast (ucast (drop_bit 8 v) :: u8)) OR ucast (ucast v :: u8)"
    by (rule bit_word_eqI) (auto simp: bit_simps)
  also have "\<dots> = load16 (put_bytes (\<lambda>_. 0) 0 (le16 v)) 0"
    by (rule bit_word_eqI) (auto simp: load16_def le16_def bit_simps dest: bit_imp_le_length)
  finally show ?thesis using unat_load16 [of "put_bytes (\<lambda>_. 0) 0 (le16 v)" 0] by (simp add: le16_def)
qed

lemma unat_htons_byte: "unat (htons (ucast (b :: u8))) = 256 * unat b"
proof -
  have "htons (ucast b) = load16 (put_bytes (\<lambda>_. 0) 0 [0, b]) 0"
    by (rule bit_word_eqI) (auto simp: htons_def load16_def bit_simps dest: bit_imp_le_length)
  then show ?thesis using unat_load16 [of "put_bytes (\<lambda>_. 0) 0 [0, b]" 0] by simp
qed

lemma unat_not16: "unat (NOT x) = 65535 - unat x" for x :: u16
proof -
  have "NOT x = - 1 - x" by (simp add: not_eq_complement)
  moreover have "unat (- 1 - x) = unat (- 1 :: u16) - unat x"
    by (rule unat_sub) simp
  ultimately show ?thesis by (simp add: unsigned_minus_1_eq_mask mask_eq_exp_minus_1)
qed

lemma unat_complement:
  fixes s :: u32
  assumes "unat s \<le> 65535"
  shows "unat (ucast (if s = 0xffff then s else NOT s) :: u16) =
    (if unat s = 65535 then 65535 else 65535 - unat s)"
proof -
  have "unat (ucast s :: u16) = unat s"
    using assms by (simp add: unsigned_ucast_eq take_bit_nat_eq_self_iff)
  moreover have "(ucast (NOT s) :: u16) = NOT (ucast s)"
    by (rule bit_word_eqI) (auto simp: bit_simps)
  moreover have "s = 0xffff \<longleftrightarrow> unat s = 65535" by (simp add: word_unat_eq_iff)
  ultimately show ?thesis by (simp add: unat_not16)
qed

lemma checksum_ip6_valid:
  assumes m: "bytes m (hdr + 4) 2 = be16 (of_nat (unat len))" "m (hdr + 6) = nh"
    "bytes m (hdr + 8) (unat len + 32) = sip @ dip @ xs @ [0, 0] @ ys"
    and len: "length sip = 16" "length dip = 16" "even (length xs)"
      "unat len = length xs + 2 + length ys" "unat len \<le> 2000"
    and c: "c = ucast (checksum_ip6 m hdr len)"
  shows "checksum_valid nh sip dip (xs @ le16 c @ ys) \<and> c \<noteq> 0"
proof -
  define s1 where "s1 = checksum m (hdr + 4) 2 (ucast (htons (ucast nh)))"
  define s2 where "s2 = checksum m (hdr + 8) (len + 32) s1"
  let ?l = "be16 (of_nat (unat len))"
  have l2: "le_sum ?l \<le> 131070" using le_sum_bound [of ?l] by simp
  have nh: "unat (ucast (htons (ucast nh)) :: u32) = 256 * unat nh" "unat nh < 256"
    using unsigned_less [of nh, where ?'a = nat] by (simp_all add: unat_htons_byte)
  have s1: "unat s1 mod 65535 = (256 * unat nh + le_sum ?l) mod 65535" "unat s1 \<le> 65535"
    using checksum_sum [of "ucast (htons (ucast nh))" m "hdr + 4" 2] l2 nh m(1)
    by (simp_all add: s1_def del: bytes_numeral)
  have len32: "unat (len + 32) = unat len + 32" using len(5) by (simp add: unat_add32)
  let ?d = "sip @ dip @ xs @ [0, 0] @ ys"
  have "le_sum ?d \<le> 65535 * 2032" using le_sum_bound [of ?d] len by simp
  then have s2: "unat s2 mod 65535 = (unat s1 + le_sum ?d) mod 65535" "unat s2 \<le> 65535"
    using checksum_sum [of s1 m "hdr + 8" "len + 32"] s1(2) m(3) by (simp_all add: s2_def len32)
  have cs: "checksum_ip6 m hdr len = (if s2 = 0xffff then s2 else NOT s2)"
    by (simp add: checksum_ip6_def s1_def s2_def m(2))
  have uc: "unat c = (if unat s2 = 65535 then 65535 else 65535 - unat s2)"
    using unat_complement [OF s2(2)] by (simp only: c cs)
  let ?T = "256 * unat nh + le_sum ?l + le_sum ?d"
  have total: "le_sum (pseudo_header nh sip dip (xs @ le16 c @ ys)) = ?T + unat c"
    using len by (simp add: pseudo_header_def le_sum_append le_sum_le16)
  have "?T mod 65535 = ((256 * unat nh + le_sum ?l) mod 65535 + le_sum ?d) mod 65535"
    by (rule mod_add_left_eq [symmetric])
  also have "\<dots> = (unat s1 mod 65535 + le_sum ?d) mod 65535" by (simp only: s1(1))
  also have "\<dots> = unat s2 mod 65535" unfolding s2(1) by (rule mod_add_left_eq)
  finally have "(?T + unat c) mod 65535 = (unat s2 + unat c) mod 65535"
    by (rule mod_add_cong [OF _ refl])
  also have "\<dots> = 0" using uc s2(2) by simp
  finally have "(256 * le_sum (pseudo_header nh sip dip (xs @ le16 c @ ys))) mod 65535 = 0"
    unfolding total by (metis mod_mult_right_eq mult_0_right mod_0)
  moreover have "c \<noteq> 0" using uc s2(2) by (auto split: if_splits)
  ultimately show ?thesis by (simp add: checksum_valid_def be_sum_swap)
qed

text \<open>The arrays on the stack are apart from what is read while a packet is put together.\<close>

definition tx_apart :: "linkage \<Rightarrow> u32 \<Rightarrow> nat \<Rightarrow> bool" where
  "tx_apart L a n \<longleftrightarrow> separate (tx_packet L) 1536 a n"

lemma tx_apart_bytes:
  assumes "tx_apart L a n" "inside q l a n" "length bs \<le> 1534"
  shows "bytes (put_bytes m (tx_packet L + 2) bs) q l = bytes m q l"
  using assms by (intro bytes_put_separate [of "tx_packet L" 1536 a n])
    (auto simp: tx_apart_def inside_def)

lemma tx_apart_separate:
  assumes "tx_apart L a n" "inside p k (tx_packet L) 1536" "inside q l a n" "0 < k" "0 < l"
  shows "separate p k q l"
  using assms by (auto simp: tx_apart_def intro: separate_inside)

lemma store32_60: "store32 m a 0x60 = put_bytes m a [0x60, 0, 0, 0]"
  by (simp add: store32_put_bytes)

lemma be16_type: "be16 0x86DD = [0x86, 0xDD]"
  by (simp add: be16_def)

lemma reply_headers:
  fixes L f m
  defines "tx \<equiv> tx_packet L"
  assumes sep: "tx_apart L f 56" "tx_apart L (ifc_mac L) 6" "tx_apart L (ifc_ll_ip6 L) 16"
  shows "ip6_addr_copy
      (ip6_addr_copy
        ((store16
          (store32
            (store16
              (eth_addr_copy (eth_addr_copy m (tx + 2) (f + 8)) (tx + 8) (ifc_mac L))
              (tx + 14) (htons 0x86DD))
            (tx + 16) 0x60)
          (tx + 20) (htons l))(tx + 22 := nh, tx + 23 := 255))
        (tx + 24) (ifc_ll_ip6 L))
      (tx + 40) (f + 24) =
    put_bytes m (tx + 2) (bytes m (f + 8) 6 @ bytes m (ifc_mac L) 6 @ [0x86, 0xDD] @ [0x60, 0, 0, 0]
      @ be16 l @ [nh, 255] @ bytes m (ifc_ll_ip6 L) 16 @ bytes m (f + 24) 16)"
proof -
  have "separate (tx + 2) 6 (f + 8) 6" "separate (tx + 40) 16 (f + 24) 16"
    by (rule tx_apart_separate [OF sep(1)]; simp add: inside_def tx_def)+
  moreover have "separate (tx + 8) 6 (ifc_mac L) 6"
    by (rule tx_apart_separate [OF sep(2)]; simp add: inside_def tx_def)
  moreover have "separate (tx + 24) 16 (ifc_ll_ip6 L) 16"
    by (rule tx_apart_separate [OF sep(3)]; simp add: inside_def tx_def)
  ultimately have copies:
    "eth_addr_copy m (tx + 2) (f + 8) = put_bytes m (tx + 2) (bytes m (f + 8) 6)"
    "eth_addr_copy m (tx + 8) (ifc_mac L) = put_bytes m (tx + 8) (bytes m (ifc_mac L) 6)"
    "ip6_addr_copy m (tx + 24) (ifc_ll_ip6 L) = put_bytes m (tx + 24) (bytes m (ifc_ll_ip6 L) 16)"
    "ip6_addr_copy m (tx + 40) (f + 24) = put_bytes m (tx + 40) (bytes m (f + 24) 16)" for m
    by (simp_all only: eth_addr_copy_put ip6_addr_copy_put)
  have reads:
    "length bs \<le> 1534 \<Longrightarrow> bytes (put_bytes m (tx + 2) bs) (f + 24) 16 = bytes m (f + 24) 16"
    "length bs \<le> 1534 \<Longrightarrow> bytes (put_bytes m (tx + 2) bs) (ifc_mac L) 6 = bytes m (ifc_mac L) 6"
    "length bs \<le> 1534 \<Longrightarrow> bytes (put_bytes m (tx + 2) bs) (ifc_ll_ip6 L) 16 = bytes m (ifc_ll_ip6 L) 16"
    for bs
    by (simp_all add: tx_def sep [THEN tx_apart_bytes] inside_def del: bytes_numeral)
  show ?thesis
    by (simp add: copies reads put_bytes_next be16_type store32_60 store16_htons fun_upd_put
      del: put_bytes.simps bytes_numeral fun_upd_apply)
qed

text \<open>Which regions a reply reads: the headers it answers, the host's addresses, the data.\<close>

definition reply_ready :: "linkage \<Rightarrow> u32 \<Rightarrow> u32 \<Rightarrow> u32 \<Rightarrow> u32 \<Rightarrow> bool" where
  "reply_ready L replyto hdrs data len \<longleftrightarrow>
     tx_apart L (replyto - hdrs) (unat hdrs) \<and> tx_apart L (ifc_mac L) 6 \<and>
     tx_apart L (ifc_ll_ip6 L) 16 \<and> tx_apart L data (unat len)"

lemma tx_apart_le: "tx_apart L a n \<Longrightarrow> k \<le> n \<Longrightarrow> tx_apart L a k"
  by (simp add: tx_apart_def separate_def)

lemma tx_apart_data:
  assumes "tx_apart L data n" "k + n \<le> 1536"
  shows "n \<le> unat (tx_packet L + of_nat k - data)"
proof (cases "n = 0")
  case False
  have "separate data n (tx_packet L) 1536"
    using assms by (simp add: tx_apart_def separate_sym)
  from separate_outside [OF this, of k] False assms show ?thesis by simp
qed simp

lemma checksum_patch:
  fixes m tx dmac smac sip dip xs ys len nh
  defines "m1 \<equiv> put_bytes m (tx + 2) (dmac @ smac @ [0x86, 0xDD] @ [0x60, 0, 0, 0] @ be16 (ucast len)
      @ [nh, 255] @ sip @ dip @ xs @ [0, 0] @ ys)"
  assumes lens: "length dmac = 6" "length smac = 6" "length sip = 16" "length dip = 16"
    and len: "unat len = length xs + 2 + length ys" "unat len \<le> 1480" and xs: "even (length xs)"
  shows "\<exists>ck. ck \<noteq> 0 \<and> checksum_valid nh sip dip (xs @ le16 ck @ ys) \<and>
    store16 m1 (tx + 56 + of_nat (length xs)) (ucast (checksum_ip6 m1 (tx + 16) len)) =
      put_bytes m (tx + 2) (ip6_frame dmac smac nh sip dip (xs @ le16 ck @ ys))"
proof -
  define A where "A = dmac @ smac @ [0x86, 0xDD] @ [0x60, 0, 0, 0]"
  define R where "R = sip @ dip @ xs @ [0, 0] @ ys"
  have AR: "length A = 18" "length R = unat len + 32" by (simp_all add: A_def R_def lens len(1))
  have split: "m1 = put_bytes m (tx + 2) (A @ be16 (ucast len) @ ([nh, 255] @ R))"
    "m1 = put_bytes m (tx + 2) ((A @ be16 (ucast len)) @ [nh] @ ([255] @ R))"
    "m1 = put_bytes m (tx + 2) ((A @ be16 (ucast len) @ [nh, 255]) @ R @ [])"
    by (simp_all add: m1_def A_def R_def del: put_bytes.simps bytes_numeral)
  have m1: "bytes m1 (tx + 20) 2 = be16 (ucast len)"
    unfolding split(1) using len(2) by (intro bytes_put_mid) (simp_all add: AR)
  have m2: "bytes m1 (tx + 22) 1 = [nh]"
    unfolding split(2) using len(2) by (intro bytes_put_mid) (simp_all add: AR)
  have m3: "bytes m1 (tx + 24) (unat len + 32) = R"
    unfolding split(3) using len(2) by (intro bytes_put_mid) (simp_all add: AR)
  define ck :: u16 where "ck = ucast (checksum_ip6 m1 (tx + 16) len)"
  have "checksum_valid nh sip dip (xs @ le16 ck @ ys) \<and> ck \<noteq> 0"
  proof (rule checksum_ip6_valid [OF _ _ _ _ _ _ _ _ ck_def])
    show "bytes m1 (tx + 16 + 4) 2 = be16 (of_nat (unat len))"
      using m1 unfolding add.assoc by (simp del: bytes_numeral)
    show "m1 (tx + 16 + 6) = nh" using m2 unfolding add.assoc by simp
    show "bytes m1 (tx + 16 + 8) (unat len + 32) = sip @ dip @ xs @ [0, 0] @ ys"
      using m3 unfolding add.assoc by (simp add: R_def)
  qed (use len xs lens in simp_all)
  moreover have "store16 m1 (tx + 56 + of_nat (length xs)) ck = put_bytes m (tx + 2)
      (A @ be16 (ucast len) @ [nh, 255] @ sip @ dip @ xs @ le16 ck @ ys)"
    unfolding split(3) R_def store16_le16
    using put_bytes_over [of "[0, 0]" "le16 ck" "A @ be16 (ucast len) @ [nh, 255] @ sip @ dip @ xs" ys
        "tx + 56 + of_nat (length xs)" "tx + 2" m] len
    by (simp add: AR lens del: put_bytes.simps)
  moreover have "A @ be16 (ucast len) @ [nh, 255] @ sip @ dip @ xs @ le16 ck @ ys =
      ip6_frame dmac smac nh sip dip (xs @ le16 ck @ ys)"
  proof -
    have "length (xs @ le16 ck @ ys) = unat len" by (simp add: len(1))
    then have "(of_nat (length (xs @ le16 ck @ ys)) :: u16) = ucast len" by simp
    then show ?thesis by (simp only: A_def ip6_frame_def append_assoc)
  qed
  ultimately show ?thesis unfolding ck_def [symmetric] by metis
qed

lemma net_tx_udp_reply_sends:
  fixes L replyto data len port st
  defines "m \<equiv> nmem st" and "f \<equiv> replyto - 64"
  assumes ready: "reply_ready L replyto 64 data len" and len: "len \<le> MAX_UDP_PAYLOAD"
  shows "\<exists>ck. ck \<noteq> 0 \<and>
    (let sip = bytes m (ifc_ll_ip6 L) 16; dip = bytes m (f + 24) 16;
         payload = be16 (ucast port) @ bytes m (f + 56) 2 @ be16 (ucast (len + 8)) @ le16 ck
           @ bytes m data (unat len)
     in checksum_valid 17 sip dip payload \<and>
        net_tx_udp_reply L eth_tx replyto data len port st =
          eth_tx (tx_packet L + 2) (62 + len) (st\<lparr>nmem := put_bytes m (tx_packet L + 2)
            (ip6_frame (bytes m (f + 8) 6) (bytes m (ifc_mac L) 6) 17 sip dip payload)\<rparr>))"
proof -
  define tx where "tx = tx_packet L"
  define head where "head = bytes m (f + 8) 6 @ bytes m (ifc_mac L) 6 @ [0x86, 0xDD] @ [0x60, 0, 0, 0]
      @ be16 (ucast (len + 8)) @ [17, 255] @ bytes m (ifc_ll_ip6 L) 16 @ bytes m (f + 24) 16"
  define udp where "udp = be16 (ucast port) @ bytes m (f + 56) 2 @ be16 (ucast (len + 8))"
  let ?payload = "bytes m data (unat len)"
  have sep: "tx_apart L f 64" "tx_apart L f 56" "tx_apart L (ifc_mac L) 6" "tx_apart L (ifc_ll_ip6 L) 16"
    "tx_apart L data (unat len)"
    using ready tx_apart_le [of L f 64 56] by (simp_all add: reply_ready_def f_def)
  have n: "unat len \<le> 1472"
    using len by (simp add: MAX_UDP_PAYLOAD_def NETBUF_MAX_def word_le_nat_alt)
  have heads: "length head = 54" "length udp = 6" by (simp_all add: head_def udp_def)
  have headers: "ip6_addr_copy
      (ip6_addr_copy
        ((store16
          (store32
            (store16
              (eth_addr_copy (eth_addr_copy m (tx + 2) (f + 8)) (tx + 8) (ifc_mac L))
              (tx + 14) (htons 0x86DD))
            (tx + 16) 0x60)
          (tx + 20) (htons (ucast (8 + len))))(tx + 22 := 17, tx + 23 := 255))
        (tx + 24) (ifc_ll_ip6 L))
      (tx + 40) (f + 24) = put_bytes m (tx + 2) head"
    using reply_headers [OF sep(2,3,4), of m "ucast (8 + len)" 17]
    by (simp only: tx_def head_def add.commute [of 8 len])
  have sport: "store16 (put_bytes m (tx + 2) bs) a (load16 (put_bytes m (tx + 2) bs) (f + 56)) =
      put_bytes (put_bytes m (tx + 2) bs) a (bytes m (f + 56) 2)" if "length bs \<le> 1534" for a bs
    using tx_apart_bytes [OF sep(1), of "f + 56" 2 bs m] that
    by (simp add: half_copy put_bytes_bytes [symmetric] inside_def tx_def
      del: put_bytes.simps bytes_numeral)
  have data: "memcpy (put_bytes m (tx + 2) bs) (tx + 64) data len =
      put_bytes (put_bytes m (tx + 2) bs) (tx + 64) ?payload" if "length bs \<le> 1534" for bs
    using tx_apart_bytes [OF sep(5), of data "unat len" bs m] that tx_apart_data [OF sep(5), of 64] n
    by (simp add: memcpy_put tx_def)
  have zero: "store16 m a 0 = put_bytes m a [0, 0]" for m a
    by (simp add: store16_put_bytes)
  define m1 where "m1 = put_bytes m (tx + 2) (head @ udp @ [0, 0] @ ?payload)"
  have "memcpy
      (store16
        (store16
          (store16
            (store16 (put_bytes m (tx + 2) head) (tx + 56) (htons (ucast port)))
            (tx + 58) (load16 (store16 (put_bytes m (tx + 2) head) (tx + 56) (htons (ucast port))) (f + 56)))
          (tx + 60) (htons (ucast (len + 8))))
        (tx + 62) 0)
      (tx + 64) data len = m1"
    by (simp add: store16_htons put_bytes_next sport data zero heads m1_def udp_def
      del: put_bytes.simps bytes_numeral)
  then have body: "net_tx_udp_reply L eth_tx replyto data len port st =
      eth_tx (tx + 2) (62 + len)
        (st\<lparr>nmem := store16 m1 (tx + 62) (ucast (checksum_ip6 m1 (tx + 16) (len + 8)))\<rparr>)"
    using len by (simp only: net_tx_udp_reply_def Let_def tx_def [symmetric] f_def [symmetric]
      m_def [symmetric] headers not_less [symmetric] if_not_P) simp
  have l: "unat (len + 8) = unat len + 8" using n by (simp add: unat_add32)
  let ?sip = "bytes m (ifc_ll_ip6 L) 16" and ?dip = "bytes m (f + 24) 16"
  have m1: "m1 = put_bytes m (tx + 2) (bytes m (f + 8) 6 @ bytes m (ifc_mac L) 6 @ [0x86, 0xDD] @ [0x60, 0, 0, 0]
      @ be16 (ucast (len + 8)) @ [17, 255] @ ?sip @ ?dip @ udp @ [0, 0] @ ?payload)"
    by (simp only: m1_def head_def append_assoc)
  have pos: "tx + 62 = tx + 56 + of_nat (length udp)" by (simp add: heads)
  have "\<exists>ck. ck \<noteq> 0 \<and> checksum_valid 17 ?sip ?dip (udp @ le16 ck @ ?payload) \<and>
      store16 m1 (tx + 62) (ucast (checksum_ip6 m1 (tx + 16) (len + 8))) =
        put_bytes m (tx + 2) (ip6_frame (bytes m (f + 8) 6) (bytes m (ifc_mac L) 6) 17 ?sip ?dip
          (udp @ le16 ck @ ?payload))"
    unfolding m1 pos by (rule checksum_patch) (use n in \<open>simp_all add: l heads\<close>)
  then obtain ck where ck: "ck \<noteq> 0" "checksum_valid 17 ?sip ?dip (udp @ le16 ck @ ?payload)"
    "store16 m1 (tx + 62) (ucast (checksum_ip6 m1 (tx + 16) (len + 8))) =
        put_bytes m (tx + 2) (ip6_frame (bytes m (f + 8) 6) (bytes m (ifc_mac L) 6) 17 ?sip ?dip
          (udp @ le16 ck @ ?payload))"
    by blast
  then show ?thesis
    unfolding body Let_def tx_def [symmetric]
    by (intro exI [of _ ck]) (simp only: udp_def append_assoc simp_thms)
qed

lemma net_tx_ip6_reply_sends:
  fixes L replyto data len type chk_off st
  defines "m \<equiv> nmem st" and "f \<equiv> replyto - 56"
  assumes ready: "reply_ready L replyto 56 data len" and len: "len \<le> MAX_IP6_PAYLOAD"
    and payload: "bytes m data (unat len) = xs @ [0, 0] @ ys" "length xs = unat chk_off" "even (length xs)"
  shows "\<exists>ck. ck \<noteq> 0 \<and>
    (let sip = bytes m (ifc_ll_ip6 L) 16; dip = bytes m (f + 24) 16
     in checksum_valid (ucast type) sip dip (xs @ le16 ck @ ys) \<and>
        net_tx_ip6_reply L eth_tx replyto data len type chk_off st =
          eth_tx (tx_packet L + 2) (54 + len) (st\<lparr>nmem := put_bytes m (tx_packet L + 2)
            (ip6_frame (bytes m (f + 8) 6) (bytes m (ifc_mac L) 6) (ucast type) sip dip (xs @ le16 ck @ ys))\<rparr>))"
proof -
  define tx where "tx = tx_packet L"
  define head where "head = bytes m (f + 8) 6 @ bytes m (ifc_mac L) 6 @ [0x86, 0xDD] @ [0x60, 0, 0, 0]
      @ be16 (ucast len) @ [ucast type, 255] @ bytes m (ifc_ll_ip6 L) 16 @ bytes m (f + 24) 16"
  have sep: "tx_apart L f 56" "tx_apart L (ifc_mac L) 6" "tx_apart L (ifc_ll_ip6 L) 16"
    "tx_apart L data (unat len)"
    using ready by (simp_all add: reply_ready_def f_def)
  have n: "unat len \<le> 1480"
    using len by (simp add: MAX_IP6_PAYLOAD_def NETBUF_MAX_def word_le_nat_alt)
  have lp: "unat len = length xs + 2 + length ys"
    using arg_cong [OF payload(1), of length] by simp
  have heads: "length head = 54" by (simp add: head_def)
  have headers: "ip6_addr_copy
      (ip6_addr_copy
        ((store16
          (store32
            (store16
              (eth_addr_copy (eth_addr_copy m (tx + 2) (f + 8)) (tx + 8) (ifc_mac L))
              (tx + 14) (htons 0x86DD))
            (tx + 16) 0x60)
          (tx + 20) (htons (ucast len)))(tx + 22 := ucast type, tx + 23 := 255))
        (tx + 24) (ifc_ll_ip6 L))
      (tx + 40) (f + 24) = put_bytes m (tx + 2) head"
    using reply_headers [OF sep(1,2,3), of m "ucast len" "ucast type"]
    by (simp only: tx_def head_def)
  have data: "memcpy (put_bytes m (tx + 2) bs) (tx + 56) data len =
      put_bytes (put_bytes m (tx + 2) bs) (tx + 56) (xs @ [0, 0] @ ys)" if "length bs \<le> 1534" for bs
    using tx_apart_bytes [OF sep(4), of data "unat len" bs m] that tx_apart_data [OF sep(4), of 56] n payload(1)
    by (simp add: memcpy_put tx_def)
  define m1 where "m1 = put_bytes m (tx + 2) (head @ xs @ [0, 0] @ ys)"
  have "memcpy (put_bytes m (tx + 2) head) (tx + 56) data len = m1"
    by (simp add: put_bytes_next data heads m1_def del: put_bytes.simps bytes_numeral)
  then have body: "net_tx_ip6_reply L eth_tx replyto data len type chk_off st =
      eth_tx (tx + 2) (54 + len)
        (st\<lparr>nmem := store16 m1 (tx + 56 + chk_off) (ucast (checksum_ip6 m1 (tx + 16) len))\<rparr>)"
    using len by (simp only: net_tx_ip6_reply_def Let_def tx_def [symmetric] f_def [symmetric]
      m_def [symmetric] headers not_less [symmetric] if_not_P) simp
  let ?sip = "bytes m (ifc_ll_ip6 L) 16" and ?dip = "bytes m (f + 24) 16"
  have m1: "m1 = put_bytes m (tx + 2) (bytes m (f + 8) 6 @ bytes m (ifc_mac L) 6 @ [0x86, 0xDD] @ [0x60, 0, 0, 0]
      @ be16 (ucast len) @ [ucast type, 255] @ ?sip @ ?dip @ xs @ [0, 0] @ ys)"
    by (simp only: m1_def head_def append_assoc)
  have off: "chk_off = of_nat (length xs)" by (simp add: payload(2))
  have "\<exists>ck. ck \<noteq> 0 \<and> checksum_valid (ucast type) ?sip ?dip (xs @ le16 ck @ ys) \<and>
      store16 m1 (tx + 56 + chk_off) (ucast (checksum_ip6 m1 (tx + 16) len)) =
        put_bytes m (tx + 2) (ip6_frame (bytes m (f + 8) 6) (bytes m (ifc_mac L) 6) (ucast type) ?sip ?dip
          (xs @ le16 ck @ ys))"
    unfolding m1 off by (rule checksum_patch) (use n lp payload(3) in simp_all)
  then obtain ck where ck: "ck \<noteq> 0" "checksum_valid (ucast type) ?sip ?dip (xs @ le16 ck @ ys)"
    "store16 m1 (tx + 56 + chk_off) (ucast (checksum_ip6 m1 (tx + 16) len)) =
        put_bytes m (tx + 2) (ip6_frame (bytes m (f + 8) 6) (bytes m (ifc_mac L) 6) (ucast type) ?sip ?dip
          (xs @ le16 ck @ ys))"
    by blast
  then show ?thesis
    unfolding body Let_def tx_def [symmetric]
    by (intro exI [of _ ck]) (simp only: append_assoc simp_thms)
qed

section \<open>The addresses of the host\<close>

definition lla :: "u8 list \<Rightarrow> u8 list" where
  "lla mac = [0xFE, 0x80, 0, 0, 0, 0, 0, 0, mac ! 0 XOR 2, mac ! 1, mac ! 2, 0xFF, 0xFE,
     mac ! 3, mac ! 4, mac ! 5]"

definition solicited :: "u8 list \<Rightarrow> u8 list" where
  "solicited mac = [0xFF, 2, 0, 0, 0, 0, 0, 0, 0, 0, 0, 1, 0xFF, mac ! 3, mac ! 4, mac ! 5]"

definition all_nodes :: "u8 list" where
  "all_nodes = [0xFF, 2, 0, 0, 0, 0, 0, 0, 0, 0, 0, 0, 0, 0, 0, 1]"

definition ip6_mac :: "u8 list \<Rightarrow> u8 list" where
  "ip6_mac ip = [0x33, 0x33, ip ! 12, ip ! 13, ip ! 14, ip ! 15]"

lemma length_lla [simp]: "length (lla mac) = 16" "length (solicited mac) = 16"
  "length all_nodes = 16" "length (ip6_mac ip) = 6"
  by (simp_all add: lla_def solicited_def all_nodes_def ip6_mac_def)

text \<open>The static variables hold the addresses of the interface with a given ethernet address.\<close>

definition net_ready :: "linkage \<Rightarrow> u8 list \<Rightarrow> mem \<Rightarrow> bool" where
  "net_ready L mac m \<longleftrightarrow>
     bytes m (ifc_mac L) 6 = mac \<and> bytes m (ifc_ll_ip6 L) 16 = lla mac \<and>
     bytes m (mcast_ns_ip6 L) 16 = solicited mac \<and> bytes m (mcast_ll_ip6 L) 16 = all_nodes \<and>
     bytes m (m_ifc_mac L) 8 = [0, 0] @ mac \<and> bytes m (m_ns_mac L) 8 = [0, 0] @ ip6_mac (solicited mac) \<and>
     bytes m (m_ll_mac L) 8 = [0, 0] @ ip6_mac all_nodes"

definition objects :: "linkage \<Rightarrow> (u32 \<times> nat) list" where
  "objects L = [(ifc_mac L, 6), (ifc_ll_ip6 L, 16), (mcast_ns_ip6 L, 16), (mcast_ll_ip6 L, 16),
     (m_ifc_mac L, 8), (m_ns_mac L, 8), (m_ll_mac L, 8), (tx_packet L, 1536), (ndp_reply L, 32)]"

definition linked :: "linkage \<Rightarrow> bool" where
  "linked L \<longleftrightarrow> sorted_wrt (\<lambda>(a, n) (b, k). separate a n b k) (objects L)"

lemma separate_tail: "separate a 8 b k \<Longrightarrow> 0 < k \<Longrightarrow> separate (a + 2) 6 b k"
  by (erule separate_inside) (simp_all add: inside_def)

text \<open>The two bytes of padding in front of a hardware address stay.\<close>

lemma bytes_put_tail:
  assumes "length bs = 6"
  shows "bytes (put_bytes m (a + 2) bs) a 8 = bytes m a 2 @ bs"
proof -
  have "bytes (put_bytes m (a + 2) bs) a 2 = bytes m a 2"
    using assms by (intro bytes_cong put_bytes_outside) (auto simp: less_2_cases_iff unsigned_minus_1_eq_mask mask_eq_exp_minus_1)
  moreover have "bytes (put_bytes m (a + 2) bs) (a + 2) 6 = bs"
    using assms by (simp add: bytes_put_head del: bytes_numeral)
  ultimately show ?thesis using bytes_add [of "put_bytes m (a + 2) bs" a 2 6] by (simp del: bytes_numeral)
qed

lemma put_separate_mac:
  assumes "separate p 16 a n" "length bs \<le> 16" "i < n"
  shows "put_bytes m p bs (a + of_nat i) = bytes m a n ! i"
  using assms put_separate [of p bs a n i m] by (simp add: separate_def)

lemma put_bytes_nth:
  assumes "separate p 16 a n" "length bs \<le> 16"
  shows "0 < n \<Longrightarrow> put_bytes m p bs a = bytes m a n ! 0"
    and "numeral k < n \<Longrightarrow> put_bytes m p bs (a + numeral k) = bytes m a n ! numeral k"
    and "Suc 0 < n \<Longrightarrow> put_bytes m p bs (a + 1) = bytes m a n ! Suc 0"
  using put_separate_mac [OF assms, of 0 m] put_separate_mac [OF assms, of "numeral k" m]
    put_separate_mac [OF assms, of 1 m] by (simp_all del: bytes_numeral)

lemma ip6lla_put:
  assumes "separate ip 16 mac 6"
  shows "ip6lla_from_ethmac m ip mac = put_bytes m ip (lla (bytes m mac 6))"
proof -
  have "(store32 (store32 m ip 0) (ip + 4) 0)(ip := 0xFE, ip + 1 := 0x80) =
      put_bytes m ip [0xFE, 0x80, 0, 0, 0, 0, 0, 0]"
    by (simp add: store32_def fun_eq_iff)
  then show ?thesis
    unfolding ip6lla_from_ethmac_def Let_def
    by (simp only: fun_upd_put)
      (simp add: put_bytes_nth [OF assms] put_bytes_next lla_def del: put_bytes.simps bytes_numeral)
qed

lemma ip6ns_put:
  assumes "separate ip 16 mac 6"
  shows "ip6ns_from_ethmac m ip mac = put_bytes m ip (solicited (bytes m mac 6))"
proof -
  have "(store32 (store32 (store32 m ip 0) (ip + 4) 0) (ip + 8) 0)
        (ip := 0xFF, ip + 1 := 2, ip + 11 := 1) =
      put_bytes m ip [0xFF, 2, 0, 0, 0, 0, 0, 0, 0, 0, 0, 1]"
    by (simp add: store32_def fun_eq_iff)
  then show ?thesis
    unfolding ip6ns_from_ethmac_def Let_def
    by (simp only: fun_upd_put)
      (simp add: put_bytes_nth [OF assms] put_bytes_next solicited_def del: put_bytes.simps bytes_numeral)
qed

lemma ethmac_from_ip6mc_put:
  assumes "separate mac 6 ip 16"
  shows "ethmac_from_ip6mc m mac ip = put_bytes m mac (ip6_mac (bytes m ip 16))"
proof -
  have rd: "put_bytes m mac bs (ip + numeral k) = bytes m ip 16 ! numeral k"
    if "length bs \<le> 6" "numeral k < (16 :: nat)" for bs k
    using put_separate [of mac bs ip 16 "numeral k" m] assms that
    by (simp add: separate_def del: bytes_numeral)
  have "m(mac := 0x33, mac + 1 := 0x33) = put_bytes m mac [0x33, 0x33]" by simp
  then show ?thesis
    unfolding ethmac_from_ip6mc_def Let_def
    by (simp only: fun_upd_put) (simp add: rd put_bytes_next ip6_mac_def del: put_bytes.simps bytes_numeral)
qed

lemma separate_tails:
  assumes "separate a 8 b k \<or> separate b k a 8" "0 < k"
  shows "separate (a + 2) 6 b k" "separate b k (a + 2) 6"
  using assms separate_tail [of a b k] separate_commute by blast+

lemma separate_heads:
  assumes "separate a 8 b k \<or> separate b k a 8"
  shows "separate a 2 b k" "separate b k a 2"
  using assms by (auto simp: separate_def)

lemma bytes_padding: "bytes m a 8 = 0 # 0 # bs \<Longrightarrow> bytes m a 2 = [0, 0]"
  by simp

lemma net_init_ready:
  assumes linked: "linked L" and old: "net_ready L old m"
    and mac: "\<forall>(b, n) \<in> set (objects L). separate b n a 6"
  shows "net_ready L (bytes m a 6) (net_init L a m)"
    and "\<forall>(b, n) \<in> set (objects L). separate b n q k \<Longrightarrow> bytes (net_init L a m) q k = bytes m q k"
proof -
  have sep: "separate (ifc_mac L) 6 a 6" "separate (m_ifc_mac L) 8 a 6" "separate (ifc_ll_ip6 L) 16 a 6"
    "separate (mcast_ns_ip6 L) 16 a 6"
    using mac by (simp_all add: objects_def)
  note obj = linked [unfolded linked_def objects_def, simplified]
  let ?mac = "bytes m a 6"
  have tail: "separate (m_ifc_mac L + 2) 6 a 6" using sep(2) by (simp add: separate_tails)
  define m1 where "m1 = put_bytes m (ifc_mac L) ?mac"
  define m2 where "m2 = put_bytes m1 (m_ifc_mac L + 2) ?mac"
  define m3 where "m3 = put_bytes m2 (ifc_ll_ip6 L) (lla ?mac)"
  define m4 where "m4 = put_bytes m3 (mcast_ns_ip6 L) (solicited ?mac)"
  have macs: "bytes m1 a 6 = ?mac" "bytes m2 a 6 = ?mac" "bytes m3 a 6 = ?mac"
    using sep tail by (simp_all add: m1_def m2_def m3_def bytes_put_other del: bytes_numeral)
  have le: "6 \<le> unat (ifc_mac L - a)" "6 \<le> unat (m_ifc_mac L + 2 - a)"
    using sep(1) tail by (simp_all add: separate_def)
  have "separate (m_ns_mac L + 2) 6 (mcast_ns_ip6 L) 16" using obj by (simp add: separate_tails)
  then have put: "net_init L a m = put_bytes m4 (m_ns_mac L + 2) (ip6_mac (solicited ?mac))"
    using le by (simp add: net_init_def Let_def memcpy_put ip6lla_put ip6ns_put ethmac_from_ip6mc_put
        sep macs m1_def [symmetric] m2_def [symmetric] m3_def [symmetric] m4_def [symmetric]
        del: bytes_numeral) (simp add: m4_def bytes_put_head del: bytes_numeral)
  have "bytes m (m_ifc_mac L) 2 = [0, 0]" "bytes m (m_ns_mac L) 2 = [0, 0]"
    using old by (simp_all add: net_ready_def bytes_padding del: bytes_numeral)
  with put show "net_ready L ?mac (net_init L a m)"
    using old obj
    by (simp add: net_ready_def m4_def m3_def m2_def m1_def bytes_put_other bytes_put_head
        bytes_put_tail separate_tails separate_heads separate_commute del: bytes_numeral put_bytes.simps)
  show "bytes (net_init L a m) q k = bytes m q k" if apart: "\<forall>(b, n) \<in> set (objects L). separate b n q k"
  proof (cases "k = 0")
    case False
    then have "separate (m_ifc_mac L + 2) 6 q k" "separate (m_ns_mac L + 2) 6 q k"
      using apart by (auto simp: objects_def intro!: separate_tail)
    then show ?thesis
      using apart unfolding put by (simp add: objects_def m4_def m3_def m2_def m1_def bytes_put_other
          del: bytes_numeral put_bytes.simps)
  qed simp
qed

lemma static_data_ready:
  assumes "linked L"
  shows "net_ready L [0x72, 0x72, 0xaa, 0xbb, 0xcc, 0xdd] (static_data L m)"
proof -
  note obj = assms [unfolded linked_def objects_def, simplified]
  define mac :: "u8 list" where "mac = [0x72, 0x72, 0xaa, 0xbb, 0xcc, 0xdd]"
  define ll where "ll = [0, 0] @ mac"
  define ns where "ns = [0, 0] @ ip6_mac (solicited mac)"
  define all where "all = [0, 0] @ ip6_mac all_nodes"
  have lens: "length mac = 6" "length ll = 8" "length ns = 8" "length all = 8"
    by (simp_all add: mac_def ll_def ns_def all_def)
  have "static_data L m =
      put_bytes (put_bytes (put_bytes (put_bytes (put_bytes (put_bytes (put_bytes m
        (ifc_mac L) mac) (ifc_ll_ip6 L) (lla mac)) (mcast_ns_ip6 L) (solicited mac))
        (mcast_ll_ip6 L) all_nodes) (m_ifc_mac L) ll) (m_ns_mac L) ns) (m_ll_mac L) all"
    by (simp add: static_data_def Let_def mac_def ll_def ns_def all_def lla_def solicited_def
        all_nodes_def ip6_mac_def del: put_bytes.simps)
  then have "net_ready L mac (static_data L m)"
    using obj lens
    by (simp add: net_ready_def bytes_put_other bytes_put_head separate_commute
        ll_def [symmetric] ns_def [symmetric] all_def [symmetric] del: bytes_numeral put_bytes.simps)
      (simp add: ll_def ns_def all_def)
  then show ?thesis by (simp add: mac_def)
qed

section \<open>Which packets are delivered\<close>

definition segment :: "nat \<Rightarrow> nat \<Rightarrow> u8 list \<Rightarrow> u8 list" where
  "segment i n f = take n (drop i f)"

definition be_word :: "u8 list \<Rightarrow> nat \<Rightarrow> u16" where
  "be_word f i = word_cat (f ! i) (f ! Suc i)"

text \<open>
  A frame is for the host when its two destination addresses are the host's own, or when both
  are multicast addresses the host listens to.
\<close>

definition own_packet :: "u8 list \<Rightarrow> u8 list \<Rightarrow> bool" where
  "own_packet mac f \<longleftrightarrow> segment 0 6 f = mac \<and> segment 38 16 f = lla mac"

definition group_packet :: "u8 list \<Rightarrow> u8 list \<Rightarrow> bool" where
  "group_packet mac f \<longleftrightarrow> segment 0 6 f \<noteq> mac \<and>
     (segment 0 6 f = ip6_mac (solicited mac) \<or> segment 0 6 f = ip6_mac all_nodes) \<and>
     (segment 38 16 f = solicited mac \<or> segment 38 16 f = all_nodes)"

definition ip6_packet :: "u8 list \<Rightarrow> u8 list \<Rightarrow> u8 \<Rightarrow> bool" where
  "ip6_packet mac f nh \<longleftrightarrow> 58 \<le> length f \<and> segment 12 2 f = [0x86, 0xDD] \<and>
     (own_packet mac f \<or> group_packet mac f) \<and> f ! 20 = nh"

text \<open>The port and the payload of a UDP datagram for the host.\<close>

definition udp_packet :: "u8 list \<Rightarrow> u8 list \<Rightarrow> (u16 \<times> u8 list) option" where
  "udp_packet mac f =
     (let n = unat (be_word f 58)
      in if ip6_packet mac f 17 \<and> 62 \<le> length f \<and> 8 \<le> n \<and> n + 54 \<le> length f
         then Some (be_word f 56, segment 62 (n - 8) f) else None)"

text \<open>The frame in a receive buffer, behind two zero bytes of padding.\<close>

definition received :: "mem \<Rightarrow> u32 \<Rightarrow> u32 \<Rightarrow> u8 list \<Rightarrow> bool" where
  "received m b len f \<longleftrightarrow> bytes m b (unat len) = 0 # 0 # f"

lemma length_segment [simp]: "i + n \<le> length f \<Longrightarrow> length (segment i n f) = n"
  by (simp add: segment_def)

lemma received_length: "received m b len f \<Longrightarrow> unat len = length f + 2"
  unfolding received_def using length_bytes [of m b "unat len"] by simp

lemma received_nth:
  assumes "received m b len f" "i < length f"
  shows "m (b + of_nat (i + 2)) = f ! i"
proof -
  have "bytes m b (unat len) ! (i + 2) = f ! i" using assms(1) by (simp add: received_def)
  then show ?thesis using received_length [OF assms(1)] assms(2) by simp
qed

lemma received_segment:
  assumes "received m b len f" "i + n \<le> length f" "a = b + of_nat (i + 2)"
  shows "bytes m a n = segment i n f"
proof (rule nth_equalityI)
  fix j assume j: "j < length (bytes m a n)"
  then have "m (a + of_nat j) = f ! (i + j)"
    unfolding assms(3) using received_nth [OF assms(1), of "i + j"] assms(2) by (simp add: ac_simps)
  then show "bytes m a n ! j = segment i n f ! j"
    using j assms(2) by (simp add: segment_def)
qed (use assms in simp)

lemma received_word:
  assumes "received m b len f" "Suc i < length f" "a = b + of_nat (i + 2)"
  shows "htons (load16 m a) = be_word f i"
  using assms(3) received_nth [OF assms(1), of i] received_nth [OF assms(1), of "Suc i"] assms(2)
  by (simp add: htons_load16 be_word_def add.commute add.left_commute)

lemma bytes_load32: "load32 m a = load32 m b \<longleftrightarrow> bytes m a 4 = bytes m b 4"
proof -
  have *: "bytes m s 4 = [ucast (load32 m s), ucast (drop_bit 8 (load32 m s)),
      ucast (drop_bit 16 (load32 m s)), ucast (drop_bit 24 (load32 m s))]" for s
    by (simp add: bytes_Suc load32_def algebra_simps) (auto intro!: bit_word_eqI simp: bit_simps)
  have "load32 m a = load32 m b" if "bytes m a 4 = bytes m b 4"
  proof -
    have "\<forall>i<4. m (a + of_nat i) = m (b + of_nat i)" using that by (simp only: bytes_eq_iff)
    from this [rule_format, of 0] this [rule_format, of 1] this [rule_format, of 2]
      this [rule_format, of 3] show ?thesis by (simp add: load32_def)
  qed
  then show ?thesis using * [of a] * [of b] by metis
qed

lemma mac_matches_bytes: "mac_matches m b x \<longleftrightarrow> bytes m b 8 = bytes m x 8"
  using bytes_add [of m b 4 4] bytes_add [of m x 4 4]
  by (simp add: mac_matches_def bytes_load32 del: bytes_numeral)

lemma received_mac:
  assumes "received m b len f" "6 \<le> length f" "bytes m x 8 = 0 # 0 # mac"
  shows "mac_matches m b x \<longleftrightarrow> segment 0 6 f = mac"
proof -
  have "unat len = Suc (Suc (length f))" using received_length [OF assms(1)] by simp
  then have "bytes m b 2 = [0, 0]"
    using assms(1) by (simp add: received_def bytes_Suc)
  moreover have "bytes m (b + 2) 6 = segment 0 6 f"
    by (rule received_segment [OF assms(1)]) (use assms in simp_all)
  ultimately have "bytes m b 8 = 0 # 0 # segment 0 6 f"
    using bytes_add [of m b 2 6] by (simp del: bytes_numeral)
  then show ?thesis unfolding mac_matches_bytes assms(3) by simp
qed

lemma segment_type: "22 \<le> length f \<Longrightarrow> segment 12 2 f = [0x86, 0xDD] \<longleftrightarrow> be_word f 12 = 0x86DD"
proof -
  assume l: "22 \<le> length f"
  have "segment 12 2 f = [f ! 12, f ! 13]"
    using l by (intro nth_equalityI) (auto simp: segment_def less_Suc_eq numeral_2_eq_2)
  moreover have "word_cat a b = (0x86DD :: u16) \<longleftrightarrow> a = 0x86 \<and> b = 0xDD" for a b :: u8
  proof
    assume *: "word_cat a b = (0x86DD :: u16)"
    have "a = ucast (drop_bit 8 (word_cat a b :: u16))" "b = ucast (word_cat a b :: u16)"
      by (rule bit_word_eqI, auto simp: bit_simps)+
    then show "a = 0x86 \<and> b = 0xDD" unfolding * by simp
  next
    have "be16 0x86DD = [0x86, 0xDD]" by (rule be16_type)
    moreover have "word_cat (ucast (drop_bit 8 v) :: u8) (ucast v :: u8) = v" for v :: u16
      by (rule bit_word_eqI) (auto simp: bit_simps)
    ultimately show "word_cat a b = (0x86DD :: u16)" if "a = 0x86 \<and> b = 0xDD"
      using that by (metis be16_def list.inject)
  qed
  ultimately show ?thesis by (simp add: be_word_def)
qed

lemma htons_htons [simp]: "htons (htons v) = v"
  by (rule bit_word_eqI) (auto simp: htons_def bit_simps)

lemma htons_eq_iff: "v = htons w \<longleftrightarrow> htons v = w"
  by (metis htons_htons)

text \<open>Nothing happens, or a line is printed.\<close>

definition reported :: "'a net_scheme \<Rightarrow> 'a net_scheme \<Rightarrow> bool" where
  "reported st st' \<longleftrightarrow> st' = st \<or> (\<exists>x. st' = say x st)"

lemma reported_simps [simp]: "reported st st" "reported st (say x st)"
  by (auto simp: reported_def)

lemma net_rx_eth_received:
  fixes f :: "u8 list"
  assumes ready: "net_ready L mac m" and frame: "received m b len f" and m: "nmem st = m"
  shows "ip6_packet mac f 17 \<Longrightarrow>
      net_rx_eth L tx rx b len st = net_rx_udp6 rx (b + 56) (len - 56) (group_packet mac f) st"
    and "ip6_packet mac f 58 \<Longrightarrow>
      net_rx_eth L tx rx b len st =
        map_option Return (net_rx_icmp6 L tx (b + 56) (len - 56) (group_packet mac f) st)"
    and "\<not> ip6_packet mac f 17 \<Longrightarrow> \<not> ip6_packet mac f 58 \<Longrightarrow>
      \<exists>st'. reported st st' \<and> (\<forall>rx. net_rx_eth L tx rx b len st = Some (Return st'))"
proof -
  have len: "unat len = length f + 2" by (rule received_length [OF frame])
  have short: "len < 60 \<longleftrightarrow> length f < 58" by (simp add: word_less_nat_alt len)
  have facts: "(load16 m (b + 14) \<noteq> htons 0x86DD) = (segment 12 2 f \<noteq> [0x86, 0xDD])"
      "mac_matches m b (m_ifc_mac L) = (segment 0 6 f = mac)"
      "mac_matches m b (m_ns_mac L) = (segment 0 6 f = ip6_mac (solicited mac))"
      "mac_matches m b (m_ll_mac L) = (segment 0 6 f = ip6_mac all_nodes)"
      "(memcmp m (b + 40) (ifc_ll_ip6 L) 16 \<noteq> 0) = (segment 38 16 f \<noteq> lla mac)"
      "(memcmp m (b + 40) (mcast_ns_ip6 L) 16 \<noteq> 0) = (segment 38 16 f \<noteq> solicited mac)"
      "(memcmp m (b + 40) (mcast_ll_ip6 L) 16 \<noteq> 0) = (segment 38 16 f \<noteq> all_nodes)"
      "m (b + 22) = f ! 20" if l: "58 \<le> length f"
  proof -
    have "htons (load16 m (b + 14)) = be_word f 12"
      by (rule received_word [OF frame]) (use l in simp_all)
    then show "(load16 m (b + 14) \<noteq> htons 0x86DD) = (segment 12 2 f \<noteq> [0x86, 0xDD])"
      using segment_type [of f] l htons_eq_iff [of "load16 m (b + 14)" "0x86DD"] by simp
    show "mac_matches m b (m_ifc_mac L) = (segment 0 6 f = mac)"
      "mac_matches m b (m_ns_mac L) = (segment 0 6 f = ip6_mac (solicited mac))"
      "mac_matches m b (m_ll_mac L) = (segment 0 6 f = ip6_mac all_nodes)"
      using ready l by (auto simp: net_ready_def intro!: received_mac [OF frame] simp del: bytes_numeral)
    have "bytes m (b + 40) 16 = segment 38 16 f"
      by (rule received_segment [OF frame]) (use l in simp_all)
    then show "(memcmp m (b + 40) (ifc_ll_ip6 L) 16 \<noteq> 0) = (segment 38 16 f \<noteq> lla mac)"
      "(memcmp m (b + 40) (mcast_ns_ip6 L) 16 \<noteq> 0) = (segment 38 16 f \<noteq> solicited mac)"
      "(memcmp m (b + 40) (mcast_ll_ip6 L) 16 \<noteq> 0) = (segment 38 16 f \<noteq> all_nodes)"
      using ready by (simp_all add: memcmp_eq_0 net_ready_def del: bytes_numeral)
    show "m (b + 22) = f ! 20" using received_nth [OF frame, of 20] l by simp
  qed
  have ip6: "net_rx_ip6 L tx r (b + 16) (len - 16) mcast st =
     (if mcast \<and> segment 38 16 f \<noteq> all_nodes \<and> segment 38 16 f \<noteq> solicited mac
      then Some (Return (say (Printf (lit ''IP6: MA ?\<newline>'') []) st))
      else if \<not> mcast \<and> segment 38 16 f \<noteq> lla mac
      then Some (Return (say (Printf (lit ''IP6: UA ?\<newline>'') []) st))
      else if f ! 20 = 58 then map_option Return (net_rx_icmp6 L tx (b + 56) (len - 56) mcast st)
      else if f ! 20 = 17 then net_rx_udp6 r (b + 56) (len - 56) mcast st
      else Some (Return (say (Printf (lit ''IP6: HDR %u ?\<newline>'') [Word (ucast (f ! 20))]) st)))"
    if "58 \<le> length f" for r mcast
    using facts [OF that] unfolding net_rx_ip6_def Let_def m
    by (simp add: add.commute [of _ b] diff_diff_eq cong: if_cong)
  have eth: "net_rx_eth L tx r b len st =
      (if segment 12 2 f \<noteq> [0x86, 0xDD] then Some (Return st)
       else if segment 0 6 f = mac then net_rx_ip6 L tx r (b + 16) (len - 16) False st
       else if segment 0 6 f = ip6_mac (solicited mac) \<or> segment 0 6 f = ip6_mac all_nodes
       then net_rx_ip6 L tx r (b + 16) (len - 16) True st
       else Some (Return (say (Printf (lit ''ETH ? %02x %02x %02x %02x %02x %02x\<newline>'')
                                   (map (\<lambda>i. Word (ucast (m (b + i)))) [2, 3, 4, 5, 6, 7])) st)))"
    if "58 \<le> length f" for r
    unfolding net_rx_eth_def Let_def m facts(1-4) [OF that] using that short by (simp del: list.map)
  show "net_rx_eth L tx rx b len st = net_rx_udp6 rx (b + 56) (len - 56) (group_packet mac f) st"
    if "ip6_packet mac f 17"
    using that by (auto simp: ip6_packet_def own_packet_def group_packet_def eth ip6)
  show "net_rx_eth L tx rx b len st =
        map_option Return (net_rx_icmp6 L tx (b + 56) (len - 56) (group_packet mac f) st)"
    if "ip6_packet mac f 58"
    using that by (auto simp: ip6_packet_def own_packet_def group_packet_def eth ip6)
  show "\<exists>st'. reported st st' \<and> (\<forall>rx. net_rx_eth L tx rx b len st = Some (Return st'))"
    if not: "\<not> ip6_packet mac f 17" "\<not> ip6_packet mac f 58"
  proof (cases "58 \<le> length f \<and> segment 12 2 f = [0x86, 0xDD]")
    case True
    then have l: "58 \<le> length f" and t: "segment 12 2 f = [0x86, 0xDD]" by auto
    have nh: "f ! 20 \<noteq> 17 \<and> f ! 20 \<noteq> 58" if "own_packet mac f \<or> group_packet mac f"
      using that not l t by (auto simp: ip6_packet_def)
    consider "segment 0 6 f = mac"
      | "segment 0 6 f \<noteq> mac" "segment 0 6 f = ip6_mac (solicited mac) \<or> segment 0 6 f = ip6_mac all_nodes"
      | "segment 0 6 f \<noteq> mac" "\<not> (segment 0 6 f = ip6_mac (solicited mac) \<or> segment 0 6 f = ip6_mac all_nodes)"
      by blast
    then show ?thesis
    proof cases
      case 1
      then show ?thesis
        unfolding eth [OF l] ip6 [OF l] using t nh by (cases "segment 38 16 f = lla mac") (auto simp: own_packet_def)
    next
      case 2
      then show ?thesis
        unfolding eth [OF l] ip6 [OF l] using t nh
        by (cases "segment 38 16 f = solicited mac \<or> segment 38 16 f = all_nodes") (auto simp: group_packet_def)
    next
      case 3
      then show ?thesis unfolding eth [OF l] using t by (simp del: list.map)
    qed
  next
    case False
    then show ?thesis using eth short by (cases "58 \<le> length f") (auto simp: net_rx_eth_def)
  qed
qed

lemma net_rx_udp6_received:
  assumes frame: "received m b len f" and m: "nmem st = m" and ip6: "ip6_packet mac f 17"
  shows "udp_packet mac f = Some (port, payload) \<Longrightarrow>
      net_rx_udp6 rx (b + 56) (len - 56) mcast st =
        rx (b + 64) (of_nat (length payload)) (ucast port) mcast st \<and>
      payload = bytes m (b + 64) (length payload) \<and> 64 + length payload \<le> unat len"
    and "udp_packet mac f = None \<Longrightarrow>
      \<exists>st'. reported st st' \<and> (\<forall>rx. net_rx_udp6 rx (b + 56) (len - 56) mcast st = Some (Return st'))"
proof -
  have len: "unat len = length f + 2" by (rule received_length [OF frame])
  have "58 \<le> length f" using ip6 by (simp add: ip6_packet_def)
  then have len56: "unat (len - 56) = length f - 54" using len by (simp add: unat_sub32)
  have words: "htons (load16 m (b + 58)) = be_word f 56" "htons (load16 m (b + 60)) = be_word f 58"
    if "62 \<le> length f"
    using that by (auto intro!: received_word [OF frame])
  have short: "len - 56 < 8 \<longleftrightarrow> length f < 62"
    using \<open>58 \<le> length f\<close> by (simp add: word_less_nat_alt len56) linarith
  have udp6: "net_rx_udp6 r (b + 56) (len - 56) mcast st =
      (let n = be_word f 58 in
       if n < 8 \<or> ucast n > len - 56
       then Some (Return (say (Printf (lit ''UDP6: badlen %u (dlen %u)\<newline>'') [Word (ucast n), Word (len - 56)]) st))
       else r (b + 64) (ucast n - 8) (ucast (be_word f 56)) mcast st)" if "62 \<le> length f" for r
    using that short words by (simp add: net_rx_udp6_def m add.assoc Let_def not_le)
  show "net_rx_udp6 rx (b + 56) (len - 56) mcast st =
        rx (b + 64) (of_nat (length payload)) (ucast port) mcast st \<and>
      payload = bytes m (b + 64) (length payload) \<and> 64 + length payload \<le> unat len"
    if some: "udp_packet mac f = Some (port, payload)"
  proof -
    define n where "n = unat (be_word f 58)"
    have n: "62 \<le> length f" "8 \<le> n" "n + 54 \<le> length f" "port = be_word f 56" "payload = segment 62 (n - 8) f"
      using some by (auto simp: udp_packet_def Let_def n_def split: if_splits)
    have lp: "length payload = n - 8" using n by simp
    have "\<not> be_word f 58 < 8" "\<not> ucast (be_word f 58) > len - 56"
      using n len56 by (simp_all add: word_less_nat_alt n_def)
    moreover have "(ucast (be_word f 58) - 8 :: u32) = of_nat (n - 8)"
      using n(2) by (simp add: n_def of_nat_diff)
    ultimately have "net_rx_udp6 rx (b + 56) (len - 56) mcast st =
        rx (b + 64) (of_nat (length payload)) (ucast port) mcast st"
      using udp6 [OF n(1)] by (simp add: Let_def lp n(4))
    moreover have "bytes m (b + 64) (n - 8) = segment 62 (n - 8) f"
      by (rule received_segment [OF frame]) (use n in simp_all)
    ultimately show ?thesis using n len lp by simp
  qed
  show "\<exists>st'. reported st st' \<and> (\<forall>rx. net_rx_udp6 rx (b + 56) (len - 56) mcast st = Some (Return st'))"
    if none: "udp_packet mac f = None"
  proof (cases "62 \<le> length f")
    case True
    define n where "n = unat (be_word f 58)"
    have "n < 8 \<or> length f < n + 54"
      using none True ip6 by (auto simp: udp_packet_def Let_def n_def split: if_splits)
    then have "be_word f 58 < 8 \<or> ucast (be_word f 58) > len - 56"
      using len56 \<open>58 \<le> length f\<close> by (auto simp: word_less_nat_alt n_def)
    then show ?thesis unfolding udp6 [OF True] Let_def by (intro exI conjI allI) (auto intro: reported_simps)
  next
    case False
    then show ?thesis using short by (auto simp: net_rx_udp6_def)
  qed
qed

subsection \<open>Answers\<close>

text \<open>The receive buffer is apart from the stack's variables.\<close>

definition rx_apart :: "linkage \<Rightarrow> u32 \<Rightarrow> u32 \<Rightarrow> bool" where
  "rx_apart L b len \<longleftrightarrow> (\<forall>(a, n) \<in> set (objects L). separate a n b (unat len))"

lemma rx_apartD:
  assumes "rx_apart L b len"
  shows "separate (tx_packet L) 1536 b (unat len)" "separate (ifc_mac L) 6 b (unat len)"
    "separate (ifc_ll_ip6 L) 16 b (unat len)" "separate (ndp_reply L) 32 b (unat len)"
  using assms by (auto simp: rx_apart_def objects_def)

lemma linkedD:
  assumes "linked L"
  shows "separate (tx_packet L) 1536 (ifc_mac L) 6" "separate (tx_packet L) 1536 (ifc_ll_ip6 L) 16"
    "separate (tx_packet L) 1536 (ndp_reply L) 32" "separate (ndp_reply L) 32 (ifc_mac L) 6"
    "separate (ndp_reply L) 32 (ifc_ll_ip6 L) 16"
  using assms by (auto simp: linked_def objects_def separate_commute)

definition echo_reply :: "u8 list \<Rightarrow> u8 list \<Rightarrow> u16 \<Rightarrow> u8 list" where
  "echo_reply mac f ck = ip6_frame (segment 6 6 f) mac 58 (lla mac) (segment 22 16 f)
     ([129, f ! 55] @ le16 ck @ drop 58 f)"

lemma net_rx_echo:
  assumes ready: "net_ready L mac (nmem st)" and linked: "linked L" and rx: "rx_apart L b len"
    and frame: "received (nmem st) b len f" and ip6: "ip6_packet mac f 58" and type: "f ! 54 = 128"
    and small: "length f \<le> 1534"
  shows "\<exists>ck. ck \<noteq> 0 \<and>
    checksum_valid 58 (lla mac) (segment 22 16 f) ([129, f ! 55] @ le16 ck @ drop 58 f) \<and>
    net_rx_eth L eth_tx pkt_rx b len st =
      map_option Return (eth_tx (tx_packet L + 2) (len - 2)
        (st\<lparr>nmem := put_bytes (put_bytes (nmem st) (b + 56) [129, f ! 55, 0, 0])
                      (tx_packet L + 2) (echo_reply mac f ck)\<rparr>))"
proof -
  define m where "m = nmem st"
  define m' where "m' = put_bytes m (b + 56) [129, f ! 55, 0, 0]"
  note frame = frame [folded m_def]
  have len: "unat len = length f + 2" by (rule received_length [OF frame])
  have l: "58 \<le> length f" using ip6 by (simp add: ip6_packet_def)
  have icmp: "unat (len - 56) = length f - 54" using len l by (simp add: unat_sub32)
  have nth: "m (b + 56) = 128" "m (b + 57) = f ! 55"
    using received_nth [OF frame, of 54] received_nth [OF frame, of 55] l type by simp_all
  have m': "store16 (m(b + 56 := 129)) (b + 58) 0 = m'"
    using nth by (auto simp: m'_def store16_def fun_eq_iff add.commute [of 57 b])
  have inside: "inside p k b (unat len)" if "unat (p - b) + k \<le> length f + 2" for p k
    using that by (simp add: inside_def len)
  have own: "bytes m' q k = bytes m q k" if "separate a n b (unat len)" "a = q" "n = k" for a n q k
    unfolding m'_def
    by (rule bytes_put_separate [OF separate_sym [OF that(1)]]) (use that l in \<open>auto intro: inside\<close>)
  have mac: "bytes m' (ifc_mac L) 6 = mac" "bytes m' (ifc_ll_ip6 L) 16 = lla mac"
    using own [OF rx_apartD(2) [OF rx]] own [OF rx_apartD(3) [OF rx]] ready
    by (simp_all add: net_ready_def m_def del: bytes_numeral)
  have peer: "bytes m' (b + 8) 6 = segment 6 6 f" "bytes m' (b + 24) 16 = segment 22 16 f"
  proof -
    have "bytes m' (b + 8) 6 = bytes m (b + 8) 6" "bytes m' (b + 24) 16 = bytes m (b + 24) 16"
      unfolding m'_def by (rule bytes_put_other; simp add: separate_def)+
    moreover have "bytes m (b + 8) 6 = segment 6 6 f" "bytes m (b + 24) 16 = segment 22 16 f"
      by (rule received_segment [OF frame]; use l in simp)+
    ultimately show "bytes m' (b + 8) 6 = segment 6 6 f" "bytes m' (b + 24) 16 = segment 22 16 f" by simp_all
  qed
  have data: "bytes m' (b + 56) (unat (len - 56)) = [129, f ! 55] @ [0, 0] @ drop 58 f"
  proof -
    have "bytes m (b + 60) (length f - 58) = segment 58 (length f - 58) f"
      by (rule received_segment [OF frame]) (use l in simp_all)
    moreover have "length f - 54 = length [129, f ! 55, 0, 0] + (length f - 58)" using l by simp
    ultimately show ?thesis
      unfolding icmp m'_def using l small
      by (simp only: bytes_put_front) (simp add: bytes_put_front segment_def add.commute [of 60 b] del: put_bytes.simps)
  qed
  have ready': "reply_ready L (b + 56) 56 (b + 56) (len - 56)"
    using separate_sub [OF rx_apartD(1) [OF rx], of b 56] separate_sub [OF rx_apartD(1) [OF rx], of "b + 56" "unat (len - 56)"]
      linkedD(1,2) [OF linked] len l
    by (simp add: reply_ready_def tx_apart_def icmp)
  have max: "len - 56 \<le> MAX_IP6_PAYLOAD"
    using small by (simp add: MAX_IP6_PAYLOAD_def NETBUF_MAX_def word_le_nat_alt icmp)
  from net_tx_ip6_reply_sends [where st = "st\<lparr>nmem := m'\<rparr>" and eth_tx = eth_tx and type = 58 and chk_off = 2,
      OF ready' max, of "[129, f ! 55]" "drop 58 f"] data mac peer
  obtain ck where ck: "ck \<noteq> 0" "checksum_valid 58 (lla mac) (segment 22 16 f) ([129, f ! 55] @ le16 ck @ drop 58 f)"
    "net_tx_ip6_reply L eth_tx (b + 56) (b + 56) (len - 56) 58 2 (st\<lparr>nmem := m'\<rparr>) =
       eth_tx (tx_packet L + 2) (54 + (len - 56))
        (st\<lparr>nmem := put_bytes m' (tx_packet L + 2) (echo_reply mac f ck)\<rparr>)"
    by (auto simp: echo_reply_def Let_def simp del: bytes_numeral)
  have "\<not> len - 56 < 4" using icmp l by (simp add: word_less_nat_alt)
  then have "net_rx_icmp6 L eth_tx (b + 56) (len - 56) (group_packet mac f) st =
      eth_tx (tx_packet L + 2) (len - 2) (st\<lparr>nmem := put_bytes m' (tx_packet L + 2) (echo_reply mac f ck)\<rparr>)"
    using ck(3) nth m' by (simp add: net_rx_icmp6_def m_def [symmetric] Let_def add.assoc)
  with net_rx_eth_received(2) [OF ready frame [unfolded m_def] refl ip6] ck(1,2) show ?thesis
    unfolding m'_def m_def by (intro exI [of _ ck]) simp
qed

definition advertisement :: "u8 list \<Rightarrow> u16 \<Rightarrow> u8 list" where
  "advertisement mac ck = [136, 0] @ le16 ck @ [0x60, 0, 0, 0] @ lla mac @ [2, 1] @ mac"

lemma net_rx_solicit:
  assumes ready: "net_ready L mac (nmem st)" and linked: "linked L" and rx: "rx_apart L b len"
    and frame: "received (nmem st) b len f" and ip6: "ip6_packet mac f 58"
    and type: "f ! 54 = 135" "f ! 55 = 0" "78 \<le> length f" "segment 62 16 f = lla mac"
  shows "\<exists>ck. ck \<noteq> 0 \<and> checksum_valid 58 (lla mac) (segment 22 16 f) (advertisement mac ck) \<and>
    net_rx_eth L eth_tx pkt_rx b len st =
      map_option Return (eth_tx (tx_packet L + 2) 86
        (st\<lparr>nmem := put_bytes (put_bytes (nmem st) (ndp_reply L) (advertisement mac 0)) (tx_packet L + 2)
          (ip6_frame (segment 6 6 f) mac 58 (lla mac) (segment 22 16 f) (advertisement mac ck))\<rparr>))"
proof -
  define m where "m = nmem st"
  define r where "r = ndp_reply L"
  define m' where "m' = put_bytes m r (advertisement mac 0)"
  note frame = frame [folded m_def]
  note rxs = rx_apartD [OF rx] and ls = linkedD [OF linked]
  have mac: "length mac = 6" "bytes m (ifc_mac L) 6 = mac" "bytes m (ifc_ll_ip6 L) 16 = lla mac"
    using ready length_bytes [of "nmem st" "ifc_mac L" 6]
    by (auto simp: net_ready_def m_def simp del: bytes_numeral length_bytes)
  have len: "unat len = length f + 2" by (rule received_length [OF frame])
  have l: "58 \<le> length f" using ip6 by (simp add: ip6_packet_def)
  have icmp: "unat (len - 56) = length f - 54" using len l by (simp add: unat_sub32)
  have nth: "m (b + 56) = 135" "m (b + 57) = 0"
    using received_nth [OF frame, of 54] received_nth [OF frame, of 55] l type by simp_all
  have target: "memcmp m (b + 64) (ifc_ll_ip6 L) 16 = 0"
    using received_segment [OF frame, of 62 16 "b + 64"] type(3,4) mac
    by (simp add: memcmp_eq_0 del: bytes_numeral)
  have own: "bytes (put_bytes m r bs) (ifc_mac L) 6 = mac"
    "bytes (put_bytes m r bs) (ifc_ll_ip6 L) 16 = lla mac" if "length bs = 32" for bs
    using ls that mac by (simp_all add: bytes_put_other r_def del: bytes_numeral)
  have fill: "memcpy (memcpy (put_bytes m r ndp_template) (r + 8) (ifc_ll_ip6 L) 16) (r + 26) (ifc_mac L) 6 = m'"
  proof -
    let ?head = "[136, 0, 0, 0, 0x60, 0, 0, 0] :: u8 list"
    have le: "16 \<le> unat (r + 8 - ifc_ll_ip6 L)" "6 \<le> unat (r + 26 - ifc_mac L)"
      using separate_inside [OF ls(5), of "r + 8" 16 "ifc_ll_ip6 L" 16]
        separate_inside [OF ls(4), of "r + 26" 6 "ifc_mac L" 6]
      by (simp_all add: inside_def r_def separate_def)
    have "memcpy (put_bytes m r ndp_template) (r + 8) (ifc_ll_ip6 L) 16 =
        put_bytes m r (?head @ lla mac @ [2, 1, 0, 0, 0, 0, 0, 0])"
      using le(1) own(2) [of ndp_template] put_bytes_over [of "replicate 16 0" "lla mac" ?head "[2, 1, 0, 0, 0, 0, 0, 0]" "r + 8" r m]
      by (simp add: memcpy_put ndp_template_def del: put_bytes.simps bytes_numeral)
    moreover have "memcpy (put_bytes m r (?head @ lla mac @ [2, 1, 0, 0, 0, 0, 0, 0])) (r + 26) (ifc_mac L) 6 =
        put_bytes m r ((?head @ lla mac @ [2, 1]) @ mac @ [])"
      using le(2) own(1) [of "?head @ lla mac @ [2, 1, 0, 0, 0, 0, 0, 0]"] mac(1)
        put_bytes_over [of "[0, 0, 0, 0, 0, 0]" mac "?head @ lla mac @ [2, 1]" "[]" "r + 26" r m]
      by (simp add: memcpy_put del: put_bytes.simps bytes_numeral)
    ultimately show ?thesis by (simp add: m'_def advertisement_def le16_def del: put_bytes.simps)
  qed
  have adv: "length (advertisement mac 0) = 32" by (simp add: advertisement_def mac)
  have peer: "bytes m' (b + 8) 6 = segment 6 6 f" "bytes m' (b + 24) 16 = segment 22 16 f"
  proof -
    have "bytes m' (b + 8) 6 = bytes m (b + 8) 6" "bytes m' (b + 24) 16 = bytes m (b + 24) 16"
      unfolding m'_def r_def
      by (rule bytes_put_other; unfold adv; rule separate_sub [OF rxs(4)]; use len l in simp)+
    moreover have "bytes m (b + 8) 6 = segment 6 6 f" "bytes m (b + 24) 16 = segment 22 16 f"
      by (rule received_segment [OF frame]; use l in simp)+
    ultimately show "bytes m' (b + 8) 6 = segment 6 6 f" "bytes m' (b + 24) 16 = segment 22 16 f" by simp_all
  qed
  have data: "bytes m' r (unat (32 :: u32)) = [136, 0] @ [0, 0] @ [0x60, 0, 0, 0] @ lla mac @ [2, 1] @ mac"
    using bytes_put_head [of 32 "advertisement mac 0" m r] adv
    by (simp add: m'_def advertisement_def le16_def del: bytes_numeral put_bytes.simps)
  have "reply_ready L (b + 56) 56 r 32"
    using separate_sub [OF rxs(1), of b 56] ls len l by (simp add: reply_ready_def tx_apart_def r_def)
  from net_tx_ip6_reply_sends [where st = "st\<lparr>nmem := m'\<rparr>" and eth_tx = eth_tx and type = 58 and chk_off = 2,
      OF this, of "[136, 0]" "[0x60, 0, 0, 0] @ lla mac @ [2, 1] @ mac"] data own [OF adv, folded m'_def] peer
  obtain ck where ck: "ck \<noteq> 0" "checksum_valid 58 (lla mac) (segment 22 16 f) (advertisement mac ck)"
    "net_tx_ip6_reply L eth_tx (b + 56) r 32 58 2 (st\<lparr>nmem := m'\<rparr>) = eth_tx (tx_packet L + 2) 86
        (st\<lparr>nmem := put_bytes m' (tx_packet L + 2)
          (ip6_frame (segment 6 6 f) mac 58 (lla mac) (segment 22 16 f) (advertisement mac ck))\<rparr>)"
    by (auto simp: advertisement_def Let_def MAX_IP6_PAYLOAD_def NETBUF_MAX_def simp del: bytes_numeral)
  have "\<not> len - 56 < 4" "\<not> len - 56 < 24" using icmp type(3) by (simp_all add: word_less_nat_alt)
  then have "net_rx_icmp6 L eth_tx (b + 56) (len - 56) (group_packet mac f) st =
      net_tx_ip6_reply L eth_tx (b + 56) r 32 58 2 (st\<lparr>nmem := m'\<rparr>)"
    using nth target fill by (simp add: net_rx_icmp6_def m_def [symmetric] r_def [symmetric] Let_def add.assoc)
  with net_rx_eth_received(2) [OF ready frame [unfolded m_def] refl ip6] ck show ?thesis
    unfolding m'_def m_def r_def by (intro exI [of _ ck]) simp
qed

lemma word_cat_be16: "word_cat (be16 v ! 0) (be16 v ! Suc 0) = v"
  by (rule bit_word_eqI) (auto simp: be16_def bit_simps)

lemma udp_packet_frame:
  assumes "length mac = 6" "length smac = 6" "length sip = 16" "length dport = 2" "length d \<le> 1472"
  shows "udp_packet mac (ip6_frame mac smac 17 sip (lla mac)
      (be16 sport @ dport @ be16 (of_nat (8 + length d)) @ le16 ck @ d)) = Some (be_word dport 0, d)"
proof -
  let ?udp = "be16 sport @ dport @ be16 (of_nat (8 + length d)) @ le16 ck @ d"
  let ?f = "ip6_frame mac smac 17 sip (lla mac) ?udp"
  define A where "A = mac @ smac @ [0x86, 0xDD] @ [0x60, 0, 0, 0] @ be16 (of_nat (length ?udp)) @ [17, 255] @ sip"
  have A: "length A = 38" using assms by (simp add: A_def)
  have f: "?f = A @ lla mac @ ?udp" by (simp add: ip6_frame_def A_def)
  have "length ?f = 62 + length d" unfolding f using A assms(4) by simp
  moreover have "segment 12 2 ?f = [0x86, 0xDD]" "segment 0 6 ?f = mac" "?f ! 20 = 17"
    using assms by (simp_all add: ip6_frame_def segment_def nth_append)
  moreover have "segment 38 16 ?f = lla mac" "segment 62 (length d) ?f = d"
    unfolding f using A assms(4) by (simp_all add: segment_def)
  moreover have "?f ! 56 = dport ! 0" "?f ! 57 = dport ! Suc 0"
    "?f ! 58 = be16 (of_nat (8 + length d)) ! 0" "?f ! 59 = be16 (of_nat (8 + length d)) ! Suc 0"
    unfolding f using A assms(4) by (simp_all add: nth_append)
  moreover have "unat (of_nat (8 + length d) :: u16) = 8 + length d"
    using assms(5) by (intro of_nat_inverse [OF refl]) simp
  ultimately show ?thesis
    by (simp add: udp_packet_def ip6_packet_def own_packet_def be_word_def word_cat_be16 Let_def
        del: of_nat_add)
qed

text \<open>The packets that the stack answers itself.\<close>

definition echo_request :: "u8 list \<Rightarrow> u8 list \<Rightarrow> bool" where
  "echo_request mac f \<longleftrightarrow> ip6_packet mac f 58 \<and> f ! 54 = 128"

definition solicitation :: "u8 list \<Rightarrow> u8 list \<Rightarrow> bool" where
  "solicitation mac f \<longleftrightarrow> ip6_packet mac f 58 \<and> f ! 54 = 135 \<and> f ! 55 = 0 \<and> 78 \<le> length f \<and>
     segment 62 16 f = lla mac"

lemma net_rx_eth_quiet:
  assumes "net_ready L mac (nmem st)" "received (nmem st) b len f"
    and "udp_packet mac f = None" "\<not> echo_request mac f" "\<not> solicitation mac f"
  shows "\<exists>st'. reported st st' \<and> (\<forall>rx. net_rx_eth L tx rx b len st = Some (Return st'))"
proof (cases "ip6_packet mac f 17 \<or> ip6_packet mac f 58")
  case True
  then show ?thesis
  proof
    assume "ip6_packet mac f 17"
    with net_rx_udp6_received(2) [OF assms(2) refl this assms(3)] net_rx_eth_received(1) [OF assms(1,2) refl]
    show ?thesis by simp
  next
    assume ip6: "ip6_packet mac f 58"
    then have l: "58 \<le> length f" by (simp add: ip6_packet_def)
    have len: "unat (len - 56) = length f - 54"
      using received_length [OF assms(2)] l by (simp add: unat_sub32)
    have nth: "nmem st (b + 56) = f ! 54" "nmem st (57 + b) = f ! 55"
      using received_nth [OF assms(2), of 54] received_nth [OF assms(2), of 55] l
      by (simp_all add: add.commute [of 57])
    have own: "bytes (nmem st) (ifc_ll_ip6 L) 16 = lla mac" using assms(1) by (simp add: net_ready_def)
    have target: "memcmp (nmem st) (b + 56 + 8) (ifc_ll_ip6 L) 16 \<noteq> 0 \<longleftrightarrow> segment 62 16 f \<noteq> lla mac"
      if "78 \<le> length f"
      using received_segment [OF assms(2), of 62 16 "b + 64"] that own
      by (simp add: memcmp_eq_0 add.assoc del: bytes_numeral)
    have short: "\<not> len - 56 < 4" "len - 56 < 24 \<longleftrightarrow> length f < 78"
      using l by (auto simp: word_less_nat_alt len)
    have "\<exists>st'. reported st st' \<and> net_rx_icmp6 L tx (b + 56) (len - 56) mc st = Some st'" for mc
    proof (cases "f ! 54 = 135")
      case True
      then have "length f < 78 \<or> f ! 55 \<noteq> 0 \<or> segment 62 16 f \<noteq> lla mac"
        using assms(5) ip6 by (auto simp: solicitation_def)
      then have "net_rx_icmp6 L tx (b + 56) (len - 56) mc st = Some st"
        using True target short by (cases "length f < 78") (auto simp: net_rx_icmp6_def nth Let_def)
      then show ?thesis by auto
    next
      case False
      moreover have "f ! 54 \<noteq> 128" using assms(4) ip6 by (simp add: echo_request_def)
      ultimately show ?thesis using short by (auto simp: net_rx_icmp6_def nth Let_def)
    qed
    with net_rx_eth_received(2) [OF assms(1,2) refl ip6] show ?thesis by fastforce
  qed
next
  case False
  then show ?thesis using net_rx_eth_received(3) [OF assms(1,2) refl] by blast
qed

lemma net_rx_eth_udp:
  assumes "net_ready L mac (nmem st)" and "received (nmem st) b len f"
  shows "case udp_packet mac f of
      Some (port, payload) \<Rightarrow>
        net_rx_eth L eth_tx pkt_rx b len st =
          pkt_rx (b + 64) (of_nat (length payload)) (ucast port) (group_packet mac f) st \<and>
        bytes (nmem st) (b + 64) (length payload) = payload \<and> 64 + length payload \<le> unat len
    | None \<Rightarrow> net_rx_eth L eth_tx pkt_rx b len st = net_rx_eth L eth_tx pkt_rx' b len st"
proof (cases "ip6_packet mac f 17")
  case True
  note udp = net_rx_udp6_received [OF assms(2) refl True]
  note eth = net_rx_eth_received(1) [OF assms refl True]
  show ?thesis
  proof (cases "udp_packet mac f")
    case None
    then obtain st' where "\<And>rx. net_rx_udp6 rx (b + 56) (len - 56) (group_packet mac f) st = Some (Return st')"
      using udp(2) by blast
    with None show ?thesis by (simp add: eth)
  next
    case (Some p)
    then show ?thesis using udp(1) [of "fst p" "snd p"] by (cases p) (simp add: eth)
  qed
next
  case False
  then have "udp_packet mac f = None" by (simp add: udp_packet_def Let_def)
  moreover have "net_rx_eth L eth_tx pkt_rx b len st = net_rx_eth L eth_tx pkt_rx' b len st"
  proof (cases "ip6_packet mac f 58")
    case True
    then show ?thesis using net_rx_eth_received(2) [OF assms refl True] by simp
  next
    case icmp: False
    show ?thesis using net_rx_eth_received(3) [OF assms refl False icmp] by (metis (no_types))
  qed
  ultimately show ?thesis by simp
qed

lemma udp_reply_frame:
  assumes "reply_ready L replyto 64 data len" and "len \<le> MAX_UDP_PAYLOAD"
    and "bytes (nmem st) (replyto - 56) 6 = peer" and "bytes (nmem st) (replyto - 40) 16 = lla peer"
  shows "\<exists>f udp ck. length f = 62 + unat len \<and>
    net_tx_udp_reply L eth_tx replyto data len port st =
      eth_tx (tx_packet L + 2) (62 + len) (st\<lparr>nmem := put_bytes (nmem st) (tx_packet L + 2) f\<rparr>) \<and>
    f = ip6_frame peer (bytes (nmem st) (ifc_mac L) 6) 17 (bytes (nmem st) (ifc_ll_ip6 L) 16) (lla peer) udp \<and>
    udp = be16 (ucast port) @ bytes (nmem st) (replyto - 8) 2 @ be16 (ucast (len + 8)) @ le16 ck @
      bytes (nmem st) data (unat len) \<and>
    ck \<noteq> 0 \<and> checksum_valid 17 (bytes (nmem st) (ifc_ll_ip6 L) 16) (lla peer) udp \<and>
    udp_packet peer f = Some (htons (load16 (nmem st) (replyto - 8)), bytes (nmem st) data (unat len))"
proof -
  let ?m = "nmem st"
  from net_tx_udp_reply_sends [OF assms(1,2), where port = port and st = st and eth_tx = eth_tx] assms(3,4)
  obtain ck where ck0: "ck \<noteq> 0" and ck: "checksum_valid 17 (bytes ?m (ifc_ll_ip6 L) 16) (lla peer)
      (be16 (ucast port) @ bytes ?m (replyto - 8) 2 @ be16 (ucast (len + 8)) @ le16 ck @ bytes ?m data (unat len))"
    "net_tx_udp_reply L eth_tx replyto data len port st = eth_tx (tx_packet L + 2) (62 + len)
      (st\<lparr>nmem := put_bytes ?m (tx_packet L + 2) (ip6_frame peer (bytes ?m (ifc_mac L) 6) 17
        (bytes ?m (ifc_ll_ip6 L) 16) (lla peer) (be16 (ucast port) @ bytes ?m (replyto - 8) 2 @
          be16 (ucast (len + 8)) @ le16 ck @ bytes ?m data (unat len)))\<rparr>)"
    by (auto simp: Let_def simp del: bytes_numeral)
  have n: "unat len \<le> 1472"
    using assms(2) by (simp add: MAX_UDP_PAYLOAD_def NETBUF_MAX_def word_le_nat_alt)
  have l: "(ucast (len + 8) :: u16) = of_nat (8 + length (bytes ?m data (unat len)))"
  proof -
    have "unat (len + 8) = 8 + unat len" using n by (simp add: unat_add32)
    then have "(of_nat (unat (len + 8)) :: u16) = of_nat (8 + unat len)" by (simp only:)
    then show ?thesis by simp
  qed
  have peer: "length peer = 6" using assms(3) length_bytes [of ?m "replyto - 56" 6] by simp
  have "be_word (bytes ?m (replyto - 8) 2) 0 = htons (load16 ?m (replyto - 8))"
    by (simp add: be_word_def htons_load16)
  then have "udp_packet peer (ip6_frame peer (bytes ?m (ifc_mac L) 6) 17 (bytes ?m (ifc_ll_ip6 L) 16)
      (lla peer) (be16 (ucast port) @ bytes ?m (replyto - 8) 2 @ be16 (ucast (len + 8)) @ le16 ck
        @ bytes ?m data (unat len))) = Some (htons (load16 ?m (replyto - 8)), bytes ?m data (unat len))"
    using udp_packet_frame [OF peer, of "bytes ?m (ifc_mac L) 6" "bytes ?m (ifc_ll_ip6 L) 16"
        "bytes ?m (replyto - 8) 2" "bytes ?m data (unat len)" "ucast port" ck] n
    unfolding l [symmetric] by (simp del: bytes_numeral)
  moreover have "length (ip6_frame peer (bytes ?m (ifc_mac L) 6) 17 (bytes ?m (ifc_ll_ip6 L) 16)
      (lla peer) (be16 (ucast port) @ bytes ?m (replyto - 8) 2 @ be16 (ucast (len + 8)) @ le16 ck
        @ bytes ?m data (unat len))) = 62 + unat len"
    using peer by (simp add: ip6_frame_def del: bytes_numeral)
  ultimately show ?thesis using ck0 ck
    by (intro exI conjI) (assumption | rule refl)+
qed

text \<open>Writing to the receive buffer leaves the stack's addresses.\<close>

lemma net_ready_put:
  assumes "rx_apart L b len" "length bs = unat len"
  shows "net_ready L mac (put_bytes m b bs) = net_ready L mac m"
  using assms by (simp add: net_ready_def rx_apart_def objects_def bytes_put_other separate_commute
      del: bytes_numeral)

section \<open>Properties\<close>

text \<open>An example: the initial data, with a frame from another host in a receive buffer.\<close>

definition example_linkage :: linkage where
  "example_linkage = \<lparr>ifc_mac = 0x1000, ifc_ll_ip6 = 0x1010, mcast_ns_ip6 = 0x1020,
     mcast_ll_ip6 = 0x1030, m_ifc_mac = 0x1040, m_ns_mac = 0x1048, m_ll_mac = 0x1050,
     tx_packet = 0x2000, ndp_reply = 0x3000\<rparr>"

definition example_mac :: "u8 list" where
  "example_mac = [0x72, 0x72, 0xaa, 0xbb, 0xcc, 0xdd]"

definition example_peer :: "u8 list" where
  "example_peer = [2, 0, 0, 0, 0, 1]"

definition example_net :: "u8 list \<Rightarrow> net" where
  "example_net f = \<lparr>nmem = put_bytes (static_data example_linkage (\<lambda>_. 0)) 0x4000 (0 # 0 # f), console = []\<rparr>"

definition example_frame :: "u8 \<Rightarrow> u8 list \<Rightarrow> u8 list" where
  "example_frame nh payload = ip6_frame example_mac example_peer nh (lla example_peer) (lla example_mac) payload"

lemma example_linked: "linked example_linkage"
  by (simp add: linked_def objects_def example_linkage_def separate_def)

lemma example_rx: "unat len \<le> 1536 \<Longrightarrow> rx_apart example_linkage 0x4000 len"
  by (simp add: rx_apart_def objects_def example_linkage_def separate_def)

lemma example_ready:
  assumes "length f \<le> 1534"
  shows "net_ready example_linkage example_mac (nmem (example_net f))"
    and "received (nmem (example_net f)) 0x4000 (of_nat (length f + 2)) f"
proof -
  have "unat (of_nat (length f + 2) :: u32) = length f + 2"
    using assms by (intro unat_of_nat32) simp
  then show "net_ready example_linkage example_mac (nmem (example_net f))"
    "received (nmem (example_net f)) 0x4000 (of_nat (length f + 2)) f"
    using static_data_ready [OF example_linked] net_ready_put [OF example_rx, of "of_nat (length f + 2)" "0 # 0 # f"] assms
    by (simp_all add: example_net_def example_mac_def received_def bytes_put_head del: put_bytes.simps of_nat_add)
qed


text \<open>
  C18: the stack delivers exactly the UDP datagrams for the host: the callback gets the address
  of the payload inside the received frame, its length and its port, for a frame that
  \<open>udp_packet\<close> decodes, and what happens with any other frame does not depend on the callback.
\<close>

theorem net_rx_eth_delivers:
  assumes "net_ready L mac (nmem st)" and "received (nmem st) b len f"
  shows "case udp_packet mac f of
      Some (port, payload) \<Rightarrow>
        net_rx_eth L eth_tx pkt_rx b len st =
          pkt_rx (b + 64) (of_nat (length payload)) (ucast port) (group_packet mac f) st \<and>
        bytes (nmem st) (b + 64) (length payload) = payload \<and> 64 + length payload \<le> unat len
    | None \<Rightarrow> net_rx_eth L eth_tx pkt_rx b len st = net_rx_eth L eth_tx pkt_rx' b len st"
  by (rule net_rx_eth_udp [OF assms])

theorem net_rx_eth_delivers_witness:
  "net_rx_eth example_linkage (\<lambda>_ _. Some) (\<lambda>a n port g st. Some (Jump (a + n + port) st)) 0x4000 65
     (example_net (example_frame 17 (be16 1000 @ be16 58572 @ be16 9 @ le16 1 @ [65]))) =
   Some (Jump (0x4041 + 58572) (example_net (example_frame 17 (be16 1000 @ be16 58572 @ be16 9 @ le16 1 @ [65]))))"
proof -
  let ?f = "example_frame 17 (be16 1000 @ be16 58572 @ be16 9 @ le16 1 @ [65])"
  have len: "length ?f = 63" by (simp add: example_frame_def ip6_frame_def example_mac_def example_peer_def)
  have udp: "udp_packet example_mac ?f = Some (58572, [65])"
    using udp_packet_frame [of example_mac example_peer "lla example_peer" "be16 58572" "[65]" 1000 1]
    by (simp add: example_frame_def example_mac_def example_peer_def be_word_def word_cat_be16)
  show ?thesis
    using net_rx_eth_delivers [OF example_ready, of ?f "\<lambda>_ _. Some" "\<lambda>a n port g st. Some (Jump (a + n + port) st)"]
    by (simp add: len udp)
qed

text \<open>
  C19: a reply that fits is sent as one frame to the ethernet and IPv6 address the packet came
  from, as a datagram from the given port to the port the packet came from, with its length and
  a valid checksum that is not zero (zero would say that there is none); the host it goes to
  decodes exactly the bytes given, for that port.
\<close>

theorem net_tx_udp_reply_frame:
  assumes "reply_ready L replyto 64 data len" and "len \<le> MAX_UDP_PAYLOAD"
    and "bytes (nmem st) (replyto - 56) 6 = peer" and "bytes (nmem st) (replyto - 40) 16 = lla peer"
  shows "\<exists>f udp ck. length f = 62 + unat len \<and>
    net_tx_udp_reply L eth_tx replyto data len port st =
      eth_tx (tx_packet L + 2) (62 + len) (st\<lparr>nmem := put_bytes (nmem st) (tx_packet L + 2) f\<rparr>) \<and>
    f = ip6_frame peer (bytes (nmem st) (ifc_mac L) 6) 17 (bytes (nmem st) (ifc_ll_ip6 L) 16) (lla peer) udp \<and>
    udp = be16 (ucast port) @ bytes (nmem st) (replyto - 8) 2 @ be16 (ucast (len + 8)) @ le16 ck @
      bytes (nmem st) data (unat len) \<and>
    ck \<noteq> 0 \<and> checksum_valid 17 (bytes (nmem st) (ifc_ll_ip6 L) 16) (lla peer) udp \<and>
    udp_packet peer f = Some (htons (load16 (nmem st) (replyto - 8)), bytes (nmem st) data (unat len))"
  by (rule udp_reply_frame [OF assms])

theorem net_tx_udp_reply_frame_witness:
  "net_tx_udp_reply example_linkage (\<lambda>_ n s. if n = 63 then None else Some s) 0x4040 0x4040 1 58572
     (example_net (example_frame 17 (be16 1000 @ be16 58572 @ be16 9 @ le16 1 @ [65]))) = None"
proof -
  let ?f = "example_frame 17 (be16 1000 @ be16 58572 @ be16 9 @ le16 1 @ [65])"
  have len: "length ?f = 63" by (simp add: example_frame_def ip6_frame_def example_mac_def example_peer_def)
  have rcv: "received (nmem (example_net ?f)) 0x4000 65 ?f" using example_ready(2) [of ?f] by (simp add: len)
  have "bytes (nmem (example_net ?f)) 0x4008 6 = segment 6 6 ?f" "bytes (nmem (example_net ?f)) 0x4018 16 = segment 22 16 ?f"
    by (rule received_segment [OF rcv]; simp add: len)+
  moreover have "segment 6 6 ?f = example_peer" "segment 22 16 ?f = lla example_peer"
    by (simp_all add: segment_def example_frame_def ip6_frame_def example_mac_def example_peer_def be16_def lla_def)
  moreover have "reply_ready example_linkage 0x4040 64 0x4040 1"
    by (simp add: reply_ready_def tx_apart_def example_linkage_def separate_def)
  ultimately show ?thesis
    using net_tx_udp_reply_frame [of example_linkage "0x4040" "0x4040" 1 "example_net ?f" example_peer
        "\<lambda>_ n s. if n = 63 then None else Some s" 58572]
    by (auto simp: MAX_UDP_PAYLOAD_def NETBUF_MAX_def simp del: bytes_numeral)
qed

text \<open>
  C20: an echo request for the host is answered with an echo reply to its sender that carries
  the rest of the received frame and a valid checksum that is not zero.
\<close>

theorem echo_answered:
  assumes "net_ready L mac (nmem st)" and "linked L" and "rx_apart L b len"
    and "received (nmem st) b len f" and "ip6_packet mac f 58" and "f ! 54 = 128" and "length f \<le> 1534"
  shows "\<exists>ck. ck \<noteq> 0 \<and>
    checksum_valid 58 (lla mac) (segment 22 16 f) ([129, f ! 55] @ le16 ck @ drop 58 f) \<and>
    net_rx_eth L eth_tx pkt_rx b len st =
      map_option Return (eth_tx (tx_packet L + 2) (len - 2)
        (st\<lparr>nmem := put_bytes (put_bytes (nmem st) (b + 56) [129, f ! 55, 0, 0])
                      (tx_packet L + 2) (echo_reply mac f ck)\<rparr>))"
  by (rule net_rx_echo [OF assms])

theorem echo_answered_witness:
  "net_rx_eth example_linkage (\<lambda>_ n s. if n = 62 then None else Some s) (\<lambda>_ _ _ _. Some \<circ> Return) 0x4000 64
     (example_net (example_frame 58 [128, 0, 1, 2, 3, 4, 5, 6])) = None"
proof -
  let ?f = "example_frame 58 [128, 0, 1, 2, 3, 4, 5, 6]"
  have len: "length ?f = 62" by (simp add: example_frame_def ip6_frame_def example_mac_def example_peer_def)
  have "ip6_packet example_mac ?f 58" "?f ! 54 = 128"
    by (simp_all add: ip6_packet_def own_packet_def segment_def example_frame_def ip6_frame_def
        example_mac_def example_peer_def be16_def lla_def)
  with echo_answered [OF example_ready(1) example_linked example_rx example_ready(2), of ?f
      "\<lambda>_ n s. if n = 62 then None else Some s" "\<lambda>_ _ _ _. Some \<circ> Return"]
  show ?thesis by (auto simp: len)
qed

text \<open>
  C21: a neighbour solicitation for the host's address is answered with an advertisement of its
  ethernet address.
\<close>

theorem solicitation_answered:
  assumes "net_ready L mac (nmem st)" and "linked L" and "rx_apart L b len"
    and "received (nmem st) b len f" and "ip6_packet mac f 58"
    and "f ! 54 = 135" and "f ! 55 = 0" and "78 \<le> length f" and "segment 62 16 f = lla mac"
  shows "\<exists>ck. ck \<noteq> 0 \<and> checksum_valid 58 (lla mac) (segment 22 16 f) (advertisement mac ck) \<and>
    net_rx_eth L eth_tx pkt_rx b len st =
      map_option Return (eth_tx (tx_packet L + 2) 86
        (st\<lparr>nmem := put_bytes (put_bytes (nmem st) (ndp_reply L) (advertisement mac 0)) (tx_packet L + 2)
          (ip6_frame (segment 6 6 f) mac 58 (lla mac) (segment 22 16 f) (advertisement mac ck))\<rparr>))"
  by (rule net_rx_solicit [OF assms])

theorem solicitation_answered_witness:
  "net_rx_eth example_linkage (\<lambda>_ n s. if n = 86 then None else Some s) (\<lambda>_ _ _ _. Some \<circ> Return) 0x4000 80
     (example_net (example_frame 58 ([135, 0, 0, 0, 0, 0, 0, 0] @ lla example_mac))) = None"
proof -
  define f where "f = example_frame 58 ([135, 0, 0, 0, 0, 0, 0, 0] @ lla example_mac)"
  have len: "length f = 78" by (simp add: f_def example_frame_def ip6_frame_def example_mac_def example_peer_def)
  have "ip6_packet example_mac f 58" "f ! 54 = 135" "f ! 55 = 0" "segment 62 16 f = lla example_mac"
    by (simp_all add: f_def ip6_packet_def own_packet_def segment_def example_frame_def ip6_frame_def
        example_mac_def example_peer_def be16_def lla_def)
  with solicitation_answered [OF example_ready(1) example_linked example_rx example_ready(2), of f
      "\<lambda>_ n s. if n = 86 then None else Some s" "\<lambda>_ _ _ _. Some \<circ> Return"]
  show ?thesis unfolding f_def [symmetric] by (auto simp: len)
qed

text \<open>
  \<open>net_init\<close> makes all of the stack's addresses those of the given ethernet address; the
  initial values of the variables belong together in the same way.
\<close>

theorem net_init_addresses:
  assumes "linked L"
  shows "net_ready L [0x72, 0x72, 0xaa, 0xbb, 0xcc, 0xdd] (static_data L m) \<and>
    (net_ready L old m' \<longrightarrow> (\<forall>(b, n) \<in> set (objects L). separate b n a 6) \<longrightarrow>
      net_ready L (bytes m' a 6) (net_init L a m'))"
  using static_data_ready [OF assms] net_init_ready(1) [OF assms] by blast

theorem net_init_addresses_witness:
  "net_ready example_linkage example_mac (static_data example_linkage (\<lambda>_. 0))"
  using net_init_addresses [OF example_linked, of "\<lambda>_. 0"] by (simp add: example_mac_def)

end
