(* ===== verification/Netboot.thy ===== *)
theory Netboot
  imports Packets LibcStr
begin

text \<open>
  The network boot loader, \<^verbatim>\<open>boot/netboot.c\<close>: the driver of the ethernet controller and the
  handler of boot messages, on the network stack of \<^verbatim>\<open>Net\<close>.  The controller's registers are
  a device: what the \<open>k\<close>-th register read returns is the device's choice, writes are
  recorded.  It stores received frames in its own memory between two runs of the handler
  (\<open>arrivals\<close>, by the number of register reads so far).
\<close>

section \<open>Code\<close>

record boot_linkage =
  net_link :: linkage
  nodename :: u32
  rxbuf :: u32
  mac_array :: u32
  num_buffer :: "u8 list"

record boot = net +
  eth_dev :: "nat \<Rightarrow> u32 \<Rightarrow> u32"
  eth_reads :: nat
  eth_log :: "(u32 \<times> u32) list"
  arrivals :: "nat \<Rightarrow> mem \<Rightarrow> mem"
  txslot :: u32
  csrs :: "u32 \<Rightarrow> u32"

definition eth_rd :: "u32 \<Rightarrow> boot \<Rightarrow> u32 \<times> boot" where
  "eth_rd a st = (eth_dev st (eth_reads st) a, st\<lparr>eth_reads := Suc (eth_reads st)\<rparr>)"

definition eth_wr :: "u32 \<Rightarrow> u32 \<Rightarrow> boot \<Rightarrow> boot" where
  "eth_wr a v st = st\<lparr>eth_log := eth_log st @ [(a, v)]\<rparr>"

definition WR_SLOT :: u32 where "WR_SLOT = 0x000"
definition WR_LEN :: u32 where "WR_LEN = 0x004"
definition WR_EV_PENDING :: u32 where "WR_EV_PENDING = 0x010"
definition WR_EV_ENABLE :: u32 where "WR_EV_ENABLE = 0x014"
definition RD_START :: u32 where "RD_START = 0x018"
definition RD_READY :: u32 where "RD_READY = 0x01C"
definition RD_SLOT :: u32 where "RD_SLOT = 0x024"
definition RD_LEN :: u32 where "RD_LEN = 0x028"
definition RD_EV_PENDING :: u32 where "RD_EV_PENDING = 0x030"
definition RD_EV_ENABLE :: u32 where "RD_EV_ENABLE = 0x034"

definition ETHMAC_SRAM_BASE :: u32 where "ETHMAC_SRAM_BASE = 0xE0000000"
definition ETHMAC_SLOT_SIZE :: u32 where "ETHMAC_SLOT_SIZE = 0x800"
definition ETHMAC_RX_SLOTS :: u32 where "ETHMAC_RX_SLOTS = 2"

definition NB_PORT_QUERY :: u32 where "NB_PORT_QUERY = 58571"
definition NB_PORT_CTRL :: u32 where "NB_PORT_CTRL = 58572"
definition NB_MAGIC :: u32 where "NB_MAGIC = 0x1e5dae11"
definition NB_CMD_QUERY :: u32 where "NB_CMD_QUERY = 0x56a938e6"
definition NB_CMD_WRITE :: u32 where "NB_CMD_WRITE = 0x7b639621"
definition NB_CMD_EXEC :: u32 where "NB_CMD_EXEC = 0xbdb9a844"
definition NB_CMD_STATUS :: u32 where "NB_CMD_STATUS = 0x9e68e03b"
definition NB_OK :: u32 where "NB_OK = 0"
definition NB_ERR_BADCMD :: u32 where "NB_ERR_BADCMD = 1"
definition NB_MSG_MIN :: u32 where "NB_MSG_MIN = 16"
definition NB_MSG_MAX :: u32 where "NB_MSG_MAX = 16 + 1024"
definition NB_DATA_MAX :: u32 where "NB_DATA_MAX = 1024"

lemmas nb_ports = NB_PORT_QUERY_def NB_PORT_CTRL_def
lemmas nb_commands = NB_CMD_QUERY_def NB_CMD_WRITE_def NB_CMD_EXEC_def NB_CMD_STATUS_def
lemmas nb_status = NB_OK_def NB_ERR_BADCMD_def
lemmas nb_sizes = NB_MSG_MIN_def NB_MSG_MAX_def NB_DATA_MAX_def

definition halt_peripherals :: "boot \<Rightarrow> boot" where
  "halt_peripherals st = eth_wr RD_EV_ENABLE 0 (eth_wr WR_EV_ENABLE 0 st)"

definition store_word :: "u32 \<Rightarrow> u32 \<Rightarrow> boot \<Rightarrow> boot" where
  "store_word a v st = st\<lparr>nmem := store32 (nmem st) a v\<rparr>"

subsection \<open>Sending\<close>

partial_function (option) eth_wait :: "boot \<Rightarrow> boot option" where
  "eth_wait st = (let (ready, st) = eth_rd RD_READY st in if ready \<noteq> 1 then eth_wait st else Some st)"

definition tx_slot_address :: "u32 \<Rightarrow> u32" where
  "tx_slot_address slot = ETHMAC_SRAM_BASE + ETHMAC_SLOT_SIZE * (ETHMAC_RX_SLOTS + slot)"

definition eth_tx :: "u32 \<Rightarrow> u32 \<Rightarrow> boot \<Rightarrow> boot option" where
  "eth_tx txb txlen st =
     (if txlen > 1534 then Some st
      else Option.bind (eth_wait st) (\<lambda>st.
        let st = st\<lparr>nmem := memcpy (nmem st) (tx_slot_address (txslot st)) txb txlen\<rparr>;
            st = eth_wr RD_SLOT (txslot st) st;
            st = eth_wr RD_LEN txlen st;
            st = eth_wr RD_START 1 st
        in Some (st\<lparr>txslot := txslot st XOR 1\<rparr>)))"

subsection \<open>Boot messages\<close>

text \<open>A message: magic number, command, sequence number and argument, and the data at 16.\<close>

definition reply_status :: "boot_linkage \<Rightarrow> u32 \<Rightarrow> u32 \<Rightarrow> boot \<Rightarrow> boot option" where
  "reply_status B data status st =
     (let st = store_word (data + 4) NB_CMD_STATUS st;
          st = store_word (data + 12) status st
      in net_tx_udp_reply (net_link B) eth_tx data data NB_MSG_MIN NB_PORT_CTRL st)"

definition query_reply :: "boot_linkage \<Rightarrow> u32 \<Rightarrow> boot \<Rightarrow> boot outcome option" where
  "query_reply B replyto st =
     Option.bind (strlen (nmem st) (nodename B)) (\<lambda>nlen.
       case snprintf (num_buffer B) (nmem st) (replyto + 16) NB_DATA_MAX (lit ''name=%s'')
              [Str (nodename B) (bytes (nmem st) (nodename B) (unat nlen))] of
         Inl e \<Rightarrow> Some (Wrong e)
       | Inr (len, m) \<Rightarrow>
           let st = st\<lparr>nmem := m\<rparr>;
               st = store_word (replyto + 4) NB_CMD_STATUS st;
               st = store_word (replyto + 12) NB_OK st
           in map_option Return (net_tx_udp_reply (net_link B) eth_tx replyto replyto
                (NB_MSG_MIN + of_int len + 1) NB_PORT_CTRL st))"

definition PRIV_S :: u32 where "PRIV_S = 1"
definition CSR_MSTATUS :: u32 where "CSR_MSTATUS = 0x300"

definition csr_write :: "u32 \<Rightarrow> u32 \<Rightarrow> boot \<Rightarrow> boot" where
  "csr_write n v st = st\<lparr>csrs := (csrs st)(n := v)\<rparr>"

definition csr_set :: "u32 \<Rightarrow> u32 \<Rightarrow> boot \<Rightarrow> boot" where
  "csr_set n v st = csr_write n (csrs st n OR v) st"

definition pkt_rx_udp ::
  "boot_linkage \<Rightarrow> u32 \<Rightarrow> u32 \<Rightarrow> u32 \<Rightarrow> bool \<Rightarrow> boot \<Rightarrow> boot outcome option" where
  "pkt_rx_udp B data len port mcast st =
     (let m = nmem st; cmd = load32 m (data + 4)
      in if len < NB_MSG_MIN \<or> len > NB_MSG_MAX \<or> load32 m data \<noteq> NB_MAGIC
         then Some (Return st)
         else if port = NB_PORT_QUERY
         then Option.bind (strlen m (nodename B)) (\<lambda>nlen.
           if cmd \<noteq> NB_CMD_QUERY \<or> len \<noteq> nlen + NB_MSG_MIN \<or> memcmp m (data + 16) (nodename B) nlen \<noteq> 0
           then Some (Return st)
           else query_reply B data st)
         else if port \<noteq> NB_PORT_CTRL then Some (Return st)
         else if cmd = NB_CMD_QUERY then query_reply B data (say (Putc (ucast (of_char (CHR ''Q'') :: u8))) st)
         else if cmd = NB_CMD_WRITE
         then let st = say (Putc (ucast (of_char (CHR ''.'') :: u8))) st;
                  st = st\<lparr>nmem := memcpy (nmem st) (load32 (nmem st) (data + 12)) (data + 16)
                                    (len - NB_MSG_MIN)\<rparr>
              in map_option Return (reply_status B data NB_OK st)
         else if cmd = NB_CMD_EXEC
         then let st = say (Putc (ucast (of_char (CHR ''!'') :: u8))) st;
                  entry = load32 (nmem st) (data + 12)
              in map_option (\<lambda>st.
                   let st = csr_write CSR_MSTATUS (push_bit 11 PRIV_S) st;
                       st = say (Printf (lit ''\<newline>\<newline>[ execution starts at 0x%08x ]\<newline>\<newline>'') [Word entry]) st
                   in Jump entry st) (reply_status B data NB_OK st)
         else map_option Return (reply_status B data NB_ERR_BADCMD
                (say (Putc (ucast (of_char (CHR ''E'') :: u8))) st)))"

subsection \<open>Receiving\<close>

definition eth_rx :: "boot_linkage \<Rightarrow> u32 \<Rightarrow> u32 \<Rightarrow> boot \<Rightarrow> boot outcome option" where
  "eth_rx B rxb rxlen st =
     (if rxlen > 1534 then Some (Return st)
      else let st = st\<lparr>nmem := memcpy (nmem st) (rxbuf B + 2) rxb rxlen\<rparr>
           in net_rx_eth (net_link B) eth_tx (pkt_rx_udp B) (rxbuf B) (rxlen + 2) st)"

definition eth_init :: "boot \<Rightarrow> boot" where
  "eth_init st =
     (let st = eth_wr WR_EV_ENABLE 0 st;
          st = eth_wr RD_EV_ENABLE 0 st;
          st = eth_wr WR_EV_PENDING 1 st;
          st = eth_wr RD_EV_PENDING 1 st;
          st = st\<lparr>txslot := 0\<rparr>;
          st = eth_wr RD_SLOT (txslot st) st;
          st = eth_wr WR_EV_ENABLE 1 st
      in eth_wr RD_EV_ENABLE 1 st)"

definition eth_handle_rx :: "boot_linkage \<Rightarrow> boot \<Rightarrow> boot outcome option" where
  "eth_handle_rx B st =
     (let (pending, st) = eth_rd WR_EV_PENDING st
      in if pending AND 1 \<noteq> 0
         then let (slot, st) = eth_rd WR_SLOT st;
                  rxb = ETHMAC_SRAM_BASE + ETHMAC_SLOT_SIZE * slot;
                  (len, st) = eth_rd WR_LEN st
              in map_option (\<lambda>r. case r of Return st \<Rightarrow> Return (eth_wr WR_EV_PENDING 1 st) | _ \<Rightarrow> r)
                   (eth_rx B rxb len st)
         else Some (Return st))"

partial_function (option) netboot_loop :: "boot_linkage \<Rightarrow> boot \<Rightarrow> boot outcome option" where
  "netboot_loop B st =
     Option.bind (eth_handle_rx B (st\<lparr>nmem := arrivals st (eth_reads st) (nmem st)\<rparr>)) (\<lambda>r.
       case r of Return st \<Rightarrow> netboot_loop B st | Jump a st \<Rightarrow> Some (Jump a st) | Wrong e \<Rightarrow> Some (Wrong e))"

definition netboot :: "boot_linkage \<Rightarrow> boot \<Rightarrow> boot outcome option" where
  "netboot B st =
     (let m = put_bytes (nmem st) (mac_array B) [0x42, 0x42, 0x10, 0x20, 0x30, 0x40];
          st = st\<lparr>nmem := net_init (net_link B) (mac_array B) m\<rparr>
      in netboot_loop B (eth_init st))"

text \<open>The address of \<open>mach_exception_entry\<close> is an argument.\<close>

definition start :: "boot_linkage \<Rightarrow> u32 \<Rightarrow> boot \<Rightarrow> boot outcome option" where
  "start B mach_exception_entry st =
     (let st = say (Printf (lit ''\<newline>** Frobozz Magic (Network) Bootloader v0.2 **\<newline>\<newline>'') []) st;
          qemu = csrs st 0xF11 = 0;
          st = csr_write 0x305 mach_exception_entry st;
          st = csr_write 0x340 (0x40000000 + 0x8000) st;
          st = (if qemu then csr_write 0x3B0 0xFFFFFFFF (csr_write 0x3A0 (8 OR 4 OR 2 OR 1) st) else st);
          st = csr_set 0x303 (2 OR 32 OR 512) st;
          st = csr_set 0x302 0xFFFF st
      in netboot B st)"

end
