(* ===== verification/Loader.thy ===== *)
theory Loader
  imports Netboot
begin

text \<open>
  What the boot loader of \<^verbatim>\<open>Netboot\<close> does.  The node as a specification is \<open>reaction\<close>: what a
  message that arrives on a port asks for.  \<open>boot_ready\<close> is the invariant of the loader's
  memory, \<open>handled\<close> and \<open>carries_on\<close> say what the code does for a reaction.
\<close>

section \<open>What is sent\<close>

definition tx_ready :: "boot \<Rightarrow> bool" where
  "tx_ready st \<longleftrightarrow> (\<forall>n. \<exists>k\<ge>n. eth_dev st k RD_READY = 1)"

lemma eth_wait_ready:
  assumes "tx_ready st"
  shows "\<exists>n. eth_wait st = Some (st\<lparr>eth_reads := n\<rparr>)"
proof -
  obtain k where "eth_reads st \<le> k" "eth_dev st k RD_READY = 1"
    using assms by (auto simp: tx_ready_def)
  then show ?thesis
  proof (induction "k - eth_reads st" arbitrary: st)
    case 0
    then have "eth_reads st = k" by simp
    then show ?case using 0 by (subst eth_wait.simps) (auto simp: eth_rd_def)
  next
    case (Suc d)
    show ?case
    proof (cases "eth_dev st (eth_reads st) RD_READY = 1")
      case True
      then show ?thesis by (subst eth_wait.simps) (auto simp: eth_rd_def)
    next
      case False
      have "\<exists>n. eth_wait (st\<lparr>eth_reads := Suc (eth_reads st)\<rparr>) =
          Some (st\<lparr>eth_reads := Suc (eth_reads st)\<rparr>\<lparr>eth_reads := n\<rparr>)"
        using Suc.hyps(2) Suc.prems by (intro Suc.hyps(1)) simp_all
      with False show ?thesis by (subst eth_wait.simps) (auto simp: eth_rd_def)
    qed
  qed
qed

text \<open>
  A frame is handed to the controller: it is in the memory of the next transmit slot, the
  controller is told slot and length and started, and the slots take turns.
\<close>

definition transmitted :: "boot \<Rightarrow> u8 list \<Rightarrow> boot \<Rightarrow> bool" where
  "transmitted st f st' \<longleftrightarrow> (\<exists>n. st' = st\<lparr>
     eth_reads := n,
     nmem := put_bytes (nmem st) (tx_slot_address (txslot st)) f,
     eth_log := eth_log st @ [(RD_SLOT, txslot st), (RD_LEN, of_nat (length f)), (RD_START, 1)],
     txslot := txslot st XOR 1\<rparr>)"

lemma eth_tx_transmits:
  assumes "tx_ready st" "txlen \<le> 1534" "unat txlen \<le> unat (tx_slot_address (txslot st) - txb)"
  shows "\<exists>st'. eth_tx txb txlen st = Some st' \<and> transmitted st (bytes (nmem st) txb (unat txlen)) st'"
proof -
  obtain n where n: "eth_wait st = Some (st\<lparr>eth_reads := n\<rparr>)" using eth_wait_ready [OF assms(1)] by blast
  have "unat txlen < 2147483648" using assms(2) by (simp add: word_le_nat_alt)
  then have "memcpy (nmem st) (tx_slot_address (txslot st)) txb txlen =
      put_bytes (nmem st) (tx_slot_address (txslot st)) (bytes (nmem st) txb (unat txlen))"
    by (intro memcpy_put assms(3))
  then show ?thesis
    using assms(2) n by (auto simp: eth_tx_def eth_wr_def transmitted_def not_less [symmetric])
qed

section \<open>Messages\<close>

text \<open>The words of a message, in the byte order of the machine.\<close>

definition le_word :: "u8 list \<Rightarrow> nat \<Rightarrow> u32" where
  "le_word p i = word_cat (word_cat (p ! (i + 3)) (p ! (i + 2)) :: u16) (word_cat (p ! (i + 1)) (p ! i) :: u16)"

definition le32 :: "u32 \<Rightarrow> u8 list" where
  "le32 v = [ucast v, ucast (drop_bit 8 v), ucast (drop_bit 16 v), ucast (drop_bit 24 v)]"

lemma length_le32 [simp]: "length (le32 v) = 4"
  by (simp add: le32_def)

lemma le_word_le32: "i = length xs \<Longrightarrow> le_word (xs @ le32 v @ ys) i = v"
  by (rule bit_word_eqI) (auto simp: le_word_def le32_def nth_append bit_simps)

lemma load32_bytes: "i + 4 \<le> n \<Longrightarrow> load32 m (a + of_nat i) = le_word (bytes m a n) i"
  by (simp add: load32_def le_word_def ac_simps)

lemma le32_le_word:
  assumes "i + 4 \<le> length p"
  shows "le32 (le_word p i) = segment i 4 p"
proof -
  have "ucast (le_word p i) = p ! i" "ucast (drop_bit 8 (le_word p i)) = p ! (i + 1)"
    "ucast (drop_bit 16 (le_word p i)) = p ! (i + 2)" "ucast (drop_bit 24 (le_word p i)) = p ! (i + 3)"
    by (rule bit_word_eqI, auto simp: le_word_def bit_simps)+
  moreover have "segment i 4 p = [p ! i, p ! (i + 1), p ! (i + 2), p ! (i + 3)]"
    using assms by (intro nth_equalityI) (auto simp: segment_def nth_Cons eval_nat_numeral split: nat.split)
  ultimately show ?thesis by (simp add: le32_def)
qed

definition boot_message :: "u32 \<Rightarrow> u32 \<Rightarrow> u32 \<Rightarrow> u8 list \<Rightarrow> u8 list" where
  "boot_message cmd seq arg db = le32 NB_MAGIC @ le32 cmd @ le32 seq @ le32 arg @ db"

lemma boot_message_words:
  "le_word (boot_message cmd seq arg db) 0 = NB_MAGIC" "le_word (boot_message cmd seq arg db) 4 = cmd"
  "le_word (boot_message cmd seq arg db) 8 = seq" "le_word (boot_message cmd seq arg db) 12 = arg"
  "length (boot_message cmd seq arg db) = 16 + length db" "drop 16 (boot_message cmd seq arg db) = db"
  using le_word_le32 [of 0 "[]" NB_MAGIC "le32 cmd @ le32 seq @ le32 arg @ db"]
    le_word_le32 [of 4 "le32 NB_MAGIC" cmd "le32 seq @ le32 arg @ db"]
    le_word_le32 [of 8 "le32 NB_MAGIC @ le32 cmd" seq "le32 arg @ db"]
    le_word_le32 [of 12 "le32 NB_MAGIC @ le32 cmd @ le32 seq" arg db]
  by (simp_all add: boot_message_def)

text \<open>The node as a specification: what it does about a message that arrives on a port.\<close>

datatype reaction = Ignore | Refuse | Identify | Store u32 "u8 list" | Run u32

definition reaction :: "u8 list \<Rightarrow> u32 \<Rightarrow> u8 list \<Rightarrow> reaction" where
  "reaction name port p =
     (let cmd = le_word p 4; arg = le_word p 12
      in if length p < 16 \<or> 1040 < length p \<or> le_word p 0 \<noteq> NB_MAGIC then Ignore
         else if port = NB_PORT_QUERY
         then if cmd = NB_CMD_QUERY \<and> drop 16 p = name then Identify else Ignore
         else if port \<noteq> NB_PORT_CTRL then Ignore
         else if cmd = NB_CMD_QUERY then Identify
         else if cmd = NB_CMD_WRITE then Store arg (drop 16 p)
         else if cmd = NB_CMD_EXEC then Run arg
         else Refuse)"

section \<open>The memory of the loader\<close>

text \<open>
  The loader's own memory: the stack's variables, the receive buffer, the node's name and the
  controller's memory.  Handling a packet writes to the work areas only, unless it stores data.
\<close>

definition privates :: "boot_linkage \<Rightarrow> u8 list \<Rightarrow> (u32 \<times> nat) list" where
  "privates B name = objects (net_link B) @
     [(rxbuf B, 1536), (nodename B, Suc (length name)), (ETHMAC_SRAM_BASE, 8192)]"

definition work_areas :: "boot_linkage \<Rightarrow> (u32 \<times> nat) list" where
  "work_areas B = [(rxbuf B + 2, 1534), (tx_packet (net_link B), 1536), (ndp_reply (net_link B), 32),
     (ETHMAC_SRAM_BASE, 8192)]"

definition boot_linked :: "boot_linkage \<Rightarrow> u8 list \<Rightarrow> bool" where
  "boot_linked B name \<longleftrightarrow> sorted_wrt (\<lambda>(a, n) (b, k). separate a n b k) (privates B name) \<and>
     num_buffer_ok (num_buffer B) \<and> nodename B \<noteq> 0 \<and> length name \<le> 1000"

definition elsewhere :: "boot_linkage \<Rightarrow> u32 \<Rightarrow> nat \<Rightarrow> bool" where
  "elsewhere B q k \<longleftrightarrow> (\<forall>(a, n) \<in> set (work_areas B). separate a n q k)"

definition unchanged :: "boot_linkage \<Rightarrow> mem \<Rightarrow> mem \<Rightarrow> bool" where
  "unchanged B m m' \<longleftrightarrow> (\<forall>q k. elsewhere B q k \<longrightarrow> bytes m' q k = bytes m q k)"

lemma unchanged_refl: "unchanged B m m"
  by (simp add: unchanged_def)

lemma unchanged_trans: "unchanged B m m' \<Longrightarrow> unchanged B m' m'' \<Longrightarrow> unchanged B m m''"
  by (simp add: unchanged_def)

lemma unchanged_put:
  "(a, n) \<in> set (work_areas B) \<Longrightarrow> inside p (length bs) a n \<Longrightarrow> unchanged B m (put_bytes m p bs)"
  by (auto simp: unchanged_def elsewhere_def intro!: bytes_put_separate [of a n] inside_refl)

lemma boot_linked_linked: "boot_linked B name \<Longrightarrow> linked (net_link B)"
  by (auto simp: boot_linked_def privates_def linked_def sorted_wrt_append)

lemma boot_linked_rx: "boot_linked B name \<Longrightarrow> unat len \<le> 1536 \<Longrightarrow> rx_apart (net_link B) (rxbuf B) len"
  by (auto simp: boot_linked_def privates_def rx_apart_def sorted_wrt_append separate_def)

text \<open>The variables that must survive.\<close>

definition protected :: "boot_linkage \<Rightarrow> u8 list \<Rightarrow> (u32 \<times> nat) list" where
  "protected B name = take 7 (objects (net_link B)) @ [(nodename B, Suc (length name)), (rxbuf B, 2)]"

lemma protected_elsewhere:
  assumes "boot_linked B name" "(q, k) \<in> set (protected B name)"
  shows "elsewhere B q k"
proof -
  have "separate (rxbuf B + 2) 1534 q k" if "separate (rxbuf B) 1536 q k" "0 < k" for q k
    using that by (intro separate_inside [OF that(1)]) (simp_all add: inside_def)
  moreover have "separate (rxbuf B + 2) 1534 (rxbuf B) 2" by (simp add: separate_def)
  moreover have "separate (tx_packet (net_link B)) 1536 (rxbuf B) 2" "separate (ndp_reply (net_link B)) 32 (rxbuf B) 2"
    "separate ETHMAC_SRAM_BASE 8192 (rxbuf B) 2"
    using assms(1) by (auto simp: boot_linked_def privates_def objects_def separate_def)
  ultimately show ?thesis
    using assms by (auto simp: boot_linked_def privates_def objects_def protected_def elsewhere_def
        work_areas_def separate_commute)
qed

definition boot_ready :: "boot_linkage \<Rightarrow> u8 list \<Rightarrow> u8 list \<Rightarrow> boot \<Rightarrow> bool" where
  "boot_ready B name mac st \<longleftrightarrow> net_ready (net_link B) mac (nmem st) \<and>
     cstr (nmem st) (nodename B) name \<and> bytes (nmem st) (rxbuf B) 2 = [0, 0] \<and>
     (txslot st = 0 \<or> txslot st = 1) \<and> tx_ready st"

lemma cstr_eq_bytes: "bytes m' p (Suc (length s)) = bytes m p (Suc (length s)) \<Longrightarrow> cstr m' p s = cstr m p s"
  by (metis cstr_cong bytes_eq_iff less_Suc_eq_le)

lemma protected_ready:
  assumes "\<And>q k. (q, k) \<in> set (protected B name) \<Longrightarrow> bytes (nmem st') q k = bytes (nmem st) q k"
    and "boot_ready B name mac st" "txslot st' = 0 \<or> txslot st' = 1" "eth_dev st' = eth_dev st"
  shows "boot_ready B name mac st'"
proof -
  have "bytes (nmem st') q k = bytes (nmem st) q k"
    if "(q, k) \<in> set (protected B name)" for q k using assms(1) that .
  then have "net_ready (net_link B) mac (nmem st')" "bytes (nmem st') (rxbuf B) 2 = [0, 0]"
    "bytes (nmem st') (nodename B) (Suc (length name)) = bytes (nmem st) (nodename B) (Suc (length name))"
    using assms(2) by (simp_all add: protected_def objects_def net_ready_def boot_ready_def del: bytes_numeral)
  then show ?thesis
    using assms(2-4) cstr_eq_bytes [of "nmem st'"] by (simp add: boot_ready_def tx_ready_def)
qed

text \<open>
  A frame is sent and the loader goes on: the controller has it, nothing but the work areas is
  written, and the loader stays ready.
\<close>

definition sends_frame :: "boot_linkage \<Rightarrow> boot \<Rightarrow> u8 list \<Rightarrow> boot \<Rightarrow> bool" where
  "sends_frame B st f st' \<longleftrightarrow>
     bytes (nmem st') (tx_slot_address (txslot st)) (length f) = f \<and> unchanged B (nmem st) (nmem st') \<and>
     eth_log st' = eth_log st @ [(RD_SLOT, txslot st), (RD_LEN, of_nat (length f)), (RD_START, 1)] \<and>
     txslot st' = txslot st XOR 1 \<and> console st' = console st \<and> csrs st' = csrs st \<and> eth_dev st' = eth_dev st \<and>
     arrivals st' = arrivals st"

lemma sends_frame_ready:
  assumes "boot_linked B name" "boot_ready B name mac st" "sends_frame B st f st'"
  shows "boot_ready B name mac st'"
proof (rule protected_ready [OF _ assms(2)])
  show "bytes (nmem st') q k = bytes (nmem st) q k" if "(q, k) \<in> set (protected B name)" for q k
    using assms(3) protected_elsewhere [OF assms(1) that] by (simp add: sends_frame_def unchanged_def)
qed (use assms(2,3) in \<open>auto simp: sends_frame_def boot_ready_def\<close>)

lemma tx_slot_inside:
  "slot = 0 \<or> slot = 1 \<Longrightarrow> n \<le> 1534 \<Longrightarrow> inside (tx_slot_address slot) n ETHMAC_SRAM_BASE 8192"
  by (auto simp: inside_def tx_slot_address_def ETHMAC_SRAM_BASE_def ETHMAC_SLOT_SIZE_def ETHMAC_RX_SLOTS_def)

lemma boot_separate:
  assumes "boot_linked B name"
  shows "separate (tx_packet (net_link B)) 1536 ETHMAC_SRAM_BASE 8192"
    and "separate (rxbuf B) 1536 ETHMAC_SRAM_BASE 8192"
    and "separate (tx_packet (net_link B)) 1536 (rxbuf B) 1536"
    and "separate (tx_packet (net_link B)) 1536 (ifc_mac (net_link B)) 6"
    and "separate (tx_packet (net_link B)) 1536 (ifc_ll_ip6 (net_link B)) 16"
    and "separate (rxbuf B) 1536 (nodename B) (Suc (length name))"
  using assms by (auto simp: boot_linked_def privates_def objects_def separate_commute)

lemma work_areasI:
  "(rxbuf B + 2, 1534) \<in> set (work_areas B)" "(tx_packet (net_link B), 1536) \<in> set (work_areas B)"
  "(ETHMAC_SRAM_BASE, 8192) \<in> set (work_areas B)"
  by (simp_all add: work_areas_def)

text \<open>A reply to the packet in the receive buffer.\<close>

lemma udp_reply_sent:
  fixes B st len
  defines "m \<equiv> nmem st" and "L \<equiv> net_link B" and "data \<equiv> rxbuf B + 64"
  assumes linked: "boot_linked B name" and ready: "boot_ready B name mac st" and len: "unat len \<le> 1472"
    and peer: "bytes m (rxbuf B + 8) 6 = peer" "bytes m (rxbuf B + 24) 16 = lla peer"
  shows "\<exists>st' f. net_tx_udp_reply L eth_tx data data len port st = Some st' \<and> sends_frame B st f st' \<and>
    udp_packet peer f = Some (htons (load16 m (rxbuf B + 56)), bytes m data (unat len))"
proof -
  note sep = boot_separate [OF linked, folded L_def]
  have slot: "txslot st = 0 \<or> txslot st = 1" "tx_ready st" using ready by (simp_all add: boot_ready_def)
  have rep: "reply_ready L data 64 data len"
    using sep(4,5) len separate_sub [OF sep(3), of "rxbuf B" 64] separate_sub [OF sep(3), of data 1472]
      tx_apart_le [of L data 1472 "unat len"]
    by (simp add: reply_ready_def tx_apart_def data_def)
  have max: "len \<le> MAX_UDP_PAYLOAD" using len by (simp add: MAX_UDP_PAYLOAD_def NETBUF_MAX_def word_le_nat_alt)
  have peer': "bytes (nmem st) (data - 56) 6 = peer" "bytes (nmem st) (data - 40) 16 = lla peer"
    using peer by (simp_all add: data_def m_def add.commute [of _ "rxbuf B"] del: bytes_numeral)
  from udp_reply_frame [OF rep max peer', of eth_tx port] obtain f udp ck where
    lf: "length f = 62 + unat len" and tx: "net_tx_udp_reply L eth_tx data data len port st =
      eth_tx (tx_packet L + 2) (62 + len) (st\<lparr>nmem := put_bytes m (tx_packet L + 2) f\<rparr>)"
    and f: "f = ip6_frame peer (bytes m (ifc_mac L) 6) 17 (bytes m (ifc_ll_ip6 L) 16) (lla peer) udp"
    and udp: "udp_packet peer f = Some (htons (load16 m (rxbuf B + 56)), bytes m data (unat len))"
    by (auto simp: data_def m_def add.commute [of _ "rxbuf B"] simp del: bytes_numeral)
  let ?st = "st\<lparr>nmem := put_bytes m (tx_packet L + 2) f\<rparr>"
  have l62: "unat (62 + len) = 62 + unat len" using len by (simp add: unat_add32)
  have "separate (tx_packet L + 2) (length f) (tx_slot_address (txslot st)) (length f)"
    using sep(1) tx_slot_inside [OF slot(1), of "length f"] len lf
    by (intro separate_inside [OF sep(1)]) (auto simp: inside_def)
  then have "unat (62 + len) \<le> unat (tx_slot_address (txslot ?st) - (tx_packet L + 2))"
    by (simp add: l62 lf separate_def)
  with eth_tx_transmits [of ?st "62 + len" "tx_packet L + 2"] slot(2) len obtain st' where
    st': "eth_tx (tx_packet L + 2) (62 + len) ?st = Some st'"
      "transmitted ?st (bytes (nmem ?st) (tx_packet L + 2) (unat (62 + len))) st'"
    by (auto simp: tx_ready_def word_le_nat_alt l62)
  have read: "bytes (nmem ?st) (tx_packet L + 2) (unat (62 + len)) = f"
    using len by (simp add: l62 lf [symmetric] bytes_put_head) (simp add: lf bytes_put_head)
  have slot_put: "bytes (put_bytes m' (tx_slot_address (txslot st)) f) (tx_slot_address (txslot st)) (length f) = f" for m'
    using lf len by (simp add: bytes_put_head)
  have "unchanged B m (put_bytes m (tx_packet L + 2) f)"
    using len lf by (intro unchanged_put [OF work_areasI(2)]) (auto simp: inside_def L_def)
  moreover have "unchanged B m' (put_bytes m' (tx_slot_address (txslot st)) f)" for m'
    using len lf tx_slot_inside [OF slot(1), of "length f"] by (intro unchanged_put [OF work_areasI(3)]) simp
  ultimately have "sends_frame B st f st'"
    using st'(2) slot_put unfolding read
    by (auto simp: sends_frame_def transmitted_def m_def intro: unchanged_trans)
  then show ?thesis using tx st'(1) udp by auto
qed

lemma put_bytes_same: "n \<le> 4294967296 \<Longrightarrow> put_bytes m a (bytes m a n) = m"
  by (simp add: put_bytes_bytes)

lemma store32_le32: "store32 m a v = put_bytes m a (le32 v)"
  by (simp add: store32_put_bytes le32_def)

lemma boot_message_of:
  assumes "16 \<le> length p" "le_word p 0 = NB_MAGIC"
  shows "p = boot_message (le_word p 4) (le_word p 8) (le_word p 12) (drop 16 p)"
proof -
  have "take 16 p = segment 0 4 p @ segment 4 4 p @ segment 8 4 p @ segment 12 4 p"
  proof -
    have "take 16 p = take 4 p @ take 12 (drop 4 p)" using take_add [of 4 12 p] by simp
    moreover have "take 12 (drop 4 p) = take 4 (drop 4 p) @ take 8 (drop 8 p)"
      using take_add [of 4 8 "drop 4 p"] by simp
    moreover have "take 8 (drop 8 p) = take 4 (drop 8 p) @ take 4 (drop 12 p)"
      using take_add [of 4 4 "drop 8 p"] by simp
    ultimately show ?thesis by (simp add: segment_def)
  qed
  then have "p = (segment 0 4 p @ segment 4 4 p @ segment 8 4 p @ segment 12 4 p) @ drop 16 p"
    by (metis append_take_drop_id)
  then show ?thesis
    using assms le32_le_word [of 0 p] le32_le_word [of 4 p] le32_le_word [of 8 p] le32_le_word [of 12 p]
    by (simp add: boot_message_def)
qed

text \<open>Turning a message in memory into a status message.\<close>

lemma status_stored:
  assumes "bytes m data (16 + length db) = boot_message cmd seq arg db" "length db \<le> 2000"
  shows "store32 (store32 m (data + 4) NB_CMD_STATUS) (data + 12) v =
    put_bytes m data (boot_message NB_CMD_STATUS seq v db)"
proof -
  let ?m = "put_bytes m data (boot_message cmd seq arg db)"
  have "?m = m" using put_bytes_same [of "16 + length db" m data] assms by simp
  moreover have "put_bytes ?m (data + 4) (le32 NB_CMD_STATUS) =
      put_bytes m data (boot_message NB_CMD_STATUS seq arg db)"
    unfolding boot_message_def using assms(2) by (intro put_bytes_over) simp_all
  moreover have "put_bytes (put_bytes m data (boot_message NB_CMD_STATUS seq arg db)) (data + 12) (le32 v) =
      put_bytes m data (boot_message NB_CMD_STATUS seq v db)"
    using put_bytes_over [of "le32 arg" "le32 v" "le32 NB_MAGIC @ le32 NB_CMD_STATUS @ le32 seq" db "data + 12" data m]
      assms(2) by (simp add: boot_message_def del: put_bytes.simps)
  ultimately show ?thesis by (simp add: store32_le32)
qed

lemma sends_frame_from:
  assumes "sends_frame B st1 f st'" "st1 = st\<lparr>nmem := m1\<rparr>" "unchanged B (nmem st) m1"
  shows "sends_frame B st f st'"
  using assms by (auto simp: sends_frame_def intro: unchanged_trans)

text \<open>The receive buffer: its headers, and a message behind them.\<close>

definition holds_packet :: "boot_linkage \<Rightarrow> u8 list \<Rightarrow> u16 \<Rightarrow> u8 list \<Rightarrow> mem \<Rightarrow> bool" where
  "holds_packet B peer sport p m \<longleftrightarrow> length p \<le> 1472 \<and>
     bytes m (rxbuf B + 8) 6 = peer \<and> bytes m (rxbuf B + 24) 16 = lla peer \<and>
     htons (load16 m (rxbuf B + 56)) = sport \<and> bytes m (rxbuf B + 64) (length p) = p"

lemma bytes_put_before:
  assumes "i + n \<le> 64" "length q \<le> 1472"
  shows "bytes (put_bytes m (b + 64) q) (b + of_nat i) n = bytes m (b + of_nat i) n"
proof (intro bytes_cong put_bytes_outside)
  fix j assume j: "j < n"
  have "unat (b + of_nat i + of_nat j - b) = i + j"
  proof -
    have "b + of_nat i + of_nat j - b = of_nat (i + j)" by simp
    then show ?thesis using j assms(1) unat_of_nat32 [of "i + j"] by simp
  qed
  then show "length q \<le> unat (b + of_nat i + of_nat j - (b + 64))"
    using unat_diff_offset [of 64 "b + of_nat i + of_nat j" b] j assms by simp
qed

lemma holds_packet_put:
  assumes "holds_packet B peer sport p m" "length q \<le> 1472"
  shows "holds_packet B peer sport q (put_bytes m (rxbuf B + 64) q)"
proof -
  let ?m = "put_bytes m (rxbuf B + 64) q"
  have "bytes ?m (rxbuf B + 8) 6 = bytes m (rxbuf B + 8) 6" "bytes ?m (rxbuf B + 24) 16 = bytes m (rxbuf B + 24) 16"
    "bytes ?m (rxbuf B + 56) 2 = bytes m (rxbuf B + 56) 2"
    using bytes_put_before [of 8 6 q m "rxbuf B"] bytes_put_before [of 24 16 q m "rxbuf B"]
      bytes_put_before [of 56 2 q m "rxbuf B"] assms(2) by (simp_all del: bytes_numeral)
  moreover from this(3) have "load16 ?m (rxbuf B + 56) = load16 m (rxbuf B + 56)"
    by (simp add: load16_def add.assoc)
  ultimately show ?thesis
    using assms by (simp add: holds_packet_def bytes_put_head del: bytes_numeral)
qed

lemma boot_ready_put:
  assumes "boot_linked B name" "boot_ready B name mac st" "length q \<le> 1472"
  shows "boot_ready B name mac (st\<lparr>nmem := put_bytes (nmem st) (rxbuf B + 64) q\<rparr>)"
    and "unchanged B (nmem st) (put_bytes (nmem st) (rxbuf B + 64) q)"
proof -
  show *: "unchanged B (nmem st) (put_bytes (nmem st) (rxbuf B + 64) q)"
    using assms(3) by (intro unchanged_put [OF work_areasI(1)]) (simp add: inside_def)
  show "boot_ready B name mac (st\<lparr>nmem := put_bytes (nmem st) (rxbuf B + 64) q\<rparr>)"
    using * protected_elsewhere [OF assms(1)] assms(2)
    by (intro protected_ready [OF _ assms(2)]) (auto simp: unchanged_def boot_ready_def)
qed

text \<open>The two ways to answer: with a status, and with the node's name.\<close>

lemma reply_sent:
  assumes linked: "boot_linked B name" and ready: "boot_ready B name mac st"
    and packet: "holds_packet B peer sport q (nmem st)" and len: "unat len \<le> length q"
  shows "\<exists>st' f. net_tx_udp_reply (net_link B) eth_tx (rxbuf B + 64) (rxbuf B + 64) len port st = Some st' \<and>
    sends_frame B st f st' \<and> udp_packet peer f = Some (sport, take (unat len) q)"
proof -
  have "bytes (nmem st) (rxbuf B + 64) (unat len) = take (unat len) q"
    using packet len bytes_add [of "nmem st" "rxbuf B + 64" "unat len" "length q - unat len"]
    unfolding holds_packet_def by (metis append_eq_conv_conj le_add_diff_inverse length_bytes)
  then show ?thesis
    using udp_reply_sent [OF linked ready, of len peer port] packet len
    by (simp add: holds_packet_def)
qed

lemma reply_status_sent:
  assumes linked: "boot_linked B name" and ready: "boot_ready B name mac st"
    and packet: "holds_packet B peer sport p (nmem st)"
    and p: "p = boot_message cmd seq arg db" "length db \<le> 1024"
  shows "\<exists>st' f. reply_status B (rxbuf B + 64) v st = Some st' \<and> sends_frame B st f st' \<and>
    udp_packet peer f = Some (sport, boot_message NB_CMD_STATUS seq v [])"
proof -
  let ?q = "boot_message NB_CMD_STATUS seq v db"
  let ?m = "put_bytes (nmem st) (rxbuf B + 64) ?q"
  have q: "length ?q \<le> 1472" using p(2) by (simp add: boot_message_words)
  have m: "store32 (store32 (nmem st) (rxbuf B + 64 + 4) NB_CMD_STATUS) (rxbuf B + 64 + 12) v = ?m"
    using packet p by (intro status_stored) (simp_all add: holds_packet_def boot_message_words)
  have "unat NB_MSG_MIN \<le> length ?q" by (simp add: NB_MSG_MIN_def boot_message_words)
  from reply_sent [OF linked boot_ready_put(1) [OF linked ready q] _ this, of peer sport NB_PORT_CTRL]
    holds_packet_put [OF packet q] obtain st' f where
    "net_tx_udp_reply (net_link B) eth_tx (rxbuf B + 64) (rxbuf B + 64) NB_MSG_MIN NB_PORT_CTRL
        (st\<lparr>nmem := ?m\<rparr>) = Some st'"
    "sends_frame B (st\<lparr>nmem := ?m\<rparr>) f st'" "udp_packet peer f = Some (sport, take (unat NB_MSG_MIN) ?q)"
    by auto
  moreover have "take (unat NB_MSG_MIN) ?q = boot_message NB_CMD_STATUS seq v []"
    by (simp add: NB_MSG_MIN_def boot_message_def)
  ultimately show ?thesis
    using sends_frame_from [OF _ refl boot_ready_put(2) [OF linked ready q]] m
    by (auto simp: reply_status_def store_word_def Let_def)
qed

lemma render_name:
  assumes "0 \<notin> set s" "a \<noteq> 0"
  shows "render (lit ''name=%s'') [Str a s] = Some (lit ''name='' @ s)"
  using assms by (simp add: render_plain render_string_field of_char_def render_literal)

lemma query_reply_sent:
  assumes linked: "boot_linked B name" and ready: "boot_ready B name mac st"
    and packet: "holds_packet B peer sport p (nmem st)"
    and p: "p = boot_message cmd seq arg db"
  shows "\<exists>st' f. query_reply B (rxbuf B + 64) st = Some (Return st') \<and> sends_frame B st f st' \<and>
    udp_packet peer f = Some (sport, boot_message NB_CMD_STATUS seq NB_OK (lit ''name='' @ name @ [0]))"
proof -
  let ?data = "rxbuf B + 64"
  define t where "t = lit ''name='' @ name"
  have name: "cstr (nmem st) (nodename B) name" "length name \<le> 1000" "nodename B \<noteq> 0" "num_buffer_ok (num_buffer B)"
    using linked ready by (simp_all add: boot_linked_def boot_ready_def)
  have nul: "0 \<notin> set name" and bytes: "bytes (nmem st) (nodename B) (length name) = name"
    using name(1) by (simp_all add: cstr_iff)
  have lt: "length t \<le> 1005" "length t = length name + 5" using name(2) by (simp_all add: t_def)
  have sl: "strlen (nmem st) (nodename B) = Some (of_nat (length name))" by (rule strlen_cstr [OF name(1)])
  have un: "unat (of_nat (length name) :: u32) = length name" using name(2) by (simp add: unat_of_nat32)
  define m1 where "m1 = put_bytes (nmem st) (?data + 16) (t @ [0])"
  have out: "snprintf (num_buffer B) (nmem st) (?data + 16) NB_DATA_MAX (lit ''name=%s'')
      [Str (nodename B) (bytes (nmem st) (nodename B) (length name))] = Inr (int (length t), m1)"
    using vsnprintf_text [OF render_name [OF nul name(3)] _ name(4), of NB_DATA_MAX "nmem st" "?data + 16"] lt
    by (simp add: snprintf_def bytes t_def m1_def NB_DATA_MAX_def del: put_bytes.simps)
  have head: "bytes (nmem st) ?data 16 = boot_message cmd seq arg []"
  proof -
    have "bytes (nmem st) ?data (16 + length db) = boot_message cmd seq arg db"
      using packet p by (simp add: holds_packet_def boot_message_words)
    then have "take 16 (bytes (nmem st) ?data (16 + length db)) = take 16 (boot_message cmd seq arg db)" by simp
    then show ?thesis by (simp add: bytes_add boot_message_def del: bytes_numeral)
  qed
  have m1': "m1 = put_bytes (nmem st) ?data (boot_message cmd seq arg (t @ [0]))"
  proof -
    have "put_bytes (put_bytes (nmem st) ?data (boot_message cmd seq arg [])) (?data + 16) (t @ [0]) =
        put_bytes (nmem st) ?data (boot_message cmd seq arg [] @ t @ [0])"
      by (rule put_bytes_next) (simp add: boot_message_words)
    moreover have "put_bytes (nmem st) ?data (boot_message cmd seq arg []) = nmem st"
      using put_bytes_same [of 16 "nmem st" ?data] unfolding head by simp
    ultimately show ?thesis by (simp add: m1_def boot_message_def del: put_bytes.simps)
  qed
  let ?r = "boot_message cmd seq arg (t @ [0])" and ?q = "boot_message NB_CMD_STATUS seq NB_OK (t @ [0])"
  have q: "length ?r \<le> 1472" "length ?q \<le> 1472" using lt by (simp_all add: boot_message_words)
  have filled: "bytes m1 ?data (16 + length (t @ [0])) = ?r"
    using q by (simp add: m1' bytes_put_head boot_message_words del: put_bytes.simps)
  have m2: "store32 (store32 m1 (?data + 4) NB_CMD_STATUS) (?data + 12) NB_OK = put_bytes m1 ?data ?q"
    using status_stored [OF filled] lt by simp
  have len: "unat (NB_MSG_MIN + of_int (int (length t)) + 1) = length ?q"
  proof -
    have "NB_MSG_MIN + of_int (int (length t)) + 1 = (of_nat (17 + length t) :: u32)" by (simp add: NB_MSG_MIN_def)
    then show ?thesis using lt by (simp only: unat_of_nat32) (simp add: boot_message_words)
  qed
  let ?st1 = "st\<lparr>nmem := m1\<rparr>"
  have ready1: "boot_ready B name mac ?st1" and un1: "unchanged B (nmem st) m1"
    unfolding m1' by (rule boot_ready_put [OF linked ready q(1)])+
  have ready2: "boot_ready B name mac (st\<lparr>nmem := put_bytes m1 ?data ?q\<rparr>)"
    and un2: "unchanged B m1 (put_bytes m1 ?data ?q)"
    using boot_ready_put [OF linked ready1 q(2)] by simp_all
  have packet2: "holds_packet B peer sport ?q (nmem (st\<lparr>nmem := put_bytes m1 ?data ?q\<rparr>))"
    using holds_packet_put [OF holds_packet_put [OF packet q(1)] q(2)] by (simp add: m1')
  obtain st' f where "net_tx_udp_reply (net_link B) eth_tx ?data ?data (NB_MSG_MIN + of_int (int (length t)) + 1)
        NB_PORT_CTRL (st\<lparr>nmem := put_bytes m1 ?data ?q\<rparr>) = Some st'"
    "sends_frame B (st\<lparr>nmem := put_bytes m1 ?data ?q\<rparr>) f st'" "udp_packet peer f = Some (sport, ?q)"
    using reply_sent [OF linked ready2 packet2, of "NB_MSG_MIN + of_int (int (length t)) + 1" NB_PORT_CTRL]
    unfolding len by auto
  moreover have "query_reply B ?data st = map_option Return (net_tx_udp_reply (net_link B) eth_tx ?data ?data
      (NB_MSG_MIN + of_int (int (length t)) + 1) NB_PORT_CTRL (st\<lparr>nmem := put_bytes m1 ?data ?q\<rparr>))"
    unfolding query_reply_def sl Option.bind.simps un out store_word_def Let_def m2 [symmetric] by simp
  ultimately show ?thesis
    using sends_frame_from [OF _ refl unchanged_trans [OF un1 un2]] unfolding t_def [symmetric] append_assoc [symmetric]
    by auto
qed

section \<open>Reacting to messages\<close>

definition store_ok :: "boot_linkage \<Rightarrow> u8 list \<Rightarrow> u32 \<Rightarrow> nat \<Rightarrow> bool" where
  "store_ok B name a n \<longleftrightarrow> (\<forall>(p, k) \<in> set (privates B name @ work_areas B). separate p k a n)"

lemma store_ok_elsewhere: "store_ok B name a n \<Longrightarrow> elsewhere B a n"
  by (simp add: store_ok_def elsewhere_def)

lemma store_ok_bytes:
  assumes "store_ok B name a (length d)" "(p, k) \<in> set (privates B name)" "inside q l p k"
  shows "bytes (put_bytes m a d) q l = bytes m q l"
proof -
  have "separate p k a (length d)" using assms(1,2) by (auto simp: store_ok_def)
  from bytes_put_separate [OF separate_sym [OF this] inside_refl assms(3)] show ?thesis .
qed

lemma store_ok_keeps:
  assumes "store_ok B name a (length d)"
  shows "boot_ready B name mac st \<Longrightarrow> boot_ready B name mac (st\<lparr>nmem := put_bytes (nmem st) a d\<rparr>)"
    and "holds_packet B peer sport p m \<Longrightarrow> holds_packet B peer sport p (put_bytes m a d)"
proof -
  have "inside (rxbuf B) 2 (rxbuf B) 1536" by (simp add: inside_def)
  then have "bytes (put_bytes m a d) q k = bytes m q k" if "(q, k) \<in> set (protected B name)" for q k m
    using that store_ok_bytes [OF assms, of q k q k m] store_ok_bytes [OF assms, of "rxbuf B" 1536 "rxbuf B" 2 m]
    by (auto simp: protected_def privates_def objects_def simp del: bytes_numeral)
  then show "boot_ready B name mac (st\<lparr>nmem := put_bytes (nmem st) a d\<rparr>)" if "boot_ready B name mac st"
    using that by (intro protected_ready [OF _ that]) (auto simp: boot_ready_def)
  have rx: "(rxbuf B, 1536) \<in> set (privates B name)" by (simp add: privates_def)
  have keep: "bytes (put_bytes m a d) (rxbuf B + of_nat i) n = bytes m (rxbuf B + of_nat i) n" if "i + n \<le> 1536" for i n
    using that by (intro store_ok_bytes [OF assms rx]) (simp add: inside_def unat_of_nat32)
  show "holds_packet B peer sport p (put_bytes m a d)" if *: "holds_packet B peer sport p m"
    using * keep [of 8 6] keep [of 24 16] keep [of 56 2] keep [of 64 "length p"]
    by (simp add: holds_packet_def load16_def add.assoc)
qed

text \<open>The sender of a packet is answered with a message, after some output on the console.\<close>

definition answered :: "boot_linkage \<Rightarrow> u8 list \<Rightarrow> u16 \<Rightarrow> boot \<Rightarrow> u8 list \<Rightarrow> boot \<Rightarrow> bool" where
  "answered B peer sport st msg st' \<longleftrightarrow> (\<exists>f out.
     sends_frame B (st\<lparr>console := console st @ out\<rparr>) f st' \<and> udp_packet peer f = Some (sport, msg))"

lemma packet_words:
  assumes "holds_packet B peer sport p m" "16 \<le> length p"
  shows "load32 m (rxbuf B + 64) = le_word p 0" "load32 m (rxbuf B + 64 + 4) = le_word p 4"
    "load32 m (rxbuf B + 64 + 12) = le_word p 12"
    "bytes m (rxbuf B + 64 + 16) (length p - 16) = drop 16 p"
proof -
  have p: "bytes m (rxbuf B + 64) (length p) = p" using assms(1) by (simp add: holds_packet_def)
  show "load32 m (rxbuf B + 64) = le_word p 0" "load32 m (rxbuf B + 64 + 4) = le_word p 4"
    "load32 m (rxbuf B + 64 + 12) = le_word p 12"
    using load32_bytes [of 0 "length p" m "rxbuf B + 64"] load32_bytes [of 4 "length p" m "rxbuf B + 64"]
      load32_bytes [of 12 "length p" m "rxbuf B + 64"] assms(2) unfolding p by simp_all
  have "bytes m (rxbuf B + 64) (16 + (length p - 16)) = p" using p assms(2) by simp
  then have "drop 16 (bytes m (rxbuf B + 64) 16 @ bytes m (rxbuf B + 64 + 16) (length p - 16)) = drop 16 p"
    by (simp only: bytes_add of_nat_numeral)
  then show "bytes m (rxbuf B + 64 + 16) (length p - 16) = drop 16 p" by (simp del: bytes_numeral)
qed

lemma nmem_say: "nmem (say x st) = nmem st"
  by (simp add: say_def)

lemma reply_answered:
  assumes "boot_linked B name" "boot_ready B name mac st" "holds_packet B peer sport p (nmem st)"
    and "16 \<le> length p" "length p \<le> 1040" "le_word p 0 = NB_MAGIC"
  shows "\<exists>st'. reply_status B (rxbuf B + 64) v (say x st) = Some st' \<and>
      answered B peer sport st (boot_message NB_CMD_STATUS (le_word p 8) v []) st'"
    and "\<exists>st'. query_reply B (rxbuf B + 64) st = Some (Return st') \<and>
      answered B peer sport st (boot_message NB_CMD_STATUS (le_word p 8) NB_OK (lit ''name='' @ name @ [0])) st'"
    and "\<exists>st'. query_reply B (rxbuf B + 64) (say x st) = Some (Return st') \<and>
      answered B peer sport st (boot_message NB_CMD_STATUS (le_word p 8) NB_OK (lit ''name='' @ name @ [0])) st'"
proof -
  note p = boot_message_of [OF assms(4,6)]
  have st: "boot_ready B name mac (say x st)" "holds_packet B peer sport p (nmem (say x st))"
    using assms(2,3) by (simp_all add: boot_ready_def say_def tx_ready_def)
  have say: "say x st = st\<lparr>console := console st @ [x]\<rparr>" by (simp add: say_def)
  have same: "st = st\<lparr>console := console st @ []\<rparr>" by simp
  show "\<exists>st'. reply_status B (rxbuf B + 64) v (say x st) = Some st' \<and>
      answered B peer sport st (boot_message NB_CMD_STATUS (le_word p 8) v []) st'"
    using reply_status_sent [OF assms(1) st p] assms(5) unfolding say answered_def by fastforce
  show "\<exists>st'. query_reply B (rxbuf B + 64) st = Some (Return st') \<and>
      answered B peer sport st (boot_message NB_CMD_STATUS (le_word p 8) NB_OK (lit ''name='' @ name @ [0])) st'"
    using query_reply_sent [OF assms(1,2,3) p] same unfolding answered_def by metis
  show "\<exists>st'. query_reply B (rxbuf B + 64) (say x st) = Some (Return st') \<and>
      answered B peer sport st (boot_message NB_CMD_STATUS (le_word p 8) NB_OK (lit ''name='' @ name @ [0])) st'"
    using query_reply_sent [OF assms(1) st p] unfolding say answered_def by blast
qed

lemma answered_from:
  assumes "answered B peer sport (st\<lparr>nmem := m\<rparr>) msg st'"
  shows "unchanged B m (nmem st')"
  using assms by (auto simp: answered_def sends_frame_def)

text \<open>What handling a message amounts to, for each reaction.\<close>

definition handled :: "boot_linkage \<Rightarrow> u8 list \<Rightarrow> u8 list \<Rightarrow> u16 \<Rightarrow> u8 list \<Rightarrow> reaction \<Rightarrow> boot
    \<Rightarrow> boot outcome option \<Rightarrow> bool" where
  "handled B name peer sport p r st result \<longleftrightarrow>
     (let status = boot_message NB_CMD_STATUS (le_word p 8)
      in case r of
           Ignore \<Rightarrow> result = Some (Return st)
         | Refuse \<Rightarrow> \<exists>st'. result = Some (Return st') \<and> answered B peer sport st (status NB_ERR_BADCMD []) st'
         | Identify \<Rightarrow> \<exists>st'. result = Some (Return st') \<and>
             answered B peer sport st (status NB_OK (lit ''name='' @ name @ [0])) st'
         | Store a d \<Rightarrow> \<exists>st'. result = Some (Return st') \<and>
             answered B peer sport (st\<lparr>nmem := put_bytes (nmem st) a d\<rparr>) (status NB_OK []) st' \<and>
             bytes (nmem st') a (length d) = d
         | Run a \<Rightarrow> \<exists>st' st''. result = Some (Jump a st'') \<and> answered B peer sport st (status NB_OK []) st' \<and>
             nmem st'' = nmem st' \<and> eth_log st'' = eth_log st' \<and>
             csrs st'' = (csrs st)(CSR_MSTATUS := push_bit 11 PRIV_S))"

lemma pkt_rx_udp_handled:
  assumes linked: "boot_linked B name" and ready: "boot_ready B name mac st"
    and packet: "holds_packet B peer sport p (nmem st)"
    and safe: "\<And>a d. reaction name port p = Store a d \<Longrightarrow> store_ok B name a (length d)"
  shows "handled B name peer sport p (reaction name port p) st
    (pkt_rx_udp B (rxbuf B + 64) (of_nat (length p)) port g st)"
proof -
  define m where "m = nmem st"
  let ?data = "rxbuf B + 64"
  have p1472: "length p \<le> 1472" using packet by (simp add: holds_packet_def)
  have len: "unat (of_nat (length p) :: u32) = length p" using p1472 by (simp add: unat_of_nat32)
  have small: "(of_nat (length p) :: u32) < NB_MSG_MIN \<longleftrightarrow> length p < 16"
    "(of_nat (length p) :: u32) > NB_MSG_MAX \<longleftrightarrow> 1040 < length p"
    by (simp_all only: word_less_nat_alt len) (simp_all add: nb_sizes)
  show ?thesis
  proof (cases "length p < 16 \<or> 1040 < length p \<or> le_word p 0 \<noteq> NB_MAGIC")
    case True
    then show ?thesis
      using small packet_words(1) [OF packet]
      by (auto simp: pkt_rx_udp_def reaction_def handled_def Let_def not_less)
  next
    case False
    then have p: "16 \<le> length p" "length p \<le> 1040" "le_word p 0 = NB_MAGIC" by auto
    note words = packet_words [OF packet p(1)]
    note answers = reply_answered [OF linked ready packet p]
    have name: "cstr m (nodename B) name" "length name \<le> 1000"
      using linked ready by (simp_all add: boot_linked_def boot_ready_def m_def)
    have sl: "strlen m (nodename B) = Some (of_nat (length name))" by (rule strlen_cstr [OF name(1)])
    have un: "unat (of_nat (length name) :: u32) = length name" using name(2) by (simp add: unat_of_nat32)
    have same: "((of_nat (length p) :: u32) \<noteq> of_nat (length name) + NB_MSG_MIN \<or>
        memcmp m (?data + 16) (nodename B) (of_nat (length name)) \<noteq> 0) = (drop 16 p \<noteq> name)"
    proof -
      have "(of_nat (length p) :: u32) = of_nat (length name) + NB_MSG_MIN \<longleftrightarrow> length p = length name + 16"
        using u32_of_nat_inj [of "length p" "length name + 16"] p name(2) by (simp add: NB_MSG_MIN_def)
      moreover have "memcmp m (?data + 16) (nodename B) (of_nat (length name)) = 0 \<longleftrightarrow> drop 16 p = name"
        if "length p = length name + 16"
        using words(4) name(1) that by (simp add: memcmp_eq_0 un m_def cstr_iff)
      ultimately show ?thesis using p(1) by (cases "length p = length name + 16") auto
    qed
    have pkt: "pkt_rx_udp B ?data (of_nat (length p)) port g st =
        (if port = NB_PORT_QUERY
         then if le_word p 4 \<noteq> NB_CMD_QUERY \<or> drop 16 p \<noteq> name then Some (Return st) else query_reply B ?data st
         else if port \<noteq> NB_PORT_CTRL then Some (Return st)
         else if le_word p 4 = NB_CMD_QUERY then query_reply B ?data (say (Putc (ucast (of_char (CHR ''Q'') :: u8))) st)
         else if le_word p 4 = NB_CMD_WRITE
         then map_option Return (reply_status B ?data NB_OK
           ((say (Putc (ucast (of_char (CHR ''.'') :: u8))) st)\<lparr>nmem := memcpy m (le_word p 12) (?data + 16)
              (of_nat (length p) - NB_MSG_MIN)\<rparr>))
         else if le_word p 4 = NB_CMD_EXEC
         then map_option (\<lambda>st. Jump (le_word p 12) (say (Printf (lit ''\<newline>\<newline>[ execution starts at 0x%08x ]\<newline>\<newline>'')
             [Word (le_word p 12)]) (csr_write CSR_MSTATUS (push_bit 11 PRIV_S) st)))
           (reply_status B ?data NB_OK (say (Putc (ucast (of_char (CHR ''!'') :: u8))) st))
         else map_option Return (reply_status B ?data NB_ERR_BADCMD (say (Putc (ucast (of_char (CHR ''E'') :: u8))) st)))"
    proof -
      have guard: "(of_nat (length p) < NB_MSG_MIN \<or> of_nat (length p) > NB_MSG_MAX \<or> load32 m ?data \<noteq> NB_MAGIC) = False"
        using small p words(1) by (simp add: m_def)
      show ?thesis
        unfolding pkt_rx_udp_def Let_def nmem_say
        by (simp only: m_def [symmetric] guard if_False words(2,3) [folded m_def] sl Option.bind.simps same)
    qed
    show ?thesis
    proof (cases "port = NB_PORT_QUERY")
      case True
      then show ?thesis
        using answers(2) p unfolding pkt by (auto simp: reaction_def handled_def Let_def)
    next
      case query: False
      show ?thesis
      proof (cases "port = NB_PORT_CTRL \<and> le_word p 4 = NB_CMD_WRITE")
        case True
        let ?a = "le_word p 12" and ?d = "drop 16 p"
        have re: "reaction name port p = Store ?a ?d"
          using True p by (auto simp: reaction_def Let_def nb_ports nb_commands)
        note ok = safe [OF re]
        have dl: "unat (of_nat (length p) - NB_MSG_MIN :: u32) = length p - 16"
          using p p1472 by (simp add: NB_MSG_MIN_def unat_sub32 len)
        have sep: "separate (rxbuf B) 1536 ?a (length p - 16)"
          using ok by (simp add: store_ok_def privates_def)
        have in16: "inside (?data + 16) (length p - 16) (rxbuf B) 1536"
          using p(2) by (simp add: inside_def)
        have far: "length p - 16 \<le> unat (?a - (?data + 16))"
        proof (cases "length p = 16")
          case False
          then have "0 < length p - 16" using p(1) by simp
          from separate_inside [OF sep in16 inside_refl this this] show ?thesis by (simp add: separate_def)
        qed simp
        have copy: "memcpy m ?a (?data + 16) (of_nat (length p) - NB_MSG_MIN) = put_bytes m ?a ?d"
          using far p p1472 words(4) by (subst memcpy_put) (simp_all add: dl m_def)
        let ?st = "st\<lparr>nmem := put_bytes m ?a ?d\<rparr>"
        have st: "boot_ready B name mac ?st" "holds_packet B peer sport p (nmem ?st)"
          using store_ok_keeps [OF ok] ready packet by (simp_all add: m_def)
        from reply_answered(1) [OF linked st p, of NB_OK "Putc (ucast (of_char (CHR ''.'') :: u8))"] obtain st' where
          st': "reply_status B ?data NB_OK (say (Putc (ucast (of_char (CHR ''.'') :: u8))) ?st) = Some st'"
          "answered B peer sport ?st (boot_message NB_CMD_STATUS (le_word p 8) NB_OK []) st'" by blast
        have "bytes (nmem st') ?a (length ?d) = ?d"
          using answered_from [OF st'(2)] store_ok_elsewhere [OF ok] p1472
          by (auto simp: unchanged_def bytes_put_head)
        moreover have "(say x st)\<lparr>nmem := m'\<rparr> = say x (st\<lparr>nmem := m'\<rparr>)" for x m' by (simp add: say_def)
        moreover have "le_word p 4 \<noteq> NB_CMD_QUERY" using True by (simp add: nb_commands)
        ultimately show ?thesis
          using st' True query unfolding pkt re handled_def Let_def copy
          by (simp add: m_def del: of_char_Char)
      next
        case False
        show ?thesis
        proof (cases "port = NB_PORT_CTRL \<and> le_word p 4 = NB_CMD_EXEC")
          case True
          then have re: "reaction name port p = Run (le_word p 12)"
            using p by (auto simp: reaction_def Let_def nb_ports nb_commands)
          have "le_word p 4 \<noteq> NB_CMD_QUERY" "le_word p 4 \<noteq> NB_CMD_WRITE" using True by (simp_all add: nb_commands)
          moreover obtain st' where st': "answered B peer sport st (boot_message NB_CMD_STATUS (le_word p 8) NB_OK []) st'"
            "reply_status B ?data NB_OK (say (Putc (ucast (of_char (CHR ''!'') :: u8))) st) = Some st'"
            using answers(1) by blast
          moreover have "csrs st' = csrs st" using st'(1) by (auto simp: answered_def sends_frame_def)
          ultimately show ?thesis
            using True query unfolding pkt re handled_def Let_def
            by (simp add: nmem_say csr_write_def del: of_char_Char) (simp add: say_def, blast)
        next
          case False
          with \<open>\<not> (port = NB_PORT_CTRL \<and> le_word p 4 = NB_CMD_WRITE)\<close> query show ?thesis
            using answers(1) [of NB_ERR_BADCMD "Putc (ucast (of_char (CHR ''E'') :: u8))"] p
              answers(3) [of "Putc (ucast (of_char (CHR ''Q'') :: u8))"]
            unfolding pkt by (auto simp: reaction_def handled_def Let_def simp del: of_char_Char)
        qed
      qed
    qed
  qed
qed

section \<open>Received frames\<close>

text \<open>Any frame that has been put together in the transmit packet is sent.\<close>

lemma eth_tx_sends:
  assumes linked: "boot_linked B name" and ready: "boot_ready B name mac st"
    and m: "unchanged B (nmem st) m" "bytes m (tx_packet (net_link B) + 2) (unat txlen) = g"
    and len: "unat txlen \<le> 1534"
  shows "\<exists>st'. eth_tx (tx_packet (net_link B) + 2) txlen (st\<lparr>nmem := m\<rparr>) = Some st' \<and> sends_frame B st g st'"
proof -
  let ?st = "st\<lparr>nmem := m\<rparr>" and ?tx = "tx_packet (net_link B) + 2"
  have slot: "txslot st = 0 \<or> txslot st = 1" "tx_ready st" using ready by (simp_all add: boot_ready_def)
  have g: "length g = unat txlen" using m(2) by auto
  have far: "unat txlen \<le> unat (tx_slot_address (txslot ?st) - ?tx)"
  proof (cases "unat txlen = 0")
    case False
    have "inside ?tx (unat txlen) (tx_packet (net_link B)) 1536" using len by (simp add: inside_def)
    moreover have "inside (tx_slot_address (txslot st)) (unat txlen) ETHMAC_SRAM_BASE 8192"
      by (rule tx_slot_inside [OF slot(1) len])
    ultimately show ?thesis
      using separate_inside [OF boot_separate(1) [OF linked]] False by (simp add: separate_def)
  qed simp
  from eth_tx_transmits [of ?st txlen ?tx, OF _ _ far] slot(2) len obtain st' where
    st': "eth_tx ?tx txlen ?st = Some st'" "transmitted ?st g st'"
    by (auto simp: tx_ready_def word_le_nat_alt m(2))
  have "unchanged B m (put_bytes m (tx_slot_address (txslot st)) g)"
    using len g tx_slot_inside [OF slot(1), of "length g"] by (intro unchanged_put [OF work_areasI(3)]) simp
  moreover have "bytes (put_bytes m (tx_slot_address (txslot st)) g) (tx_slot_address (txslot st)) (length g) = g"
    using g len by (simp add: bytes_put_head)
  ultimately have "sends_frame B st g st'"
    using st'(2) m(1) by (auto simp: sends_frame_def transmitted_def intro: unchanged_trans)
  with st'(1) show ?thesis by blast
qed

text \<open>The frame in the receive buffer.\<close>

lemma boot_ready_rx:
  assumes linked: "boot_linked B name" and ready: "boot_ready B name mac st" and f: "length f \<le> 1534"
  defines "st' \<equiv> st\<lparr>nmem := put_bytes (nmem st) (rxbuf B + 2) f\<rparr>"
  shows "boot_ready B name mac st'" "unchanged B (nmem st) (nmem st')"
    and "received (nmem st') (rxbuf B) (of_nat (length f + 2)) f"
proof -
  show un: "unchanged B (nmem st) (nmem st')"
    using f by (simp add: st'_def) (intro unchanged_put [OF work_areasI(1)], simp add: inside_def)
  show ready': "boot_ready B name mac st'"
    using un protected_elsewhere [OF linked] ready
    by (intro protected_ready [OF _ ready]) (auto simp: unchanged_def boot_ready_def st'_def)
  have "unat (of_nat (length f + 2) :: u32) = 2 + length f" using f by (subst unat_of_nat32) simp_all
  moreover have "bytes (nmem st') (rxbuf B + 2) (length f) = f" using f by (simp add: st'_def bytes_put_head)
  moreover have "bytes (nmem st') (rxbuf B) 2 = [0, 0]" using ready' by (simp add: boot_ready_def)
  moreover have "bytes (nmem st') (rxbuf B) (2 + length f) = bytes (nmem st') (rxbuf B) 2 @ bytes (nmem st') (rxbuf B + of_nat 2) (length f)"
    by (rule bytes_add)
  ultimately show "received (nmem st') (rxbuf B) (of_nat (length f + 2)) f"
    unfolding received_def by (metis append_Cons append_Nil length_Cons of_nat_numeral add_2_eq_Suc)
qed

lemma udp_packet_holds:
  assumes "received m (rxbuf B) len f" "udp_packet mac f = Some (port, p)" "length f \<le> 1534"
    and "segment 6 6 f = peer" "segment 22 16 f = lla peer"
  shows "holds_packet B peer (be_word f 54) p m"
proof -
  have l: "62 \<le> length f" and n: "8 \<le> unat (be_word f 58)" "unat (be_word f 58) + 54 \<le> length f"
    and p: "p = segment 62 (unat (be_word f 58) - 8) f"
    using assms(2) by (auto simp: udp_packet_def Let_def split: if_splits)
  have "bytes m (rxbuf B + 8) 6 = segment 6 6 f" "bytes m (rxbuf B + 24) 16 = segment 22 16 f"
    "bytes m (rxbuf B + 64) (unat (be_word f 58) - 8) = p"
    unfolding p by (rule received_segment [OF assms(1)]; use l n in simp)+
  moreover have "htons (load16 m (rxbuf B + 56)) = be_word f 54"
    by (rule received_word [OF assms(1)]) (use l in simp_all)
  moreover have "length p = unat (be_word f 58) - 8" using n by (simp add: p)
  ultimately show ?thesis using assms(3-5) n by (simp add: holds_packet_def del: bytes_numeral)
qed

text \<open>Storing data does not damage the loader.\<close>

definition safe_frame :: "boot_linkage \<Rightarrow> u8 list \<Rightarrow> u8 list \<Rightarrow> u8 list \<Rightarrow> bool" where
  "safe_frame B name mac f \<longleftrightarrow> (\<forall>port p a d. udp_packet mac f = Some (port, p) \<longrightarrow>
     reaction name (ucast port) p = Store a d \<longrightarrow> store_ok B name a (length d))"

lemma eth_rx_udp:
  assumes linked: "boot_linked B name" and ready: "boot_ready B name mac st"
    and frame: "bytes (nmem st) rxb (unat rxlen) = f" "unat rxlen \<le> 1534" "unat rxlen \<le> unat (rxbuf B + 2 - rxb)"
    and peer: "segment 6 6 f = peer" "segment 22 16 f = lla peer"
    and udp: "udp_packet mac f = Some (port, p)" and safe: "safe_frame B name mac f"
  shows "handled B name peer (be_word f 54) p (reaction name (ucast port) p)
    (st\<lparr>nmem := put_bytes (nmem st) (rxbuf B + 2) f\<rparr>) (eth_rx B rxb rxlen st)"
proof -
  let ?st = "st\<lparr>nmem := put_bytes (nmem st) (rxbuf B + 2) f\<rparr>"
  have lf: "length f = unat rxlen" using frame(1) by auto
  have len: "rxlen + 2 = of_nat (length f + 2)" by (simp add: lf)
  note rx = boot_ready_rx [OF linked ready, of f]
  have eth: "eth_rx B rxb rxlen st = net_rx_eth (net_link B) eth_tx (pkt_rx_udp B) (rxbuf B) (of_nat (length f + 2)) ?st"
    using frame unfolding eth_rx_def Let_def len by (simp add: word_less_nat_alt memcpy_put)
  have net: "net_ready (net_link B) mac (nmem ?st)" using rx(1) frame(2) lf by (simp add: boot_ready_def)
  have "eth_rx B rxb rxlen st = pkt_rx_udp B (rxbuf B + 64) (of_nat (length p)) (ucast port) (group_packet mac f) ?st"
    using net_rx_eth_udp [OF net rx(3), of eth_tx "pkt_rx_udp B"] udp frame(2) lf unfolding eth by simp
  with pkt_rx_udp_handled [OF linked rx(1) udp_packet_holds [OF rx(3) udp _ peer]] safe udp frame(2) lf show ?thesis
    by (simp add: safe_frame_def)
qed

lemma answered_ready:
  assumes "boot_linked B name" "boot_ready B name mac st" "answered B peer sport st msg st'"
  shows "boot_ready B name mac st'" "eth_dev st' = eth_dev st" "arrivals st' = arrivals st"
proof -
  obtain f out where f: "sends_frame B (st\<lparr>console := console st @ out\<rparr>) f st'"
    using assms(3) by (auto simp: answered_def)
  moreover have "boot_ready B name mac (st\<lparr>console := console st @ out\<rparr>)"
    using assms(2) by (simp add: boot_ready_def tx_ready_def)
  ultimately show "boot_ready B name mac st'" using sends_frame_ready [OF assms(1)] by blast
  show "eth_dev st' = eth_dev st" "arrivals st' = arrivals st" using f by (simp_all add: sends_frame_def)
qed

text \<open>
  After a frame the loader is ready for the next one, or it has left for the program it was
  told to run.
\<close>

definition carries_on :: "boot_linkage \<Rightarrow> u8 list \<Rightarrow> u8 list \<Rightarrow> boot \<Rightarrow> reaction \<Rightarrow> boot outcome option \<Rightarrow> bool" where
  "carries_on B name mac st r result \<longleftrightarrow> (case result of
     Some (Return st') \<Rightarrow> boot_ready B name mac st' \<and> eth_dev st' = eth_dev st \<and>
       arrivals st' = arrivals st \<and> (\<forall>a. r \<noteq> Run a)
   | Some (Jump a st') \<Rightarrow> r = Run a | _ \<Rightarrow> False)"

lemma carries_on_nmem: "carries_on B name mac (st\<lparr>nmem := m\<rparr>) r result = carries_on B name mac st r result"
  by (simp add: carries_on_def split: option.splits outcome.splits)

lemma handled_carries_on:
  assumes linked: "boot_linked B name" and ready: "boot_ready B name mac st"
    and handled: "handled B name peer sport p r st result"
    and safe: "\<And>a d. r = Store a d \<Longrightarrow> store_ok B name a (length d)"
  shows "carries_on B name mac st r result"
proof (cases r)
  case (Store a d)
  with handled answered_ready [OF linked store_ok_keeps(1) [OF safe [OF Store] ready]] show ?thesis
    by (auto simp: handled_def carries_on_def)
qed (use handled ready answered_ready [OF linked ready] in \<open>auto simp: handled_def carries_on_def Let_def\<close>)

definition frame_reaction :: "u8 list \<Rightarrow> u8 list \<Rightarrow> u8 list \<Rightarrow> reaction" where
  "frame_reaction name mac f = (case udp_packet mac f of Some (port, p) \<Rightarrow> reaction name (ucast port) p | None \<Rightarrow> Ignore)"

text \<open>
  The frames the loader can stand: datagrams have link-local senders, and data is not stored
  over the loader's own memory (which nothing in the code prevents).
\<close>

definition good_frame :: "boot_linkage \<Rightarrow> u8 list \<Rightarrow> u8 list \<Rightarrow> u8 list \<Rightarrow> bool" where
  "good_frame B name mac f \<longleftrightarrow> safe_frame B name mac f \<and>
     (udp_packet mac f \<noteq> None \<longrightarrow> segment 22 16 f = lla (segment 6 6 f))"

lemma eth_rx_quiet:
  assumes linked: "boot_linked B name" and ready: "boot_ready B name mac st"
    and rx: "received (nmem st) (rxbuf B) (of_nat (length f + 2)) f" and f: "length f \<le> 1534"
    and udp: "udp_packet mac f = None"
  shows "\<exists>st'. net_rx_eth (net_link B) eth_tx (pkt_rx_udp B) (rxbuf B) (of_nat (length f + 2)) st = Some (Return st') \<and>
    boot_ready B name mac st' \<and> eth_dev st' = eth_dev st \<and> arrivals st' = arrivals st"
proof -
  let ?L = "net_link B" and ?len = "of_nat (length f + 2) :: u32"
  have net: "net_ready ?L mac (nmem st)" using ready by (simp add: boot_ready_def)
  have len: "unat ?len = length f + 2" using f by (intro unat_of_nat32) simp
  have un2: "unat (?len - 2) = length f" using f by (simp add: unat_of_nat32)
  have apart: "rx_apart ?L (rxbuf B) ?len" using f by (intro boot_linked_rx [OF linked]) (simp only: len)
  have own: "bytes (nmem st) (ifc_mac ?L) 6 = mac" "length mac = 6"
    using net length_bytes [of "nmem st" "ifc_mac ?L" 6] by (auto simp: net_ready_def simp del: bytes_numeral length_bytes)
  have sent: "\<exists>st'. eth_tx (tx_packet ?L + 2) n (st\<lparr>nmem := put_bytes (put_bytes (nmem st) a x) (tx_packet ?L + 2) g\<rparr>) =
      Some st' \<and> boot_ready B name mac st' \<and> eth_dev st' = eth_dev st \<and> arrivals st' = arrivals st"
    if un: "unchanged B (nmem st) (put_bytes (nmem st) a x)" and g: "length g = unat n" "unat n \<le> 1534" for a x g n
  proof -
    let ?m = "put_bytes (put_bytes (nmem st) a x) (tx_packet ?L + 2) g"
    have "unchanged B (put_bytes (nmem st) a x) ?m"
      using g by (intro unchanged_put [OF work_areasI(2)]) (simp add: inside_def)
    then have m: "unchanged B (nmem st) ?m" using un by (rule unchanged_trans [rotated])
    have "bytes ?m (tx_packet ?L + 2) (unat n) = g" using g by (simp add: bytes_put_head g(1) [symmetric])
    from eth_tx_sends [OF linked ready m this g(2)] sends_frame_ready [OF linked ready]
    show ?thesis by (auto simp: sends_frame_def)
  qed
  consider "echo_request mac f" | "solicitation mac f" | "\<not> echo_request mac f" "\<not> solicitation mac f" by blast
  then show ?thesis
  proof cases
    case 1
    then have ip6: "ip6_packet mac f 58" "f ! 54 = 128" by (simp_all add: echo_request_def)
    then have l: "58 \<le> length f" by (simp add: ip6_packet_def)
    from net_rx_echo [OF net boot_linked_linked [OF linked] apart rx ip6 f, of eth_tx "pkt_rx_udp B"] obtain ck where
      ck: "net_rx_eth ?L eth_tx (pkt_rx_udp B) (rxbuf B) ?len st = map_option Return (eth_tx (tx_packet ?L + 2) (?len - 2)
        (st\<lparr>nmem := put_bytes (put_bytes (nmem st) (rxbuf B + 56) [129, f ! 55, 0, 0]) (tx_packet ?L + 2) (echo_reply mac f ck)\<rparr>))"
      by blast
    have "inside (rxbuf B + 56) (length [129, f ! 55, 0, 0]) (rxbuf B + 2) 1534"
      by (simp add: inside_def)
    then have "unchanged B (nmem st) (put_bytes (nmem st) (rxbuf B + 56) [129, f ! 55, 0, 0])"
      by (rule unchanged_put [OF work_areasI(1)])
    moreover have "length (echo_reply mac f ck) = unat (?len - 2)"
      using l own(2) unfolding un2 by (simp add: echo_reply_def ip6_frame_def)
    ultimately show ?thesis using sent [of "rxbuf B + 56" "[129, f ! 55, 0, 0]" "echo_reply mac f ck" "?len - 2"] f
      unfolding ck un2 by auto
  next
    case 2
    then have ip6: "ip6_packet mac f 58" "f ! 54 = 135" "f ! 55 = 0" "78 \<le> length f" "segment 62 16 f = lla mac"
      by (simp_all add: solicitation_def)
    then have l: "58 \<le> length f" by (simp add: ip6_packet_def)
    let ?g = "\<lambda>ck. ip6_frame (segment 6 6 f) mac 58 (lla mac) (segment 22 16 f) (advertisement mac ck)"
    from net_rx_solicit [OF net boot_linked_linked [OF linked] apart rx ip6, of eth_tx "pkt_rx_udp B"] obtain ck where
      ck: "net_rx_eth ?L eth_tx (pkt_rx_udp B) (rxbuf B) ?len st = map_option Return (eth_tx (tx_packet ?L + 2) 86
        (st\<lparr>nmem := put_bytes (put_bytes (nmem st) (ndp_reply ?L) (advertisement mac 0)) (tx_packet ?L + 2) (?g ck)\<rparr>))"
      by blast
    have "unchanged B (nmem st) (put_bytes (nmem st) (ndp_reply ?L) (advertisement mac 0))"
      using own(2) by (intro unchanged_put [of "ndp_reply ?L" 32]) (simp_all add: work_areas_def inside_def advertisement_def)
    moreover have "length (?g ck) = unat (86 :: u32)" using own(2) ip6(4) by (simp add: ip6_frame_def advertisement_def)
    ultimately show ?thesis using sent [of "ndp_reply ?L" "advertisement mac 0" "?g ck" 86] unfolding ck by auto
  next
    case 3
    from net_rx_eth_quiet [OF net rx udp 3, of eth_tx] obtain st' where
      "reported st st'" "net_rx_eth ?L eth_tx (pkt_rx_udp B) (rxbuf B) ?len st = Some (Return st')" by blast
    then show ?thesis using ready by (auto simp: reported_def say_def boot_ready_def tx_ready_def)
  qed
qed

lemma eth_rx_carries_on:
  assumes linked: "boot_linked B name" and ready: "boot_ready B name mac st"
    and frame: "bytes (nmem st) rxb (unat rxlen) = f" "unat rxlen \<le> unat (rxbuf B + 2 - rxb)"
    and good: "good_frame B name mac f"
  shows "carries_on B name mac st (if unat rxlen \<le> 1534 then frame_reaction name mac f else Ignore) (eth_rx B rxb rxlen st)"
proof (cases "unat rxlen \<le> 1534")
  case False
  then show ?thesis using ready by (simp add: eth_rx_def word_less_nat_alt carries_on_def)
next
  case len: True
  have lf: "length f = unat rxlen" using frame(1) by auto
  let ?st = "st\<lparr>nmem := put_bytes (nmem st) (rxbuf B + 2) f\<rparr>"
  note rx = boot_ready_rx [OF linked ready, of f]
  have ready': "boot_ready B name mac ?st" using rx(1) len lf by simp
  show ?thesis
  proof (cases "udp_packet mac f")
    case None
    have len2: "rxlen + 2 = of_nat (length f + 2)" by (simp add: lf)
    have "eth_rx B rxb rxlen st = net_rx_eth (net_link B) eth_tx (pkt_rx_udp B) (rxbuf B) (of_nat (length f + 2)) ?st"
      using frame len unfolding eth_rx_def Let_def len2 by (simp add: word_less_nat_alt memcpy_put)
    with eth_rx_quiet [OF linked ready' rx(3) _ None] len lf None show ?thesis
      by (auto simp: carries_on_def frame_reaction_def)
  next
    case (Some q)
    then obtain port p where udp: "udp_packet mac f = Some (port, p)" by (cases q) auto
    have "handled B name (segment 6 6 f) (be_word f 54) p (reaction name (ucast port) p) ?st (eth_rx B rxb rxlen st)"
      using good udp by (intro eth_rx_udp [OF linked ready frame(1) len frame(2) refl _ udp]) (auto simp: good_frame_def)
    from handled_carries_on [OF linked ready' this] good udp len show ?thesis
      by (simp add: frame_reaction_def good_frame_def safe_frame_def carries_on_nmem)
  qed
qed

end
