(* ===== verification/LoaderRun.thy ===== *)
theory LoaderRun
  imports Loader
begin

text \<open>
  The boot loader as a whole: its receive loop, what has to be in memory when it starts, and
  the properties of the loader.
\<close>

section \<open>The receive loop\<close>

text \<open>
  A controller that can be trusted: it stores frames in its own receive slots only (so the
  loader's variables survive), reports one of the two slots and at most a slot's length, and
  the frame it presents is one that the loader can stand.
\<close>

definition good_controller :: "boot_linkage \<Rightarrow> u8 list \<Rightarrow> u8 list \<Rightarrow> boot \<Rightarrow> bool" where
  "good_controller B name mac st \<longleftrightarrow> (\<forall>n m.
     (\<forall>(q, k) \<in> set (protected B name). bytes (arrivals st n m) q k = bytes m q k) \<and>
     (eth_dev st n WR_EV_PENDING AND 1 \<noteq> 0 \<longrightarrow>
        eth_dev st (Suc n) WR_SLOT < 2 \<and> eth_dev st (Suc (Suc n)) WR_LEN \<le> 2048 \<and>
        good_frame B name mac (bytes (arrivals st n m)
          (ETHMAC_SRAM_BASE + ETHMAC_SLOT_SIZE * eth_dev st (Suc n) WR_SLOT) (unat (eth_dev st (Suc (Suc n)) WR_LEN)))))"

lemma rx_slot_inside:
  assumes "slot < 2" "n \<le> 2048"
  shows "inside (ETHMAC_SRAM_BASE + ETHMAC_SLOT_SIZE * slot) n ETHMAC_SRAM_BASE 8192"
proof -
  have "slot = 0 \<or> slot = 1"
    using assms(1) by (simp add: word_less_nat_alt word_unat_eq_iff) (auto simp: less_2_cases_iff)
  then show ?thesis using assms(2) by (auto simp: inside_def ETHMAC_SLOT_SIZE_def)
qed

lemma rx_slot_apart:
  assumes "boot_linked B name" "slot < 2" "n \<le> 2048"
  shows "n \<le> unat (rxbuf B + 2 - (ETHMAC_SRAM_BASE + ETHMAC_SLOT_SIZE * slot))"
proof (cases "n = 0")
  case False
  have "inside (rxbuf B + 2) 1534 (rxbuf B) 1536" by (simp add: inside_def)
  from separate_inside [OF boot_separate(2) [OF assms(1)] this rx_slot_inside [OF assms(2,3)]] False
  show ?thesis by (simp add: separate_def)
qed simp

text \<open>The frame of a poll of the controller, if there is one.\<close>

definition presented :: "boot \<Rightarrow> u8 list option" where
  "presented st =
     (let n = eth_reads st; len = eth_dev st (Suc (Suc n)) WR_LEN in
      if eth_dev st n WR_EV_PENDING AND 1 \<noteq> 0
      then Some (bytes (nmem st) (ETHMAC_SRAM_BASE + ETHMAC_SLOT_SIZE * eth_dev st (Suc n) WR_SLOT) (unat len))
      else None)"

definition poll_reaction :: "u8 list \<Rightarrow> u8 list \<Rightarrow> boot \<Rightarrow> reaction" where
  "poll_reaction name mac st = (case presented st of
     Some f \<Rightarrow> if length f \<le> 1534 then frame_reaction name mac f else Ignore | None \<Rightarrow> Ignore)"

lemma boot_ready_reads: "boot_ready B name mac (st\<lparr>eth_reads := n\<rparr>) = boot_ready B name mac st"
  "boot_ready B name mac (st\<lparr>eth_log := l\<rparr>) = boot_ready B name mac st"
  by (simp_all add: boot_ready_def tx_ready_def)

lemma eth_handle_rx_carries_on:
  assumes linked: "boot_linked B name" and ready: "boot_ready B name mac st" and good: "good_controller B name mac st"
    and m: "nmem st = arrivals st (eth_reads st) m"
  shows "carries_on B name mac st (poll_reaction name mac st) (eth_handle_rx B st)"
proof (cases "eth_dev st (eth_reads st) WR_EV_PENDING AND 1 \<noteq> 0")
  case False
  then show ?thesis using ready
    by (simp add: eth_handle_rx_def eth_rd_def poll_reaction_def presented_def carries_on_def boot_ready_reads)
next
  case True
  let ?n = "eth_reads st"
  let ?st = "st\<lparr>eth_reads := ?n + 3\<rparr>" and ?slot = "eth_dev st (Suc ?n) WR_SLOT" and ?len = "eth_dev st (Suc (Suc ?n)) WR_LEN"
  let ?rxb = "ETHMAC_SRAM_BASE + ETHMAC_SLOT_SIZE * ?slot"
  have c: "?slot < 2" "?len \<le> 2048" "good_frame B name mac (bytes (nmem st) ?rxb (unat ?len))"
    using good True m by (simp_all add: good_controller_def)
  have ready': "boot_ready B name mac ?st" using ready by (simp only: boot_ready_reads)
  have "unat ?len \<le> 2048" using c(2) by (simp add: word_le_nat_alt)
  note apart = rx_slot_apart [OF linked c(1) this]
  have "carries_on B name mac ?st (poll_reaction name mac st) (eth_rx B ?rxb ?len ?st)"
    using eth_rx_carries_on [OF linked ready' _ apart, of "bytes (nmem st) ?rxb (unat ?len)"] c(3) True
    by (simp add: poll_reaction_def presented_def Let_def)
  moreover have "eth_handle_rx B st = map_option (\<lambda>r. case r of Return st \<Rightarrow> Return (eth_wr WR_EV_PENDING 1 st) | _ \<Rightarrow> r)
      (eth_rx B ?rxb ?len ?st)"
    using True by (simp add: eth_handle_rx_def eth_rd_def Let_def numeral_3_eq_3)
  ultimately show ?thesis
    by (cases "eth_rx B ?rxb ?len ?st") (auto simp: carries_on_def eth_wr_def boot_ready_reads split: outcome.splits)
qed

text \<open>The state in which the loop handles the controller, after frames have arrived.\<close>

abbreviation arrived :: "boot \<Rightarrow> boot" where
  "arrived st \<equiv> st\<lparr>nmem := arrivals st (eth_reads st) (nmem st)\<rparr>"

lemma arrived_ready:
  assumes "boot_ready B name mac st" "good_controller B name mac st"
  shows "boot_ready B name mac (arrived st)"
proof (rule protected_ready [OF _ assms(1)])
  show "bytes (nmem (arrived st)) q k = bytes (nmem st) q k" if "(q, k) \<in> set (protected B name)" for q k
    using assms(2) that unfolding good_controller_def by fastforce
qed (use assms(1) in \<open>simp_all add: boot_ready_def\<close>)

lemma good_controller_same:
  "eth_dev st' = eth_dev st \<Longrightarrow> arrivals st' = arrivals st \<Longrightarrow> good_controller B name mac st' = good_controller B name mac st"
  by (simp add: good_controller_def)

lemma poll_carries_on:
  assumes "boot_linked B name" "boot_ready B name mac st" "good_controller B name mac st"
  shows "carries_on B name mac st (poll_reaction name mac (arrived st)) (eth_handle_rx B (arrived st))"
  using eth_handle_rx_carries_on [OF assms(1) arrived_ready [OF assms(2,3)], of "nmem st"] assms(3)
  by (simp add: good_controller_same [of "arrived st" st] carries_on_nmem)

lemma netboot_loop_jumps:
  "netboot_loop B st = Some r \<Longrightarrow> boot_linked B name \<Longrightarrow> boot_ready B name mac st \<Longrightarrow> good_controller B name mac st \<Longrightarrow>
    \<exists>a st' st''. r = Jump a st' \<and> boot_ready B name mac st'' \<and> eth_dev st'' = eth_dev st \<and>
      arrivals st'' = arrivals st \<and> poll_reaction name mac (arrived st'') = Run a"
proof (induction rule: netboot_loop.raw_induct [rotated 1, consumes 1])
  case (1 loop B st r)
  have c: "carries_on B name mac st (poll_reaction name mac (arrived st)) (eth_handle_rx B (arrived st))"
    by (rule poll_carries_on [OF 1(3,4,5)])
  show ?case
  proof (cases "eth_handle_rx B (arrived st)")
    case None
    then show ?thesis using c by (simp add: carries_on_def)
  next
    case (Some q)
    show ?thesis
    proof (cases q)
      case (Return st1)
      then have st1: "boot_ready B name mac st1" "eth_dev st1 = eth_dev st" "arrivals st1 = arrivals st"
        using c Some by (auto simp: carries_on_def)
      have "loop B st1 = Some r" using 1(2) Some Return by simp
      from 1(1) [OF this 1(3) st1(1)] st1 1(5) show ?thesis by (simp add: good_controller_same [of st1 st])
    next
      case (Jump a st1)
      then show ?thesis using 1(2,4) c Some by (auto simp: carries_on_def)
    next
      case (Wrong e)
      then show ?thesis using c Some by (simp add: carries_on_def)
    qed
  qed
qed

text \<open>Polls without a frame only read the controller's registers.\<close>

lemma netboot_loop_idle:
  assumes "eth_dev st (eth_reads st) WR_EV_PENDING AND 1 = 0"
  shows "netboot_loop B st = netboot_loop B ((arrived st)\<lparr>eth_reads := Suc (eth_reads st)\<rparr>)"
  by (subst netboot_loop.simps) (use assms in \<open>simp add: eth_handle_rx_def eth_rd_def\<close>)

text \<open>
  The states between two runs of the handler.
\<close>

inductive polls :: "boot_linkage \<Rightarrow> boot \<Rightarrow> boot \<Rightarrow> bool" for B where
  polls_none: "polls B st st"
| polls_more: "polls B st st' \<Longrightarrow> eth_handle_rx B (arrived st') = Some (Return st'') \<Longrightarrow> polls B st st''"

lemma polls_invariant:
  assumes "polls B st st'" "boot_linked B name" "boot_ready B name mac st" "good_controller B name mac st"
  shows "boot_ready B name mac st' \<and> eth_dev st' = eth_dev st \<and> arrivals st' = arrivals st"
  using assms
proof (induction rule: polls.induct)
  case (polls_more st st' st'')
  then have st': "boot_ready B name mac st'" "good_controller B name mac st'"
    by (simp_all add: good_controller_same [of st' st])
  from poll_carries_on [OF polls_more.prems(1) st'] polls_more show ?case by (auto simp: carries_on_def)
qed simp

lemma polls_loop: "polls B st st' \<Longrightarrow> netboot_loop B st = netboot_loop B st'"
  by (induction rule: polls.induct) (simp_all add: netboot_loop.simps [where st = st' for st'])

text \<open>The state in which the loop starts, and what has to hold before.\<close>

definition netboot_init :: "boot_linkage \<Rightarrow> boot \<Rightarrow> boot" where
  "netboot_init B st = eth_init (st\<lparr>nmem := net_init (net_link B) (mac_array B)
     (put_bytes (nmem st) (mac_array B) [0x42, 0x42, 0x10, 0x20, 0x30, 0x40])\<rparr>)"

definition boot_mac :: "u8 list" where
  "boot_mac = [0x42, 0x42, 0x10, 0x20, 0x30, 0x40]"

definition boot_loaded :: "boot_linkage \<Rightarrow> u8 list \<Rightarrow> boot \<Rightarrow> bool" where
  "boot_loaded B name st \<longleftrightarrow> boot_linked B name \<and>
     (\<forall>(a, n) \<in> set (privates B name). separate a n (mac_array B) 6) \<and>
     (\<exists>old. net_ready (net_link B) old (nmem st)) \<and>
     cstr (nmem st) (nodename B) name \<and> bytes (nmem st) (rxbuf B) 2 = [0, 0] \<and> tx_ready st"

lemma privates_objects: "x \<in> set (objects (net_link B)) \<Longrightarrow> x \<in> set (privates B name)"
  by (simp add: privates_def)

lemma objects_apart:
  assumes "boot_linked B name" "x \<in> set (objects (net_link B))"
  shows "case x of (b, n) \<Rightarrow> separate b n (rxbuf B) 2 \<and> separate b n (nodename B) (Suc (length name))"
  using assms by (auto simp: boot_linked_def privates_def sorted_wrt_append separate_def)

lemma netboot_init_ready:
  assumes "boot_loaded B name st"
  shows "boot_ready B name boot_mac (netboot_init B st)"
    and "eth_dev (netboot_init B st) = eth_dev st" "arrivals (netboot_init B st) = arrivals st"
proof -
  let ?a = "mac_array B" and ?L = "net_link B"
  let ?m1 = "put_bytes (nmem st) ?a boot_mac"
  let ?m2 = "net_init ?L ?a ?m1"
  have linked: "boot_linked B name" "linked ?L"
    and apart: "\<forall>(b, n) \<in> set (privates B name). separate b n ?a 6"
    using assms boot_linked_linked by (auto simp: boot_loaded_def)
  have mac: "length boot_mac = 6" "bytes ?m1 ?a 6 = boot_mac" by (simp_all add: boot_mac_def bytes_put_head del: put_bytes.simps bytes_numeral)
  have keep: "bytes ?m1 q k = bytes (nmem st) q k" if "(p, n) \<in> set (privates B name)" "inside q k p n" for p q n k
    using apart that mac(1) by (intro bytes_put_separate [of ?a 6 p n]) (auto simp: separate_commute)
  have objs: "\<forall>(b, n) \<in> set (objects ?L). separate b n ?a 6" using apart privates_objects by blast
  obtain mac0 where "net_ready ?L mac0 (nmem st)" using assms by (auto simp: boot_loaded_def)
  then have old: "net_ready ?L mac0 ?m1"
    using keep [OF privates_objects inside_refl] by (simp add: net_ready_def objects_def del: bytes_numeral)
  note init = net_init_ready [OF linked(2) old objs]
  have "bytes ?m2 (rxbuf B) 2 = [0, 0]"
  proof -
    have "bytes ?m2 (rxbuf B) 2 = bytes ?m1 (rxbuf B) 2" using objects_apart [OF linked(1)] by (intro init(2)) blast
    also have "\<dots> = bytes (nmem st) (rxbuf B) 2" by (rule keep [of "rxbuf B" 1536]) (simp_all add: privates_def inside_def)
    finally show ?thesis using assms by (simp add: boot_loaded_def)
  qed
  moreover have "cstr ?m2 (nodename B) name"
  proof -
    let ?n = "Suc (length name)"
    have "bytes ?m2 (nodename B) ?n = bytes ?m1 (nodename B) ?n" using objects_apart [OF linked(1)] by (intro init(2)) blast
    also have "\<dots> = bytes (nmem st) (nodename B) ?n" by (rule keep [of "nodename B" ?n]) (simp_all add: privates_def)
    finally have same: "bytes ?m2 (nodename B) ?n = bytes (nmem st) (nodename B) ?n" .
    show ?thesis unfolding cstr_eq_bytes [OF same] using assms by (simp add: boot_loaded_def)
  qed
  ultimately show "boot_ready B name boot_mac (netboot_init B st)"
    using init(1) mac(2) assms unfolding boot_mac_def netboot_init_def eth_init_def eth_wr_def Let_def
    by (simp add: boot_ready_def boot_loaded_def tx_ready_def del: bytes_numeral put_bytes.simps)
  show "eth_dev (netboot_init B st) = eth_dev st" "arrivals (netboot_init B st) = arrivals st"
    by (simp_all add: netboot_init_def eth_init_def eth_wr_def)
qed

lemma netboot_eq: "netboot B st = netboot_loop B (netboot_init B st)"
  by (simp add: netboot_def netboot_init_def)

lemma netboot_runs:
  assumes loaded: "boot_loaded B name st" and good: "good_controller B name boot_mac st"
    and polls: "polls B (netboot_init B st) st'" and run: "poll_reaction name boot_mac (arrived st') = Run a"
  shows "\<exists>st''. netboot B st = Some (Jump a st'')"
proof -
  have linked: "boot_linked B name" using loaded by (simp add: boot_loaded_def)
  note init = netboot_init_ready [OF loaded]
  have good': "good_controller B name boot_mac (netboot_init B st)"
    using good init by (simp add: good_controller_same [of "netboot_init B st" st])
  from polls_invariant [OF polls linked init(1) good'] good' have
    st': "boot_ready B name boot_mac st'" "good_controller B name boot_mac st'"
    by (simp_all add: good_controller_same [of st' "netboot_init B st"])
  from poll_carries_on [OF linked st'] run obtain st'' where "eth_handle_rx B (arrived st') = Some (Jump a st'')"
    by (auto simp: carries_on_def split: option.splits outcome.splits)
  then have "netboot_loop B st' = Some (Jump a st'')" by (simp add: netboot_loop.simps [of B st'])
  then show ?thesis by (simp add: netboot_eq polls_loop [OF polls])
qed

lemma netboot_jumps:
  assumes loaded: "boot_loaded B name st" and good: "good_controller B name boot_mac st" and r: "netboot B st = Some r"
  shows "\<exists>a st' st''. r = Jump a st' \<and> boot_ready B name boot_mac st'' \<and> poll_reaction name boot_mac (arrived st'') = Run a"
proof -
  note init = netboot_init_ready [OF loaded]
  have "good_controller B name boot_mac (netboot_init B st)"
    using good init by (simp add: good_controller_same [of "netboot_init B st" st])
  with netboot_loop_jumps [OF r [unfolded netboot_eq] _ init(1)] loaded show ?thesis
    by (auto simp: boot_loaded_def)
qed

lemma start_jumps:
  assumes "boot_loaded B name st" "good_controller B name boot_mac st" "start B entry st = Some r"
  shows "\<exists>a st'. r = Jump a st'"
proof -
  obtain st1 where st1: "start B entry st = netboot B st1" "nmem st1 = nmem st" "eth_dev st1 = eth_dev st" "arrivals st1 = arrivals st"
    by (simp add: start_def csr_set_def csr_write_def say_def Let_def)
  have "boot_loaded B name st1" "good_controller B name boot_mac st1"
    using assms(1,2) st1 by (simp_all add: boot_loaded_def tx_ready_def good_controller_same [of st1 st])
  from netboot_jumps [OF this] assms(3) st1(1) show ?thesis by auto
qed

section \<open>Properties\<close>

text \<open>An example: a loader at fixed addresses, to which a frame is presented at every poll.\<close>

definition example_boot :: boot_linkage where
  "example_boot = \<lparr>net_link = example_linkage, nodename = 0x5000, rxbuf = 0x4000, mac_array = 0x6000,
     num_buffer = replicate 32 0\<rparr>"

definition example_name :: "u8 list" where
  "example_name = lit ''device''"

definition boot_frame :: "u8 list \<Rightarrow> u8 list" where
  "boot_frame msg = ip6_frame boot_mac example_peer 17 (lla example_peer) (lla boot_mac)
     (be16 1000 @ be16 58572 @ be16 (of_nat (8 + length msg)) @ le16 1 @ msg)"

definition run_message :: "u8 list" where
  "run_message = boot_message NB_CMD_EXEC 7 0x40008000 []"

definition example_state :: "u8 list \<Rightarrow> boot" where
  "example_state f = \<lparr>
     nmem = put_bytes (static_data example_linkage (\<lambda>_. 0)) 0x5000 (example_name @ [0]), console = [],
     eth_dev = (\<lambda>n a. if a = WR_LEN then of_nat (length f) else if a = WR_SLOT then 0 else 1),
     eth_reads = 0, eth_log = [], arrivals = (\<lambda>n m. put_bytes m ETHMAC_SRAM_BASE f), txslot = 0, csrs = (\<lambda>_. 0)\<rparr>"

lemma example_boot_linked: "boot_linked example_boot example_name"
  by (simp add: boot_linked_def privates_def objects_def example_boot_def example_linkage_def example_name_def
      separate_def num_buffer_ok_def ETHMAC_SRAM_BASE_def)

lemma run_frame:
  "length (boot_frame run_message) = 78"
  "udp_packet boot_mac (boot_frame run_message) = Some (58572, run_message)"
  "segment 6 6 (boot_frame run_message) = example_peer" "segment 22 16 (boot_frame run_message) = lla example_peer"
  "reaction example_name (ucast (58572 :: u16)) run_message = Run 0x40008000"
proof -
  show "length (boot_frame run_message) = 78"
    by (simp add: boot_frame_def ip6_frame_def boot_mac_def example_peer_def run_message_def boot_message_words)
  show "udp_packet boot_mac (boot_frame run_message) = Some (58572, run_message)"
    using udp_packet_frame [of boot_mac example_peer "lla example_peer" "be16 58572" run_message 1000 1]
    by (simp add: boot_frame_def boot_mac_def example_peer_def be_word_def word_cat_be16 run_message_def boot_message_words)
  show "segment 6 6 (boot_frame run_message) = example_peer" "segment 22 16 (boot_frame run_message) = lla example_peer"
    by (simp_all add: segment_def boot_frame_def ip6_frame_def boot_mac_def example_peer_def be16_def lla_def)
  show "reaction example_name (ucast (58572 :: u16)) run_message = Run 0x40008000"
    by (simp add: reaction_def run_message_def boot_message_words Let_def nb_ports nb_commands)
qed

lemma run_frame_good: "good_frame example_boot example_name boot_mac (boot_frame run_message)"
  using run_frame by (simp add: good_frame_def safe_frame_def)

lemma example_loaded: "boot_loaded example_boot example_name (example_state f)"
proof -
  have name: "length (example_name @ [0]) = 7" by (simp add: example_name_def)
  have "rx_apart example_linkage 0x5000 7"
    by (simp add: rx_apart_def objects_def example_linkage_def separate_def)
  then have "net_ready example_linkage example_mac (nmem (example_state f))"
    using static_data_ready [OF example_linked] name by (simp add: example_state_def net_ready_put example_mac_def)
  moreover have "cstr (nmem (example_state f)) 0x5000 example_name"
    by (simp add: example_state_def example_name_def cstr_iff bytes_Suc)
  moreover have "bytes (nmem (example_state f)) 0x4000 2 = [0, 0]"
    by (simp add: example_state_def static_data_def example_linkage_def example_name_def)
  moreover have "\<forall>(a, n) \<in> set (privates example_boot example_name). separate a n (mac_array example_boot) 6"
    by (simp add: privates_def objects_def example_boot_def example_linkage_def example_name_def
      separate_def ETHMAC_SRAM_BASE_def)
  ultimately show ?thesis
    using example_boot_linked
    by (auto simp: boot_loaded_def example_boot_def tx_ready_def RD_READY_def WR_LEN_def WR_SLOT_def
        example_state_def simp del: bytes_numeral put_bytes.simps)
qed

lemma example_controller:
  assumes "length f \<le> 1534" "good_frame example_boot example_name boot_mac f"
  shows "good_controller example_boot example_name boot_mac (example_state f)"
proof -
  have keep: "bytes (put_bytes m ETHMAC_SRAM_BASE f) q k = bytes m q k"
    if "(q, k) \<in> set (protected example_boot example_name)" for m q k
  proof -
    have "separate ETHMAC_SRAM_BASE 8192 q k"
      using protected_elsewhere [OF example_boot_linked that] by (simp add: elsewhere_def work_areas_def)
    moreover have "inside ETHMAC_SRAM_BASE (length f) ETHMAC_SRAM_BASE 8192" using assms(1) by (simp add: inside_def)
    ultimately show ?thesis by (rule bytes_put_separate [OF _ _ inside_refl])
  qed
  have "unat (of_nat (length f) :: u32) = length f" using assms(1) by (simp add: unat_of_nat32)
  moreover from this have "(of_nat (length f) :: u32) \<le> 2048" using assms(1) by (simp add: word_le_nat_alt)
  ultimately show ?thesis
    using keep assms by (auto simp: good_controller_def example_state_def bytes_put_head WR_SLOT_def WR_LEN_def
        ETHMAC_SLOT_SIZE_def simp del: put_bytes.simps)
qed

text \<open>The state in which the handler runs for the first time.\<close>

definition first_poll :: "u8 list \<Rightarrow> boot" where
  "first_poll f = arrived (netboot_init example_boot (example_state f))"

lemma first_poll_ready:
  assumes "length f \<le> 1534" "good_frame example_boot example_name boot_mac f"
  shows "boot_ready example_boot example_name boot_mac (first_poll f)"
    and "bytes (nmem (first_poll f)) ETHMAC_SRAM_BASE (length f) = f"
proof -
  let ?st = "netboot_init example_boot (example_state f)"
  note init = netboot_init_ready [OF example_loaded]
  have "good_controller example_boot example_name boot_mac ?st"
    using example_controller [OF assms] init by (simp add: good_controller_same [of ?st "example_state f"])
  with arrived_ready [OF init(1)] show "boot_ready example_boot example_name boot_mac (first_poll f)"
    by (simp add: first_poll_def)
  have "arrivals ?st = (\<lambda>n m. put_bytes m ETHMAC_SRAM_BASE f)"
    unfolding init(3) by (simp add: example_state_def)
  then show "bytes (nmem (first_poll f)) ETHMAC_SRAM_BASE (length f) = f"
    using assms(1) by (simp add: first_poll_def bytes_put_head)
qed

lemma first_poll_reaction:
  assumes "length f \<le> 1534"
  shows "poll_reaction name mac (first_poll f) = frame_reaction name mac f"
proof -
  let ?st = "netboot_init example_boot (example_state f)"
  have "eth_reads ?st = 0" by (simp add: netboot_init_def eth_init_def eth_wr_def example_state_def)
  moreover have "unat (of_nat (length f) :: u32) = length f" using assms by (simp add: unat_of_nat32)
  ultimately show ?thesis
    using assms netboot_init_ready(2,3) [OF example_loaded, of f]
    by (simp add: poll_reaction_def presented_def first_poll_def example_state_def bytes_put_head WR_SLOT_def
        WR_LEN_def WR_EV_PENDING_def ETHMAC_SLOT_SIZE_def)
qed

text \<open>
  C15: the loader does with a frame exactly what the specification of the node says.  A frame
  of at most 1534 bytes with a datagram from a link-local sender is ignored, refused, answered
  with the node's name, stored (the data is then at its address), or the loader leaves for the
  given address; every answer is one frame to the sender's port with the message's sequence
  number.
\<close>

theorem eth_rx_reacts:
  assumes "boot_linked B name" and "boot_ready B name mac st"
    and "bytes (nmem st) rxb (unat rxlen) = f" and "unat rxlen \<le> 1534"
    and "unat rxlen \<le> unat (rxbuf B + 2 - rxb)"
    and "segment 6 6 f = peer" and "segment 22 16 f = lla peer"
    and "udp_packet mac f = Some (port, p)" and "safe_frame B name mac f"
  shows "handled B name peer (be_word f 54) p (reaction name (ucast port) p)
    (st\<lparr>nmem := put_bytes (nmem st) (rxbuf B + 2) f\<rparr>) (eth_rx B rxb rxlen st)"
  by (rule eth_rx_udp [OF assms])

theorem eth_rx_reacts_witness:
  "\<exists>st'. eth_rx example_boot ETHMAC_SRAM_BASE 78 (first_poll (boot_frame run_message)) = Some (Jump 0x40008000 st')"
proof -
  let ?f = "boot_frame run_message"
  have f: "length ?f \<le> 1534" by (simp add: run_frame)
  have frame: "bytes (nmem (first_poll ?f)) ETHMAC_SRAM_BASE (unat (78 :: u32)) = ?f"
    using first_poll_ready(2) [OF f run_frame_good] by (simp add: run_frame del: bytes_numeral)
  have safe: "safe_frame example_boot example_name boot_mac ?f" using run_frame_good by (simp add: good_frame_def)
  have apart: "unat (78 :: u32) \<le> unat (rxbuf example_boot + 2 - ETHMAC_SRAM_BASE)"
    by (simp add: example_boot_def ETHMAC_SRAM_BASE_def)
  show ?thesis
    using eth_rx_reacts [OF example_boot_linked first_poll_ready(1) [OF f run_frame_good] frame _ apart
        run_frame(3,4,2) safe]
    unfolding run_frame(5) by (auto simp: handled_def)
qed

text \<open>
  C16: the invariant of the loader's memory.  After any frame that the loader can stand, of any
  length and content, the loader is ready for the next one, unless the frame holds a message
  that tells it to run a program; it never runs into undefined behaviour.
\<close>

theorem eth_rx_invariant:
  assumes "boot_linked B name" and "boot_ready B name mac st"
    and "bytes (nmem st) rxb (unat rxlen) = f" and "unat rxlen \<le> unat (rxbuf B + 2 - rxb)"
    and "good_frame B name mac f"
  shows "case eth_rx B rxb rxlen st of
      Some (Return st') \<Rightarrow> boot_ready B name mac st' \<and> eth_dev st' = eth_dev st \<and> arrivals st' = arrivals st
    | Some (Jump a st') \<Rightarrow> rxlen \<le> 1534 \<and> frame_reaction name mac f = Run a
    | _ \<Rightarrow> False"
  using eth_rx_carries_on [OF assms]
  by (auto simp: carries_on_def word_le_nat_alt split: option.splits outcome.splits if_splits)

theorem eth_rx_invariant_witness:
  "\<exists>st'. eth_rx example_boot 0x7000 0 (first_poll (boot_frame run_message)) = Some (Return st') \<and>
     boot_ready example_boot example_name boot_mac st'"
proof -
  have f: "length (boot_frame run_message) \<le> 1534" by (simp add: run_frame)
  have good: "good_frame example_boot example_name boot_mac []"
    by (simp add: good_frame_def safe_frame_def udp_packet_def Let_def)
  have "frame_reaction example_name boot_mac [] = Ignore" by (simp add: frame_reaction_def udp_packet_def Let_def)
  with eth_rx_invariant [OF example_boot_linked first_poll_ready(1) [OF f run_frame_good] _ _ good, of "0x7000" 0]
  show ?thesis by (auto split: option.splits outcome.splits)
qed

text \<open>
  \<open>eth_tx\<close> returns as soon as the controller is ready; a frame of at most 1534 bytes is then
  in the memory of the next transmit slot, the controller is told slot and length and is
  started, and the other slot is next.  Longer frames are dropped.
\<close>

theorem eth_tx_sends_frame:
  assumes "tx_ready st" and "unat txlen \<le> unat (tx_slot_address (txslot st) - txb)"
  shows "\<exists>n. eth_tx txb txlen st = Some (if 1534 < txlen then st
    else st\<lparr>eth_reads := n,
      nmem := put_bytes (nmem st) (tx_slot_address (txslot st)) (bytes (nmem st) txb (unat txlen)),
      eth_log := eth_log st @ [(RD_SLOT, txslot st), (RD_LEN, txlen), (RD_START, 1)],
      txslot := txslot st XOR 1\<rparr>)"
  using eth_tx_transmits [OF assms(1) _ assms(2)]
  by (cases "1534 < txlen") (auto simp: transmitted_def eth_tx_def not_less)

theorem eth_tx_sends_frame_witness:
  "\<exists>st'. eth_tx 0x2000 4 (first_poll []) = Some st' \<and> txslot st' = txslot (first_poll []) XOR 1"
proof -
  have good: "good_frame example_boot example_name boot_mac []"
    by (simp add: good_frame_def safe_frame_def udp_packet_def Let_def)
  have "boot_ready example_boot example_name boot_mac (first_poll [])"
    by (rule first_poll_ready(1) [OF _ good]) simp
  then have "tx_ready (first_poll [])" "txslot (first_poll []) = 0 \<or> txslot (first_poll []) = 1"
    by (simp_all add: boot_ready_def)
  with eth_tx_sends_frame [of "first_poll []" 4 "0x2000"] show ?thesis
    by (auto simp: tx_slot_address_def ETHMAC_SRAM_BASE_def ETHMAC_SLOT_SIZE_def ETHMAC_RX_SLOTS_def)
qed

text \<open>
  C17: the loader as a whole, with a controller that can be trusted.  If the loader ends at all
  it leaves for the address of a message that told it to, and it does so as soon as such a
  message is presented to it.
\<close>

theorem netboot_runs_program:
  assumes "boot_loaded B name st" and "good_controller B name boot_mac st"
  shows "(\<forall>entry r. start B entry st = Some r \<longrightarrow> (\<exists>a st'. r = Jump a st')) \<and>
    (\<forall>r. netboot B st = Some r \<longrightarrow> (\<exists>a st' st''. r = Jump a st' \<and>
       boot_ready B name boot_mac st'' \<and> poll_reaction name boot_mac (arrived st'') = Run a)) \<and>
    (\<forall>st' a. polls B (netboot_init B st) st' \<longrightarrow> poll_reaction name boot_mac (arrived st') = Run a \<longrightarrow>
       (\<exists>st''. netboot B st = Some (Jump a st'')))"
  using start_jumps [OF assms] netboot_jumps [OF assms] netboot_runs [OF assms] by blast

theorem netboot_runs_program_witness:
  "\<exists>st'. netboot example_boot (example_state (boot_frame run_message)) = Some (Jump 0x40008000 st')"
proof -
  let ?st = "example_state (boot_frame run_message)"
  have f: "length (boot_frame run_message) \<le> 1534" by (simp add: run_frame)
  have "poll_reaction example_name boot_mac (arrived (netboot_init example_boot ?st)) = Run 0x40008000"
    using first_poll_reaction [OF f] run_frame(2,5) by (simp add: first_poll_def frame_reaction_def)
  with netboot_runs_program [OF example_loaded example_controller [OF f run_frame_good]] polls_none
  show ?thesis by blast
qed

end
