(* ===== verification/Monitor.thy ===== *)
theory Monitor
  imports Net LibcStr
begin

text \<open>
  The boot monitor: \<^verbatim>\<open>boot/boot.c\<close>, which collects typed characters to a line, and
  \<^verbatim>\<open>boot/console.c\<close>, which takes the line apart and runs a command.  The line buffer is in the
  byte memory, calls of the serial output functions are recorded in order, the UART's receiver
  is a device whose register reads return what it likes.  A pointer is an address; the array
  of tokens on the stack is a list.
\<close>

section \<open>Code\<close>

text \<open>
  Addresses chosen by the linker, and what the machine does on a read that traps: it continues
  at the address in \<open>MTVEC\<close>, which is the end of the reading function, and has set the status,
  \<open>MEPC\<close> (the load is the instruction before the end), \<open>MCAUSE\<close> and \<open>MTVAL\<close>.
\<close>

record monitor_linkage =
  cmdbuf :: u32
  cmd_names :: "u32 list"
  empty_string :: u32
  txt_addr :: u32
  rd32fail :: u32
  rd8fail :: u32
  mach_exception_entry :: u32
  readable :: "nat \<Rightarrow> u32 \<Rightarrow> bool"
  trap_status :: "u32 \<Rightarrow> u32"
  trap_cause :: "nat \<Rightarrow> u32 \<Rightarrow> u32"
  trap_value :: "nat \<Rightarrow> u32 \<Rightarrow> u32"

datatype serial = Xputs "u8 list" | Xputc u32 | Xprintf "u8 list" "va list"

record monitor =
  mmem :: mem
  out :: "serial list"
  cmdlen :: u32
  STOP :: u32
  EF :: eframe
  mcsr :: "u32 \<Rightarrow> u32"
  uart_dev :: "nat \<Rightarrow> u32 \<Rightarrow> u32"
  uart_reads :: nat
  uart_log :: "(u32 \<times> u32) list"

definition emit :: "serial \<Rightarrow> monitor \<Rightarrow> monitor" where
  "emit x st = st\<lparr>out := out st @ [x]\<rparr>"

definition set_csr :: "u32 \<Rightarrow> u32 \<Rightarrow> monitor \<Rightarrow> monitor" where
  "set_csr n v st = st\<lparr>mcsr := (mcsr st)(n := v)\<rparr>"

definition or_csr :: "u32 \<Rightarrow> u32 \<Rightarrow> monitor \<Rightarrow> monitor" where
  "or_csr n v st = set_csr n (mcsr st n OR v) st"

definition uart_rd :: "u32 \<Rightarrow> monitor \<Rightarrow> u32 \<times> monitor" where
  "uart_rd a st = (uart_dev st (uart_reads st) a, st\<lparr>uart_reads := Suc (uart_reads st)\<rparr>)"

definition uart_wr :: "u32 \<Rightarrow> u32 \<Rightarrow> monitor \<Rightarrow> monitor" where
  "uart_wr a v st = st\<lparr>uart_log := uart_log st @ [(a, v)]\<rparr>"

subsection \<open>Numbers\<close>

text \<open>The result of \<open>n * 10 + (c - '0')\<close> is unsigned; only the product can overflow.\<close>

partial_function (option) atoi_loop :: "mem \<Rightarrow> u32 \<Rightarrow> u32 \<Rightarrow> (ub + u32) option" where
  "atoi_loop m s n =
     (let c = m s
      in if c = 0 then Some (Inr n)
         else if 48 \<le> c \<and> c \<le> 57
         then if sint n * 10 < - 2147483648 \<or> 2147483647 < sint n * 10 then Some (Inl Overflow)
              else atoi_loop m (s + 1) (n * 10 + (ucast c - 48))
         else Some (Inr n))"

definition atoi_console :: "mem \<Rightarrow> u32 \<Rightarrow> (ub + u32) option" where
  "atoi_console m s = atoi_loop m s 0"

definition nibble :: "u8 \<Rightarrow> u32 option" where
  "nibble c =
     (if 97 \<le> c \<and> c \<le> 102 then Some (ucast c - 97 + 10)
      else if 65 \<le> c \<and> c \<le> 70 then Some (ucast c - 65 + 10)
      else if 48 \<le> c \<and> c \<le> 57 then Some (ucast c - 48)
      else None)"

partial_function (option) atox_loop :: "mem \<Rightarrow> u32 \<Rightarrow> u32 \<Rightarrow> u32 option" where
  "atox_loop m s n =
     (let c = m s
      in if c = 0 then Some n
         else case nibble c of None \<Rightarrow> Some n | Some v \<Rightarrow> atox_loop m (s + 1) (push_bit 4 n OR v))"

definition atox :: "mem \<Rightarrow> u32 \<Rightarrow> u32 option" where
  "atox m s = atox_loop m s 0"

subsection \<open>Reads that may trap\<close>

definition rdsafe :: "monitor_linkage \<Rightarrow> nat \<Rightarrow> u32 \<Rightarrow> (mem \<Rightarrow> u32 \<Rightarrow> u32) \<Rightarrow> u32 \<Rightarrow> monitor \<Rightarrow> u32 \<times> monitor" where
  "rdsafe L n fail load addr st =
     (let st = set_csr 0x305 fail st
      in if readable L n addr then (load (mmem st) addr, st)
         else (0, set_csr 0x300 (trap_status L (mcsr st 0x300))
                    (set_csr 0x341 (fail - 4)
                      (set_csr 0x342 (trap_cause L n addr) (set_csr 0x343 (trap_value L n addr) st)))))"

definition rd32safe :: "monitor_linkage \<Rightarrow> u32 \<Rightarrow> monitor \<Rightarrow> u32 \<times> monitor" where
  "rd32safe L = rdsafe L 4 (rd32fail L) load32"

definition rd8safe :: "monitor_linkage \<Rightarrow> u32 \<Rightarrow> monitor \<Rightarrow> u32 \<times> monitor" where
  "rd8safe L = rdsafe L 1 (rd8fail L) (\<lambda>m a. ucast (m a))"

subsection \<open>Commands\<close>

definition do_regs :: "monitor \<Rightarrow> monitor" where
  "do_regs st =
     (let ef = EF st; csr = mcsr st; p = (\<lambda>fmt ws. emit (Xprintf (lit fmt) (map Word ws)));
          st = p ''pc %08x ra %08x sp %08x gp %08x  sstatus  %08x\<newline>''
                 [ef_pc ef, ef_ra ef, ef_sp ef, ef_gp ef, csr 0x100] st;
          st = p ''tp %08x t0 %08x t1 %08x t2 %08x  scause   %08x\<newline>''
                 [ef_tp ef, ef_t0 ef, ef_t1 ef, ef_t2 ef, csr 0x142] st;
          st = p ''fp %08x s1 %08x a0 %08x a1 %08x  stval    %08x\<newline>''
                 [ef_s0 ef, ef_s1 ef, ef_a0 ef, ef_a1 ef, csr 0x143] st;
          st = p ''a2 %08x a3 %08x a4 %08x a5 %08x  stvec    %08x\<newline>''
                 [ef_a2 ef, ef_a3 ef, ef_a4 ef, ef_a5 ef, csr 0x105] st;
          st = p ''a6 %08x a7 %08x s2 %08x s3 %08x  sepc     %08x\<newline>''
                 [ef_a6 ef, ef_a7 ef, ef_s2 ef, ef_s3 ef, csr 0x141] st;
          st = p ''s4 %08x s5 %08x s6 %08x s7 %08x  sscratch %08x\<newline>''
                 [ef_s4 ef, ef_s5 ef, ef_s6 ef, ef_s7 ef, csr 0x140] st;
          st = p ''s8 %08x s9 %08x 10 %08x 11 %08x  satp     %08x\<newline>''
                 [ef_s8 ef, ef_s9 ef, ef_s10 ef, ef_s11 ef, csr 0x180] st
      in p ''t3 %08x t4 %08x t5 %08x t6 %08x  sip      %08x\<newline>''
           [ef_t3 ef, ef_t4 ef, ef_t5 ef, ef_t6 ef, csr 0x144] st)"

function dw_loop :: "monitor_linkage \<Rightarrow> u32 \<Rightarrow> u32 \<Rightarrow> u32 \<Rightarrow> monitor \<Rightarrow> u32 \<times> monitor" where
  "dw_loop L n addr count st =
     (if n < count
      then let st = (if n AND 3 = 0 then emit (Xprintf (lit ''\<newline>%08x:'') [Word addr]) st else st);
               (w, st) = rd32safe L addr st;
               st = emit (Xprintf (lit '' %08x'') [Word w]) st
           in dw_loop L (n + 1) (addr + 4) count st
      else (n, st))"
  by pat_completeness auto
termination
  by (relation "measure (\<lambda>(L, n, addr, count, st). unat (count - n))") simp_all

definition do_dw :: "monitor_linkage \<Rightarrow> u32 \<Rightarrow> u32 \<Rightarrow> u32 \<Rightarrow> monitor \<Rightarrow> monitor" where
  "do_dw L n addr count st =
     (let count = (if n < 2 then 1 else count);
          count = (if count > 1024 then 1024 else count);
          (n, st) = dw_loop L 0 addr count st
      in if n AND 3 = 0 then emit (Xprintf (lit ''\<newline>'') []) st else st)"

text \<open>One column of a line of \<open>do_db\<close>: the character for the text column is appended.\<close>

definition db_column :: "monitor_linkage \<Rightarrow> u32 \<Rightarrow> int \<Rightarrow> nat \<Rightarrow> u8 list \<times> monitor \<Rightarrow> u8 list \<times> monitor" where
  "db_column L addr count i =
     (\<lambda>(txt, st).
        if int i < count
        then let (c, st) = rd8safe L (addr + of_nat i) st;
                 c = c AND 0xFF;
                 st = emit (Xprintf (lit '' %02x'') [Word c]) st
             in (txt @ [if c < 32 \<or> c > 126 then 46 else ucast c], st)
        else (txt @ [32], emit (Xprintf (lit ''   '') []) st))"

function db_loop :: "monitor_linkage \<Rightarrow> u32 \<Rightarrow> int \<Rightarrow> monitor \<Rightarrow> monitor" where
  "db_loop L addr count st =
     (if count > 0
      then let st = emit (Xprintf (lit ''%08x:'') [Word addr]) st;
               (txt, st) = fold (db_column L addr count) [0..<16] ([], st);
               st = emit (Xprintf (lit ''  %s\<newline>'') [Str (txt_addr L) txt]) st
           in db_loop L (addr + 16) (count - 16) st
      else st)"
  by pat_completeness auto
termination
  by (relation "measure (\<lambda>(L, addr, count, st). nat count)") simp_all

definition do_db :: "monitor_linkage \<Rightarrow> u32 \<Rightarrow> u32 \<Rightarrow> u32 \<Rightarrow> monitor \<Rightarrow> monitor" where
  "do_db L n addr count st = (if sint count < 0 then st else db_loop L addr (sint count) st)"

definition do_stop :: "monitor \<Rightarrow> monitor" where
  "do_stop st = st\<lparr>STOP := 1\<rparr>"

definition do_cont :: "monitor \<Rightarrow> monitor" where
  "do_cont st = st\<lparr>STOP := 0\<rparr>"

datatype command = Help | Regs | Dw | Db | Stop | Cont

record console_cmd_t =
  cmd_name :: string
  cmd_args :: string
  cmd_help :: string
  cmd_fn :: command

definition CMDS :: "console_cmd_t list" where
  "CMDS =
     [\<lparr>cmd_name = ''help'', cmd_args = '''', cmd_help = ''help'', cmd_fn = Help\<rparr>,
      \<lparr>cmd_name = ''regs'', cmd_args = '''', cmd_help = ''dump registers'', cmd_fn = Regs\<rparr>,
      \<lparr>cmd_name = ''dw'', cmd_args = ''xx'', cmd_help = ''dump words <addr> <count>'', cmd_fn = Dw\<rparr>,
      \<lparr>cmd_name = ''db'', cmd_args = ''xx'', cmd_help = ''dump bytes <addr> <count>'', cmd_fn = Db\<rparr>,
      \<lparr>cmd_name = ''stop'', cmd_args = '''', cmd_help = ''stop execution'', cmd_fn = Stop\<rparr>,
      \<lparr>cmd_name = ''cont'', cmd_args = '''', cmd_help = ''continue execution'', cmd_fn = Cont\<rparr>]"

text \<open>The addresses of string literals are printed through, not printed: any address but 0.\<close>

definition do_help :: "monitor \<Rightarrow> monitor" where
  "do_help st = fold (\<lambda>cmd. emit (Xprintf (lit ''%-16s %s\<newline>'')
     [Str 1 (lit (cmd_name cmd)), Str 1 (lit (cmd_help cmd))])) CMDS st"

definition console_call_cmd :: "monitor_linkage \<Rightarrow> command \<Rightarrow> u32 list \<Rightarrow> u32 \<Rightarrow> monitor \<Rightarrow> monitor" where
  "console_call_cmd L fn argx argc st =
     (case fn of
        Help \<Rightarrow> do_help st
      | Regs \<Rightarrow> do_regs st
      | Dw \<Rightarrow> do_dw L argc (argx ! 0) (argx ! 1) st
      | Db \<Rightarrow> do_db L argc (argx ! 0) (argx ! 1) st
      | Stop \<Rightarrow> do_stop st
      | Cont \<Rightarrow> do_cont st)"

text \<open>
  The arguments from the \<open>n\<close>-th on are put into \<open>argx\<close>: \<open>None\<close> inside is a letter that is
  not an argument type.
\<close>

fun fill_argx :: "monitor_linkage \<Rightarrow> mem \<Rightarrow> string \<Rightarrow> u32 list \<Rightarrow> nat \<Rightarrow> u32 list \<Rightarrow> (ub + u32 list option) option" where
  "fill_argx L m [] args n argx = Some (Inr (Some argx))"
| "fill_argx L m (t # ts) args n argx =
     (let next = (\<lambda>v. if n < length argx then fill_argx L m ts args (Suc n) (argx[n := v])
                      else Some (Inl Out_of_bounds))
      in if t = CHR ''x'' then if n < length args then Option.bind (atox m (args ! n)) next else next 0
         else if t = CHR ''i''
         then if n < length args
              then Option.bind (atoi_console m (args ! n)) (\<lambda>r. case r of Inl e \<Rightarrow> Some (Inl e) | Inr v \<Rightarrow> next v)
              else next 0
         else if t = CHR ''s'' then next (if n < length args then args ! n else empty_string L)
         else Some (Inr None))"

definition console_cmd :: "monitor_linkage \<Rightarrow> console_cmd_t \<Rightarrow> u32 list \<Rightarrow> monitor \<Rightarrow> (ub + monitor) option" where
  "console_cmd L cmd args st =
     (let argc = length args
      in if argc > length (cmd_args cmd) \<or> argc > 4
         then Some (Inr (emit (Xprintf (lit ''error: too many arguments\<newline>'') []) st))
         else Option.bind (fill_argx L (mmem st) (cmd_args cmd) args 0 [0, 0, 0, 0]) (\<lambda>r. case r of
             Inl e \<Rightarrow> Some (Inl e)
           | Inr None \<Rightarrow> Some (Inr (emit (Xprintf (lit ''error: internal: bad args '%s'\<newline>'')
                           [Str 1 (lit (cmd_args cmd))]) st))
           | Inr (Some argx) \<Rightarrow> Some (Inr (console_call_cmd L (cmd_fn cmd) argx (of_nat argc) st))))"

subsection \<open>Lines\<close>

partial_function (option) skip_spaces :: "mem \<Rightarrow> u32 \<Rightarrow> (mem \<times> u32) option" where
  "skip_spaces m line =
     (if m line = 32 then skip_spaces (m(line := 0)) (line + 1) else Some (m, line))"

text \<open>To the end of a word: whether it is the end of the line, and the address.\<close>

partial_function (option) skip_word :: "mem \<Rightarrow> u32 \<Rightarrow> (bool \<times> u32) option" where
  "skip_word m line =
     (if m line \<noteq> 32 then if m line = 0 then Some (True, line) else skip_word m (line + 1)
      else Some (False, line))"

definition MAXTOK :: nat where "MAXTOK = 16"

function token_loop :: "mem \<Rightarrow> u32 \<Rightarrow> u32 list \<Rightarrow> (mem \<times> u32 list) option" where
  "token_loop m line token =
     (if length token < MAXTOK
      then Option.bind (skip_spaces m line) (\<lambda>(m, start).
             Option.bind (skip_word m start) (\<lambda>(end, line).
               if end
               then if start \<noteq> line then Some (m(line := 0), token @ [start]) else Some (m, token)
               else token_loop m line (token @ [start])))
      else Some (m, token))"
  by pat_completeness auto
termination
  by (relation "measure (\<lambda>(m, line, token). MAXTOK - length token)") simp_all

fun find_cmd :: "mem \<Rightarrow> (u32 \<times> console_cmd_t) list \<Rightarrow> u32 \<Rightarrow> console_cmd_t option option" where
  "find_cmd m [] t = Some None"
| "find_cmd m ((name, cmd) # cmds) t =
     Option.bind (strcmp m name t) (\<lambda>r. if r = 0 then Some (Some cmd) else find_cmd m cmds t)"

definition prompt :: "monitor \<Rightarrow> monitor" where
  "prompt st = emit (Xputs (lit ''monitor> '')) st"

definition console_line :: "monitor_linkage \<Rightarrow> u32 \<Rightarrow> monitor \<Rightarrow> (ub + monitor) option" where
  "console_line L line st =
     Option.bind (token_loop (mmem st) line []) (\<lambda>(m, token).
       let st = st\<lparr>mmem := m\<rparr>
       in case token of
            [] \<Rightarrow> Some (Inr (prompt st))
          | t # args \<Rightarrow>
              Option.bind (find_cmd m (zip (cmd_names L) CMDS) t) (\<lambda>found. case found of
                Some cmd \<Rightarrow> map_option (map_sum id prompt) (console_cmd L cmd args st)
              | None \<Rightarrow>
                  map_option (\<lambda>n. Inr (prompt (emit (Xprintf (lit ''unknown command '%s'\<newline>'')
                    [Str t (bytes m t (unat n))]) st))) (strlen m t)))"

section \<open>Characters\<close>

definition console_char :: "monitor_linkage \<Rightarrow> u32 \<Rightarrow> monitor \<Rightarrow> (ub + monitor) option" where
  "console_char L ch st =
     (if ch = 13 \<or> ch = 10
      then let st = emit (Xputs [13, 10]) st;
               st = st\<lparr>mmem := (mmem st)(cmdbuf L + cmdlen st := 0)\<rparr>;
               status = mcsr st 0x300
           in map_option (map_sum id (\<lambda>st.
                let st = set_csr 0x300 status st;
                    st = set_csr 0x305 (mach_exception_entry L) st
                in st\<lparr>cmdlen := 0\<rparr>)) (console_line L (cmdbuf L) st)
      else Some (Inr (
        if ch = 8 \<or> ch = 127
        then if cmdlen st > 0
             then let st = emit (Xputs [8, 32, 8]) st in st\<lparr>cmdlen := cmdlen st - 1\<rparr>
             else emit (Xputc 7) st
        else if ch < 32 \<or> ch > 127 then st
        else if cmdlen st = 127 then emit (Xputc 7) st
        else let st = st\<lparr>mmem := (mmem st)(cmdbuf L + cmdlen st := ucast ch), cmdlen := cmdlen st + 1\<rparr>
             in emit (Xputc ch) st)))"

definition UART_RX :: u32 where "UART_RX = 0x000"
definition UART_RXEMPTY :: u32 where "UART_RXEMPTY = 0x008"
definition UART_EV_PENDING :: u32 where "UART_EV_PENDING = 0x010"
definition UART_EV_ENABLE :: u32 where "UART_EV_ENABLE = 0x014"

partial_function (option) receive_loop :: "monitor_linkage \<Rightarrow> monitor \<Rightarrow> (ub + monitor) option" where
  "receive_loop L st =
     (let (empty, st) = uart_rd UART_RXEMPTY st
      in if empty = 0
         then let (ch, st) = uart_rd UART_RX st;
                  st = uart_wr UART_EV_PENDING 2 st
              in Option.bind (console_char L ch st) (\<lambda>r. case r of Inl e \<Rightarrow> Some (Inl e) | Inr st \<Rightarrow> receive_loop L st)
         else Some (Inr st))"

partial_function (option) stop_loop :: "monitor_linkage \<Rightarrow> monitor \<Rightarrow> (ub + monitor) option" where
  "stop_loop L st =
     Option.bind (receive_loop L st) (\<lambda>r. case r of
       Inl e \<Rightarrow> Some (Inl e) | Inr st \<Rightarrow> if STOP st \<noteq> 0 then stop_loop L st else Some (Inr st))"

text \<open>A trap ends with the return to the interrupted program or with the machine halted.\<close>

datatype trap_end = Resumed monitor | Halted monitor | Undefined ub

definition mach_exception_handler :: "monitor_linkage \<Rightarrow> eframe \<Rightarrow> monitor \<Rightarrow> trap_end option" where
  "mach_exception_handler L ef st =
     (let cause = mcsr st 0x342
      in if cause = 0x8000000b
         then map_option (\<lambda>r. case r of Inl e \<Rightarrow> Undefined e | Inr st \<Rightarrow> Resumed st) (stop_loop L (st\<lparr>EF := ef\<rparr>))
         else let st = emit (Xprintf (lit ''\<newline>** MACHINE EXCEPTION **\<newline>'') []) st;
                  st = fold (\<lambda>(fmt, ap). emit (Xprintf fmt ap))
                    (exception_calls (drop_bit 11 (mcsr st 0x300) AND 3) (mcsr st 0x300) cause (mcsr st 0x343) ef) st
              in Some (Halted (emit (Xprintf (lit ''\<newline>HALT\<newline>'') []) st)))"

definition start_monitor :: "monitor_linkage \<Rightarrow> monitor \<Rightarrow> monitor outcome" where
  "start_monitor L st =
     (let st = emit (Xprintf (lit ''\<newline>** Frobozz Magic Bootloader v0.2 **\<newline>\<newline>'') []) st;
          qemu = mcsr st 0xF11 = 0;
          st = set_csr 0x305 (mach_exception_entry L) st;
          st = set_csr 0x340 (0x40000000 + 0x8000) st;
          st = (if qemu then set_csr 0x3B0 0xFFFFFFFF (set_csr 0x3A0 (8 OR 4 OR 2 OR 1) st) else st);
          st = or_csr 0x303 (2 OR 32 OR 512) st;
          st = or_csr 0x302 0xFFFF st;
          st = set_csr 0x300 (push_bit 11 1 OR 0x80) st;
          st = emit (Xprintf (lit ''SVC ENTRY @0x%08x\<newline>\<newline>'') [Word (0x40000000 + 0x8000)]) st;
          st = uart_wr UART_EV_ENABLE 2 st;
          st = uart_wr UART_EV_PENDING 2 st;
          st = set_csr 0xBC0 (push_bit 1 1) st;
          st = or_csr 0x304 (push_bit 11 1) st
      in Jump (0x40000000 + 0x8000) st)"

declare dw_loop.simps [simp del] db_loop.simps [simp del] token_loop.simps [simp del]

end
