(* ===== verification/MonitorLines.thy ===== *)
theory MonitorLines
  imports Monitor Regions
begin

text \<open>
  What the boot monitor does with typed characters: the line buffer holds the edited line, its
  words are the command and its arguments, and the command runs as \<open>interpret_words\<close> says.
\<close>

section \<open>Splitting a line\<close>

lemma skip_spaces_cstr:
  assumes "cstr m p cs"
  shows "skip_spaces m p = Some (put_bytes m p (replicate (length (takeWhile (\<lambda>c. c = 32) cs)) 0),
    p + of_nat (length (takeWhile (\<lambda>c. c = 32) cs)))"
  using assms
proof (induction cs arbitrary: m p)
  case Nil
  then show ?case by (subst skip_spaces.simps) simp
next
  case (Cons c cs)
  have "length cs < unat (p - (p + 1))"
    using cstr_length [OF Cons.prems] by (simp add: unsigned_minus_1_eq_mask mask_eq_exp_minus_1)
  then have "cstr (m(p := 0)) (p + 1) cs" using Cons.prems by (simp add: cstr_update off_str_def)
  note ih = Cons.IH [OF this]
  show ?case using Cons.prems
    by (subst skip_spaces.simps) (cases "c = 32"; simp add: ih add.assoc del: fun_upd_apply)
qed

lemma skip_word_cstr:
  assumes "cstr m p (w @ rest)" "32 \<notin> set w" "rest = [] \<or> hd rest = 32"
  shows "skip_word m p = Some (rest = [], p + of_nat (length w))"
  using assms
proof (induction w arbitrary: p)
  case Nil
  then show ?case by (cases rest) (subst skip_word.simps; simp)+
next
  case (Cons c w)
  then have "skip_word m (p + 1) = Some (rest = [], p + 1 + of_nat (length w))" by (intro Cons.IH) simp_all
  with Cons.prems show ?case by (subst skip_word.simps) (auto simp: add.assoc)
qed

lemma same_off_put:
  assumes "same_off (p + of_nat k) n (put_bytes m p bs) m'" "length bs \<le> k" "k + n < 4294967296"
  shows "same_off p (k + n) m m'"
  unfolding same_off_def
proof (intro allI impI)
  fix x assume x: "k + n \<le> unat (x - p)"
  then have "n \<le> unat (x - (p + of_nat k))" using assms(3) by (subst unat_diff_offset) auto
  then have "m' x = put_bytes m p bs x" using assms(1) by (simp add: same_off_def)
  also have "\<dots> = m x" using x assms(2) by (intro put_bytes_outside) simp
  finally show "m' x = m x" .
qed

lemma before_offset:
  assumes "j < k" "k + n < 4294967296"
  shows "n \<le> unat (p + of_nat j - (p + of_nat k :: u32))"
  using assms before_region [of j "k - 1" n p] by simp

lemma token_loop_cstr:
  assumes "cstr m p cs" "length ts \<le> 16"
  shows "\<exists>m' qs. token_loop m p ts = Some (m', ts @ qs) \<and>
    length qs = min (16 - length ts) (length (tokens {32} cs)) \<and>
    (\<forall>i<length qs. length ts + i < 15 \<longrightarrow> cstr m' (qs ! i) (tokens {32} cs ! i)) \<and>
    same_off p (length cs) m m' \<and> (length ts < 16 \<longrightarrow> cs \<noteq> [] \<longrightarrow> hd cs = 32 \<longrightarrow> m' p = 0)"
  using assms
proof (induction "length cs" arbitrary: m p cs ts rule: less_induct)
  case less
  define skip where "skip = takeWhile (\<lambda>c. c = 32) cs"
  define rest where "rest = dropWhile (\<lambda>c. c = 32) cs"
  define w where "w = takeWhile (\<lambda>c. c \<noteq> 32) rest"
  define after where "after = dropWhile (\<lambda>c. c \<noteq> 32) rest"
  define m1 where "m1 = put_bytes m p (replicate (length skip) 0)"
  let ?q = "p + of_nat (length skip)"
  let ?k = "length skip + length w"
  let ?e = "p + of_nat ?k"
  have cs: "cs = skip @ w @ after" by (simp add: skip_def rest_def w_def after_def)
  note short = cstr_length [OF less.prems(1)]
  have tok: "tokens {32} cs = (if rest = [] then [] else w # tokens {32} (tl after))"
    by (simp add: tokens.simps [of _ cs] Let_def rest_def w_def after_def)
  have m1: "m1 (p + of_nat i) = (if i < length skip then 0 else m (p + of_nat i))" if "i \<le> length cs" for i
  proof (cases "i < length skip")
    case True
    then show ?thesis using short cs by (simp add: m1_def put_bytes_inside unat_of_nat32)
  next
    case False
    then have "unat (p + of_nat i - p) = i" using that short by (simp add: unat_of_nat32)
    with False show ?thesis by (simp add: m1_def put_bytes_outside)
  qed
  have str: "cstr m1 ?q (w @ after)"
  proof (rule cstr_cong)
    have "cstr m p (skip @ w @ after)" using less.prems(1) cs by simp
    then show "cstr m ?q (w @ after)" by (simp add: cstr_append)
    show "m1 (?q + of_nat i) = m (?q + of_nat i)" if "i \<le> length (w @ after)" for i
      using m1 [of "length skip + i"] that cs by (simp add: add.assoc)
  qed
  have skip: "skip_spaces m p = Some (m1, ?q)" using skip_spaces_cstr [OF less.prems(1)] by (simp add: m1_def skip_def)
  have after: "after = [] \<or> hd after = 32" using hd_dropWhile [of "\<lambda>c. c \<noteq> 32" rest] by (auto simp: after_def)
  have nw: "32 \<notin> set w" using set_takeWhileD by (force simp: w_def)
  have word: "skip_word m1 ?q = Some (after = [], ?e)"
    using skip_word_cstr [OF str nw after] by (simp add: add.assoc)
  have "hd rest \<noteq> 32" if "rest \<noteq> []" using hd_dropWhile [of "\<lambda>c. c = 32" cs] that by (simp add: rest_def)
  then have ends: "rest = [] \<longleftrightarrow> w = []" by (cases rest) (auto simp: w_def)
  have off1: "same_off p (length cs) m m1"
    using cs by (auto simp: same_off_def m1_def intro!: put_bytes_outside)
  have first: "m1 p = 0" if "cs \<noteq> []" "hd cs = 32"
    using m1 [of 0] that by (cases cs) (auto simp: skip_def)
  show ?case
  proof (cases "length ts < 16")
    case False
    then have "token_loop m p ts = Some (m, ts)" by (subst token_loop.simps) (simp add: MAXTOK_def)
    then show ?thesis using False less.prems(2) by (intro exI [of _ m] exI [of _ "[]"]) (simp add: same_off_def)
  next
    case room: True
    have step: "token_loop m p ts = (if after = [] then if w \<noteq> [] then Some (m1(?e := 0), ts @ [?q]) else Some (m1, ts)
        else token_loop m1 ?e (ts @ [?q]))"
    proof -
      have "?q \<noteq> ?e \<longleftrightarrow> w \<noteq> []"
        using short u32_of_nat_inj [of "length skip" ?k] unfolding cs by (auto simp del: of_nat_add)
      then show ?thesis
        using room by (subst token_loop.simps) (simp add: MAXTOK_def skip word)
    qed
    show ?thesis
    proof (cases "after = []")
      case True
      have "m1 ?e = 0" using str True by (simp add: cstr_iff add.assoc)
      then have m1': "m1(?e := 0) = m1" by (simp add: fun_upd_idem)
      have tl: "tokens {32} (tl after) = []" using True by simp
      show ?thesis
      proof (cases "w = []")
        case True
        then show ?thesis
          using step \<open>after = []\<close> tok ends off1 first by (intro exI [of _ m1] exI [of _ "[]"]) auto
      next
        case False
        then show ?thesis
          using step m1' \<open>after = []\<close> tok ends off1 first str room
          by (intro exI [of _ m1] exI [of _ "[?q]"]) (auto simp: min_def)
      qed
    next
      case False
      then have "w \<noteq> []" using ends by (auto simp: after_def)
      then have lt: "length after < length cs" "0 < ?k" "?k + length after = length cs" using cs by simp_all
      have "cstr m1 ?e after" using str by (simp add: cstr_append add.assoc)
      from less.hyps [OF lt(1) this, of "ts @ [?q]"] room obtain m' qs where
        run: "token_loop m1 ?e (ts @ [?q]) = Some (m', ts @ [?q] @ qs)"
        and len: "length qs = min (15 - length ts) (length (tokens {32} after))"
        and strs: "\<forall>i<length qs. Suc (length ts + i) < 15 \<longrightarrow> cstr m' (qs ! i) (tokens {32} after ! i)"
        and same: "same_off ?e (length after) m1 m'"
        and zero: "length ts < 15 \<longrightarrow> m' ?e = 0"
        using False after by auto
      have tl: "tokens {32} after = tokens {32} (tl after)"
        using False after by (cases after; simp) (subst (1 2) tokens.simps, simp)
      have before: "m' (p + of_nat j) = m1 (p + of_nat j)" if "j < ?k" for j
        using same before_offset [OF that, of "length after" p] lt short by (simp add: same_off_def)
      have "cstr m' ?q w" if "length ts < 15"
      proof (rule cstr_cut [OF str])
        show "m' (?q + of_nat i) = m1 (?q + of_nat i)" if "i < length w" for i
          using before [of "length skip + i"] that by (simp add: add.assoc)
        show "m' (?q + of_nat (length w)) = 0" using zero that by (simp add: add.assoc)
      qed
      moreover have "tokens {32} cs = w # tokens {32} after" using tok tl ends \<open>w \<noteq> []\<close> by simp
      moreover have "same_off p (length cs) m m'"
        using same_off_put [of p ?k "length after" m _ m'] same lt short by (simp add: m1_def)
      moreover have "m' p = 0" if "cs \<noteq> []" "hd cs = 32" using before [of 0] lt first [OF that] by simp
      ultimately show ?thesis
        using run len strs step False room
        by (intro exI [of _ m'] exI [of _ "?q # qs"]) (auto simp: nth_Cons' min_def)
    qed
  qed
qed

section \<open>Numbers\<close>

definition hex_digits :: "u8 list \<Rightarrow> u8 list" where
  "hex_digits cs = takeWhile (\<lambda>c. nibble c \<noteq> None) cs"

definition hex_number :: "u8 list \<Rightarrow> nat" where
  "hex_number cs = foldl (\<lambda>n c. 16 * n + unat (the (nibble c))) 0 (hex_digits cs)"

lemma nibble_less:
  assumes "nibble c = Some v"
  shows "unat v < 16" and "c \<noteq> 0"
proof -
  have c: "97 \<le> unat c \<and> unat c \<le> 102 \<and> v = ucast c - 97 + 10 \<or> 65 \<le> unat c \<and> unat c \<le> 70 \<and> v = ucast c - 65 + 10 \<or>
      48 \<le> unat c \<and> unat c \<le> 57 \<and> v = ucast c - 48"
    using assms by (auto simp: nibble_def word_le_nat_alt split: if_splits)
  then show "unat v < 16" by (auto simp: unat_sub32 unat_add32)
  show "c \<noteq> 0" using c by auto
qed

lemma shift_or_add:
  fixes n v :: u32
  assumes "unat v < 16"
  shows "push_bit 4 n OR v = 16 * n + v"
proof -
  have v: "v = take_bit 4 v" using assms by (simp add: take_bit_eq_mod word_unat_eq_iff unat_mod)
  have "push_bit 4 n OR v = push_bit 4 n + v"
    by (subst (1 2) v) (rule disjunctive_add [symmetric], auto simp: bit_simps)
  then show ?thesis by (simp add: push_bit_eq_mult mult.commute)
qed

lemma atox_loop_cstr:
  "cstr m s cs \<Longrightarrow> atox_loop m s (of_nat n) =
    Some (of_nat (foldl (\<lambda>n c. 16 * n + unat (the (nibble c))) n (hex_digits cs)))"
proof (induction cs arbitrary: s n)
  case Nil
  then show ?case by (subst atox_loop.simps) (simp add: hex_digits_def)
next
  case (Cons c cs)
  show ?case
  proof (cases "nibble c")
    case None
    with Cons.prems show ?thesis by (subst atox_loop.simps) (simp add: hex_digits_def)
  next
    case (Some v)
    have "push_bit 4 (of_nat n) OR v = of_nat (16 * n + unat v)"
      using shift_or_add [OF nibble_less(1) [OF Some], of "of_nat n"] by simp
    with Cons.IH [of "s + 1" "16 * n + unat v"] Cons.prems Some show ?thesis
      by (subst atox_loop.simps) (simp add: hex_digits_def)
  qed
qed

lemma atox_cstr: "cstr m s cs \<Longrightarrow> atox m s = Some (of_nat (hex_number cs))"
  using atox_loop_cstr [of m s cs 0] by (simp add: atox_def hex_number_def)

section \<open>Lines as commands\<close>

text \<open>What a line asks for, given its words; \<open>t\<close> is the address of the first.\<close>

definition interpret_words :: "monitor_linkage \<Rightarrow> u32 \<Rightarrow> u8 list list \<Rightarrow> monitor \<Rightarrow> monitor" where
  "interpret_words L t words st =
     (case words of
        [] \<Rightarrow> st
      | w # ws \<Rightarrow>
          case find (\<lambda>cmd. lit (cmd_name cmd) = w) CMDS of
            None \<Rightarrow> emit (Xprintf (lit ''unknown command '%s'\<newline>'') [Str t w]) st
          | Some cmd \<Rightarrow>
              if length (cmd_args cmd) < length ws
              then emit (Xprintf (lit ''error: too many arguments\<newline>'') []) st
              else console_call_cmd L (cmd_fn cmd)
                     (map (\<lambda>w. of_nat (hex_number w)) ws @ replicate (4 - length ws) 0) (of_nat (length ws)) st)"

lemma find_cmd_cstr:
  assumes "list_all2 (\<lambda>a cmd. cstr m a (lit (cmd_name cmd))) names cmds" "cstr m t w"
  shows "find_cmd m (zip names cmds) t = Some (find (\<lambda>cmd. lit (cmd_name cmd) = w) cmds)"
  using assms(1)
proof (induction rule: list_all2_induct)
  case (Cons a as cmd cmds)
  from strcmp_zero [OF Cons(1) assms(2)] obtain r where "strcmp m a t = Some r" "r = 0 \<longleftrightarrow> lit (cmd_name cmd) = w"
    by blast
  then show ?case using Cons by auto
qed simp

lemma fill_argx_hex:
  assumes "set fmt \<subseteq> {CHR ''x''}" "n + length fmt \<le> length argx" "length args = length ws"
    and "\<And>i. i < length ws \<Longrightarrow> cstr m (args ! i) (ws ! i)"
  shows "fill_argx L m fmt args n argx = Some (Inr (Some (take n argx
    @ map (\<lambda>i. if i < length ws then of_nat (hex_number (ws ! i)) else 0) [n..<n + length fmt]
    @ drop (n + length fmt) argx)))"
  using assms(1,2)
proof (induction fmt arbitrary: n argx)
  case Nil
  then show ?case by simp
next
  case (Cons t fmt)
  let ?v = "if n < length ws then of_nat (hex_number (ws ! n)) else 0"
  have "fill_argx L m (t # fmt) args n argx = fill_argx L m fmt args (Suc n) (argx[n := ?v])"
    using Cons.prems assms(3) atox_cstr [OF assms(4)] by simp
  also have "\<dots> = Some (Inr (Some (take (Suc n) (argx[n := ?v])
      @ map (\<lambda>i. if i < length ws then of_nat (hex_number (ws ! i)) else 0) [Suc n..<Suc n + length fmt]
      @ drop (Suc n + length fmt) (argx[n := ?v]))))"
    using Cons.prems by (intro Cons.IH) simp_all
  also have "take (Suc n) (argx[n := ?v]) = take n argx @ [?v]"
    using Cons.prems by (simp add: take_Suc_conv_app_nth)
  also have "drop (Suc n + length fmt) (argx[n := ?v]) = drop (Suc n + length fmt) argx" by simp
  also have "[n..<n + length (t # fmt)] = n # [Suc n..<Suc n + length fmt]" by (simp add: upt_rec)
  ultimately show ?case by simp
qed

lemma CMDS_args: "cmd \<in> set CMDS \<Longrightarrow> set (cmd_args cmd) \<subseteq> {CHR ''x''} \<and> length (cmd_args cmd) \<le> 2"
  by (auto simp: CMDS_def)

lemma console_cmd_words:
  assumes "cmd \<in> set CMDS" "length args = length ws \<or> 15 \<le> length ws \<and> length args = 15"
    and "length ws < 15 \<Longrightarrow> (\<And>i. i < length ws \<Longrightarrow> cstr (mmem st) (args ! i) (ws ! i))"
  shows "console_cmd L cmd args st = Some (Inr (
    if length (cmd_args cmd) < length ws then emit (Xprintf (lit ''error: too many arguments\<newline>'') []) st
    else console_call_cmd L (cmd_fn cmd) (map (\<lambda>w. of_nat (hex_number w)) ws @ replicate (4 - length ws) 0)
      (of_nat (length ws)) st))"
proof (cases "length (cmd_args cmd) < length ws")
  case True
  then have "length args > length (cmd_args cmd)" using assms(2) CMDS_args [OF assms(1)] by auto
  with True show ?thesis by (simp add: console_cmd_def)
next
  case False
  note args = CMDS_args [OF assms(1)]
  have len: "length args = length ws" "length ws \<le> 2" using False args assms(2) by auto
  let ?f = "cmd_args cmd"
  have "fill_argx L (mmem st) ?f args 0 [0, 0, 0, 0] = Some (Inr (Some (take 0 [0, 0, 0, 0]
    @ map (\<lambda>i. if i < length ws then of_nat (hex_number (ws ! i)) else 0) [0..<0 + length ?f]
    @ drop (0 + length ?f) [0, 0, 0, 0])))"
    using args len by (intro fill_argx_hex assms(3)) auto
  moreover have "take 0 [0, 0, 0, 0]
    @ map (\<lambda>i. if i < length ws then of_nat (hex_number (ws ! i)) else 0) [0..<0 + length ?f]
    @ drop (0 + length ?f) [0, 0, 0, 0 :: u32] =
    map (\<lambda>w. of_nat (hex_number w)) ws @ replicate (4 - length ws) 0"
  proof (rule nth_equalityI)
    show "(take 0 [0, 0, 0, 0]
      @ map (\<lambda>i. if i < length ws then of_nat (hex_number (ws ! i)) else 0) [0..<0 + length ?f]
      @ drop (0 + length ?f) [0, 0, 0, 0 :: u32]) ! i =
      (map (\<lambda>w. of_nat (hex_number w)) ws @ replicate (4 - length ws) 0) ! i" if "i < length (take 0 [0, 0, 0, 0]
      @ map (\<lambda>i. if i < length ws then of_nat (hex_number (ws ! i)) else 0) [0..<0 + length ?f]
      @ drop (0 + length ?f) [0, 0, 0, 0 :: u32])" for i
    proof -
      have "drop (length ?f) [0, 0, 0, 0 :: u32] = replicate (4 - length ?f) 0"
        using args by (auto simp: numeral_eq_Suc le_Suc_eq)
      then show ?thesis using that False len args by (auto simp: nth_append)
    qed
  qed (use args len in auto)
  ultimately show ?thesis using False len args by (simp add: console_cmd_def Let_def)
qed

text \<open>The names of the commands in memory, apart from the line buffer.\<close>

definition monitor_linked :: "monitor_linkage \<Rightarrow> mem \<Rightarrow> bool" where
  "monitor_linked L m \<longleftrightarrow> list_all2 (\<lambda>a cmd.
     (\<forall>i\<le>length (cmd_name cmd). 128 \<le> unat (a + of_nat i - cmdbuf L)) \<and> cstr m a (lit (cmd_name cmd))) (cmd_names L) CMDS"

lemma monitor_linked_same:
  assumes "monitor_linked L m" "\<And>x. 128 \<le> unat (x - cmdbuf L) \<Longrightarrow> m' x = m x"
  shows "monitor_linked L m'"
  using assms(1) unfolding monitor_linked_def
proof (rule list_all2_mono)
  fix a cmd
  assume *: "(\<forall>i\<le>length (cmd_name cmd). 128 \<le> unat (a + of_nat i - cmdbuf L)) \<and> cstr m a (lit (cmd_name cmd))"
  have "cstr m' a (lit (cmd_name cmd))"
  proof (rule cstr_cong)
    show "m' (a + of_nat i) = m (a + of_nat i)" if "i \<le> length (lit (cmd_name cmd))" for i
      using assms(2) * that by simp
  qed (use * in simp)
  with * show "(\<forall>i\<le>length (cmd_name cmd). 128 \<le> unat (a + of_nat i - cmdbuf L)) \<and> cstr m' a (lit (cmd_name cmd))"
    by blast
qed

lemma monitor_linked_names:
  "monitor_linked L m \<Longrightarrow> list_all2 (\<lambda>a cmd. cstr m a (lit (cmd_name cmd))) (cmd_names L) CMDS"
  unfolding monitor_linked_def by (erule list_all2_mono) simp

lemma console_line_interprets:
  assumes linked: "monitor_linked L (mmem st)" and cs: "cstr (mmem st) (cmdbuf L) cs" "length cs \<le> 127"
  shows "\<exists>m' t. console_line L (cmdbuf L) st =
      Some (Inr (prompt (interpret_words L t (tokens {32} cs) (st\<lparr>mmem := m'\<rparr>)))) \<and>
    (\<forall>x. 128 \<le> unat (x - cmdbuf L) \<longrightarrow> m' x = mmem st x)"
proof -
  from token_loop_cstr [OF cs(1), of "[]"] obtain m' qs where
    run: "token_loop (mmem st) (cmdbuf L) [] = Some (m', qs)"
    and len: "length qs = min 16 (length (tokens {32} cs))"
    and strs: "\<forall>i<length qs. i < 15 \<longrightarrow> cstr m' (qs ! i) (tokens {32} cs ! i)"
    and same: "same_off (cmdbuf L) (length cs) (mmem st) m'" by auto
  have out: "m' x = mmem st x" if "128 \<le> unat (x - cmdbuf L)" for x
    using same that cs(2) by (simp add: same_off_def)
  have names: "list_all2 (\<lambda>a cmd. cstr m' a (lit (cmd_name cmd))) (cmd_names L) CMDS"
    by (rule monitor_linked_names [OF monitor_linked_same [OF linked out]])
  show ?thesis
  proof (cases "tokens {32} cs")
    case Nil
    then have "qs = []" using len by simp
    then show ?thesis using run out Nil
      by (intro exI [of _ m'] exI [of _ 0]) (simp add: console_line_def interpret_words_def)
  next
    case (Cons w ws)
    then obtain t args where qs: "qs = t # args" using len by (cases qs) auto
    then have args: "length args = length ws \<or> 15 \<le> length ws \<and> length args = 15" using len Cons by auto
    have t: "cstr m' t w" using strs qs Cons by auto
    have rest: "cstr m' (args ! i) (ws ! i)" if "length ws < 15" "i < length ws" for i
      using strs qs Cons args that by (auto dest: spec [of _ "Suc i"])
    note found = find_cmd_cstr [OF names t]
    let ?st = "st\<lparr>mmem := m'\<rparr>"
    have "console_line L (cmdbuf L) st = Some (Inr (prompt (interpret_words L t (w # ws) ?st)))"
    proof (cases "find (\<lambda>cmd. lit (cmd_name cmd) = w) CMDS")
      case None
      have "length w < 4294967296" by (rule cstr_length [OF t])
      then have "bytes m' t (unat (of_nat (length w) :: u32)) = w" using t by (simp add: unat_of_nat32 cstr_iff)
      with None run qs found strlen_cstr [OF t] show ?thesis
        by (simp add: console_line_def interpret_words_def)
    next
      case (Some cmd)
      then have "cmd \<in> set CMDS" by (auto simp: find_Some_iff)
      from console_cmd_words [OF this args, of ?st L] rest Some run qs found show ?thesis
        by (simp add: console_line_def interpret_words_def)
    qed
    with out Cons show ?thesis by auto
  qed
qed

section \<open>Editing\<close>

definition edit :: "u8 list \<Rightarrow> u32 \<Rightarrow> u8 list" where
  "edit s ch =
     (if ch = 8 \<or> ch = 127 then butlast s
      else if ch < 32 \<or> 127 < ch \<or> length s = 127 then s
      else s @ [ucast ch])"

definition typed :: "monitor_linkage \<Rightarrow> monitor \<Rightarrow> u8 list \<Rightarrow> bool" where
  "typed L st s \<longleftrightarrow> length s \<le> 127 \<and> cmdlen st = of_nat (length s) \<and>
     bytes (mmem st) (cmdbuf L) (length s) = s \<and> 0 \<notin> set s"

lemma bytes_update_end: "n < 4294967296 \<Longrightarrow> bytes (m(a + of_nat n := b)) a (Suc n) = bytes m a n @ [b]"
proof -
  assume n: "n < 4294967296"
  have "bytes (m(a + of_nat n := b)) a n = bytes m a n"
  proof (rule bytes_cong)
    fix i assume "i < n"
    then have "(of_nat i :: u32) \<noteq> of_nat n" using n u32_of_nat_inj [of i n] by simp
    then show "(m(a + of_nat n := b)) (a + of_nat i) = m (a + of_nat i)" by simp
  qed
  then show ?thesis using bytes_add [of "m(a + of_nat n := b)" a n 1] by simp
qed

lemma ascii_byte:
  fixes ch :: u32
  assumes "\<not> ch < 32" "\<not> 127 < ch"
  shows "(ucast ch :: u8) \<noteq> 0"
proof -
  have "unat ch \<noteq> 0" "unat ch < 256" using assms by (auto simp: word_less_nat_alt)
  then have "unat (ucast ch :: u8) \<noteq> 0" by (simp add: unsigned_ucast_eq take_bit_eq_mod)
  then show ?thesis by auto
qed

definition only_console :: "monitor \<Rightarrow> monitor \<Rightarrow> bool" where
  "only_console st st' \<longleftrightarrow> STOP st' = STOP st \<and> EF st' = EF st \<and> mcsr st' = mcsr st \<and> uart_dev st' = uart_dev st \<and>
     uart_reads st' = uart_reads st \<and> uart_log st' = uart_log st \<and> (\<exists>x. out st' = out st @ x)"

lemma console_char_typed:
  assumes "typed L st s" and "ch \<noteq> 13" and "ch \<noteq> 10"
  shows "\<exists>st'. console_char L ch st = Some (Inr st') \<and> typed L st' (edit s ch) \<and>
    only_console st st' \<and>
    (\<forall>x. 127 \<le> unat (x - cmdbuf L) \<longrightarrow> mmem st' x = mmem st x)"
proof -
  have s: "length s \<le> 127" "cmdlen st = of_nat (length s)" "bytes (mmem st) (cmdbuf L) (length s) = s" "0 \<notin> set s"
    using assms(1) by (simp_all add: typed_def)
  have len: "unat (cmdlen st) = length s" using s by (simp add: unat_of_nat32)
  have pos: "0 < cmdlen st \<longleftrightarrow> s \<noteq> []" "cmdlen st = 127 \<longleftrightarrow> length s = 127"
    using len by (auto simp: word_less_nat_alt word_unat_eq_iff)
  consider "ch = 8 \<or> ch = 127" | "ch \<noteq> 8" "ch \<noteq> 127" "ch < 32 \<or> 127 < ch \<or> length s = 127"
    | "ch \<noteq> 8" "ch \<noteq> 127" "\<not> ch < 32" "\<not> 127 < ch" "length s \<noteq> 127" by blast
  then show ?thesis
  proof cases
    case 1
    show ?thesis
    proof (cases s rule: rev_cases)
      case Nil
      then show ?thesis using 1 assms pos s by (auto simp: console_char_def edit_def emit_def typed_def only_console_def)
    next
      case (snoc r c)
      have "bytes (mmem st) (cmdbuf L) (length r) = r"
        using s(3) bytes_add [of "mmem st" "cmdbuf L" "length r" 1] snoc by simp
      then show ?thesis using 1 assms pos s snoc by (auto simp: console_char_def edit_def emit_def typed_def only_console_def Let_def)
    qed
  next
    case 2
    then show ?thesis using assms pos by (auto simp: console_char_def edit_def emit_def typed_def only_console_def)
  next
    case 3
    let ?m = "(mmem st)(cmdbuf L + of_nat (length s) := ucast ch)"
    have "bytes ?m (cmdbuf L) (Suc (length s)) = s @ [ucast ch]"
      using bytes_update_end [of "length s" "mmem st" "cmdbuf L"] s by simp
    moreover have "?m x = mmem st x" if "127 \<le> unat (x - cmdbuf L)" for x
    proof -
      have "unat (cmdbuf L + of_nat (length s) - cmdbuf L) < 127" using s(1) 3(5) by (simp add: unat_of_nat32)
      then have "x \<noteq> cmdbuf L + of_nat (length s)" using that by auto
      then show ?thesis by simp
    qed
    ultimately show ?thesis
      using 3 assms pos s ascii_byte [OF 3(3,4)] by (auto simp: console_char_def edit_def emit_def typed_def only_console_def Let_def)
  qed
qed

text \<open>A command reads memory and prints; it changes neither memory nor the line.\<close>

definition command_only :: "monitor \<Rightarrow> monitor \<Rightarrow> bool" where
  "command_only st st' \<longleftrightarrow> mmem st' = mmem st \<and> cmdlen st' = cmdlen st \<and> EF st' = EF st \<and>
     uart_dev st' = uart_dev st \<and> uart_reads st' = uart_reads st \<and> uart_log st' = uart_log st"

lemma command_only_refl: "command_only st st"
  by (simp add: command_only_def)

lemma command_only_trans: "command_only st st' \<Longrightarrow> command_only st' st'' \<Longrightarrow> command_only st st''"
  by (simp add: command_only_def)

lemma command_only_simps [simp]:
  "command_only st (emit x st') = command_only st st'" "command_only st (set_csr n v st') = command_only st st'"
  by (simp_all add: command_only_def emit_def set_csr_def)

lemma command_only_rdsafe: "command_only st st' \<Longrightarrow> command_only st (snd (rdsafe L n fail load addr st'))"
  by (simp add: rdsafe_def Let_def)

lemma dw_loop_only: "command_only st0 st \<Longrightarrow> command_only st0 (snd (dw_loop L n addr count st))"
proof (induction L n addr count st rule: dw_loop.induct)
  case (1 L n addr count st)
  show ?case
  proof (cases "n < count")
    case True
    let ?st = "if n AND 3 = 0 then emit (Xprintf (lit ''\<newline>%08x:'') [Word addr]) st else st"
    obtain w st1 where rd: "rd32safe L addr ?st = (w, st1)" by (cases "rd32safe L addr ?st") auto
    have "command_only st0 ?st" using 1(2) by simp
    then have "command_only st0 st1" using command_only_rdsafe [of st0 ?st L 4 "rd32fail L" load32 addr] rd
      by (simp add: rd32safe_def)
    then show ?thesis
      using 1(1) [OF True refl rd [symmetric] refl refl] rd True by (subst dw_loop.simps) (simp add: Let_def)
  qed (use 1 in \<open>simp add: dw_loop.simps\<close>)
qed

lemma db_column_only: "command_only st0 (snd p) \<Longrightarrow> command_only st0 (snd (db_column L addr count i p))"
  using command_only_rdsafe [of st0 "snd p" L 1 "rd8fail L" "\<lambda>m a. ucast (m a)" "addr + of_nat i"]
  by (cases p) (auto simp: db_column_def rd8safe_def Let_def split: prod.splits)

lemma db_columns_only: "command_only st0 (snd p) \<Longrightarrow> command_only st0 (snd (fold (db_column L addr count) js p))"
  by (induction js arbitrary: p) (simp_all add: db_column_only)

lemma db_loop_only: "command_only st0 st \<Longrightarrow> command_only st0 (db_loop L addr count st)"
proof (induction L addr count st rule: db_loop.induct)
  case (1 L addr count st)
  show ?case
  proof (cases "0 < count")
    case True
    let ?st = "emit (Xprintf (lit ''%08x:'') [Word addr]) st"
    obtain tx st1 where cols: "fold (db_column L addr count) [0..<16] ([], ?st) = (tx, st1)"
      by (cases "fold (db_column L addr count) [0..<16] ([], ?st)") auto
    have "command_only st0 st1"
      using db_columns_only [of st0 "([], ?st)" L addr count "[0..<16]"] 1(2) unfolding cols by simp
    then show ?thesis
      using 1(1) [OF True refl cols [symmetric] refl refl] cols True
      by (subst db_loop.simps) (simp add: Let_def del: upt_rec_numeral)
  qed (use 1 in \<open>simp add: db_loop.simps\<close>)
qed

lemma console_call_cmd_only: "command_only st (console_call_cmd L fn argx argc st)"
proof (cases fn)
  case Help
  then show ?thesis by (simp add: console_call_cmd_def do_help_def CMDS_def command_only_refl)
next
  case Dw
  then show ?thesis
    using dw_loop_only [OF command_only_refl]
    by (simp add: console_call_cmd_def do_dw_def Let_def split: prod.splits) (metis snd_conv)
next
  case Db
  then show ?thesis
    by (simp add: console_call_cmd_def do_db_def db_loop_only command_only_refl)
qed (simp_all add: console_call_cmd_def do_regs_def do_stop_def do_cont_def command_only_refl Let_def, simp_all add: command_only_def)

lemma interpret_words_only: "command_only st (interpret_words L t words st)"
  by (auto simp: interpret_words_def console_call_cmd_only command_only_refl split: list.split option.split)

text \<open>What the end of a line does.\<close>

definition line_done :: "monitor_linkage \<Rightarrow> u32 \<Rightarrow> u8 list list \<Rightarrow> mem \<Rightarrow> monitor \<Rightarrow> monitor" where
  "line_done L t words m st =
     (let st' = prompt (interpret_words L t words (st\<lparr>out := out st @ [Xputs [13, 10]], mmem := m\<rparr>))
      in st'\<lparr>mcsr := (mcsr st')(0x300 := mcsr st 0x300, 0x305 := mach_exception_entry L), cmdlen := 0\<rparr>)"

lemma line_done_keeps:
  assumes "\<And>x. 128 \<le> unat (x - cmdbuf L) \<Longrightarrow> m x = mmem st x"
  shows "typed L (line_done L t words m st) []" "EF (line_done L t words m st) = EF st"
    and "monitor_linked L (mmem st) \<Longrightarrow> monitor_linked L (mmem (line_done L t words m st))"
    and "mcsr (line_done L t words m st) 0x300 = mcsr st 0x300"
    and "\<And>x. 128 \<le> unat (x - cmdbuf L) \<Longrightarrow> mmem (line_done L t words m st) x = mmem st x"
proof -
  let ?st = "st\<lparr>out := out st @ [Xputs [13, 10]], mmem := m\<rparr>"
  have *: "mmem (interpret_words L t words ?st) = m" "EF (interpret_words L t words ?st) = EF st"
    using interpret_words_only [of ?st L t words] by (simp_all add: command_only_def)
  show "typed L (line_done L t words m st) []" "EF (line_done L t words m st) = EF st"
    "mcsr (line_done L t words m st) 0x300 = mcsr st 0x300"
    using * by (simp_all add: line_done_def typed_def prompt_def emit_def Let_def)
  have mem: "mmem (line_done L t words m st) = m" using * by (simp add: line_done_def prompt_def emit_def Let_def)
  show "monitor_linked L (mmem (line_done L t words m st))" if "monitor_linked L (mmem st)"
    unfolding mem by (rule monitor_linked_same [OF that assms])
  show "mmem (line_done L t words m st) x = mmem st x" if "128 \<le> unat (x - cmdbuf L)" for x
    unfolding mem by (rule assms [OF that])
qed

lemma console_char_line:
  assumes linked: "monitor_linked L (mmem st)" and s: "typed L st s" and ch: "ch = 13 \<or> ch = 10"
  shows "\<exists>m t. console_char L ch st = Some (Inr (line_done L t (tokens {32} s) m st)) \<and>
    (\<forall>x. 128 \<le> unat (x - cmdbuf L) \<longrightarrow> m x = mmem st x)"
proof -
  have len: "length s \<le> 127" "cmdlen st = of_nat (length s)" using s by (simp_all add: typed_def)
  let ?m = "(mmem st)(cmdbuf L + cmdlen st := 0)"
  let ?st = "st\<lparr>out := out st @ [Xputs [13, 10]], mmem := ?m\<rparr>"
  have "bytes ?m (cmdbuf L) (Suc (length s)) = s @ [0]"
    using bytes_update_end [of "length s" "mmem st" "cmdbuf L" 0] s by (simp add: typed_def)
  then have "bytes ?m (cmdbuf L) (length s) = s" "?m (cmdbuf L + of_nat (length s)) = 0"
    using bytes_add [of ?m "cmdbuf L" "length s" 1] by simp_all
  then have str: "cstr (mmem ?st) (cmdbuf L) s" using s by (simp add: typed_def cstr_iff)
  have out: "?m x = mmem st x" if "128 \<le> unat (x - cmdbuf L)" for x
  proof -
    have "unat (cmdbuf L + cmdlen st - cmdbuf L) < 128" using len by (simp add: unat_of_nat32)
    then have "x \<noteq> cmdbuf L + cmdlen st" using that by auto
    then show ?thesis by simp
  qed
  have "monitor_linked L ?m" by (rule monitor_linked_same [OF linked out])
  then have "monitor_linked L (mmem ?st)" by (simp del: fun_upd_apply)
  from console_line_interprets [OF this str len(1)] obtain m' t where
    run: "console_line L (cmdbuf L) ?st = Some (Inr (prompt (interpret_words L t (tokens {32} s) (?st\<lparr>mmem := m'\<rparr>))))"
    and same: "\<forall>x. 128 \<le> unat (x - cmdbuf L) \<longrightarrow> m' x = mmem ?st x" by blast
  have "?st\<lparr>mmem := m'\<rparr> = st\<lparr>out := out st @ [Xputs [13, 10]], mmem := m'\<rparr>" by simp
  moreover have "console_char L ch st = map_option (map_sum id (\<lambda>st'.
      st'\<lparr>mcsr := (mcsr st')(0x300 := mcsr st 0x300, 0x305 := mach_exception_entry L), cmdlen := 0\<rparr>))
      (console_line L (cmdbuf L) ?st)"
    using ch by (simp add: console_char_def Let_def emit_def set_csr_def)
  ultimately have "console_char L ch st = Some (Inr (line_done L t (tokens {32} s) m' st))"
    using run by (simp add: line_done_def Let_def)
  moreover have "\<forall>x. 128 \<le> unat (x - cmdbuf L) \<longrightarrow> m' x = mmem st x" using same out by simp
  ultimately show ?thesis by blast
qed

text \<open>Any characters, one after the other.\<close>

fun console_chars :: "monitor_linkage \<Rightarrow> u32 list \<Rightarrow> monitor \<Rightarrow> (ub + monitor) option" where
  "console_chars L [] st = Some (Inr st)"
| "console_chars L (ch # chs) st =
     Option.bind (console_char L ch st) (\<lambda>r. case r of Inl e \<Rightarrow> Some (Inl e) | Inr st \<Rightarrow> console_chars L chs st)"

definition edit_line :: "u8 list \<Rightarrow> u32 \<Rightarrow> u8 list" where
  "edit_line s ch = (if ch = 13 \<or> ch = 10 then [] else edit s ch)"

lemma console_chars_typed:
  "monitor_linked L (mmem st) \<Longrightarrow> typed L st s \<Longrightarrow>
    \<exists>st'. console_chars L chs st = Some (Inr st') \<and> typed L st' (foldl edit_line s chs) \<and>
      monitor_linked L (mmem st') \<and> (\<forall>x. 128 \<le> unat (x - cmdbuf L) \<longrightarrow> mmem st' x = mmem st x)"
proof (induction chs arbitrary: st s)
  case (Cons ch chs)
  have "\<exists>st1. console_char L ch st = Some (Inr st1) \<and> typed L st1 (edit_line s ch) \<and>
      (\<forall>x. 128 \<le> unat (x - cmdbuf L) \<longrightarrow> mmem st1 x = mmem st x)"
  proof (cases "ch = 13 \<or> ch = 10")
    case True
    from console_char_line [OF Cons.prems True] obtain m t where
      "console_char L ch st = Some (Inr (line_done L t (tokens {32} s) m st))"
      "\<And>x. 128 \<le> unat (x - cmdbuf L) \<Longrightarrow> m x = mmem st x" by blast
    with line_done_keeps(1,5) [where m = m and st = st and L = L] True show ?thesis by (auto simp: edit_line_def)
  next
    case False
    then show ?thesis using console_char_typed [OF Cons.prems(2), of ch] by (auto simp: edit_line_def)
  qed
  then obtain st1 where st1: "console_char L ch st = Some (Inr st1)" "typed L st1 (edit_line s ch)"
    "\<And>x. 128 \<le> unat (x - cmdbuf L) \<Longrightarrow> mmem st1 x = mmem st x" by blast
  from Cons.IH [OF monitor_linked_same [OF Cons.prems(1) st1(3)] st1(2)] st1 show ?case by auto
qed simp

section \<open>Properties\<close>

definition example_monitor_linkage :: monitor_linkage where
  "example_monitor_linkage = \<lparr>cmdbuf = 0x1000, cmd_names = [0x2000, 0x2010, 0x2020, 0x2030, 0x2040, 0x2050],
     empty_string = 0x2060, txt_addr = 0x3000, rd32fail = 0, rd8fail = 0, mach_exception_entry = 0x80,
     readable = (\<lambda>n a. True), trap_status = id, trap_cause = (\<lambda>n a. 5), trap_value = (\<lambda>n a. a)\<rparr>"

definition example_rodata :: mem where
  "example_rodata = put_bytes (put_bytes (put_bytes (put_bytes (put_bytes (put_bytes (\<lambda>_. 0)
     0x2000 (lit ''help'')) 0x2010 (lit ''regs'')) 0x2020 (lit ''dw'')) 0x2030 (lit ''db''))
     0x2040 (lit ''stop'')) 0x2050 (lit ''cont'')"

definition example_monitor :: monitor where
  "example_monitor = \<lparr>mmem = example_rodata, out = [], cmdlen = 0, STOP = 0,
     EF = \<lparr>ef_ra = 0, ef_t0 = 0, ef_t1 = 0, ef_t2 = 0, ef_t3 = 0, ef_t4 = 0, ef_t5 = 0, ef_t6 = 0,
       ef_a0 = 0, ef_a1 = 0, ef_a2 = 0, ef_a3 = 0, ef_a4 = 0, ef_a5 = 0, ef_a6 = 0, ef_a7 = 0, ef_pc = 0,
       ef_sp = 0, ef_gp = 0, ef_tp = 0, ef_s0 = 0, ef_s1 = 0, ef_s2 = 0, ef_s3 = 0, ef_s4 = 0, ef_s5 = 0,
       ef_s6 = 0, ef_s7 = 0, ef_s8 = 0, ef_s9 = 0, ef_s10 = 0, ef_s11 = 0\<rparr>,
     mcsr = (\<lambda>_. 0), uart_dev = (\<lambda>_ _. 0), uart_reads = 0, uart_log = []\<rparr>"

lemma example_monitor_linked: "monitor_linked example_monitor_linkage (mmem example_monitor)"
proof -
  have small: "128 \<le> unat (a + of_nat i :: u32)" if "128 \<le> unat a" "unat a < 65536" "i \<le> 4" for a i
    using that by (simp add: unat_add32 unat_of_nat32)
  show ?thesis
    unfolding monitor_linked_def CMDS_def
    by (simp add: example_monitor_linkage_def example_monitor_def del: of_nat_Suc)
      (simp add: example_rodata_def of_char_def, (intro conjI allI impI; rule small; simp)+)
qed

lemma example_typed: "typed example_monitor_linkage example_monitor []"
  by (simp add: typed_def example_monitor_def)

text \<open>
  C23: whatever is typed, the line buffer holds the edited line: backspace removes the last
  character, control characters are ignored, and the line stops growing at 127 characters, so
  nothing outside the buffer of 128 bytes is ever written; a return runs the line and starts
  with an empty one.
\<close>

theorem console_chars_edit:
  assumes "monitor_linked L (mmem st)" and "typed L st s"
  shows "\<exists>st'. console_chars L chs st = Some (Inr st') \<and> typed L st' (foldl edit_line s chs) \<and>
    monitor_linked L (mmem st') \<and> (\<forall>x. 128 \<le> unat (x - cmdbuf L) \<longrightarrow> mmem st' x = mmem st x)"
  by (rule console_chars_typed [OF assms])

theorem console_chars_edit_witness:
  "\<exists>st'. console_chars example_monitor_linkage [104, 105, 8] example_monitor = Some (Inr st') \<and>
     typed example_monitor_linkage st' [104]"
  using console_chars_edit [OF example_monitor_linked example_typed, of "[104, 105, 8]"]
  by (auto simp: edit_line_def edit_def)

text \<open>
  C22: a return runs the line: its words, separated by spaces, are the command and its
  arguments, which are read as hexadecimal numbers; what runs is exactly that command, or a
  message says that it is unknown or has too many arguments (also for lines of more words than
  the table of tokens holds).  Afterwards the status register and the trap vector are as they
  were and the line is empty.
\<close>

theorem console_runs_line:
  assumes "monitor_linked L (mmem st)" and "typed L st s" and "ch = 13 \<or> ch = 10"
  shows "\<exists>m t. console_char L ch st = Some (Inr (line_done L t (tokens {32} s) m st)) \<and>
    (\<forall>x. 128 \<le> unat (x - cmdbuf L) \<longrightarrow> m x = mmem st x)"
  by (rule console_char_line [OF assms])

theorem console_runs_line_witness:
  "\<exists>m t. console_char example_monitor_linkage 13 example_monitor =
     Some (Inr (line_done example_monitor_linkage t [] m example_monitor))"
  using console_runs_line [OF example_monitor_linked example_typed, of 13] by auto

text \<open>
  \<open>atox\<close> returns on a C string with the value of the longest prefix of hexadecimal digits,
  modulo \<open>2 ^ 32\<close>.
\<close>

theorem atox_hex:
  assumes "cstr m s cs"
  shows "atox m s = Some (of_nat (hex_number cs))"
  by (rule atox_cstr [OF assms])

theorem atox_hex_witness:
  "atox (put_bytes (\<lambda>_. 0) 0x100 (lit ''1fZ'')) 0x100 = Some 0x1f"
proof -
  have "cstr (put_bytes (\<lambda>_. 0) 0x100 (lit ''1fZ'')) 0x100 (lit ''1fZ'')" by (simp add: of_char_def)
  moreover have "hex_number (lit ''1fZ'') = 31"
    by (simp add: hex_number_def hex_digits_def nibble_def of_char_def)
  ultimately show ?thesis using atox_hex [of _ "0x100" "lit ''1fZ''"] by simp
qed

end
