(* ===== verification/Drawing.thy ===== *)
theory Drawing
  imports Gfx
begin

text \<open>
  What the graphics library draws: the effect of every operation as a set of pixels and their
  colours (\<open>painted\<close>), with nothing else in memory changed, and the text console as cells.
\<close>

section \<open>Pixels\<close>

text \<open>A surface whose pixels are in memory, without going around the end of the address space.\<close>

definition surface_ok :: "gfx_surface \<Rightarrow> bool" where
  "surface_ok gs \<longleftrightarrow> gmethods gs = Rgb565 \<and> unat (gwidth gs) \<le> unat (gstride gs) \<and>
     unat (gpixels gs) + 2 * (unat (gstride gs) * unat (gheight gs)) < 4294967296"

definition pixel_address :: "gfx_surface \<Rightarrow> nat \<Rightarrow> nat \<Rightarrow> u32" where
  "pixel_address gs x y = gpixels gs + of_nat (2 * (x + y * unat (gstride gs)))"

definition pixel :: "gfx_surface \<Rightarrow> mem \<Rightarrow> nat \<Rightarrow> nat \<Rightarrow> u16" where
  "pixel gs m x y = load16 m (pixel_address gs x y)"

definition visible :: "gfx_surface \<Rightarrow> nat \<Rightarrow> nat \<Rightarrow> bool" where
  "visible gs x y \<longleftrightarrow> x < unat (gwidth gs) \<and> y < unat (gheight gs)"

text \<open>
  The effect of drawing: the pixels in \<open>P\<close> have the colours of \<open>f\<close>, every other pixel and every
  other byte of memory is what it was.
\<close>

definition painted :: "gfx_surface \<Rightarrow> (nat \<Rightarrow> nat \<Rightarrow> bool) \<Rightarrow> (nat \<Rightarrow> nat \<Rightarrow> u16) \<Rightarrow> mem \<Rightarrow> mem \<Rightarrow> bool" where
  "painted gs P f m m' \<longleftrightarrow>
     (\<forall>x y. visible gs x y \<longrightarrow> pixel gs m' x y = (if P x y then f x y else pixel gs m x y)) \<and>
     (\<forall>a. (\<forall>x y. visible gs x y \<longrightarrow> P x y \<longrightarrow> a \<noteq> pixel_address gs x y \<and> a \<noteq> pixel_address gs x y + 1) \<longrightarrow> m' a = m a)"

lemma painted_none: "painted gs (\<lambda>x y. False) f m m"
  by (simp add: painted_def)

lemma painted_weak:
  assumes "painted gs P f m m'" "\<And>x y. visible gs x y \<Longrightarrow> P x y = Q x y"
    and "\<And>x y. visible gs x y \<Longrightarrow> Q x y \<Longrightarrow> f x y = g x y"
  shows "painted gs Q g m m'"
  using assms unfolding painted_def by (metis (no_types, lifting))

lemma painted_trans:
  assumes "painted gs P f m m1" "painted gs Q g m1 m2"
  shows "painted gs (\<lambda>x y. P x y \<or> Q x y) (\<lambda>x y. if Q x y then g x y else f x y) m m2"
  using assms unfolding painted_def by (auto simp del: split_paired_All)

lemma pixel_index:
  assumes "surface_ok gs" "visible gs x y"
  shows "x + y * unat (gstride gs) < unat (gstride gs) * unat (gheight gs)"
proof -
  have "x < unat (gstride gs)" "Suc y \<le> unat (gheight gs)" using assms by (simp_all add: surface_ok_def visible_def)
  then have "x + y * unat (gstride gs) < Suc y * unat (gstride gs)" by simp
  also have "\<dots> \<le> unat (gheight gs) * unat (gstride gs)" using \<open>Suc y \<le> _\<close> by (rule mult_le_mono1)
  finally show ?thesis by (simp add: mult.commute)
qed

lemma unat_pixel_address:
  assumes "surface_ok gs" "x + y * unat (gstride gs) \<le> unat (gstride gs) * unat (gheight gs)"
  shows "unat (pixel_address gs x y) = unat (gpixels gs) + 2 * (x + y * unat (gstride gs))"
proof -
  have "2 * (x + y * unat (gstride gs)) < 4294967296" "unat (gpixels gs) + 2 * (x + y * unat (gstride gs)) < 4294967296"
    using assms by (simp_all add: surface_ok_def)
  then show ?thesis unfolding pixel_address_def
    by (subst unat_add32) (simp only: unat_of_nat32 if_True)
qed

lemma pixel_index_inj:
  assumes "x < w" "x' < w" "w \<le> s" "x + y * s = x' + y' * (s :: nat)"
  shows "x = x' \<and> y = y'"
proof -
  have "(x + y * s) mod s = x" "(x' + y' * s) mod s = x'" using assms(1-3) by simp_all
  then have "x = x'" unfolding assms(4) by simp
  then show ?thesis using assms by auto
qed

lemma load16_store16_apart: "apart 2 a b \<Longrightarrow> load16 (store16 m a v) b = load16 m b"
  using apart_offset [of 2 a b 0] apart_offset [of 2 a b 1]
  by (simp add: load16_def store16_outside)

lemma cells_apart:
  assumes "unat a = p + 2 * k" "unat b = p + 2 * k'" "k \<noteq> k'" "k < n" "k' < n" "p + 2 * n < 4294967296"
  shows "apart 2 a b"
proof -
  have "2 \<le> unat (a - b :: u32)" if "unat a = p + 2 * k" "unat b = p + 2 * k'" "k \<noteq> k'" "k < n" "k' < n" for a b k k'
    using that(3-5) assms(6) unfolding unat_sub32 that(1,2) by (cases "k' < k") auto
  then show ?thesis using assms unfolding apart_def by blast
qed

lemma painted_store:
  assumes ok: "surface_ok gs" and v: "visible gs x y"
  shows "painted gs (\<lambda>x' y'. x' = x \<and> y' = y) (\<lambda>x' y'. v) m (store16 m (pixel_address gs x y) v)"
proof -
  let ?s = "unat (gstride gs)"
  have apart: "apart 2 (pixel_address gs x y) (pixel_address gs x' y')"
    if "visible gs x' y'" "\<not> (x' = x \<and> y' = y)" for x' y'
  proof -
    note i = pixel_index [OF ok v] pixel_index [OF ok that(1)]
    have "x + y * ?s \<noteq> x' + y' * ?s"
      using pixel_index_inj [of x "unat (gwidth gs)" x' ?s y y'] that v ok by (auto simp: visible_def surface_ok_def)
    moreover have "unat (pixel_address gs x y) = unat (gpixels gs) + 2 * (x + y * ?s)"
      "unat (pixel_address gs x' y') = unat (gpixels gs) + 2 * (x' + y' * ?s)"
      using i by (intro unat_pixel_address [OF ok], simp)+
    moreover have "unat (gpixels gs) + 2 * (?s * unat (gheight gs)) < 4294967296" using ok by (simp add: surface_ok_def)
    ultimately show ?thesis using cells_apart i by blast
  qed
  have "pixel gs (store16 m (pixel_address gs x y) v) x' y' = (if x' = x \<and> y' = y then v else pixel gs m x' y')"
    if "visible gs x' y'" for x' y'
    using apart [OF that] by (auto simp: pixel_def load16_store16_apart)
  moreover have "store16 m (pixel_address gs x y) v a = m a"
    if "\<forall>x' y'. visible gs x' y' \<longrightarrow> x' = x \<and> y' = y \<longrightarrow> a \<noteq> pixel_address gs x' y' \<and> a \<noteq> pixel_address gs x' y' + 1" for a
    using that v by (simp add: store16_def)
  ultimately show ?thesis by (simp add: painted_def)
qed

lemma pixel_word_address:
  "gpixels gs + 2 * (x + y * gstride gs) = pixel_address gs (unat x) (unat y)"
  "gpixels gs + 2 * x + 2 * (y * gstride gs) = pixel_address gs (unat x) (unat y)"
  by (simp_all add: pixel_address_def distrib_left)

lemma pixel_address_next: "pixel_address gs x y + 2 = pixel_address gs (Suc x) y"
  "pixel_address gs x y + 2 * of_nat n = pixel_address gs (x + n) y"
  "pixel_address gs x y + 2 * gstride gs = pixel_address gs x (Suc y)"
  by (simp_all add: pixel_address_def algebra_simps)

section \<open>Points and lines\<close>

lemma plot16_painted:
  assumes "surface_ok gs"
  shows "painted gs (\<lambda>x' y'. x' = unat x \<and> y' = unat y) (\<lambda>x' y'. ucast pxl) m (plot16 gs x y pxl m)"
proof (cases "visible gs (unat x) (unat y)")
  case True
  then show ?thesis
    using painted_store [OF assms True, of "ucast pxl" m]
    unfolding plot16_def pixel_word_address(1)
    by (simp add: visible_def word_le_nat_alt not_le [symmetric])
next
  case False
  then have "plot16 gs x y pxl m = m" by (auto simp: plot16_def visible_def word_le_nat_alt not_less)
  then show ?thesis using False by (auto intro!: painted_weak [OF painted_none])
qed

lemma hline_loop_painted:
  assumes ok: "surface_ok gs" and "x + n \<le> unat (gwidth gs)" "y < unat (gheight gs)"
  shows "\<exists>m'. hline_loop (pixel_address gs x y) (pixel_address gs (x + n) y) pxl m = Some m' \<and>
    painted gs (\<lambda>x' y'. x \<le> x' \<and> x' < x + n \<and> y' = y) (\<lambda>x' y'. ucast pxl) m m'"
  using assms(2)
proof (induction n arbitrary: x m)
  case 0
  have "painted gs (\<lambda>x' y'. x \<le> x' \<and> x' < x + 0 \<and> y' = y) (\<lambda>x' y'. ucast pxl) m m"
    by (rule painted_weak [OF painted_none]) auto
  then show ?case by (subst hline_loop.simps) simp
next
  case (Suc n)
  have v: "visible gs x y" using Suc.prems assms(3) by (simp add: visible_def)
  have "x + Suc n + y * unat (gstride gs) \<le> unat (gstride gs) * unat (gheight gs)"
  proof -
    have "x + Suc n + y * unat (gstride gs) \<le> Suc y * unat (gstride gs)" using Suc.prems ok by (simp add: surface_ok_def)
    also have "\<dots> \<le> unat (gheight gs) * unat (gstride gs)" using assms(3) by (intro mult_le_mono1) simp
    finally show ?thesis by (simp add: mult.commute)
  qed
  then have less: "pixel_address gs x y < pixel_address gs (x + Suc n) y"
    using unat_pixel_address [OF ok, of x y] unat_pixel_address [OF ok, of "x + Suc n" y] by (simp add: word_less_nat_alt)
  let ?m = "store16 m (pixel_address gs x y) (ucast pxl)"
  from Suc.IH [of "Suc x" ?m] Suc.prems obtain m' where
    m': "hline_loop (pixel_address gs (Suc x) y) (pixel_address gs (Suc x + n) y) pxl ?m = Some m'"
    "painted gs (\<lambda>x' y'. Suc x \<le> x' \<and> x' < Suc x + n \<and> y' = y) (\<lambda>x' y'. ucast pxl) ?m m'" by auto
  have "painted gs (\<lambda>x' y'. x \<le> x' \<and> x' < x + Suc n \<and> y' = y) (\<lambda>x' y'. ucast pxl) m m'"
    by (rule painted_weak [OF painted_trans [OF painted_store [OF ok v] m'(2)]]) auto
  then show ?case using m'(1) less by (subst hline_loop.simps) (simp add: pixel_address_next)
qed

lemma hline16_painted:
  assumes ok: "surface_ok gs"
  shows "\<exists>m'. hline16 gs x0 y x1 pxl m = Some m' \<and>
    painted gs (\<lambda>x' y'. unat x0 \<le> x' \<and> x' < unat x1 \<and> y' = unat y) (\<lambda>x' y'. ucast pxl) m m'"
proof (cases "x0 \<ge> gwidth gs \<or> y \<ge> gheight gs \<or> x1 \<le> x0")
  case True
  then have "painted gs (\<lambda>x' y'. unat x0 \<le> x' \<and> x' < unat x1 \<and> y' = unat y) (\<lambda>x' y'. ucast pxl) m m"
    by (intro painted_weak [OF painted_none]) (auto simp: visible_def word_le_nat_alt)
  then show ?thesis using True by (simp add: hline16_def)
next
  case False
  let ?x1 = "if x1 > gwidth gs then gwidth gs else x1"
  have le: "unat x0 < unat ?x1" "unat ?x1 = min (unat (gwidth gs)) (unat x1)" "unat y < unat (gheight gs)"
    using False by (auto simp: word_le_nat_alt word_less_nat_alt)
  have "gpixels gs + 2 * x0 + 2 * (y * gstride gs) + 2 * ?x1 - 2 * x0 =
      pixel_address gs (unat x0 + (unat ?x1 - unat x0)) (unat y)"
    using le(1) by (simp add: pixel_address_def distrib_left del: if_split)
  moreover obtain m' where "hline_loop (pixel_address gs (unat x0) (unat y))
      (pixel_address gs (unat x0 + (unat ?x1 - unat x0)) (unat y)) pxl m = Some m'"
    "painted gs (\<lambda>x' y'. unat x0 \<le> x' \<and> x' < unat x0 + (unat ?x1 - unat x0) \<and> y' = unat y) (\<lambda>x' y'. ucast pxl) m m'"
    using hline_loop_painted [OF ok, of "unat x0" "unat ?x1 - unat x0" "unat y" pxl m] le by auto
  moreover from this(2) have "painted gs (\<lambda>x' y'. unat x0 \<le> x' \<and> x' < unat x1 \<and> y' = unat y) (\<lambda>x' y'. ucast pxl) m m'"
    by (rule painted_weak) (use le in \<open>auto simp: visible_def\<close>)
  ultimately show ?thesis using False unfolding hline16_def Let_def pixel_word_address(2) by auto
qed

lemma gfx_fill_painted:
  assumes ok: "surface_ok gs"
  shows "\<exists>m'. gfx_fill gs x0 y0 x1 y1 pxl m = Some m' \<and>
    painted gs (\<lambda>x y. unat x0 \<le> x \<and> x < unat x1 \<and> unat y0 \<le> y \<and> y < unat y1) (\<lambda>x y. ucast pxl) m m'"
proof (induction "unat y1 - unat y0" arbitrary: y0 m)
  case 0
  then have "painted gs (\<lambda>x y. unat x0 \<le> x \<and> x < unat x1 \<and> unat y0 \<le> y \<and> y < unat y1) (\<lambda>x y. ucast pxl) m m"
    by (intro painted_weak [OF painted_none]) auto
  then show ?case using 0 by (subst gfx_fill.simps) (simp add: word_less_nat_alt)
next
  case (Suc n)
  then have less: "y0 < y1" by (simp add: word_less_nat_alt)
  then have y0: "unat (y0 + 1) = Suc (unat y0)" by (rule unat_Suc_below)
  obtain m1 where m1: "hline16 gs x0 y0 x1 pxl m = Some m1"
    "painted gs (\<lambda>x' y'. unat x0 \<le> x' \<and> x' < unat x1 \<and> y' = unat y0) (\<lambda>x' y'. ucast pxl) m m1"
    using hline16_painted [OF ok] by blast
  obtain m2 where m2: "gfx_fill gs x0 (y0 + 1) x1 y1 pxl m1 = Some m2"
    "painted gs (\<lambda>x y. unat x0 \<le> x \<and> x < unat x1 \<and> unat (y0 + 1) \<le> y \<and> y < unat y1) (\<lambda>x y. ucast pxl) m1 m2"
    using Suc.hyps(1) [of "y0 + 1" m1] Suc.hyps(2) y0 by fastforce
  have "painted gs (\<lambda>x y. unat x0 \<le> x \<and> x < unat x1 \<and> unat y0 \<le> y \<and> y < unat y1) (\<lambda>x y. ucast pxl) m m2"
    by (rule painted_weak [OF painted_trans [OF m1(2) m2(2)]]) (use less y0 in \<open>auto simp: word_less_nat_alt\<close>)
  moreover have "surface_hline gs x0 y0 x1 pxl m = Some m1"
    using ok m1(1) by (simp add: surface_hline_def surface_ok_def)
  ultimately show ?case using less m2(1) by (subst gfx_fill.simps) simp
qed

section \<open>Characters\<close>

text \<open>The colour of a pixel of a character, by its row and column.\<close>

definition glyph :: "(nat \<Rightarrow> u8) \<Rightarrow> gfx_surface \<Rightarrow> u32 \<Rightarrow> nat \<Rightarrow> nat \<Rightarrow> u16" where
  "glyph rom gs c i j = ucast (if bit (rom (16 * unat (c AND 0xFF) + j)) (7 - i) then fgcolor gs else bgcolor gs)"

lemma shifted_bit:
  assumes "i \<le> 7"
  shows "push_bit i (ucast (b :: u8)) AND 0x80 \<noteq> (0 :: u32) \<longleftrightarrow> bit b (7 - i)"
proof -
  have "0x80 = push_bit 7 (1 :: u32)" by simp
  then have "push_bit i (ucast b) AND 0x80 \<noteq> (0 :: u32) \<longleftrightarrow> bit (push_bit i (ucast b :: u32)) 7"
    by (simp only: bit_iff_and_push_bit_not_eq_0)
  then show ?thesis using assms by (auto simp: bit_simps)
qed

lemma putc_row_painted:
  assumes ok: "surface_ok gs" and "x + n \<le> unat (gwidth gs)" "y < unat (gheight gs)"
  shows "\<exists>m'. putc_row fg bg n bits (pixel_address gs x y) m = (m', pixel_address gs (x + n) y) \<and>
    painted gs (\<lambda>x' y'. x \<le> x' \<and> x' < x + n \<and> y' = y)
      (\<lambda>x' y'. ucast (if push_bit (x' - x) bits AND 0x80 \<noteq> 0 then fg else bg)) m m'"
  using assms(2)
proof (induction n arbitrary: x bits m)
  case 0
  have "painted gs (\<lambda>x' y'. x \<le> x' \<and> x' < x + 0 \<and> y' = y)
      (\<lambda>x' y'. ucast (if push_bit (x' - x) bits AND 0x80 \<noteq> 0 then fg else bg)) m m"
    by (rule painted_weak [OF painted_none]) auto
  then show ?case by simp
next
  case (Suc n)
  have v: "visible gs x y" using Suc.prems assms(3) by (simp add: visible_def)
  let ?c = "ucast (if bits AND 0x80 \<noteq> 0 then fg else bg)"
  let ?m = "store16 m (pixel_address gs x y) ?c"
  from Suc.IH [of "Suc x" "push_bit 1 bits" ?m] Suc.prems obtain m' where
    m': "putc_row fg bg n (push_bit 1 bits) (pixel_address gs (Suc x) y) ?m = (m', pixel_address gs (Suc x + n) y)"
    "painted gs (\<lambda>x' y'. Suc x \<le> x' \<and> x' < Suc x + n \<and> y' = y)
      (\<lambda>x' y'. ucast (if push_bit (x' - Suc x) (push_bit 1 bits) AND 0x80 \<noteq> 0 then fg else bg)) ?m m'" by auto
  have shift: "push_bit (x' - Suc x) (push_bit 1 bits) = push_bit (x' - x) bits" if "Suc x \<le> x'" for x'
    using that by (simp add: push_bit_push_bit Suc_diff_le [symmetric] del: push_bit_Suc)
  have "painted gs (\<lambda>x' y'. x \<le> x' \<and> x' < x + Suc n \<and> y' = y)
      (\<lambda>x' y'. ucast (if push_bit (x' - x) bits AND 0x80 \<noteq> 0 then fg else bg)) m m'"
  proof (rule painted_weak [OF painted_trans [OF painted_store [OF ok v] m'(2)]], goal_cases)
    case (2 x' y')
    then show ?case using shift [of x'] by (cases "x' = x") (simp_all add: Suc_le_eq)
  qed auto
  then show ?case using m'(1) by (simp add: pixel_address_next)
qed

lemma putc_rows_painted:
  assumes ok: "surface_ok gs" and "x + 8 \<le> unat (gwidth gs)" "y + n \<le> unat (gheight gs)" "unat k + n < 4294967296"
  shows "painted gs (\<lambda>x' y'. x \<le> x' \<and> x' < x + 8 \<and> y \<le> y' \<and> y' < y + n)
    (\<lambda>x' y'. ucast (if bit (rom (unat k + (y' - y))) (7 - (x' - x)) then fg else bg)) m
    (putc_rows rom fg bg (gstride gs - 8) n k (pixel_address gs x y) m)"
  using assms(3,4)
proof (induction n arbitrary: y k m)
  case 0
  then show ?case by (auto intro!: painted_weak [OF painted_none])
next
  case (Suc n)
  from putc_row_painted [OF ok assms(2), of y fg bg "ucast (rom (unat k))" m] Suc.prems obtain m1 where
    m1: "putc_row fg bg 8 (ucast (rom (unat k))) (pixel_address gs x y) m = (m1, pixel_address gs (x + 8) y)"
    "painted gs (\<lambda>x' y'. x \<le> x' \<and> x' < x + 8 \<and> y' = y)
      (\<lambda>x' y'. ucast (if push_bit (x' - x) (ucast (rom (unat k))) AND 0x80 \<noteq> (0 :: u32) then fg else bg)) m m1" by auto
  have next_row: "pixel_address gs (x + 8) y + (2 * gstride gs - 16) = pixel_address gs x (Suc y)"
    by (simp add: pixel_address_def algebra_simps)
  have ch1: "unat (k + 1) = Suc (unat k)" using Suc.prems(2) by (simp add: unat_add32)
  let ?m2 = "putc_rows rom fg bg (gstride gs - 8) n (k + 1) (pixel_address gs x (Suc y)) m1"
  have m2: "painted gs (\<lambda>x' y'. x \<le> x' \<and> x' < x + 8 \<and> Suc y \<le> y' \<and> y' < Suc y + n)
    (\<lambda>x' y'. ucast (if bit (rom (unat (k + 1) + (y' - Suc y))) (7 - (x' - x)) then fg else bg)) m1 ?m2"
    using Suc.prems ch1 by (intro Suc.IH) simp_all
  have row: "unat (k + 1) + (y' - Suc y) = unat k + (y' - y)" if "Suc y \<le> y'" for y' using that ch1 by simp
  have "painted gs (\<lambda>x' y'. x \<le> x' \<and> x' < x + 8 \<and> y \<le> y' \<and> y' < y + Suc n)
    (\<lambda>x' y'. ucast (if bit (rom (unat k + (y' - y))) (7 - (x' - x)) then fg else bg)) m ?m2"
  proof (rule painted_weak [OF painted_trans [OF m1(2) m2]], goal_cases)
    case (2 x' y')
    then have "x' - x \<le> 7" by linarith
    with 2 show ?case using row [of y'] shifted_bit [of "x' - x" "rom (unat k)"] by (cases "y' = y") (simp_all add: Suc_le_eq)
  qed auto
  then show ?case using m1(1) by (simp add: Let_def CH_WIDTH_def next_row)
qed

text \<open>A character appears as a whole or not at all.\<close>

definition fits :: "gfx_surface \<Rightarrow> nat \<Rightarrow> nat \<Rightarrow> bool" where
  "fits gs x y \<longleftrightarrow> x + 8 \<le> unat (gwidth gs) \<and> y + 16 \<le> unat (gheight gs)"

lemma putc16_painted:
  assumes ok: "surface_ok gs"
  shows "painted gs (\<lambda>x' y'. fits gs (unat x) (unat y) \<and> unat x \<le> x' \<and> x' < unat x + 8 \<and> unat y \<le> y' \<and> y' < unat y + 16)
    (\<lambda>x' y'. glyph rom gs c (x' - unat x) (y' - unat y)) m (putc16 rom gs x y c m)"
proof -
  have big: "unat (gwidth gs) < 2147483648" "unat (gheight gs) < 2147483648" if "0 < unat (gwidth gs)" "0 < unat (gheight gs)"
  proof -
    let ?s = "unat (gstride gs)" and ?h = "unat (gheight gs)"
    have "?s * ?h < 2147483648" "unat (gwidth gs) \<le> ?s" using ok by (simp_all add: surface_ok_def)
    moreover have "?s \<le> ?s * ?h" "?h \<le> ?s * ?h" using that \<open>unat (gwidth gs) \<le> ?s\<close> by simp_all
    ultimately show "unat (gwidth gs) < 2147483648" "unat (gheight gs) < 2147483648" by linarith+
  qed
  have skip: "(x \<ge> gwidth gs \<or> x + CH_WIDTH > gwidth gs \<or> y \<ge> gheight gs \<or> y + CH_HEIGHT > gheight gs) \<longleftrightarrow>
      \<not> fits gs (unat x) (unat y)"
  proof (cases "unat x < unat (gwidth gs) \<and> unat y < unat (gheight gs)")
    case True
    then have "unat (x + 8) = unat x + 8" "unat (y + 16) = unat y + 16" using big by (simp_all add: unat_add32)
    with True show ?thesis by (auto simp: fits_def ch_size word_le_nat_alt word_less_nat_alt)
  qed (auto simp: fits_def ch_size word_le_nat_alt word_less_nat_alt)
  show ?thesis
  proof (cases "fits gs (unat x) (unat y)")
    case False
    then show ?thesis using skip by (auto simp: putc16_def intro!: painted_weak [OF painted_none])
  next
    case True
    have c: "unat (c AND 0xFF) \<le> 255"
      using unat_and_mask [of c 8] by (simp add: mask_eq_exp_minus_1)
    then have ch: "unat ((c AND 0xFF) * 16) = 16 * unat (c AND 0xFF)" by (simp add: unat_word_ariths)
    have "putc16 rom gs x y c m = putc_rows rom (fgcolor gs) (bgcolor gs) (gstride gs - 8) 16 ((c AND 0xFF) * 16)
        (pixel_address gs (unat x) (unat y)) m"
      using True skip unfolding putc16_def pixel_word_address(2) by (simp add: ch_size)
    with putc_rows_painted [OF ok, of "unat x" "unat y" 16 "(c AND 0xFF) * 16" rom "fgcolor gs" "bgcolor gs" m] True c ch
    show ?thesis by (auto simp: fits_def glyph_def elim!: painted_weak)
  qed
qed

section \<open>The text console\<close>

definition txt_ok :: "txt_surface \<Rightarrow> bool" where
  "txt_ok ts \<longleftrightarrow> surface_ok (txt_gs ts) \<and> unat (cw ts) * 8 \<le> unat (gwidth (txt_gs ts)) \<and>
     unat (ch ts) * 16 \<le> unat (gheight (txt_gs ts)) \<and> cx ts < cw ts \<and> cy ts < ch ts"

text \<open>The cursor counts cells in reading order, from the last one back to the first.\<close>

definition cell :: "txt_surface \<Rightarrow> nat" where
  "cell ts = unat (cy ts) * unat (cw ts) + unat (cx ts)"

definition same_screen :: "txt_surface \<Rightarrow> txt_surface \<Rightarrow> bool" where
  "same_screen ts ts' \<longleftrightarrow> txt_gs ts' = txt_gs ts \<and> cw ts' = cw ts \<and> ch ts' = ch ts"

lemma txt_newline_next:
  assumes "cy ts < ch ts" "0 < cw ts"
  shows "txt_newline ts = ts\<lparr>cx := 0, cy := of_nat (Suc (unat (cy ts)) mod unat (ch ts))\<rparr>"
proof -
  have y: "unat (cy ts + 1) = Suc (unat (cy ts))" by (rule unat_Suc_below [OF assms(1)])
  show ?thesis
  proof (cases "Suc (unat (cy ts)) = unat (ch ts)")
    case True
    then show ?thesis using y by (simp add: txt_newline_def Let_def word_le_nat_alt)
  next
    case False
    then have "Suc (unat (cy ts)) < unat (ch ts)" using assms(1) by (simp add: word_less_nat_alt)
    moreover have "(of_nat (Suc (unat (cy ts))) :: u32) = cy ts + 1" unfolding y [symmetric] by simp
    ultimately show ?thesis using y by (simp add: txt_newline_def Let_def word_le_nat_alt)
  qed
qed

lemma txt_newline_cell:
  assumes "cy ts < ch ts" "0 < cw ts"
  shows "cx (txt_newline ts) = 0" "unat (cy (txt_newline ts)) = Suc (unat (cy ts)) mod unat (ch ts)"
    "same_screen ts (txt_newline ts)" "cy (txt_newline ts) < ch ts"
proof -
  have "Suc (unat (cy ts)) mod unat (ch ts) < unat (ch ts)" using assms(1) by (simp add: word_less_nat_alt)
  then have "unat (of_nat (Suc (unat (cy ts)) mod unat (ch ts)) :: u32) = Suc (unat (cy ts)) mod unat (ch ts)"
    using unat_lt_pow32 [of "ch ts"] by (intro unat_of_nat32) linarith
  then show "cx (txt_newline ts) = 0" "unat (cy (txt_newline ts)) = Suc (unat (cy ts)) mod unat (ch ts)"
    "same_screen ts (txt_newline ts)" "cy (txt_newline ts) < ch ts"
    using \<open>_ < unat (ch ts)\<close> by (simp_all add: txt_newline_next [OF assms] same_screen_def word_less_nat_alt del: of_nat_Suc)
qed

lemma next_cell:
  assumes "y < h" "x < (w :: nat)"
  shows "(if Suc x = w then Suc y mod h * w else y * w + Suc x) = Suc (y * w + x) mod (h * w)"
proof (cases "Suc x = w")
  case True
  then have "Suc (y * w + x) = Suc y * w" by simp
  then have "Suc (y * w + x) mod (h * w) = Suc y mod h * w" by (simp only: mult_mod_left)
  then show ?thesis using True by simp
next
  case False
  have "Suc (y * w + x) < Suc y * w" using False assms(2) by simp
  also have "\<dots> \<le> h * w" using assms(1) by (intro mult_le_mono1) simp
  finally show ?thesis using False by simp
qed

lemma txt_putc_cell:
  assumes ok: "txt_ok ts"
  shows "case txt_putc rom c (ts, m) of (ts', m') \<Rightarrow>
    txt_ok ts' \<and> same_screen ts ts' \<and>
    (if c = 13 \<or> c = 10
     then m' = m \<and> cx ts' = 0 \<and> unat (cy ts') = Suc (unat (cy ts)) mod unat (ch ts)
     else cell ts' = Suc (cell ts) mod (unat (ch ts) * unat (cw ts)) \<and>
       painted (txt_gs ts) (\<lambda>x y. x div 8 = unat (cx ts) \<and> y div 16 = unat (cy ts))
         (\<lambda>x y. glyph rom (txt_gs ts) c (x mod 8) (y mod 16)) m m')"
proof -
  have lt: "cx ts < cw ts" "cy ts < ch ts" "0 < cw ts" and sok: "surface_ok (txt_gs ts)"
    using ok by (auto simp: txt_ok_def word_less_nat_alt)
  note nl = txt_newline_cell
  show ?thesis
  proof (cases "c = 13 \<or> c = 10")
    case True
    then show ?thesis using nl [OF lt(2,3)] ok lt(3) by (auto simp: txt_putc_def txt_ok_def same_screen_def)
  next
    case False
    let ?gs = "txt_gs ts" and ?x = "unat (cx ts)" and ?y = "unat (cy ts)"
    have xy: "?x < unat (cw ts)" "?y < unat (ch ts)" using lt by (simp_all add: word_less_nat_alt)
    then have room: "?x * 8 + 8 \<le> unat (gwidth ?gs)" "?y * 16 + 16 \<le> unat (gheight ?gs)"
      using ok by (auto simp: txt_ok_def)
    then have mul: "unat (cx ts * 8) = ?x * 8" "unat (cy ts * 16) = ?y * 16"
      using unat_lt_pow32 [of "gwidth ?gs"] unat_lt_pow32 [of "gheight ?gs"] by (simp_all add: unat_word_ariths)
    have "painted ?gs (\<lambda>x y. x div 8 = ?x \<and> y div 16 = ?y) (\<lambda>x y. glyph rom ?gs c (x mod 8) (y mod 16)) m
        (putc16 rom ?gs (cx ts * 8) (cy ts * 16) c m)"
    proof (rule painted_weak [OF putc16_painted [OF sok]])
      fix x y :: nat
      show "(fits ?gs (unat (cx ts * 8)) (unat (cy ts * 16)) \<and> unat (cx ts * 8) \<le> x \<and> x < unat (cx ts * 8) + 8 \<and>
          unat (cy ts * 16) \<le> y \<and> y < unat (cy ts * 16) + 16) = (x div 8 = ?x \<and> y div 16 = ?y)"
        unfolding mul fits_def using room by auto
      show "glyph rom ?gs c (x - unat (cx ts * 8)) (y - unat (cy ts * 16)) = glyph rom ?gs c (x mod 8) (y mod 16)"
        if "x div 8 = ?x \<and> y div 16 = ?y"
        unfolding mul using that by (auto simp: minus_div_mult_eq_mod [symmetric] mult.commute)
    qed
    then have draw: "painted ?gs (\<lambda>x y. x div 8 = ?x \<and> y div 16 = ?y) (\<lambda>x y. glyph rom ?gs c (x mod 8) (y mod 16)) m
        (gfx_putc rom ?gs (cx ts * CH_WIDTH) (cy ts * CH_HEIGHT) c m)"
      using sok by (simp add: gfx_putc_def surface_ok_def ch_size)
    have x1: "unat (cx ts + 1) = Suc ?x" by (rule unat_Suc_below [OF lt(1)])
    let ?ts = "ts\<lparr>cx := cx ts + 1\<rparr>"
    have "(txt_ok ts' \<and> same_screen ts ts' \<and> cell ts' = Suc (cell ts) mod (unat (ch ts) * unat (cw ts)))"
      if "ts' = (if cx ?ts \<ge> cw ?ts then txt_newline ?ts else ?ts)" for ts'
    proof (cases "Suc ?x = unat (cw ts)")
      case True
      then have "ts' = txt_newline ?ts" using that x1 by (simp add: word_le_nat_alt)
      moreover have "cy ?ts < ch ?ts" "0 < cw ?ts" using lt by simp_all
      ultimately show ?thesis
        using nl [of ?ts] True ok next_cell [OF xy(2,1)] lt
        by (simp add: txt_ok_def same_screen_def cell_def)
    next
      case False
      then have "ts' = ?ts" "cx ts + 1 < cw ts" using that x1 xy by (simp_all add: word_le_nat_alt word_less_nat_alt)
      then show ?thesis
        using False ok next_cell [OF xy(2,1)] x1 by (simp add: txt_ok_def same_screen_def cell_def)
    qed
    then show ?thesis using False draw by (simp add: txt_putc_def Let_def split: if_splits)
  qed
qed

lemma txt_init_ok:
  assumes "surface_ok gs" "8 \<le> unat (gwidth gs)" "16 \<le> unat (gheight gs)"
  shows "txt_ok (txt_init gs)"
  using assms by (simp add: txt_ok_def txt_init_def ch_size unat_div word_less_nat_alt div_greater_zero_iff)

section \<open>Properties\<close>

definition blank_surface :: gfx_surface where
  "blank_surface = \<lparr>gwidth = 0, gheight = 0, gstride = 0, gpixels = 0, gpixfmt = 0, fgcolor = 0, bgcolor = 0,
     gmethods = Unknown_format\<rparr>"

definition display :: gfx_surface where
  "display = gfx_init_display blank_surface"

lemma display_simps [simp]:
  "gwidth display = 640" "gheight display = 480" "gstride display = 640" "gpixels display = FRAMEBUFFER_BASE"
  "gmethods display = Rgb565" "fgcolor display = 0xFFFF" "bgcolor display = 0"
  by (simp_all add: display_def gfx_init_display_def gfx_init_def Let_def gfx_color_def color16_def
      PIXFMT_RGB565_def C_WHITE_def C_BLACK_def)

lemma display_ok: "surface_ok display"
  by (simp add: surface_ok_def FRAMEBUFFER_BASE_def)

text \<open>
  C29: \<open>gfx_fill\<close> returns; it gives exactly the pixels of the rectangle that are on the surface
  the colour, for any corners, and changes no other byte of memory.
\<close>

theorem gfx_fill_rectangle:
  assumes "surface_ok gs"
  shows "\<exists>m'. gfx_fill gs x0 y0 x1 y1 pxl m = Some m' \<and>
    painted gs (\<lambda>x y. unat x0 \<le> x \<and> x < unat x1 \<and> unat y0 \<le> y \<and> y < unat y1) (\<lambda>x y. ucast pxl) m m'"
  by (rule gfx_fill_painted [OF assms])

theorem gfx_fill_rectangle_witness:
  "\<exists>m'. gfx_fill display 630 470 1000 1000 0xF800 (\<lambda>_. 0) = Some m' \<and>
     pixel display m' 639 479 = 0xF800 \<and> pixel display m' 629 479 = 0"
proof -
  have "load16 (\<lambda>_. 0) a = 0" for a by (simp add: load16_def)
  then show ?thesis
    using gfx_fill_rectangle [OF display_ok, of 630 470 1000 1000 "0xF800" "\<lambda>_. 0"]
    by (auto simp: painted_def visible_def pixel_def)
qed

text \<open>
  C30: the text console.  A character is drawn in exactly the cell of the cursor, which then
  moves to the next cell in reading order, from the last back to the first; a carriage return or
  line feed moves it to the start of the next row and draws nothing.  The cursor never leaves the
  screen.
\<close>

theorem txt_putc_draws:
  assumes "txt_ok ts"
  shows "case txt_putc rom c (ts, m) of (ts', m') \<Rightarrow>
    txt_ok ts' \<and> same_screen ts ts' \<and>
    (if c = 13 \<or> c = 10
     then m' = m \<and> cx ts' = 0 \<and> unat (cy ts') = Suc (unat (cy ts)) mod unat (ch ts)
     else cell ts' = Suc (cell ts) mod (unat (ch ts) * unat (cw ts)) \<and>
       painted (txt_gs ts) (\<lambda>x y. x div 8 = unat (cx ts) \<and> y div 16 = unat (cy ts))
         (\<lambda>x y. glyph rom (txt_gs ts) c (x mod 8) (y mod 16)) m m')"
  by (rule txt_putc_cell [OF assms])

theorem txt_putc_draws_witness:
  "case txt_putc (\<lambda>_. 0xFF) 65 (txt_init display, \<lambda>_. 0) of (ts', m') \<Rightarrow>
     cell ts' = 1 \<and> pixel display m' 7 15 = 0xFFFF"
proof -
  have "txt_ok (txt_init display)" by (rule txt_init_ok [OF display_ok]) simp_all
  from txt_putc_draws [OF this, where rom = "\<lambda>_. 0xFF" and c = 65 and m = "\<lambda>_. 0"] show ?thesis
    by (auto simp: txt_init_def cell_def painted_def visible_def glyph_def ch_size bit_simps split: prod.splits)
qed

end
