(* ===== verification/Fractal.thy ===== *)
theory Fractal
  imports Drawing "HOL-Library.Signed_Division"
begin

text \<open>
  The Mandelbrot demos: \<open>render\<close> (here \<open>render_fractal\<close>) as the threads of
  \<^verbatim>\<open>example/ex10-threads-cooperative.c\<close> and \<^verbatim>\<open>example/ex11-threads-preemptive.c\<close> and the program
  \<^verbatim>\<open>xos/usr/mandelbrot.c\<close> have it, the functions of the four threads, and that program.
  Example 10 has a \<open>yield\<close> behind every row, which changes nothing of the thread.  Every operation on an \<open>int\<close> is checked: leaving its
  range is a fault.  The claims are that this never happens, and that every pixel gets the shade
  of the orbit of its point.  \<^verbatim>\<open>FractalThreads\<close> has the threads at the same time.
\<close>

section \<open>Code\<close>

datatype fault = Int_overflow | Div_zero

definition i32 :: "int \<Rightarrow> fault + int" where
  "i32 v = (if - 2147483648 \<le> v \<and> v < 2147483648 then Inr v else Inl Int_overflow)"

definition bind_ok :: "'e + 'a \<Rightarrow> ('a \<Rightarrow> 'e + 'b) \<Rightarrow> 'e + 'b" where
  "bind_ok r f = (case r of Inl e \<Rightarrow> Inl e | Inr v \<Rightarrow> f v)"

definition colors :: "u16 list" where
  "colors = [0x1111, 0x2222, 0x3333, 0x4444, 0x5555, 0x6666, 0x7777, 0x8888, 0x9999, 0xAAAA, 0xBBBB, 0xCCCC]"

text \<open>The loop over \<open>i\<close>, with the iterations that are left: when the orbit escapes.\<close>

fun escape_loop :: "int \<Rightarrow> int \<Rightarrow> nat \<Rightarrow> nat \<Rightarrow> int \<Rightarrow> int \<Rightarrow> fault + nat option" where
  "escape_loop x0 y0 0 i x y = Inr None"
| "escape_loop x0 y0 (Suc n) i x y =
     bind_ok (i32 (x * x)) (\<lambda>xx.
     bind_ok (i32 (y * y)) (\<lambda>yy.
     let x2 = xx sdiv 1000;
         y2 = yy sdiv 1000
     in bind_ok (i32 (x2 + y2)) (\<lambda>s.
        if s > 4000 then Inr (Some i)
        else bind_ok (i32 (2 * x)) (\<lambda>t.
             bind_ok (i32 (t * y)) (\<lambda>t.
             bind_ok (i32 (t sdiv 1000 + y0)) (\<lambda>y.
             bind_ok (i32 (x2 - y2)) (\<lambda>d.
             bind_ok (i32 (d + x0)) (\<lambda>x.
             escape_loop x0 y0 n (Suc i) x y))))))))"

text \<open>
  \<open>width\<close> and \<open>height\<close> are unsigned, so the divisions and sums with them are; a
  counter is compared unsigned and counted as an \<open>int\<close>.
\<close>

definition render_pixel :: "gfx_surface \<Rightarrow> int \<Rightarrow> u32 \<Rightarrow> u32 \<Rightarrow> mem \<Rightarrow> fault + mem" where
  "render_pixel gs y0 px py m =
     bind_ok (i32 (1750 * sint px)) (\<lambda>t.
     if gwidth gs = 0 then Inl Div_zero
     else let x0 = sint (- 1250 + word_of_int t div gwidth gs)
          in bind_ok (escape_loop x0 y0 500 0 0 0) (\<lambda>r.
             let c = (case r of None \<Rightarrow> 0 | Some i \<Rightarrow> ucast (colors ! (if i > 11 then 11 else i)))
             in Inr (gfx_plot (gs\<lparr>fgcolor := c\<rparr>) px py m)))"

function render_row :: "gfx_surface \<Rightarrow> int \<Rightarrow> u32 \<Rightarrow> u32 \<Rightarrow> u32 \<Rightarrow> mem \<Rightarrow> fault + mem" where
  "render_row gs y0 px px1 py m =
     (if px < px1
      then bind_ok (render_pixel gs y0 px py m) (\<lambda>m.
           if px = 0x7FFFFFFF then Inl Int_overflow else render_row gs y0 (px + 1) px1 py m)
      else Inr m)"
  by pat_completeness auto
termination
  by (relation "measure (\<lambda>(gs, y0, px, px1, py, m). unat (px1 - px))") simp_all

function render_rows :: "gfx_surface \<Rightarrow> u32 \<Rightarrow> u32 \<Rightarrow> u32 \<Rightarrow> u32 \<Rightarrow> mem \<Rightarrow> fault + mem" where
  "render_rows gs px0 py px1 py1 m =
     (if py < py1
      then bind_ok (i32 (1300 * sint py)) (\<lambda>t.
           if gheight gs = 0 then Inl Div_zero
           else let y0 = sint (650 - word_of_int t div gheight gs)
                in bind_ok (render_row gs y0 px0 px1 py m) (\<lambda>m.
                   if py = 0x7FFFFFFF then Inl Int_overflow else render_rows gs px0 (py + 1) px1 py1 m))
      else Inr m)"
  by pat_completeness auto
termination
  by (relation "measure (\<lambda>(gs, px0, py, px1, py1, m). unat (py1 - py))") simp_all

declare render_row.simps [simp del] render_rows.simps [simp del]

definition render_fractal :: "gfx_surface \<Rightarrow> u32 \<Rightarrow> u32 \<Rightarrow> u32 \<Rightarrow> u32 \<Rightarrow> mem \<Rightarrow> fault + u32 \<times> mem" where
  "render_fractal gs px0 py0 px1 py1 m = bind_ok (render_rows gs px0 py0 px1 py1 m) (\<lambda>m. Inr (2, m))"

text \<open>A thread's function; the string of its label is at the address \<open>s\<close>.\<close>

definition thread_body :: "(nat \<Rightarrow> u8) \<Rightarrow> gfx_surface \<Rightarrow> u32 \<Rightarrow> u32 \<Rightarrow> u32 \<Rightarrow> u32 \<Rightarrow> u32 \<Rightarrow> u32 \<Rightarrow> mem
    \<Rightarrow> (fault + u32 \<times> mem) option" where
  "thread_body rom gs x0 y0 x1 y1 c s m =
     Option.bind (gfx_fill gs x0 y0 x1 y1 (gfx_color gs c) m) (\<lambda>m.
     Option.bind (gfx_puts rom gs x0 (y1 - 16) s m) (\<lambda>m.
     Some (render_fractal gs x0 y0 x1 y1 m)))"

definition t1 :: "(nat \<Rightarrow> u8) \<Rightarrow> u32 \<Rightarrow> gfx_surface \<Rightarrow> mem \<Rightarrow> (fault + u32 \<times> mem) option" where
  "t1 rom s gs = thread_body rom gs 0 0 320 240 C_WHITE s"
definition t2 :: "(nat \<Rightarrow> u8) \<Rightarrow> u32 \<Rightarrow> gfx_surface \<Rightarrow> mem \<Rightarrow> (fault + u32 \<times> mem) option" where
  "t2 rom s gs = thread_body rom gs 320 240 640 480 C_GRAY75 s"
definition t3 :: "(nat \<Rightarrow> u8) \<Rightarrow> u32 \<Rightarrow> gfx_surface \<Rightarrow> mem \<Rightarrow> (fault + u32 \<times> mem) option" where
  "t3 rom s gs = thread_body rom gs 320 0 640 240 C_GRAY25 s"
definition t4 :: "(nat \<Rightarrow> u8) \<Rightarrow> u32 \<Rightarrow> gfx_surface \<Rightarrow> mem \<Rightarrow> (fault + u32 \<times> mem) option" where
  "t4 rom s gs = thread_body rom gs 0 240 320 480 C_GRAY50 s"

definition C_BLUE :: u32 where "C_BLUE = 0x000000FF"

text \<open>The screen of \<^verbatim>\<open>xos/usr/mandelbrot.c\<close>, and what the program draws.\<close>

definition xos_screen :: gfx_surface where
  "xos_screen = gfx_init \<lparr>gwidth = 640, gheight = 480, gstride = 640, gpixels = 0x20000000,
     gpixfmt = PIXFMT_RGB565, fgcolor = C_WHITE, bgcolor = C_BLUE, gmethods = Unknown_format\<rparr>"

definition start_mandelbrot :: "mem \<Rightarrow> (fault + u32 \<times> mem) option" where
  "start_mandelbrot m =
     Option.bind (gfx_clear xos_screen C_BLUE m) (\<lambda>m. Some (render_fractal xos_screen 0 0 640 480 m))"

section \<open>Orbits\<close>

definition orbit_step :: "int \<Rightarrow> int \<Rightarrow> int \<times> int \<Rightarrow> int \<times> int" where
  "orbit_step x0 y0 z =
     (fst z * fst z sdiv 1000 - snd z * snd z sdiv 1000 + x0, 2 * fst z * snd z sdiv 1000 + y0)"

definition orbit :: "int \<Rightarrow> int \<Rightarrow> nat \<Rightarrow> int \<times> int" where
  "orbit x0 y0 i = (orbit_step x0 y0 ^^ i) (0, 0)"

definition far_out :: "int \<times> int \<Rightarrow> bool" where
  "far_out z \<longleftrightarrow> 4000 < fst z * fst z sdiv 1000 + snd z * snd z sdiv 1000"

definition escape_time :: "int \<Rightarrow> int \<Rightarrow> nat \<Rightarrow> nat option" where
  "escape_time x0 y0 n = find (\<lambda>i. far_out (orbit x0 y0 i)) [0..<n]"

lemma sdiv_square: "x * x sdiv 1000 = x * x div (1000 :: int)"
  by (simp add: signed_divide_int_def sgn_if)

lemma orbit_Suc: "orbit x0 y0 (Suc i) = orbit_step x0 y0 (orbit x0 y0 i)"
  by (simp add: orbit_def)

lemma square_bound: "\<bar>x\<bar> \<le> (b :: int) \<Longrightarrow> 0 \<le> x * x \<and> x * x \<le> b * b"
  using mult_mono [of "\<bar>x\<bar>" b "\<bar>x\<bar>" b] by (simp add: abs_mult_self_eq)

lemma div_sum_bound: "a div 1000 + b div 1000 \<le> 4000 \<Longrightarrow> a + b \<le> (4001998 :: int)"
  using mult_div_mod_eq [of 1000 a] mult_div_mod_eq [of 1000 b] pos_mod_bound [of 1000 a] pos_mod_bound [of 1000 b]
  by linarith

lemma div_bound: "0 \<le> a \<Longrightarrow> a < 1000 * (k + 1) \<Longrightarrow> 0 \<le> a div 1000 \<and> a div 1000 \<le> (k :: int)"
proof
  assume "0 \<le> a" "a < 1000 * (k + 1)"
  then show "0 \<le> a div 1000" by (simp add: pos_imp_zdiv_nonneg_iff)
  have "q \<le> k" if "1000 * q + r = a" "0 \<le> r" for q r
    using that \<open>a < 1000 * (k + 1)\<close> by (simp add: distrib_left)
  from this [OF mult_div_mod_eq] show "a div 1000 \<le> k" by simp
qed

lemma not_far_bounds:
  assumes "\<not> far_out (x, y)" "\<bar>x0\<bar> \<le> 2500" "\<bar>y0\<bar> \<le> 1300"
  shows "\<bar>fst (orbit_step x0 y0 (x, y))\<bar> \<le> 6500" "\<bar>snd (orbit_step x0 y0 (x, y))\<bar> \<le> 5301"
    "\<bar>2 * x * y\<bar> \<le> 4001998"
proof -
  have le: "x * x div 1000 + y * y div 1000 \<le> 4000" using assms(1) by (simp add: far_out_def sdiv_square)
  have nx: "0 \<le> x * x div 1000" by (simp add: pos_imp_zdiv_nonneg_iff)
  have ny: "0 \<le> y * y div 1000" by (simp add: pos_imp_zdiv_nonneg_iff)
  have sq: "x * x + y * y \<le> 4001998" by (rule div_sum_bound [OF le])
  have "0 \<le> (x + y) * (x + y)" "0 \<le> (x - y) * (x - y)" by simp_all
  then have "2 * (x * y) \<le> 4001998" "- (2 * (x * y)) \<le> 4001998" using sq by (simp_all add: algebra_simps)
  then show xy: "\<bar>2 * x * y\<bar> \<le> 4001998" unfolding mult.assoc by (simp only: abs_le_iff)
  then have "\<bar>2 * x * y\<bar> div 1000 \<le> 4001" using div_bound [of "\<bar>2 * x * y\<bar>" 4001] by simp
  moreover have "\<bar>2 * x * y sdiv 1000\<bar> = \<bar>2 * x * y\<bar> div 1000"
    unfolding signed_divide_int_def by (simp add: abs_mult sgn_if pos_imp_zdiv_nonneg_iff)
  ultimately show "\<bar>snd (orbit_step x0 y0 (x, y))\<bar> \<le> 5301" using assms(3) by (simp add: orbit_step_def)
  show "\<bar>fst (orbit_step x0 y0 (x, y))\<bar> \<le> 6500"
    using le nx ny assms(2) by (simp add: orbit_step_def sdiv_square)
qed

lemma i32_ok: "- 2147483648 \<le> v \<Longrightarrow> v < 2147483648 \<Longrightarrow> i32 v = Inr v"
  by (simp add: i32_def)

lemma bind_ok_simps [simp]: "bind_ok (Inr v) f = f v" "bind_ok (Inl e) f = Inl e"
  by (simp_all add: bind_ok_def)

text \<open>No operation of a round of the loop overflows.\<close>

lemma round_squares:
  assumes "\<bar>x\<bar> \<le> 6500" "\<bar>y\<bar> \<le> 5301"
  shows "i32 (x * x) = Inr (x * x)" "i32 (y * y) = Inr (y * y)"
    "i32 (x * x sdiv 1000 + y * y sdiv 1000) = Inr (x * x sdiv 1000 + y * y sdiv 1000)"
    "i32 (x * x sdiv 1000 - y * y sdiv 1000) = Inr (x * x sdiv 1000 - y * y sdiv 1000)"
    "i32 (2 * x) = Inr (2 * x)"
proof -
  have sx: "0 \<le> x * x" "x * x \<le> 42250000" using square_bound [OF assms(1)] by simp_all
  have sy: "0 \<le> y * y" "y * y \<le> 28100601" using square_bound [OF assms(2)] by simp_all
  show "i32 (x * x) = Inr (x * x)" using sx by (intro i32_ok) linarith+
  show "i32 (y * y) = Inr (y * y)" using sy by (intro i32_ok) linarith+
  have bx: "0 \<le> x * x div 1000" "x * x div 1000 \<le> 42250"
    using div_bound [OF sx(1), of 42250] sx(2) by simp_all
  have by': "0 \<le> y * y div 1000" "y * y div 1000 \<le> 28101"
    using div_bound [OF sy(1), of 28101] sy(2) by simp_all
  show "i32 (x * x sdiv 1000 + y * y sdiv 1000) = Inr (x * x sdiv 1000 + y * y sdiv 1000)"
    "i32 (x * x sdiv 1000 - y * y sdiv 1000) = Inr (x * x sdiv 1000 - y * y sdiv 1000)"
    unfolding sdiv_square using bx by' by (intro i32_ok; linarith)+
  show "i32 (2 * x) = Inr (2 * x)" using assms(1) by (intro i32_ok) linarith+
qed

lemma round_next:
  assumes "\<not> far_out (x, y)" "\<bar>x0\<bar> \<le> 2500" "\<bar>y0\<bar> \<le> 1300"
  shows "i32 (2 * x * y) = Inr (2 * x * y)" "i32 (2 * x * y sdiv 1000 + y0) = Inr (snd (orbit_step x0 y0 (x, y)))"
    "i32 (x * x sdiv 1000 - y * y sdiv 1000 + x0) = Inr (fst (orbit_step x0 y0 (x, y)))"
proof -
  note b = not_far_bounds [OF assms]
  show "i32 (2 * x * y) = Inr (2 * x * y)" using b(3) by (intro i32_ok) linarith+
  have st: "2 * x * y sdiv 1000 + y0 = snd (orbit_step x0 y0 (x, y))"
    "x * x sdiv 1000 - y * y sdiv 1000 + x0 = fst (orbit_step x0 y0 (x, y))" by (simp_all add: orbit_step_def)
  show "i32 (2 * x * y sdiv 1000 + y0) = Inr (snd (orbit_step x0 y0 (x, y)))"
    "i32 (x * x sdiv 1000 - y * y sdiv 1000 + x0) = Inr (fst (orbit_step x0 y0 (x, y)))"
    unfolding st using b(1,2) by (intro i32_ok; linarith)+
qed

text \<open>The loop finds the first point of the orbit that is far out.\<close>

lemma escape_loop_orbit:
  assumes "\<bar>x0\<bar> \<le> 2500" "\<bar>y0\<bar> \<le> 1300"
  shows "orbit x0 y0 i = (x, y) \<Longrightarrow> \<bar>x\<bar> \<le> 6500 \<Longrightarrow> \<bar>y\<bar> \<le> 5301 \<Longrightarrow>
    escape_loop x0 y0 n i x y = Inr (find (\<lambda>i. far_out (orbit x0 y0 i)) [i..<i + n])"
proof (induction n arbitrary: i x y)
  case 0
  then show ?case by simp
next
  case (Suc n)
  note sq = round_squares [OF Suc.prems(2,3)]
  have head: "[i..<i + Suc n] = i # [Suc i..<Suc i + n]" by (simp add: upt_conv_Cons)
  show ?case
  proof (cases "far_out (x, y)")
    case True
    then have "4000 < x * x sdiv 1000 + y * y sdiv 1000" by (simp add: far_out_def)
    with True show ?thesis unfolding head escape_loop.simps sq bind_ok_simps Let_def by (simp add: Suc.prems(1))
  next
    case False
    note b = not_far_bounds [OF False assms] and nx = round_next [OF False assms]
    let ?z = "orbit_step x0 y0 (x, y)"
    have nf: "\<not> 4000 < x * x sdiv 1000 + y * y sdiv 1000" using False by (simp add: far_out_def)
    have "escape_loop x0 y0 (Suc n) i x y = escape_loop x0 y0 n (Suc i) (fst ?z) (snd ?z)"
      unfolding escape_loop.simps sq bind_ok_simps Let_def if_not_P [OF nf] nx ..
    also have "\<dots> = Inr (find (\<lambda>i. far_out (orbit x0 y0 i)) [Suc i..<Suc i + n])"
      by (rule Suc.IH) (use Suc.prems(1) b in \<open>simp_all add: orbit_Suc\<close>)
    finally show ?thesis unfolding head using False Suc.prems(1) by simp
  qed
qed

lemma escape_loop_time:
  "\<bar>x0\<bar> \<le> 2500 \<Longrightarrow> \<bar>y0\<bar> \<le> 1300 \<Longrightarrow> escape_loop x0 y0 n 0 0 0 = Inr (escape_time x0 y0 n)"
  using escape_loop_orbit [of x0 y0 0 0 0 n] by (simp add: escape_time_def orbit_def)

section \<open>The picture\<close>

text \<open>
  The shade of a pixel of a picture of \<open>w\<close> by \<open>h\<close> pixels: how soon the orbit of its point is far
  out, and black when it stays for 500 steps.
\<close>

definition point_x :: "nat \<Rightarrow> nat \<Rightarrow> int" where
  "point_x w x = int (1750 * x div w) - 1250"

definition point_y :: "nat \<Rightarrow> nat \<Rightarrow> int" where
  "point_y h y = 650 - int (1300 * y div h)"

definition shade_of :: "nat option \<Rightarrow> u16" where
  "shade_of t = (case t of None \<Rightarrow> 0 | Some i \<Rightarrow> colors ! min i 11)"

definition shade :: "nat \<Rightarrow> nat \<Rightarrow> nat \<Rightarrow> nat \<Rightarrow> u16" where
  "shade w h x y = shade_of (escape_time (point_x w x) (point_y h y) 500)"

definition canvas_ok :: "gfx_surface \<Rightarrow> bool" where
  "canvas_ok gs \<longleftrightarrow> surface_ok gs \<and> unat (gwidth gs) \<le> 1000000 \<and> unat (gheight gs) \<le> 1000000"

lemma sint_word_of_int:
  "- 2147483648 \<le> v \<Longrightarrow> v < 2147483648 \<Longrightarrow> sint (word_of_int v :: u32) = v"
  by (simp add: sint_sbintrunc' signed_take_bit_int_eq_self)

lemma scaled_word:
  assumes "x < unat (w :: u32)" "unat w \<le> 1000000" "k \<le> 2000"
  shows "word_of_int (int k * int x) div w = (of_nat (k * x div unat w) :: u32)" "k * x div unat w \<le> k"
    "int k * int x < 2147483648"
proof -
  have kx: "k * x \<le> 2000 * 1000000" by (rule mult_le_mono) (use assms in simp_all)
  then have small: "k * x < 4294967296" by simp
  have le: "k * x \<le> k * unat w" by (rule mult_le_mono) (use assms(1) in simp_all)
  show "k * x div unat w \<le> k" using div_le_mono [OF le, of "unat w"] assms(1) by simp
  show "int k * int x < 2147483648" using kx unfolding of_nat_mult [symmetric] by linarith
  have "word_of_int (int k * int x) = (of_nat (k * x) :: u32)" by simp
  then have "unat (word_of_int (int k * int x) div w) = k * x div unat w"
    using unat_of_nat32 [OF small] by (simp add: unat_div del: of_nat_mult)
  moreover have "k * x div unat w < 4294967296" using small by (rule le_less_trans [OF div_le_dividend])
  ultimately show "word_of_int (int k * int x) div w = (of_nat (k * x div unat w) :: u32)"
    by (metis unat_of_nat32 word_unat_eq_iff)
qed

lemma column_point:
  assumes "x < unat (w :: u32)" "unat w \<le> 1000000"
  shows "i32 (1750 * sint (of_nat x :: u32)) = Inr (1750 * int x)"
    "sint (- 1250 + word_of_int (1750 * int x) div w) = point_x (unat w) x" "\<bar>point_x (unat w) x\<bar> \<le> 2500"
proof -
  note sc = scaled_word [of x w 1750, OF assms]
  have "unat (of_nat x :: u32) = x" using assms by (simp add: unat_of_nat32)
  then have sx: "sint (of_nat x :: u32) = int x" using assms by (simp add: sint_small)
  show "i32 (1750 * sint (of_nat x :: u32)) = Inr (1750 * int x)"
    unfolding sx using sc(3) by (intro i32_ok) simp_all
  have d: "word_of_int (1750 * int x) div w = (of_nat (1750 * x div unat w) :: u32)" using sc(1) by simp
  have q: "1750 * x div unat w \<le> 1750" using sc(2) by simp
  show "\<bar>point_x (unat w) x\<bar> \<le> 2500" using q by (simp add: point_x_def)
  have "(- 1250 + of_nat (1750 * x div unat w) :: u32) = word_of_int (point_x (unat w) x)"
    by (simp add: point_x_def del: of_nat_mult)
  then show "sint (- 1250 + word_of_int (1750 * int x) div w) = point_x (unat w) x"
    unfolding d using \<open>\<bar>point_x (unat w) x\<bar> \<le> 2500\<close> by (simp only: sint_word_of_int)
qed

lemma row_point:
  assumes "y < unat (h :: u32)" "unat h \<le> 1000000"
  shows "i32 (1300 * sint (of_nat y :: u32)) = Inr (1300 * int y)"
    "sint (650 - word_of_int (1300 * int y) div h) = point_y (unat h) y" "\<bar>point_y (unat h) y\<bar> \<le> 1300"
proof -
  note sc = scaled_word [of y h 1300, OF assms]
  have "unat (of_nat y :: u32) = y" using assms by (simp add: unat_of_nat32)
  then have sy: "sint (of_nat y :: u32) = int y" using assms by (simp add: sint_small)
  show "i32 (1300 * sint (of_nat y :: u32)) = Inr (1300 * int y)"
    unfolding sy using sc(3) by (intro i32_ok) simp_all
  have d: "word_of_int (1300 * int y) div h = (of_nat (1300 * y div unat h) :: u32)" using sc(1) by simp
  have q: "1300 * y div unat h \<le> 1300" using sc(2) by simp
  show "\<bar>point_y (unat h) y\<bar> \<le> 1300" using q by (simp add: point_y_def)
  have "(650 - of_nat (1300 * y div unat h) :: u32) = word_of_int (point_y (unat h) y)"
    by (simp add: point_y_def del: of_nat_mult)
  then show "sint (650 - word_of_int (1300 * int y) div h) = point_y (unat h) y"
    unfolding d using \<open>\<bar>point_y (unat h) y\<bar> \<le> 1300\<close> by (simp only: sint_word_of_int)
qed

text \<open>Drawing one pixel, and the pixels of a rectangle in the order of the loops.\<close>

definition shade_word :: "nat option \<Rightarrow> u32" where
  "shade_word t = (case t of None \<Rightarrow> 0 | Some i \<Rightarrow> ucast (colors ! (if i > 11 then 11 else i)))"

definition dot :: "gfx_surface \<Rightarrow> nat \<times> nat \<Rightarrow> mem \<Rightarrow> mem" where
  "dot gs p m =
     gfx_plot (gs\<lparr>fgcolor := shade_word (escape_time (point_x (unat (gwidth gs)) (fst p)) (point_y (unat (gheight gs)) (snd p)) 500)\<rparr>)
       (of_nat (fst p)) (of_nat (snd p)) m"

definition row_of :: "nat \<Rightarrow> nat \<Rightarrow> nat \<Rightarrow> (nat \<times> nat) list" where
  "row_of x0 x1 y = map (\<lambda>x. (x, y)) [x0..<x1]"

definition rectangle :: "nat \<Rightarrow> nat \<Rightarrow> nat \<Rightarrow> nat \<Rightarrow> (nat \<times> nat) list" where
  "rectangle x0 y0 x1 y1 = concat (map (row_of x0 x1) [y0..<y1])"

lemma shade_color: "ucast (shade_word t) = shade_of t"
proof -
  have "ucast (ucast c :: u32) = c" for c :: u16 by (rule bit_word_eqI) (simp add: bit_simps)
  then show ?thesis by (simp add: shade_of_def shade_word_def min_def split: option.split)
qed

lemma dot_painted:
  assumes "canvas_ok gs" "visible gs (fst p) (snd p)"
  shows "painted gs (\<lambda>x y. (x, y) = p) (shade (unat (gwidth gs)) (unat (gheight gs))) m (dot gs p m)"
proof -
  have ok: "surface_ok gs" "gmethods gs = Rgb565" using assms(1) by (simp_all add: canvas_ok_def surface_ok_def)
  have u: "unat (of_nat (fst p) :: u32) = fst p" "unat (of_nat (snd p) :: u32) = snd p"
    using assms by (auto simp: canvas_ok_def visible_def unat_of_nat32)
  have "dot gs p m = plot16 gs (of_nat (fst p)) (of_nat (snd p))
      (shade_word (escape_time (point_x (unat (gwidth gs)) (fst p)) (point_y (unat (gheight gs)) (snd p)) 500)) m"
    using ok(2) by (simp add: dot_def gfx_plot_def surface_plot_def plot16_def)
  moreover have "painted gs (\<lambda>x y. (x, y) = p) (shade (unat (gwidth gs)) (unat (gheight gs))) m
      (plot16 gs (of_nat (fst p)) (of_nat (snd p))
        (shade_word (escape_time (point_x (unat (gwidth gs)) (fst p)) (point_y (unat (gheight gs)) (snd p)) 500)) m)"
    by (rule painted_weak [OF plot16_painted [OF ok(1)]]) (use u in \<open>auto simp: shade_def shade_color\<close>)
  ultimately show ?thesis by simp
qed

lemma dots_painted:
  assumes "canvas_ok gs" "\<forall>p\<in>set ps. visible gs (fst p) (snd p)"
  shows "painted gs (\<lambda>x y. (x, y) \<in> set ps) (shade (unat (gwidth gs)) (unat (gheight gs))) m (fold (dot gs) ps m)"
  using assms(2)
proof (induction ps arbitrary: m)
  case Nil
  then show ?case by (simp add: painted_none)
next
  case (Cons p ps)
  have "painted gs (\<lambda>x y. (x, y) \<in> set ps) (shade (unat (gwidth gs)) (unat (gheight gs)))
    (dot gs p m) (fold (dot gs) ps (dot gs p m))" using Cons by simp
  from painted_trans [OF dot_painted [OF assms(1), of p m] this] Cons.prems
  show ?case by (auto intro: painted_weak)
qed

lemma render_pixel_dot:
  assumes "canvas_ok gs" "x < unat (gwidth gs)" "y < unat (gheight gs)"
  shows "render_pixel gs (point_y (unat (gheight gs)) y) (of_nat x) (of_nat y) m = Inr (dot gs (x, y) m)"
proof -
  have w: "unat (gwidth gs) \<le> 1000000" "unat (gheight gs) \<le> 1000000" using assms(1) by (simp_all add: canvas_ok_def)
  then have nz: "gwidth gs \<noteq> 0" using assms(2) by auto
  note c = column_point [OF assms(2) w(1)]
  note t = escape_loop_time [OF c(3) row_point(3) [OF assms(3) w(2)], of 500]
  show ?thesis
    unfolding render_pixel_def c(1) bind_ok_simps if_not_P [OF nz] c(2) Let_def t shade_word_def [symmetric] dot_def
    by simp
qed

lemma render_row_dots:
  assumes "canvas_ok gs" "x1 \<le> unat (gwidth gs)" "y < unat (gheight gs)"
  shows "x \<le> x1 \<Longrightarrow> render_row gs (point_y (unat (gheight gs)) y) (of_nat x) (of_nat x1) (of_nat y) m =
    Inr (fold (dot gs) (row_of x x1 y) m)"
proof (induction "x1 - x" arbitrary: x m)
  case 0
  then show ?case by (subst render_row.simps) (simp add: row_of_def)
next
  case (Suc n)
  have w: "x1 \<le> 1000000" using assms by (simp add: canvas_ok_def)
  have lt: "x < x1" using Suc.hyps(2) by simp
  have u: "unat (of_nat x :: u32) = x" "unat (of_nat x1 :: u32) = x1" using lt w by (simp_all add: unat_of_nat32)
  then have c: "(of_nat x :: u32) < of_nat x1" using lt by (simp add: word_less_nat_alt)
  have ne: "(of_nat x :: u32) \<noteq> 0x7FFFFFFF" using u(1) lt w by auto
  have x: "x < unat (gwidth gs)" using lt assms(2) by simp
  have row: "row_of x x1 y = (x, y) # row_of (Suc x) x1 y" using lt by (simp add: row_of_def upt_conv_Cons)
  have nxt: "(of_nat x + 1 :: u32) = of_nat (Suc x)" by simp
  show ?case
    by (subst render_row.simps) (use c ne lt Suc.hyps(1) [of "Suc x"] Suc.hyps(2) in
      \<open>simp add: render_pixel_dot [OF assms(1) x assms(3)] row nxt del: of_nat_Suc\<close>)
qed

lemma render_rows_dots:
  assumes "canvas_ok gs" "x0 \<le> x1" "x1 \<le> unat (gwidth gs)" "y1 \<le> unat (gheight gs)"
  shows "y \<le> y1 \<Longrightarrow> render_rows gs (of_nat x0) (of_nat y) (of_nat x1) (of_nat y1) m =
    Inr (fold (dot gs) (rectangle x0 y x1 y1) m)"
proof (induction "y1 - y" arbitrary: y m)
  case 0
  then show ?case by (subst render_rows.simps) (simp add: rectangle_def)
next
  case (Suc n)
  have h: "unat (gheight gs) \<le> 1000000" "y1 \<le> 1000000" using assms by (simp_all add: canvas_ok_def)
  have lt: "y < y1" using Suc.hyps(2) by simp
  then have y: "y < unat (gheight gs)" using assms(4) by simp
  then have nz: "gheight gs \<noteq> 0" by auto
  have u: "unat (of_nat y :: u32) = y" "unat (of_nat y1 :: u32) = y1" using lt h by (simp_all add: unat_of_nat32)
  then have c: "(of_nat y :: u32) < of_nat y1" using lt by (simp add: word_less_nat_alt)
  have ne: "(of_nat y :: u32) \<noteq> 0x7FFFFFFF" using u(1) lt h by auto
  have rect: "rectangle x0 y x1 y1 = row_of x0 x1 y @ rectangle x0 (Suc y) x1 y1"
    using lt by (simp add: rectangle_def upt_conv_Cons)
  have nxt: "(of_nat y + 1 :: u32) = of_nat (Suc y)" by simp
  note r = row_point [OF y h(1)]
  have "n = y1 - Suc y" "Suc y \<le> y1" using Suc.hyps(2) lt by simp_all
  note IH = Suc.hyps(1) [OF this]
  show ?case
    unfolding render_rows.simps [of gs "of_nat x0" "of_nat y"] if_P [OF c] r(1) bind_ok_simps if_not_P [OF nz]
      r(2) Let_def render_row_dots [OF assms(1,3) y assms(2)] if_not_P [OF ne] nxt IH rect
    by simp
qed

lemma set_rectangle: "(x, y) \<in> set (rectangle x0 y0 x1 y1) \<longleftrightarrow> x0 \<le> x \<and> x < x1 \<and> y0 \<le> y \<and> y < y1"
  by (auto simp: rectangle_def row_of_def image_iff)

lemma render_dots:
  assumes "canvas_ok gs" "x0 \<le> x1" "x1 \<le> unat (gwidth gs)" "y0 \<le> y1" "y1 \<le> unat (gheight gs)"
  shows "render_fractal gs (of_nat x0) (of_nat y0) (of_nat x1) (of_nat y1) m = Inr (2, fold (dot gs) (rectangle x0 y0 x1 y1) m)"
  using render_rows_dots [OF assms(1-3,5,4)] by (simp add: render_fractal_def)

section \<open>Rectangles\<close>

definition inside_area :: "nat \<times> nat \<times> nat \<times> nat \<Rightarrow> nat \<Rightarrow> nat \<Rightarrow> bool" where
  "inside_area r x y = (case r of (x0, y0, x1, y1) \<Rightarrow> x0 \<le> x \<and> x < x1 \<and> y0 \<le> y \<and> y < y1)"

definition area_on :: "gfx_surface \<Rightarrow> nat \<times> nat \<times> nat \<times> nat \<Rightarrow> bool" where
  "area_on gs r = (case r of (x0, y0, x1, y1) \<Rightarrow> x0 \<le> x1 \<and> x1 \<le> unat (gwidth gs) \<and> y0 \<le> y1 \<and> y1 \<le> unat (gheight gs))"

definition work_of :: "nat \<times> nat \<times> nat \<times> nat \<Rightarrow> (nat \<times> nat) list" where
  "work_of r = (case r of (x0, y0, x1, y1) \<Rightarrow> rectangle x0 y0 x1 y1)"

lemma set_work: "(x, y) \<in> set (work_of r) \<longleftrightarrow> inside_area r x y"
  by (cases r) (simp add: work_of_def inside_area_def set_rectangle)

lemma work_visible: "area_on gs r \<Longrightarrow> p \<in> set (work_of r) \<Longrightarrow> visible gs (fst p) (snd p)"
  by (cases p; cases r) (auto simp: area_on_def set_work inside_area_def visible_def)

lemma render_paints_area:
  assumes "canvas_ok gs" "area_on gs (x0, y0, x1, y1)"
  shows "\<exists>m'. render_fractal gs (of_nat x0) (of_nat y0) (of_nat x1) (of_nat y1) m = Inr (2, m') \<and>
    painted gs (inside_area (x0, y0, x1, y1)) (shade (unat (gwidth gs)) (unat (gheight gs))) m m'"
proof -
  have d: "render_fractal gs (of_nat x0) (of_nat y0) (of_nat x1) (of_nat y1) m =
      Inr (2, fold (dot gs) (work_of (x0, y0, x1, y1)) m)"
    unfolding work_of_def prod.case by (rule render_dots) (use assms in \<open>simp_all add: area_on_def\<close>)
  show ?thesis unfolding d using dots_painted [OF assms(1), of "work_of (x0, y0, x1, y1)" m] work_visible [OF assms(2)]
    by (auto simp: set_work)
qed

text \<open>The rectangles of the threads \<open>t1\<close> to \<open>t4\<close>.\<close>

definition quadrants :: "(nat \<times> nat \<times> nat \<times> nat) list" where
  "quadrants = [(0, 0, 320, 240), (320, 240, 640, 480), (320, 0, 640, 240), (0, 240, 320, 480)]"

lemma screen_simps [simp]:
  "gwidth xos_screen = 640" "gheight xos_screen = 480" "gstride xos_screen = 640" "gmethods xos_screen = Rgb565"
  "gpixels xos_screen = 0x20000000"
  by (simp_all add: xos_screen_def gfx_init_def PIXFMT_RGB565_def)

lemma screen_ok: "canvas_ok xos_screen"
  by (simp add: canvas_ok_def surface_ok_def)

lemma corner_escapes: "escape_time (- 1250) 650 500 = Some 3"
  by code_simp

section \<open>A whole thread\<close>

text \<open>A string of \<open>n\<close> bytes that no pixel of the surface is part of.\<close>

definition off_screen :: "gfx_surface \<Rightarrow> u32 \<Rightarrow> nat \<Rightarrow> bool" where
  "off_screen gs s n \<longleftrightarrow> (\<forall>k x y. k < n \<longrightarrow> visible gs x y \<longrightarrow>
     s + of_nat k \<noteq> pixel_address gs x y \<and> s + of_nat k \<noteq> pixel_address gs x y + 1)"

lemma off_screen_tail: "off_screen gs s (Suc n) \<Longrightarrow> off_screen gs (s + 1) n"
  unfolding off_screen_def
proof (intro allI impI)
  fix k x y
  assume off: "\<forall>k x y. k < Suc n \<longrightarrow> visible gs x y \<longrightarrow>
      s + of_nat k \<noteq> pixel_address gs x y \<and> s + of_nat k \<noteq> pixel_address gs x y + 1"
    and k: "k < n" and v: "visible gs x y"
  have "s + 1 + of_nat k = s + of_nat (Suc k)" by simp
  moreover have "s + of_nat (Suc k) \<noteq> pixel_address gs x y \<and> s + of_nat (Suc k) \<noteq> pixel_address gs x y + 1"
    by (rule off [rule_format, OF _ v]) (use k in simp)
  ultimately show "s + 1 + of_nat k \<noteq> pixel_address gs x y \<and> s + 1 + of_nat k \<noteq> pixel_address gs x y + 1"
    by (simp only: simp_thms)
qed

lemma painted_off_screen:
  assumes "painted gs P f m m'" "off_screen gs s (Suc (length cs))" "cstr m s cs"
  shows "cstr m' s cs"
proof (rule cstr_cong [OF assms(3)])
  fix k assume "k \<le> length cs"
  then show "m' (s + of_nat k) = m (s + of_nat k)"
    using assms(1,2) unfolding painted_def off_screen_def by (simp add: less_Suc_eq_le)
qed

lemma gfx_puts_painted:
  assumes ok: "surface_ok gs" and "unat x + 8 * length cs < 4294967296" "off_screen gs s (Suc (length cs))" "cstr m s cs"
  shows "\<exists>m' P f. gfx_puts rom gs x y s m = Some m' \<and> painted gs P f m m' \<and>
    (\<forall>x' y'. P x' y' \<longrightarrow> unat x \<le> x' \<and> x' < unat x + 8 * length cs \<and> unat y \<le> y' \<and> y' < unat y + 16)"
  using assms(2-)
proof (induction cs arbitrary: x s m)
  case Nil
  then show ?case by (subst gfx_puts.simps) (auto intro!: exI [of _ "\<lambda>_ _. False"] painted_none)
next
  case (Cons c cs)
  let ?m = "gfx_putc rom gs x y (ucast (m s)) m"
  have c: "m s \<noteq> 0" using Cons.prems(3) by simp
  have x: "unat (x + CH_WIDTH) = unat x + 8"
    unfolding CH_WIDTH_def using Cons.prems(1) by (simp add: unat_add32)
  obtain f where p: "painted gs (\<lambda>x' y'. fits gs (unat x) (unat y) \<and> unat x \<le> x' \<and> x' < unat x + 8 \<and> unat y \<le> y' \<and> y' < unat y + 16) f m ?m"
    using putc16_painted [OF ok] ok by (fastforce simp: gfx_putc_def surface_ok_def)
  have st: "cstr ?m s (c # cs)" by (rule painted_off_screen [OF p Cons.prems(2,3)])
  then have "cstr ?m (s + 1) cs" by simp
  from Cons.IH [OF _ off_screen_tail this, of "x + CH_WIDTH"] Cons.prems(1,2) x obtain m' P g where
    r: "gfx_puts rom gs (x + CH_WIDTH) y (s + 1) ?m = Some m'" "painted gs P g ?m m'"
    "\<forall>x' y'. P x' y' \<longrightarrow> unat x + 8 \<le> x' \<and> x' < unat x + 8 + 8 * length cs \<and> unat y \<le> y' \<and> y' < unat y + 16"
    by auto
  have run: "gfx_puts rom gs x y s m = Some m'" using c r(1) by (subst gfx_puts.simps) simp
  have area: "unat x \<le> x' \<and> x' < unat x + 8 * length (c # cs) \<and> unat y \<le> y' \<and> y' < unat y + 16"
    if "fits gs (unat x) (unat y) \<and> unat x \<le> x' \<and> x' < unat x + 8 \<and> unat y \<le> y' \<and> y' < unat y + 16 \<or> P x' y'" for x' y'
    using that r(3) [rule_format, of x' y'] by auto
  from run painted_trans [OF p r(2)] area show ?case by blast
qed

lemma painted_over:
  assumes "painted gs P f m m1" "painted gs Q g m1 m2" "\<And>x y. visible gs x y \<Longrightarrow> P x y \<Longrightarrow> Q x y"
  shows "painted gs Q g m m2"
  by (rule painted_weak [OF painted_trans [OF assms(1,2)]]) (use assms(3) in auto)

lemma thread_body_paints:
  assumes ok: "canvas_ok gs" and ar: "area_on gs (x0, y0, x1, y1)" and room: "x0 + 8 * length cs \<le> x1" "y0 + 16 \<le> y1"
    and str: "off_screen gs s (Suc (length cs))" "cstr m s cs"
  shows "\<exists>m'. thread_body rom gs (of_nat x0) (of_nat y0) (of_nat x1) (of_nat y1) c s m = Some (Inr (2, m')) \<and>
    painted gs (inside_area (x0, y0, x1, y1)) (shade (unat (gwidth gs)) (unat (gheight gs))) m m'"
proof -
  have sf: "surface_ok gs" and b: "x1 \<le> 1000000" "y1 \<le> 1000000" "x0 \<le> x1" "y0 \<le> y1"
    using ok ar by (auto simp: canvas_ok_def area_on_def)
  have u: "unat (of_nat x0 :: u32) = x0" "unat (of_nat y0 :: u32) = y0" "unat (of_nat x1 :: u32) = x1" "unat (of_nat y1 :: u32) = y1"
    using b by (simp_all add: unat_of_nat32)
  have "(16 :: u32) \<le> of_nat y1" using u room(2) by (simp add: word_le_nat_alt)
  then have uy: "unat (of_nat y1 - 16 :: u32) = y1 - 16" using u by (simp add: unat_sub)
  from gfx_fill_painted [OF sf, of "of_nat x0" "of_nat y0" "of_nat x1" "of_nat y1" "gfx_color gs c" m] obtain ma where
    a: "gfx_fill gs (of_nat x0) (of_nat y0) (of_nat x1) (of_nat y1) (gfx_color gs c) m = Some ma"
      "painted gs (inside_area (x0, y0, x1, y1)) (\<lambda>x y. ucast (gfx_color gs c)) m ma"
    unfolding u inside_area_def prod.case by auto
  have "unat (of_nat x0 :: u32) + 8 * length cs < 4294967296" using u room b by simp
  from gfx_puts_painted [OF sf this str(1) painted_off_screen [OF a(2) str], of rom "of_nat y1 - 16"] obtain mb P f where
    b': "gfx_puts rom gs (of_nat x0) (of_nat y1 - 16) s ma = Some mb" "painted gs P f ma mb"
      "\<forall>x y. P x y \<longrightarrow> x0 \<le> x \<and> x < x0 + 8 * length cs \<and> y1 - 16 \<le> y \<and> y < y1 - 16 + 16"
    unfolding u uy by blast
  from render_paints_area [OF ok ar, of mb] obtain m' where
    r: "render_fractal gs (of_nat x0) (of_nat y0) (of_nat x1) (of_nat y1) mb = Inr (2, m')"
      "painted gs (inside_area (x0, y0, x1, y1)) (shade (unat (gwidth gs)) (unat (gheight gs))) mb m'" by blast
  have "inside_area (x0, y0, x1, y1) x y" if "P x y" for x y
    using b'(3) [rule_format, OF that] room unfolding inside_area_def prod.case by linarith
  then have "painted gs (inside_area (x0, y0, x1, y1)) (shade (unat (gwidth gs)) (unat (gheight gs))) m m'"
    by (intro painted_over [OF a(2) painted_over [OF b'(2) r(2)]])
  then show ?thesis unfolding thread_body_def using a(1) b'(1) r(1) by simp
qed

section \<open>Claims\<close>

text \<open>
  C39: the program of the user: it returns from \<open>render\<close>, and every pixel of its screen has
  the shade of the orbit of its point; no product, sum or counter has left the range of an
  \<open>int\<close>, and no byte outside the screen has changed.
\<close>

theorem mandelbrot_draws:
  "\<exists>m'. start_mandelbrot m = Some (Inr (2, m')) \<and> painted xos_screen (\<lambda>x y. True) (shade 640 480) m m'"
proof -
  from gfx_fill_painted [OF _, of xos_screen 0 0 640 480 C_BLUE m] screen_ok obtain m1 where
    m1: "gfx_clear xos_screen C_BLUE m = Some m1"
      "painted xos_screen (\<lambda>x y. x < 640 \<and> y < 480) (\<lambda>x y. ucast C_BLUE) m m1"
    by (auto simp: gfx_clear_def canvas_ok_def)
  from render_paints_area [OF screen_ok, of 0 0 640 480 m1] obtain m' where
    m': "render_fractal xos_screen 0 0 640 480 m1 = Inr (2, m')"
      "painted xos_screen (inside_area (0, 0, 640, 480)) (shade 640 480) m1 m'" by (auto simp: area_on_def)
  have "painted xos_screen (inside_area (0, 0, 640, 480)) (shade 640 480) m m'"
    by (rule painted_over [OF m1(2) m'(2)]) (simp add: inside_area_def)
  then have "painted xos_screen (\<lambda>x y. True) (shade 640 480) m m'"
    by (rule painted_weak) (simp_all add: inside_area_def visible_def)
  then show ?thesis using m1(1) m'(1) by (simp add: start_mandelbrot_def)
qed

text \<open>
  C38: the four threads of the examples.  Each fills its quarter of the screen, writes its label
  of at most twelve characters there and renders over both: it returns 2, its quarter shows the
  Mandelbrot set, and no byte outside the quarter has changed.
\<close>

theorem thread_draws_quarter:
  assumes "canvas_ok gs" "640 \<le> unat (gwidth gs)" "480 \<le> unat (gheight gs)"
    and "length cs \<le> 12" "cstr m s cs" "off_screen gs s (Suc (length cs))"
    and "(t, r) \<in> set (zip [t1 rom s, t2 rom s, t3 rom s, t4 rom s] quadrants)"
  shows "\<exists>m'. t gs m = Some (Inr (2, m')) \<and>
    painted gs (inside_area r) (shade (unat (gwidth gs)) (unat (gheight gs))) m m'"
proof -
  note body = thread_body_paints [OF assms(1) _ _ _ assms(6,5), where rom = rom]
  from assms(7) consider "t = t1 rom s" "r = (0, 0, 320, 240)" | "t = t2 rom s" "r = (320, 240, 640, 480)"
    | "t = t3 rom s" "r = (320, 0, 640, 240)" | "t = t4 rom s" "r = (0, 240, 320, 480)"
    by (auto simp: quadrants_def)
  then show ?thesis
  proof cases
    case 1
    with body [of 0 0 320 240 C_WHITE] assms(2-4) show ?thesis by (simp add: t1_def area_on_def)
  next
    case 2
    with body [of 320 240 640 480 C_GRAY75] assms(2-4) show ?thesis by (simp add: t2_def area_on_def)
  next
    case 3
    with body [of 320 0 640 240 C_GRAY25] assms(2-4) show ?thesis by (simp add: t3_def area_on_def)
  next
    case 4
    with body [of 0 240 320 480 C_GRAY50] assms(2-4) show ?thesis by (simp add: t4_def area_on_def)
  qed
qed

lemma display_canvas: "canvas_ok display"
  using display_ok by (simp add: canvas_ok_def)

lemma low_off_screen: "unat s + n \<le> 0x40C00000 \<Longrightarrow> off_screen display s n"
  unfolding off_screen_def
proof (intro allI impI)
  fix k x y
  assume s: "unat s + n \<le> 0x40C00000" and k: "k < n" and v: "visible display x y"
  have "unat (pixel_address display x y) = 0x40C00000 + 2 * (x + y * 640)"
    using unat_pixel_address [OF display_ok, of x y] pixel_index [OF display_ok v] by (simp add: FRAMEBUFFER_BASE_def)
  moreover have "x + y * 640 < 307200" using pixel_index [OF display_ok v] by simp
  ultimately have p: "0x40C00000 \<le> unat (pixel_address display x y)" "0x40C00000 \<le> unat (pixel_address display x y + 1)"
    by (simp_all add: unat_add32)
  have "unat (s + of_nat k) = unat s + k" using s k by (simp add: unat_add32 unat_of_nat32)
  then have "unat (s + of_nat k) < 0x40C00000" using s k by simp
  then show "s + of_nat k \<noteq> pixel_address display x y \<and> s + of_nat k \<noteq> pixel_address display x y + 1" using p by auto
qed

theorem thread_draws_quarter_witness:
  "\<exists>m'. t1 (\<lambda>_. 0) 0x1000 display (put_bytes (\<lambda>_. 0) 0x1000 (lit ''Thread One'' @ [0])) = Some (Inr (2, m')) \<and>
     pixel display m' 0 0 = 0x4444"
proof -
  let ?m = "put_bytes (\<lambda>_. 0) 0x1000 (lit ''Thread One'' @ [0]) :: mem"
  have "cstr ?m 0x1000 (lit ''Thread One'')" by (rule cstr_put_bytes) (simp_all add: of_char_def)
  from thread_draws_quarter [OF display_canvas _ _ _ this low_off_screen, where rom = "\<lambda>_. 0" and t = "t1 (\<lambda>_. 0) 0x1000"
    and r = "(0, 0, 320, 240)"]
  obtain m' where "t1 (\<lambda>_. 0) 0x1000 display ?m = Some (Inr (2, m'))"
    "painted display (inside_area (0, 0, 320, 240)) (shade 640 480) ?m m'"
    by (auto simp: quadrants_def)
  then show ?thesis
    by (auto simp: painted_def visible_def inside_area_def shade_def point_x_def point_y_def
        corner_escapes shade_of_def colors_def)
qed

end
