(* ===== verification/FractalText.thy ===== *)
theory FractalText
  imports Fractal Debug
begin

text \<open>
  \<^verbatim>\<open>misc/mandelbrot.c\<close>: the Mandelbrot set as text on the serial console.
\<close>

section \<open>Code\<close>

text \<open>The character of a point: the digit of its iteration, an at sign from ten on, a blank when it stays.\<close>

definition point_char :: "int \<Rightarrow> int \<Rightarrow> fault + u32" where
  "point_char x0 y0 =
     bind_ok (escape_loop x0 y0 1000 0 0 0) (\<lambda>r.
       Inr (case r of None \<Rightarrow> 32 | Some i \<Rightarrow> if i > 9 then 64 else of_nat i + 48))"

function text_columns :: "int \<Rightarrow> int \<Rightarrow> uart \<Rightarrow> (fault + uart) option" where
  "text_columns y0 x0 u =
     (if x0 < 1000
      then case point_char x0 y0 of
             Inl e \<Rightarrow> Some (Inl e)
           | Inr c \<Rightarrow> Option.bind (xputc c u) (text_columns y0 (x0 + 30))
      else Some (Inr u))"
  by pat_completeness auto
termination
  by (relation "measure (\<lambda>(y0, x0, u). nat (1000 - x0))") simp_all

function text_rows :: "int \<Rightarrow> uart \<Rightarrow> (fault + uart) option" where
  "text_rows y0 u =
     (if y0 > - 1000
      then Option.bind (text_columns y0 (- 2500) u) (\<lambda>r. case r of
             Inl e \<Rightarrow> Some (Inl e)
           | Inr u \<Rightarrow> Option.bind (xputc 10 u) (text_rows (y0 - 50)))
      else Some (Inr u))"
  by pat_completeness auto
termination
  by (relation "measure (\<lambda>(y0, u). nat (y0 + 1000))") simp_all

declare text_columns.simps [simp del] text_rows.simps [simp del]

definition mandelbrot_text :: "stack \<Rightarrow> uart \<Rightarrow> (fault + ub + uart) option" where
  "mandelbrot_text st u =
     Option.bind (text_rows 1000 u) (\<lambda>r. case r of
       Inl e \<Rightarrow> Some (Inl e)
     | Inr u \<Rightarrow> map_option Inr (xprintf st (lit ''Hello, Mandlebrot!\<newline>'') [] u))"

section \<open>The text\<close>

definition text_char :: "int \<Rightarrow> int \<Rightarrow> u8" where
  "text_char x0 y0 =
     (case escape_time x0 y0 1000 of None \<Rightarrow> 32 | Some i \<Rightarrow> if i > 9 then 64 else of_nat i + 48)"

definition text_line :: "int \<Rightarrow> u8 list" where
  "text_line y0 = map (\<lambda>i. text_char (30 * int i - 2500) y0) [0..<117] @ [10]"

definition text_picture :: "u8 list" where
  "text_picture = concat (map (\<lambda>j. text_line (1000 - 50 * int j)) [0..<40])"

lemma small_cases: "i \<le> 9 \<Longrightarrow> P 0 \<Longrightarrow> P 1 \<Longrightarrow> P 2 \<Longrightarrow> P 3 \<Longrightarrow> P 4 \<Longrightarrow> P 5 \<Longrightarrow> P 6 \<Longrightarrow> P 7 \<Longrightarrow> P 8 \<Longrightarrow> P 9 \<Longrightarrow> P (i :: nat)"
  by (auto simp: le_Suc_eq numeral_eq_Suc)

lemma digit_word: "i \<le> 9 \<Longrightarrow> (ucast (of_nat i + 48 :: u8) :: u32) = of_nat i + 48 \<and> (of_nat i + 48 :: u8) \<noteq> 10"
  by (erule small_cases) simp_all

lemma point_char_text:
  assumes "\<bar>x0\<bar> \<le> 2500" "\<bar>y0\<bar> \<le> 1300"
  shows "point_char x0 y0 = Inr (ucast (text_char x0 y0))" "text_char x0 y0 \<noteq> 10"
  unfolding point_char_def escape_loop_time [OF assms] text_char_def
  by (simp_all add: digit_word split: option.split)

lemma crlf_char: "b \<noteq> 10 \<Longrightarrow> (if (ucast b :: u32) = 10 then [13, 10] else [ucast b]) = crlf [b]"
  using u8_u32_inj [of b 10] by simp

lemma text_columns_sends:
  assumes "\<bar>y0\<bar> \<le> 1300"
  shows "i \<le> 117 \<Longrightarrow> serving u \<Longrightarrow> \<exists>u'. text_columns y0 (30 * int i - 2500) u = Some (Inr u') \<and>
    sends u (crlf (map (\<lambda>i. text_char (30 * int i - 2500) y0) [i..<117])) u'"
proof (induction "117 - i" arbitrary: i u)
  case 0
  then show ?case by (subst text_columns.simps) (simp add: sends_nil)
next
  case (Suc n)
  have i: "i < 117" using Suc.hyps(2) by simp
  let ?x = "30 * int i - 2500"
  have "\<bar>?x\<bar> \<le> 2500" using i by simp
  note c = point_char_text [OF this assms]
  from xputc_sends [OF Suc.prems(2), of "ucast (text_char ?x y0)"] obtain u1 where
    u1: "xputc (ucast (text_char ?x y0)) u = Some u1" "sends u (crlf [text_char ?x y0]) u1"
    unfolding crlf_char [OF c(2)] by blast
  have "n = 117 - Suc i" "Suc i \<le> 117" using Suc.hyps(2) by simp_all
  from Suc.hyps(1) [OF this sends_serving [OF u1(2) Suc.prems(2)]] obtain u' where
    u': "text_columns y0 (30 * int (Suc i) - 2500) u1 = Some (Inr u')"
      "sends u1 (crlf (map (\<lambda>i. text_char (30 * int i - 2500) y0) [Suc i..<117])) u'" by blast
  have nxt: "?x + 30 = 30 * int (Suc i) - 2500" by simp
  have "?x < 1000" using i by simp
  then have "text_columns y0 ?x u = Some (Inr u')"
    unfolding text_columns.simps [of y0 ?x u] c(1) nxt using u1(1) u'(1) by simp
  moreover have "sends u (crlf (map (\<lambda>i. text_char (30 * int i - 2500) y0) [i..<117])) u'"
    using sends_trans [OF u1(2) u'(2)] i by (simp add: upt_conv_Cons del: upt_rec_numeral)
  ultimately show ?case by blast
qed

lemma text_rows_sends:
  "j \<le> 40 \<Longrightarrow> serving u \<Longrightarrow> \<exists>u'. text_rows (1000 - 50 * int j) u = Some (Inr u') \<and>
    sends u (crlf (concat (map (\<lambda>j. text_line (1000 - 50 * int j)) [j..<40]))) u'"
proof (induction "40 - j" arbitrary: j u)
  case 0
  then show ?case by (subst text_rows.simps) (simp add: sends_nil)
next
  case (Suc n)
  have j: "j < 40" using Suc.hyps(2) by simp
  let ?y = "1000 - 50 * int j"
  have "\<bar>?y\<bar> \<le> 1300" using j by simp
  from text_columns_sends [OF this, of 0, OF _ Suc.prems(2)] obtain u1 where
    u1: "text_columns ?y (- 2500) u = Some (Inr u1)"
      "sends u (crlf (map (\<lambda>i. text_char (30 * int i - 2500) ?y) [0..<117])) u1" by (auto simp del: upt_rec_numeral)
  from xputc_sends [OF sends_serving [OF u1(2) Suc.prems(2)], of 10] obtain u2 where
    u2: "xputc 10 u1 = Some u2" "sends u1 (crlf [10]) u2" by auto
  note line = sends_trans [OF u1(2) u2(2), folded crlf_simps(2), folded text_line_def]
  have "n = 40 - Suc j" "Suc j \<le> 40" using Suc.hyps(2) by simp_all
  from Suc.hyps(1) [OF this sends_serving [OF line Suc.prems(2)]] obtain u' where
    u': "text_rows (1000 - 50 * int (Suc j)) u2 = Some (Inr u')"
      "sends u2 (crlf (concat (map (\<lambda>j. text_line (1000 - 50 * int j)) [Suc j..<40]))) u'" by blast
  have nxt: "?y - 50 = 1000 - 50 * int (Suc j)" by simp
  have "?y > - 1000" using j by simp
  then have "text_rows ?y u = Some (Inr u')"
    unfolding text_rows.simps [of ?y u] nxt using u1(1) u2(1) u'(1) by simp
  moreover have "sends u (crlf (concat (map (\<lambda>j. text_line (1000 - 50 * int j)) [j..<40]))) u'"
    using sends_trans [OF line u'(2)] j by (simp add: upt_conv_Cons del: upt_rec_numeral)
  ultimately show ?case by blast
qed

text \<open>
  C40: the program prints the Mandelbrot set: 40 lines of 117 characters, each telling how soon
  the orbit of its point is far out, and then its greeting; no \<open>int\<close> overflows.
\<close>

theorem mandelbrot_prints:
  assumes "num_buffer_ok (num_buf st)" "serving u"
  shows "\<exists>u'. mandelbrot_text st u = Some (Inr (Inr u')) \<and>
    sends u (crlf (text_picture @ lit ''Hello, Mandlebrot!\<newline>'')) u'"
proof -
  let ?t = "lit ''Hello, Mandlebrot!\<newline>''"
  from text_rows_sends [of 0 u] assms(2) obtain u1 where
    u1: "text_rows 1000 u = Some (Inr u1)" "sends u (crlf text_picture) u1"
    by (auto simp: text_picture_def simp del: upt_rec_numeral)
  have r: "Printf.render ?t [] = Some ?t" by (rule render_literal) (simp add: of_char_def)
  have nz: "0 \<notin> set ?t" by (simp add: of_char_def)
  from xprintf_sends [OF r _ nz assms(1) sends_serving [OF u1(2) assms(2)]] obtain u' where
    "xprintf st ?t [] u1 = Some (Inr u')" "sends u1 (crlf ?t) u'" by auto
  with u1(1) sends_trans [OF u1(2)] show ?thesis by (simp add: mandelbrot_text_def del: lit_Cons)
qed

lemma escape_at_once: "1 < n \<Longrightarrow> far_out (x0, y0) \<Longrightarrow> escape_time x0 y0 n = Some 1"
  by (simp add: escape_time_def upt_conv_Cons orbit_def orbit_step_def far_out_def numeral_2_eq_2)

lemma text_start: "\<exists>bs. text_picture = 49 # 49 # 49 # bs"
proof -
  have e: "escape_time (- 2500) 1000 1000 = Some 1" "escape_time (- 2470) 1000 1000 = Some 1"
    "escape_time (- 2440) 1000 1000 = Some 1"
    by (rule escape_at_once; simp add: far_out_def sdiv_square)+
  have l: "[0..<117] = 0 # 1 # 2 # [3..<117]" "[0..<40] = 0 # [1..<40]"
    by (simp_all add: upt_conv_Cons del: upt_rec_numeral)
  show ?thesis unfolding text_picture_def text_line_def l by (simp add: text_char_def e del: upt_rec_numeral)
qed

theorem mandelbrot_prints_witness:
  "\<exists>u'. mandelbrot_text example_stack example_uart = Some (Inr (Inr u')) \<and> take 3 (sent u') = [49, 49, 49]"
proof -
  have "num_buffer_ok (num_buf example_stack)" by (simp add: example_stack_def num_buffer_ok_def)
  from mandelbrot_prints [OF this example_uart_serving] obtain u' where
    u': "mandelbrot_text example_stack example_uart = Some (Inr (Inr u'))"
    "sent u' = crlf (text_picture @ lit ''Hello, Mandlebrot!\<newline>'')" by (auto simp: sends_def example_uart_def)
  obtain bs where bs: "text_picture = 49 # 49 # 49 # bs" using text_start by blast
  have "take 3 (sent u') = [49, 49, 49]" unfolding u'(2) bs by simp
  with u'(1) show ?thesis by blast
qed

end
