(* ===== verification/FractalThreads.thy ===== *)
theory FractalThreads
  imports Fractal
begin

text \<open>
  The renderers of \<^verbatim>\<open>example/ex11-threads-preemptive.c\<close> as threads that are interrupted: \<open>render\<close>
  as a machine with its local variables and a place in the code, whose steps read and write the
  shared surface and the shared memory.  A switch may come between any two steps, as with the
  timer; the local variables are on the thread's own stack and in its registers, which a switch
  keeps (\<^verbatim>\<open>Preempt\<close>).  The claim is that every run ends, without a fault, and with the picture that
  the threads would have drawn one after the other.
\<close>

section \<open>Code\<close>

text \<open>The places: before the copy of the surface, at the heads of the three loops, at \<open>gfx_plot\<close>, behind the loops.\<close>

datatype place = Enter | Rows | Columns | Iterate | Plot | Finished

text \<open>The arguments and local variables; \<open>surf\<close> is the thread's own copy of the surface.\<close>

record painter =
  surf :: gfx_surface
  apx0 :: u32
  apy0 :: u32
  apx1 :: u32
  apy1 :: u32
  vpy :: u32
  vy0 :: int
  vpx :: u32
  vx0 :: int
  vx :: int
  vy :: int
  vi :: nat
  place_of :: place

text \<open>What the threads share: the surface that they are given, and memory.\<close>

type_synonym shared = "gfx_surface \<times> mem"

definition iterate :: "painter \<Rightarrow> fault + painter" where
  "iterate p =
     (if vi p < 500
      then bind_ok (i32 (vx p * vx p)) (\<lambda>xx.
           bind_ok (i32 (vy p * vy p)) (\<lambda>yy.
           let x2 = xx sdiv 1000;
               y2 = yy sdiv 1000
           in bind_ok (i32 (x2 + y2)) (\<lambda>s.
              if s > 4000
              then Inr (p\<lparr>surf := (surf p)\<lparr>fgcolor := ucast (colors ! (if vi p > 11 then 11 else vi p))\<rparr>, place_of := Plot\<rparr>)
              else bind_ok (i32 (2 * vx p)) (\<lambda>t.
                   bind_ok (i32 (t * vy p)) (\<lambda>t.
                   bind_ok (i32 (t sdiv 1000 + vy0 p)) (\<lambda>y.
                   bind_ok (i32 (x2 - y2)) (\<lambda>d.
                   bind_ok (i32 (d + vx0 p)) (\<lambda>x.
                   Inr (p\<lparr>vy := y, vx := x, vi := vi p + 1\<rparr>)))))))))
      else Inr (p\<lparr>surf := (surf p)\<lparr>fgcolor := 0\<rparr>, place_of := Plot\<rparr>))"

definition painter_step :: "painter \<Rightarrow> shared \<Rightarrow> fault + painter \<times> shared" where
  "painter_step p s =
     (case place_of p of
        Enter \<Rightarrow> Inr (p\<lparr>surf := fst s, vpy := apy0 p, place_of := Rows\<rparr>, s)
      | Rows \<Rightarrow>
          if vpy p < apy1 p
          then bind_ok (i32 (1300 * sint (vpy p))) (\<lambda>t.
               if gheight (surf p) = 0 then Inl Div_zero
               else Inr (p\<lparr>vy0 := sint (650 - word_of_int t div gheight (surf p)), vpx := apx0 p, place_of := Columns\<rparr>, s))
          else Inr (p\<lparr>place_of := Finished\<rparr>, s)
      | Columns \<Rightarrow>
          if vpx p < apx1 p
          then bind_ok (i32 (1750 * sint (vpx p))) (\<lambda>t.
               if gwidth (surf p) = 0 then Inl Div_zero
               else Inr (p\<lparr>vx0 := sint (- 1250 + word_of_int t div gwidth (surf p)), vx := 0, vy := 0, vi := 0,
                           place_of := Iterate\<rparr>, s))
          else if vpy p = 0x7FFFFFFF then Inl Int_overflow
          else Inr (p\<lparr>vpy := vpy p + 1, place_of := Rows\<rparr>, s)
      | Iterate \<Rightarrow> bind_ok (iterate p) (\<lambda>p. Inr (p, s))
      | Plot \<Rightarrow>
          if vpx p = 0x7FFFFFFF then Inl Int_overflow
          else Inr (p\<lparr>vpx := vpx p + 1, place_of := Columns\<rparr>, fst s, gfx_plot (surf p) (vpx p) (vpy p) (snd s))
      | Finished \<Rightarrow> Inr (p, s))"

text \<open>A thread that is about to call \<open>render\<close>; its local variables have any values.\<close>

definition call_render :: "painter \<Rightarrow> u32 \<Rightarrow> u32 \<Rightarrow> u32 \<Rightarrow> u32 \<Rightarrow> painter" where
  "call_render p px0 py0 px1 py1 =
     p\<lparr>apx0 := px0, apy0 := py0, apx1 := px1, apy1 := py1, place_of := Enter\<rparr>"

text \<open>One step of any thread that is not finished.\<close>

inductive preempted :: "painter list \<times> shared \<Rightarrow> painter list \<times> shared \<Rightarrow> bool" where
  step: "i < length ps \<Longrightarrow> place_of (ps ! i) \<noteq> Finished \<Longrightarrow> painter_step (ps ! i) s = Inr (p', s') \<Longrightarrow>
    preempted (ps, s) (ps[i := p'], s')"

inductive_cases preemptedE: "preempted (ps, s) t"

section \<open>One thread\<close>

text \<open>What holds of a thread that renders the rectangle \<open>r\<close>, at every place.\<close>

definition own_copy :: "gfx_surface \<Rightarrow> painter \<Rightarrow> bool" where
  "own_copy gs p \<longleftrightarrow> (surf p)\<lparr>fgcolor := fgcolor gs\<rparr> = gs"

definition at_pixel :: "gfx_surface \<Rightarrow> painter \<Rightarrow> bool" where
  "at_pixel gs p \<longleftrightarrow> vpy p < apy1 p \<and> vy0 p = point_y (unat (gheight gs)) (unat (vpy p)) \<and>
     vpx p < apx1 p"

definition on_orbit :: "gfx_surface \<Rightarrow> painter \<Rightarrow> bool" where
  "on_orbit gs p \<longleftrightarrow> vx0 p = point_x (unat (gwidth gs)) (unat (vpx p)) \<and> vi p \<le> 500 \<and>
     orbit (vx0 p) (vy0 p) (vi p) = (vx p, vy p) \<and> \<bar>vx p\<bar> \<le> 6500 \<and> \<bar>vy p\<bar> \<le> 5301 \<and>
     (\<forall>k<vi p. \<not> far_out (orbit (vx0 p) (vy0 p) k))"

definition renders_area :: "gfx_surface \<Rightarrow> nat \<times> nat \<times> nat \<times> nat \<Rightarrow> painter \<Rightarrow> bool" where
  "renders_area gs r p \<longleftrightarrow> area_on gs r \<and>
     r = (unat (apx0 p), unat (apy0 p), unat (apx1 p), unat (apy1 p)) \<and>
     (case place_of p of
        Enter \<Rightarrow> True
      | Rows \<Rightarrow> own_copy gs p \<and> apy0 p \<le> vpy p \<and> vpy p \<le> apy1 p
      | Columns \<Rightarrow> own_copy gs p \<and> apy0 p \<le> vpy p \<and> vpy p < apy1 p \<and>
          vy0 p = point_y (unat (gheight gs)) (unat (vpy p)) \<and> apx0 p \<le> vpx p \<and> vpx p \<le> apx1 p
      | Iterate \<Rightarrow> own_copy gs p \<and> apy0 p \<le> vpy p \<and> apx0 p \<le> vpx p \<and> at_pixel gs p \<and> on_orbit gs p
      | Plot \<Rightarrow> own_copy gs p \<and> apy0 p \<le> vpy p \<and> apx0 p \<le> vpx p \<and> at_pixel gs p \<and>
          ucast (fgcolor (surf p)) = shade (unat (gwidth gs)) (unat (gheight gs)) (unat (vpx p)) (unat (vpy p))
      | Finished \<Rightarrow> True)"

text \<open>The pixels that it has still to draw.\<close>

definition to_draw :: "painter \<Rightarrow> (nat \<times> nat) set" where
  "to_draw p = {(x, y). unat (apx0 p) \<le> x \<and> x < unat (apx1 p) \<and> y < unat (apy1 p) \<and>
     (case place_of p of
        Enter \<Rightarrow> unat (apy0 p) \<le> y
      | Rows \<Rightarrow> unat (vpy p) \<le> y
      | Finished \<Rightarrow> False
      | _ \<Rightarrow> unat (vpy p) < y \<or> unat (vpy p) = y \<and> unat (vpx p) \<le> x)}"

text \<open>
  A bound of the steps that are left.  A pixel takes at most 503: the head of the loop over \<open>px\<close>,
  501 rounds and the plot.
\<close>

definition rows_left :: "nat \<Rightarrow> nat \<Rightarrow> nat" where
  "rows_left w n = (503 * w + 2) * n"

definition steps_left :: "painter \<Rightarrow> nat" where
  "steps_left p =
     (let w = unat (apx1 p) - unat (apx0 p);
          rows = (\<lambda>y. rows_left w (unat (apy1 p) - y));
          columns = 503 * (unat (apx1 p) - unat (vpx p))
      in case place_of p of
        Enter \<Rightarrow> 2 + rows (unat (apy0 p))
      | Rows \<Rightarrow> 1 + rows (unat (vpy p))
      | Columns \<Rightarrow> 2 + rows (Suc (unat (vpy p))) + columns
      | Iterate \<Rightarrow> 1 + rows (Suc (unat (vpy p))) + columns - vi p
      | Plot \<Rightarrow> 1 + rows (Suc (unat (vpy p))) + columns - 501
      | Finished \<Rightarrow> 0)"

lemma rows_left_next: "y < b \<Longrightarrow> rows_left w (b - y) = rows_left w (b - Suc y) + 503 * w + 2"
  by (simp add: rows_left_def Suc_diff_Suc [symmetric])

lemma own_copy_fields:
  assumes "own_copy gs p"
  shows "gwidth (surf p) = gwidth gs" "gheight (surf p) = gheight gs"
    "gfx_plot (surf p) x y m = gfx_plot (gs\<lparr>fgcolor := fgcolor (surf p)\<rparr>) x y m"
proof -
  have "surf p = gs\<lparr>fgcolor := fgcolor (surf p)\<rparr>"
    using assms unfolding own_copy_def by (metis gfx_surface.surjective gfx_surface.update_convs(6))
  then show "gwidth (surf p) = gwidth gs" "gheight (surf p) = gheight gs"
    "gfx_plot (surf p) x y m = gfx_plot (gs\<lparr>fgcolor := fgcolor (surf p)\<rparr>) x y m"
    by (metis gfx_surface.select_convs gfx_surface.surjective gfx_surface.update_convs(6), metis gfx_surface.select_convs gfx_surface.surjective gfx_surface.update_convs(6), simp)
qed

lemma iterate_escapes:
  assumes "on_orbit gs p" "vi p < 500" "far_out (vx p, vy p)"
  shows "iterate p = Inr (p\<lparr>surf := (surf p)\<lparr>fgcolor := ucast (colors ! (if vi p > 11 then 11 else vi p))\<rparr>, place_of := Plot\<rparr>)"
proof -
  have sq: "\<bar>vx p\<bar> \<le> 6500" "\<bar>vy p\<bar> \<le> 5301" using assms(1) by (simp_all add: on_orbit_def)
  have far: "vx p * vx p sdiv 1000 + vy p * vy p sdiv 1000 > 4000" using assms(3) by (simp add: far_out_def)
  show ?thesis unfolding iterate_def if_P [OF assms(2)] round_squares [OF sq] bind_ok_simps Let_def if_P [OF far] ..
qed

lemma iterate_goes_on:
  assumes "on_orbit gs p" "vi p < 500" "\<not> far_out (vx p, vy p)" "\<bar>vx0 p\<bar> \<le> 2500" "\<bar>vy0 p\<bar> \<le> 1300"
  shows "\<exists>p'. iterate p = Inr p' \<and> on_orbit gs p' \<and> p' = p\<lparr>vy := vy p', vx := vx p', vi := vi p + 1\<rparr>"
proof -
  have o: "\<bar>vx p\<bar> \<le> 6500" "\<bar>vy p\<bar> \<le> 5301" "orbit (vx0 p) (vy0 p) (vi p) = (vx p, vy p)"
    "\<forall>k<vi p. \<not> far_out (orbit (vx0 p) (vy0 p) k)" using assms(1) unfolding on_orbit_def by blast+
  let ?z = "orbit_step (vx0 p) (vy0 p) (vx p, vy p)"
  let ?p = "p\<lparr>vy := snd ?z, vx := fst ?z, vi := vi p + 1\<rparr>"
  note b = not_far_bounds [OF assms(3-5)] and nx = round_next [OF assms(3-5)]
  have near: "\<not> vx p * vx p sdiv 1000 + vy p * vy p sdiv 1000 > 4000" using assms(3) by (simp add: far_out_def)
  have "iterate p = Inr ?p"
    unfolding iterate_def if_P [OF assms(2)] round_squares [OF o(1,2)] bind_ok_simps Let_def if_not_P [OF near] nx ..
  moreover have "on_orbit gs ?p"
    using assms(1-3) b o(3,4) by (auto simp: on_orbit_def orbit_Suc less_Suc_eq)
  ultimately show ?thesis by (intro exI [of _ ?p]) simp
qed

text \<open>The shade is that of the first point of the orbit that is far out.\<close>

lemma find_first:
  "i < n \<Longrightarrow> P i \<Longrightarrow> \<forall>k<i. \<not> P k \<Longrightarrow> find P [0..<n] = Some i"
  by (auto simp: find_Some_iff)

lemma escape_first: "i < n \<Longrightarrow> far_out (orbit x0 y0 i) \<Longrightarrow> \<forall>k<i. \<not> far_out (orbit x0 y0 k) \<Longrightarrow> escape_time x0 y0 n = Some i"
  unfolding escape_time_def by (rule find_first)

lemma escape_never: "\<forall>k<n. \<not> far_out (orbit x0 y0 k) \<Longrightarrow> escape_time x0 y0 n = None"
  by (simp add: escape_time_def find_None_iff)

lemma color_of: "ucast (ucast (colors ! (if i > 11 then 11 else i)) :: u32) = shade_of (Some i)" "ucast (0 :: u32) = shade_of None"
  using shade_color [of "Some i"] shade_color [of None] by (simp_all add: shade_word_def)

text \<open>A round of the pixel loop: the thread stays at its pixel, or has its shade.\<close>

lemma iterate_renders:
  assumes "on_orbit gs p" "at_pixel gs p" "\<bar>vx0 p\<bar> \<le> 2500" "\<bar>vy0 p\<bar> \<le> 1300"
  shows "(\<exists>c. iterate p = Inr (p\<lparr>surf := (surf p)\<lparr>fgcolor := c\<rparr>, place_of := Plot\<rparr>) \<and>
      ucast c = shade (unat (gwidth gs)) (unat (gheight gs)) (unat (vpx p)) (unat (vpy p))) \<or>
    (\<exists>p'. iterate p = Inr p' \<and> on_orbit gs p' \<and> vi p < 500 \<and> p' = p\<lparr>vy := vy p', vx := vx p', vi := vi p + 1\<rparr>)"
proof -
  have o: "vx0 p = point_x (unat (gwidth gs)) (unat (vpx p))" "vy0 p = point_y (unat (gheight gs)) (unat (vpy p))"
    "orbit (vx0 p) (vy0 p) (vi p) = (vx p, vy p)" "\<forall>k<vi p. \<not> far_out (orbit (vx0 p) (vy0 p) k)" "vi p \<le> 500"
    using assms(1,2) unfolding on_orbit_def at_pixel_def by blast+
  have sh: "shade (unat (gwidth gs)) (unat (gheight gs)) (unat (vpx p)) (unat (vpy p)) = shade_of (escape_time (vx0 p) (vy0 p) 500)"
    by (simp add: shade_def o(1,2))
  show ?thesis
  proof (cases "vi p < 500")
    case False
    with o(5) have "vi p = 500" by simp
    then have "escape_time (vx0 p) (vy0 p) 500 = None" using o(4) by (intro escape_never) simp
    then show ?thesis using False color_of(2) unfolding sh by (intro disjI1 exI [of _ 0]) (simp add: iterate_def)
  next
    case True
    show ?thesis
    proof (cases "far_out (vx p, vy p)")
      case far: True
      have "escape_time (vx0 p) (vy0 p) 500 = Some (vi p)"
        by (rule escape_first) (use True far o(3,4) in simp_all)
      with iterate_escapes [OF assms(1) True far] color_of(1) [of "vi p"] show ?thesis
        unfolding sh by (intro disjI1 exI conjI) simp_all
    next
      case False
      from iterate_goes_on [OF assms(1) True False assms(3,4)] obtain p' where
        "iterate p = Inr p'" "on_orbit gs p'" "p' = p\<lparr>vy := vy p', vx := vx p', vi := vi p + 1\<rparr>" by (elim exE conjE)
      with True show ?thesis by (intro disjI2 exI [of _ p'] conjI)
    qed
  qed
qed

section \<open>A step of a thread\<close>

text \<open>
  What a step may do: nothing that the others see, or draw one pixel of the thread's own.
\<close>

definition good_step :: "gfx_surface \<Rightarrow> nat \<times> nat \<times> nat \<times> nat \<Rightarrow> painter \<Rightarrow> mem \<Rightarrow> painter \<Rightarrow> mem \<Rightarrow> bool" where
  "good_step gs r p m p' m' \<longleftrightarrow> renders_area gs r p' \<and> steps_left p' < steps_left p \<and>
     (m' = m \<and> to_draw p' = to_draw p \<or>
      (\<exists>x y. to_draw p = insert (x, y) (to_draw p') \<and>
        painted gs (\<lambda>a b. (a, b) = (x, y)) (shade (unat (gwidth gs)) (unat (gheight gs))) m m'))"

lemmas places = renders_area_def to_draw_def steps_left_def good_step_def Let_def

lemma counter_next: "i < n \<Longrightarrow> unat n \<le> 1000000 \<Longrightarrow> unat (i + 1) = Suc (unat i) \<and> i \<noteq> 0x7FFFFFFF" for i n :: u32
  using unat_Suc_below [of i n] by (auto simp: word_less_nat_alt)

lemma step_enter:
  assumes "renders_area gs r p" "place_of p = Enter"
  shows "\<exists>p'. painter_step p (gs, m) = Inr (p', gs, m) \<and> good_step gs r p m p' m"
  using assms by (auto simp: painter_step_def places own_copy_def area_on_def word_le_nat_alt)

lemma step_rows:
  assumes "canvas_ok gs" "renders_area gs r p" "place_of p = Rows"
  shows "\<exists>p'. painter_step p (gs, m) = Inr (p', gs, m) \<and> good_step gs r p m p' m"
proof (cases "vpy p < apy1 p")
  case False
  then show ?thesis using assms(2,3) by (auto simp: painter_step_def places word_le_nat_alt word_less_nat_alt)
next
  case True
  have r: "own_copy gs p" "apy0 p \<le> vpy p" "apx0 p \<le> apx1 p" "unat (vpy p) < unat (gheight gs)"
    using assms(2,3) True by (auto simp: renders_area_def area_on_def word_le_nat_alt word_less_nat_alt)
  have h: "unat (gheight gs) \<le> 1000000" using assms(1) by (simp add: canvas_ok_def)
  have nz: "gheight (surf p) \<noteq> 0" using r(4) by (auto simp: own_copy_fields [OF r(1)])
  note t = row_point [OF r(4) h]
  let ?p = "p\<lparr>vy0 := point_y (unat (gheight gs)) (unat (vpy p)), vpx := apx0 p, place_of := Columns\<rparr>"
  have "painter_step p (gs, m) = Inr (?p, gs, m)"
    using assms(3) True nz t by (simp add: painter_step_def own_copy_fields [OF r(1)] del: of_int_mult)
  moreover have "good_step gs r p m ?p m"
    using assms(2,3) True r(1-3) by (auto simp: places own_copy_def word_le_nat_alt word_less_nat_alt rows_left_next)
  ultimately show ?thesis by blast
qed

lemma step_columns:
  assumes "canvas_ok gs" "renders_area gs r p" "place_of p = Columns"
  shows "\<exists>p'. painter_step p (gs, m) = Inr (p', gs, m) \<and> good_step gs r p m p' m"
proof (cases "vpx p < apx1 p")
  case False
  have b: "vpy p < apy1 p" "unat (apy1 p) \<le> 1000000" "apx1 p \<le> vpx p"
    using assms False by (auto simp: renders_area_def area_on_def canvas_ok_def)
  note n = counter_next [OF b(1,2)]
  let ?p = "p\<lparr>vpy := vpy p + 1, place_of := Rows\<rparr>"
  have "painter_step p (gs, m) = Inr (?p, gs, m)" using assms(3) False n by (simp add: painter_step_def)
  moreover have "good_step gs r p m ?p m"
    using assms(2,3) b n by (auto simp: places own_copy_def word_le_nat_alt word_less_nat_alt)
  ultimately show ?thesis by blast
next
  case True
  have r: "own_copy gs p" "apy0 p \<le> vpy p" "apx0 p \<le> vpx p" "vpy p < apy1 p" "unat (vpx p) < unat (gwidth gs)"
    "vy0 p = point_y (unat (gheight gs)) (unat (vpy p))"
    using assms(2,3) True by (auto simp: renders_area_def area_on_def word_le_nat_alt word_less_nat_alt)
  have w: "unat (gwidth gs) \<le> 1000000" using assms(1) by (simp add: canvas_ok_def)
  have nz: "gwidth (surf p) \<noteq> 0" using r(5) by (auto simp: own_copy_fields [OF r(1)])
  note t = column_point [OF r(5) w]
  let ?p = "p\<lparr>vx0 := point_x (unat (gwidth gs)) (unat (vpx p)), vx := 0, vy := 0, vi := 0, place_of := Iterate\<rparr>"
  have "painter_step p (gs, m) = Inr (?p, gs, m)"
    using assms(3) True nz t by (simp add: painter_step_def own_copy_fields [OF r(1)] del: of_int_mult)
  moreover have "good_step gs r p m ?p m"
    using assms(2,3) True r by (auto simp: places own_copy_def at_pixel_def on_orbit_def orbit_def)
  ultimately show ?thesis by blast
qed

lemma step_iterate:
  assumes "canvas_ok gs" "renders_area gs r p" "place_of p = Iterate"
  shows "\<exists>p'. painter_step p (gs, m) = Inr (p', gs, m) \<and> good_step gs r p m p' m"
proof -
  have inv: "own_copy gs p" "at_pixel gs p" "on_orbit gs p"
    using assms(2,3) by (simp_all add: renders_area_def)
  have px: "unat (vpx p) < unat (gwidth gs)" "unat (vpy p) < unat (gheight gs)"
    using assms(2) inv(2) by (auto simp: renders_area_def area_on_def at_pixel_def word_less_nat_alt)
  have b: "\<bar>vx0 p\<bar> \<le> 2500" "\<bar>vy0 p\<bar> \<le> 1300"
    using column_point(3) [OF px(1)] row_point(3) [OF px(2)] assms(1) inv(2,3)
    by (simp_all add: canvas_ok_def at_pixel_def on_orbit_def)
  have lt: "vpx p < apx1 p" "vi p \<le> 500" using inv(2,3) by (simp_all add: at_pixel_def on_orbit_def)
  then have big: "503 \<le> 503 * (unat (apx1 p) - unat (vpx p))" by (simp add: word_less_nat_alt)
  from iterate_renders [OF inv(3,2) b] show ?thesis
  proof (elim disjE exE conjE)
    fix c assume c: "iterate p = Inr (p\<lparr>surf := (surf p)\<lparr>fgcolor := c\<rparr>, place_of := Plot\<rparr>)"
      "ucast c = shade (unat (gwidth gs)) (unat (gheight gs)) (unat (vpx p)) (unat (vpy p))"
    have "good_step gs r p m (p\<lparr>surf := (surf p)\<lparr>fgcolor := c\<rparr>, place_of := Plot\<rparr>) m"
      using assms(2,3) inv c(2) lt(2) big by (auto simp: places own_copy_def at_pixel_def)
    with c(1) assms(3) show ?thesis by (auto simp: painter_step_def)
  next
    fix p' assume i: "iterate p = Inr p'" "on_orbit gs p'" "vi p < 500"
      and p': "p' = p\<lparr>vy := vy p', vx := vx p', vi := vi p + 1\<rparr>"
    obtain y x where q: "p' = p\<lparr>vy := y, vx := x, vi := vi p + 1\<rparr>" using p' by blast
    have "good_step gs r p m p' m"
      using assms(2,3) inv(1,2) i(2,3) big unfolding q by (auto simp: places own_copy_def at_pixel_def)
    with i(1) assms(3) show ?thesis by (auto simp: painter_step_def)
  qed
qed

lemma step_plot:
  assumes "canvas_ok gs" "renders_area gs r p" "place_of p = Plot"
  shows "\<exists>p' m'. painter_step p (gs, m) = Inr (p', gs, m') \<and> good_step gs r p m p' m'"
proof -
  have inv: "own_copy gs p" "at_pixel gs p" "apy0 p \<le> vpy p" "apx0 p \<le> vpx p"
    "ucast (fgcolor (surf p)) = shade (unat (gwidth gs)) (unat (gheight gs)) (unat (vpx p)) (unat (vpy p))"
    using assms(2,3) by (simp_all add: renders_area_def)
  have lt: "vpx p < apx1 p" "vpy p < apy1 p" "unat (apx1 p) \<le> 1000000"
    using assms(1,2) inv(2) by (auto simp: renders_area_def area_on_def at_pixel_def canvas_ok_def)
  note n = counter_next [OF lt(1,3)]
  have ok: "surface_ok gs" "gmethods gs = Rgb565" using assms(1) by (simp_all add: canvas_ok_def surface_ok_def)
  let ?p = "p\<lparr>vpx := vpx p + 1, place_of := Columns\<rparr>" and ?m = "gfx_plot (surf p) (vpx p) (vpy p) m"
  have "painter_step p (gs, m) = Inr (?p, gs, ?m)" using assms(3) n by (simp add: painter_step_def)
  moreover have "?m = plot16 gs (vpx p) (vpy p) (fgcolor (surf p)) m"
    unfolding own_copy_fields(3) [OF inv(1)] using ok(2) by (simp add: gfx_plot_def surface_plot_def plot16_def)
  then have "painted gs (\<lambda>a b. (a, b) = (unat (vpx p), unat (vpy p))) (shade (unat (gwidth gs)) (unat (gheight gs))) m ?m"
    using plot16_painted [OF ok(1), of "vpx p" "vpy p" "fgcolor (surf p)" m] inv(5) by (auto elim!: painted_weak)
  moreover have "to_draw p = insert (unat (vpx p), unat (vpy p)) (to_draw ?p)"
    using assms(3) inv(4) lt n by (auto simp: to_draw_def word_le_nat_alt word_less_nat_alt)
  moreover have "renders_area gs r ?p"
    using assms(2,3) inv lt n by (auto simp: renders_area_def at_pixel_def own_copy_def word_le_nat_alt word_less_nat_alt)
  moreover have "steps_left ?p < steps_left p"
    using assms(3) n lt(1) by (auto simp: steps_left_def Let_def word_less_nat_alt)
  ultimately show ?thesis unfolding good_step_def by blast
qed

lemma painter_step_good:
  assumes "canvas_ok gs" "renders_area gs r p" "place_of p \<noteq> Finished"
  shows "\<exists>p' m'. painter_step p (gs, m) = Inr (p', gs, m') \<and> good_step gs r p m p' m'"
  using assms(3) step_enter [OF assms(2)] step_rows [OF assms(1,2)] step_columns [OF assms(1,2)]
    step_iterate [OF assms(1,2)] step_plot [OF assms(1,2)]
  by (cases "place_of p") blast+

section \<open>Runs\<close>

definition work_left :: "painter list \<Rightarrow> nat" where
  "work_left ps = sum_list (map steps_left ps)"

definition all_to_draw :: "painter list \<Rightarrow> (nat \<times> nat) set" where
  "all_to_draw ps = \<Union> (to_draw ` set ps)"

lemma work_left_update: "i < length ps \<Longrightarrow> work_left (ps[i := p]) + steps_left (ps ! i) = work_left ps + steps_left p"
  by (subst (2) id_take_nth_drop [of i ps]) (auto simp: work_left_def upd_conv_take_nth_drop)

lemma all_to_draw_update:
  "i < length ps \<Longrightarrow> \<exists>R. all_to_draw ps = to_draw (ps ! i) \<union> R \<and> all_to_draw (ps[i := p]) = to_draw p \<union> R"
  by (rule exI [of _ "all_to_draw (take i ps) \<union> all_to_draw (drop (Suc i) ps)"], subst (1) id_take_nth_drop [of i ps])
    (auto simp: all_to_draw_def upd_conv_take_nth_drop)

text \<open>After any steps: the pixels of \<open>E\<close> are drawn, the others still have to be.\<close>

definition has_drawn :: "gfx_surface \<Rightarrow> painter list \<Rightarrow> mem \<Rightarrow> painter list \<Rightarrow> mem \<Rightarrow> bool" where
  "has_drawn gs ps m ps' m' \<longleftrightarrow> (\<exists>E. all_to_draw ps = E \<union> all_to_draw ps' \<and>
     painted gs (\<lambda>x y. (x, y) \<in> E) (shade (unat (gwidth gs)) (unat (gheight gs))) m m')"

lemma has_drawn_refl: "has_drawn gs ps m ps m"
  unfolding has_drawn_def by (rule exI [of _ "{}"]) (simp add: painted_none)

lemma has_drawn_trans: "has_drawn gs ps m ps1 m1 \<Longrightarrow> has_drawn gs ps1 m1 ps2 m2 \<Longrightarrow> has_drawn gs ps m ps2 m2"
proof -
  assume "has_drawn gs ps m ps1 m1" "has_drawn gs ps1 m1 ps2 m2"
  then obtain E F where e: "all_to_draw ps = E \<union> all_to_draw ps1" "all_to_draw ps1 = F \<union> all_to_draw ps2"
    "painted gs (\<lambda>x y. (x, y) \<in> E) (shade (unat (gwidth gs)) (unat (gheight gs))) m m1"
    "painted gs (\<lambda>x y. (x, y) \<in> F) (shade (unat (gwidth gs)) (unat (gheight gs))) m1 m2"
    by (auto simp: has_drawn_def)
  have "painted gs (\<lambda>x y. (x, y) \<in> E \<union> F) (shade (unat (gwidth gs)) (unat (gheight gs))) m m2"
    by (rule painted_weak [OF painted_trans [OF e(3,4)]]) auto
  with e(1,2) show ?thesis unfolding has_drawn_def by (intro exI [of _ "E \<union> F"]) auto
qed

lemma good_step_drawn:
  assumes "i < length ps" "good_step gs r (ps ! i) m p' m'"
  shows "has_drawn gs ps m (ps[i := p']) m'" "work_left (ps[i := p']) < work_left ps"
proof -
  show "work_left (ps[i := p']) < work_left ps"
    using work_left_update [OF assms(1), of p'] assms(2) by (simp add: good_step_def)
  from all_to_draw_update [OF assms(1), of p'] obtain R where
    R: "all_to_draw ps = to_draw (ps ! i) \<union> R" "all_to_draw (ps[i := p']) = to_draw p' \<union> R" by (elim exE conjE)
  from assms(2) consider "m' = m" "to_draw p' = to_draw (ps ! i)" | x y where "to_draw (ps ! i) = insert (x, y) (to_draw p')"
      "painted gs (\<lambda>a b. (a, b) = (x, y)) (shade (unat (gwidth gs)) (unat (gheight gs))) m m'"
    unfolding good_step_def by blast
  then show "has_drawn gs ps m (ps[i := p']) m'"
  proof cases
    case 1
    then show ?thesis using R by (auto simp: has_drawn_def intro!: exI [of _ "{}"] painted_none)
  next
    case 2
    then show ?thesis using R unfolding has_drawn_def by (intro exI [of _ "{(x, y)}"]) (auto elim: painted_weak)
  qed
qed

lemma preempted_good:
  assumes "canvas_ok gs" "list_all2 (renders_area gs) rs ps" "preempted (ps, gs, m) t"
  shows "\<exists>ps' m'. t = (ps', gs, m') \<and> list_all2 (renders_area gs) rs ps' \<and> work_left ps' < work_left ps \<and>
    has_drawn gs ps m ps' m'"
proof -
  from assms(3) obtain i p' s' where st: "i < length ps" "place_of (ps ! i) \<noteq> Finished"
    "painter_step (ps ! i) (gs, m) = Inr (p', s')" "t = (ps[i := p'], s')" by (auto elim: preemptedE)
  have "renders_area gs (rs ! i) (ps ! i)" using assms(2) st(1) by (simp add: list_all2_conv_all_nth)
  from painter_step_good [OF assms(1) this st(2), of m] st(3) obtain m' where
    g: "s' = (gs, m')" "good_step gs (rs ! i) (ps ! i) m p' m'" by auto
  have "list_all2 (renders_area gs) rs (ps[i := p'])"
    using assms(2) g(2) st(1) by (auto simp: list_all2_conv_all_nth nth_list_update good_step_def)
  with st(4) g(1) good_step_drawn [OF st(1) g(2)] show ?thesis by blast
qed

lemma run_good:
  assumes "canvas_ok gs" "list_all2 (renders_area gs) rs ps"
  shows "(preempted ^^ n) (ps, gs, m) t \<Longrightarrow> \<exists>ps' m'. t = (ps', gs, m') \<and> list_all2 (renders_area gs) rs ps' \<and>
    n + work_left ps' \<le> work_left ps \<and> has_drawn gs ps m ps' m'"
proof (induction n arbitrary: t)
  case 0
  then show ?case using assms(2) has_drawn_refl by auto
next
  case (Suc n)
  from Suc.prems obtain t1 where t1: "(preempted ^^ n) (ps, gs, m) t1" "preempted t1 t" by auto
  from Suc.IH [OF t1(1)] obtain ps1 m1 where r1: "t1 = (ps1, gs, m1)" "list_all2 (renders_area gs) rs ps1"
    "n + work_left ps1 \<le> work_left ps" "has_drawn gs ps m ps1 m1" by blast
  from preempted_good [OF assms(1) r1(2)] t1(2) r1(1) obtain ps' m' where
    "t = (ps', gs, m')" "list_all2 (renders_area gs) rs ps'" "work_left ps' < work_left ps1" "has_drawn gs ps1 m1 ps' m'"
    by blast
  with r1(3) has_drawn_trans [OF r1(4)] show ?case by (intro exI conjI) (assumption | simp)+
qed

text \<open>A thread that is not finished can go on, so every run can be continued to its end.\<close>

lemma can_step:
  assumes "canvas_ok gs" "list_all2 (renders_area gs) rs ps" "i < length ps" "place_of (ps ! i) \<noteq> Finished"
  shows "\<exists>p' m'. painter_step (ps ! i) (gs, m) = Inr (p', gs, m')"
proof -
  have "renders_area gs (rs ! i) (ps ! i)" using assms(2,3) by (simp add: list_all2_conv_all_nth)
  from painter_step_good [OF assms(1) this assms(4), of m] show ?thesis by blast
qed

lemma run_finishes:
  assumes "canvas_ok gs"
  shows "list_all2 (renders_area gs) rs ps \<Longrightarrow>
    \<exists>n ps' m'. (preempted ^^ n) (ps, gs, m) (ps', gs, m') \<and> (\<forall>p\<in>set ps'. place_of p = Finished)"
proof (induction "work_left ps" arbitrary: ps m rule: less_induct)
  case less
  show ?case
  proof (cases "\<forall>p\<in>set ps. place_of p = Finished")
    case True
    then show ?thesis by (intro exI [of _ 0] exI [of _ ps]) auto
  next
    case False
    then obtain i where i: "i < length ps" "place_of (ps ! i) \<noteq> Finished" by (auto simp: in_set_conv_nth)
    from can_step [OF assms less.prems i, of m] obtain p' m1 where
      "painter_step (ps ! i) (gs, m) = Inr (p', gs, m1)" by blast
    from preempted.step [OF i this] have st: "preempted (ps, gs, m) (ps[i := p'], gs, m1)" .
    from preempted_good [OF assms less.prems st] have
      "list_all2 (renders_area gs) rs (ps[i := p'])" "work_left (ps[i := p']) < work_left ps" by auto
    from less.hyps [OF this(2,1), of m1] obtain n ps' m' where
      "(preempted ^^ n) (ps[i := p'], gs, m1) (ps', gs, m')" "\<forall>p\<in>set ps'. place_of p = Finished" by blast
    with relpowp_Suc_I2 [where P = preempted, OF st] show ?thesis by blast
  qed
qed

section \<open>One thread after the other\<close>

fun renders :: "gfx_surface \<Rightarrow> (nat \<times> nat \<times> nat \<times> nat) list \<Rightarrow> mem \<Rightarrow> fault + mem" where
  "renders gs [] m = Inr m"
| "renders gs ((x0, y0, x1, y1) # rs) m =
     bind_ok (render_fractal gs (of_nat x0) (of_nat y0) (of_nat x1) (of_nat y1) m) (\<lambda>(r, m). renders gs rs m)"

lemma renders_painted:
  "canvas_ok gs \<Longrightarrow> \<forall>r\<in>set rs. area_on gs r \<Longrightarrow> \<exists>m'. renders gs rs m = Inr m' \<and>
    painted gs (\<lambda>x y. \<exists>r\<in>set rs. inside_area r x y) (shade (unat (gwidth gs)) (unat (gheight gs))) m m'"
proof (induction rs arbitrary: m)
  case Nil
  then show ?case by (simp add: painted_none)
next
  case (Cons r rs)
  obtain x0 y0 x1 y1 where r: "r = (x0, y0, x1, y1)" by (cases r) auto
  from render_paints_area [OF Cons.prems(1), of x0 y0 x1 y1 m] Cons.prems(2) r obtain m1 where
    m1: "render_fractal gs (of_nat x0) (of_nat y0) (of_nat x1) (of_nat y1) m = Inr (2, m1)"
      "painted gs (inside_area r) (shade (unat (gwidth gs)) (unat (gheight gs))) m m1" by auto
  from Cons.IH [OF Cons.prems(1), of m1] Cons.prems(2) obtain m' where
    m': "renders gs rs m1 = Inr m'"
      "painted gs (\<lambda>x y. \<exists>r\<in>set rs. inside_area r x y) (shade (unat (gwidth gs)) (unat (gheight gs))) m1 m'" by auto
  have "painted gs (\<lambda>x y. \<exists>r\<in>set (r # rs). inside_area r x y) (shade (unat (gwidth gs)) (unat (gheight gs))) m m'"
    by (rule painted_weak [OF painted_trans [OF m1(2) m'(2)]]) auto
  with m1(1) m'(1) show ?case by (simp add: r)
qed

text \<open>What is painted determines memory.\<close>

lemma load16_bytes: "load16 m a = load16 m' b \<Longrightarrow> m a = m' b \<and> m (a + 1) = m' (b + 1)"
proof -
  have "ucast (load16 m a) = m a" "ucast (drop_bit 8 (load16 m a)) = m (a + 1)" for m a
    by (rule bit_word_eqI; simp add: load16_def bit_simps)+
  then show "load16 m a = load16 m' b \<Longrightarrow> ?thesis" by metis
qed

lemma painted_unique:
  assumes "painted gs P f m m1" "painted gs P f m m2"
  shows "m1 = m2"
proof (rule ext)
  fix a
  show "m1 a = m2 a"
  proof (cases "\<exists>x y. visible gs x y \<and> P x y \<and> (a = pixel_address gs x y \<or> a = pixel_address gs x y + 1)")
    case False
    then show ?thesis using assms unfolding painted_def by (metis (no_types, lifting))
  next
    case True
    then obtain x y where p: "visible gs x y" "P x y" "a = pixel_address gs x y \<or> a = pixel_address gs x y + 1" by blast
    then have "pixel gs m1 x y = pixel gs m2 x y" using assms by (simp add: painted_def)
    then show ?thesis using p(3) load16_bytes unfolding pixel_def by blast
  qed
qed

section \<open>Claims\<close>

text \<open>The threads before their calls; their local variables have any values.\<close>

definition called :: "painter \<Rightarrow> nat \<times> nat \<times> nat \<times> nat \<Rightarrow> painter" where
  "called p r = (case r of (x0, y0, x1, y1) \<Rightarrow> call_render p (of_nat x0) (of_nat y0) (of_nat x1) (of_nat y1))"

definition step_bound :: "nat \<times> nat \<times> nat \<times> nat \<Rightarrow> nat" where
  "step_bound r = (case r of (x0, y0, x1, y1) \<Rightarrow> 2 + (503 * (x1 - x0) + 2) * (y1 - y0))"

lemma called_start:
  assumes "canvas_ok gs" "area_on gs r"
  shows "renders_area gs r (called p r)" "steps_left (called p r) = step_bound r" "to_draw (called p r) = {(x, y). inside_area r x y}"
proof -
  obtain x0 y0 x1 y1 where r: "r = (x0, y0, x1, y1)" by (cases r) auto
  have "x0 \<le> 1000000" "y0 \<le> 1000000" "x1 \<le> 1000000" "y1 \<le> 1000000"
    using assms by (auto simp: canvas_ok_def area_on_def r)
  then have "unat (of_nat x0 :: u32) = x0" "unat (of_nat y0 :: u32) = y0" "unat (of_nat x1 :: u32) = x1" "unat (of_nat y1 :: u32) = y1"
    by (simp_all add: unat_of_nat32)
  then show "renders_area gs r (called p r)" "steps_left (called p r) = step_bound r" "to_draw (called p r) = {(x, y). inside_area r x y}"
    using assms(2) unfolding r
    by (auto simp: called_def call_render_def renders_area_def steps_left_def step_bound_def rows_left_def to_draw_def inside_area_def)
qed

lemma threads_start:
  assumes "canvas_ok gs" "\<forall>r\<in>set rs. area_on gs r" "length ls = length rs"
  shows "list_all2 (renders_area gs) rs (map2 called ls rs)" "work_left (map2 called ls rs) = sum_list (map step_bound rs)"
    "all_to_draw (map2 called ls rs) = {(x, y). \<exists>r\<in>set rs. inside_area r x y}"
  using assms(3,2) called_start [OF assms(1)]
  by (induction ls rs rule: list_induct2) (auto simp: work_left_def all_to_draw_def)

text \<open>
  C37: threads that render at the same time and are interrupted anywhere.  Every run ends, after
  at most \<open>step_bound\<close> steps for each thread; no thread ever faults; and when all have finished,
  memory is what it is after rendering one rectangle after the other: every pixel of a rectangle
  has its shade, no other byte has changed, and the shared surface is as it was.
\<close>

theorem threads_render:
  assumes "canvas_ok gs" "\<forall>r\<in>set rs. area_on gs r" "length ls = length rs"
    and "(preempted ^^ n) (map2 called ls rs, gs, m) (ps, gs', m')"
  shows "gs' = gs \<and> n \<le> sum_list (map step_bound rs) \<and>
    (\<forall>i<length ps. place_of (ps ! i) \<noteq> Finished \<longrightarrow> (\<exists>p'' s''. painter_step (ps ! i) (gs', m') = Inr (p'', s''))) \<and>
    ((\<forall>p\<in>set ps. place_of p = Finished) \<longrightarrow> renders gs rs m = Inr m' \<and>
      painted gs (\<lambda>x y. \<exists>r\<in>set rs. inside_area r x y) (shade (unat (gwidth gs)) (unat (gheight gs))) m m')"
proof -
  note st = threads_start [OF assms(1-3)]
  from run_good [OF assms(1) st(1) assms(4)] have run: "gs' = gs" "list_all2 (renders_area gs) rs ps"
    "n + work_left ps \<le> sum_list (map step_bound rs)" "has_drawn gs (map2 called ls rs) m ps m'" using st(2) by auto
  have "renders gs rs m = Inr m' \<and>
      painted gs (\<lambda>x y. \<exists>r\<in>set rs. inside_area r x y) (shade (unat (gwidth gs)) (unat (gheight gs))) m m'"
    if "\<forall>p\<in>set ps. place_of p = Finished"
  proof -
    have "all_to_draw ps = {}" using that by (auto simp: all_to_draw_def to_draw_def)
    then have p: "painted gs (\<lambda>x y. \<exists>r\<in>set rs. inside_area r x y) (shade (unat (gwidth gs)) (unat (gheight gs))) m m'"
      using run(4) unfolding has_drawn_def st(3) by (auto elim!: painted_weak)
    from renders_painted [OF assms(1,2), of m] obtain m1 where m1: "renders gs rs m = Inr m1"
      "painted gs (\<lambda>x y. \<exists>r\<in>set rs. inside_area r x y) (shade (unat (gwidth gs)) (unat (gheight gs))) m m1" by blast
    show ?thesis using m1(1) p unfolding painted_unique [OF m1(2) p] by simp
  qed
  moreover have "\<exists>p'' s''. painter_step (ps ! i) (gs', m') = Inr (p'', s'')"
    if "i < length ps" "place_of (ps ! i) \<noteq> Finished" for i
    using can_step [OF assms(1) run(2) that, of m'] unfolding run(1) by blast
  ultimately show ?thesis using run(1,3) by simp
qed

definition idle_painter :: painter where
  "idle_painter = \<lparr>surf = display, apx0 = 0, apy0 = 0, apx1 = 0, apy1 = 0, vpy = 0, vy0 = 0, vpx = 0, vx0 = 0, vx = 0, vy = 0,
     vi = 0, place_of = Finished\<rparr>"

theorem threads_render_witness:
  "\<exists>n ps m'. (preempted ^^ n) (map2 called (replicate 4 idle_painter) quadrants, display, \<lambda>_. 0) (ps, display, m') \<and>
     n \<le> 154523528 \<and> (\<forall>p\<in>set ps. place_of p = Finished) \<and> pixel display m' 0 0 = 0x4444"
proof -
  have ar: "\<forall>r\<in>set quadrants. area_on display r" by (simp add: quadrants_def area_on_def)
  have len: "length (replicate 4 idle_painter) = length quadrants" by (simp add: quadrants_def)
  from run_finishes [OF display_canvas threads_start(1) [OF display_canvas ar len], of "\<lambda>_. 0"] obtain n ps m' where
    run: "(preempted ^^ n) (map2 called (replicate 4 idle_painter) quadrants, display, \<lambda>_. 0) (ps, display, m')"
      "\<forall>p\<in>set ps. place_of p = Finished" by blast
  note t = threads_render [OF display_canvas ar len run(1)]
  then have "painted display (\<lambda>x y. \<exists>r\<in>set quadrants. inside_area r x y) (shade 640 480) (\<lambda>_. 0) m'" using run(2) by simp
  then have "pixel display m' 0 0 = 0x4444"
    by (simp add: painted_def visible_def quadrants_def inside_area_def shade_def point_x_def point_y_def
        corner_escapes shade_of_def colors_def)
  moreover have "n \<le> 154523528" using t by (simp add: quadrants_def step_bound_def)
  ultimately show ?thesis using run by blast
qed

end
