(* ===== verification/Devtree.thy ===== *)
theory Devtree
  imports Debug
begin

text \<open>
  \<^verbatim>\<open>misc/devicetree.c\<close>: the program that prints the flattened device tree the loader passes.
  The claim is that the reader gives back, as text, exactly the tree that is encoded in memory;
  at the first token that it does not know it stops (\<open>walk_unknown\<close>).
\<close>

section \<open>Code\<close>

definition FDT_PADDING :: u32 where "FDT_PADDING = 0"
definition FDT_BEGIN_NODE :: u32 where "FDT_BEGIN_NODE = 1"
definition FDT_END_NODE :: u32 where "FDT_END_NODE = 2"
definition FDT_PROP :: u32 where "FDT_PROP = 3"
definition FDT_NOP :: u32 where "FDT_NOP = 4"
definition FDT_END :: u32 where "FDT_END = 9"

text \<open>The offsets of the fields of \<open>fdt_header_t\<close>.\<close>

definition fdt_magic :: u32 where "fdt_magic = 0"
definition off_dt_struct :: u32 where "off_dt_struct = 8"
definition off_dt_strings :: u32 where "off_dt_strings = 12"
definition fdt_version :: u32 where "fdt_version = 20"
definition size_dt_strings :: u32 where "size_dt_strings = 32"
definition size_dt_struct :: u32 where "size_dt_struct = 36"

definition swap :: "u32 \<Rightarrow> u32" where
  "swap n = drop_bit 24 n OR push_bit 24 n OR (drop_bit 8 n AND 0x0000FF00) OR (push_bit 8 n AND 0x00FF0000)"

text \<open>The addresses of the string literals of the program.\<close>

record dt_strings =
  indent_str :: u32
  bootargs_str :: u32
  compatible_str :: u32
  device_type_str :: u32
  model_str :: u32
  mmu_type_str :: u32
  riscv_isa_str :: u32

definition same_str :: "mem \<Rightarrow> u32 \<Rightarrow> u32 \<Rightarrow> bool option \<Rightarrow> bool option" where
  "same_str m s t rest = Option.bind (strcmp m s t) (\<lambda>r. if r = 0 then Some True else rest)"

text \<open>The case of \<open>b\<close> goes on into the case of \<open>c\<close>.\<close>

definition isstring :: "dt_strings \<Rightarrow> mem \<Rightarrow> u32 \<Rightarrow> bool option" where
  "isstring L m s =
     (if m s = 98 then same_str m s (bootargs_str L) (same_str m s (compatible_str L) (Some False))
      else if m s = 99 then same_str m s (compatible_str L) (Some False)
      else if m s = 100 then same_str m s (device_type_str L) (Some False)
      else if m s = 109 then same_str m s (model_str L) (same_str m s (mmu_type_str L) (Some False))
      else if m s = 114 then same_str m s (riscv_isa_str L) (Some False)
      else Some False)"

function xindent :: "dt_strings \<Rightarrow> mem \<Rightarrow> u32 \<Rightarrow> uart \<Rightarrow> uart option" where
  "xindent L m count u =
     (if count > 0 then Option.bind (xputs m (indent_str L) u) (xindent L m (count - 1)) else Some u)"
  by pat_completeness auto
termination
  by (relation "measure (\<lambda>(L, m, count, u). unat count)") (simp_all add: unat_pred word_less_nat_alt)

declare xindent.simps [simp del]

definition and_print :: "(ub + uart) option \<Rightarrow> (uart \<Rightarrow> (ub + uart) option) \<Rightarrow> (ub + uart) option" where
  "and_print r k = Option.bind r (\<lambda>r. case r of Inl e \<Rightarrow> Some (Inl e) | Inr u \<Rightarrow> k u)"

text \<open>The bytes of a value, one by one.\<close>

function value_bytes :: "stack \<Rightarrow> mem \<Rightarrow> u32 \<Rightarrow> u32 \<Rightarrow> u32 \<Rightarrow> uart \<Rightarrow> (ub + uart) option" where
  "value_bytes st m data n len u =
     (if n < len
      then and_print (xprintf st (lit '' %02x'') [Word (ucast (m (data + n)))] u) (value_bytes st m data (n + 1) len)
      else Some (Inr u))"
  by pat_completeness auto
termination
  by (relation "measure (\<lambda>(st, m, data, n, len, u). unat (len - n))") simp_all

declare value_bytes.simps [simp del]

definition print_string :: "stack \<Rightarrow> mem \<Rightarrow> u8 list \<Rightarrow> u32 \<Rightarrow> va list \<Rightarrow> uart \<Rightarrow> (ub + uart) option" where
  "print_string st m fmt s ap u =
     Option.bind (strlen m s) (\<lambda>n. xprintf st fmt (Str s (bytes m s (unat n)) # ap) u)"

definition print_value :: "dt_strings \<Rightarrow> stack \<Rightarrow> mem \<Rightarrow> u32 \<Rightarrow> u32 \<Rightarrow> u32 \<Rightarrow> uart \<Rightarrow> (ub + uart) option" where
  "print_value L st m name data len u =
     Option.bind (isstring L m name) (\<lambda>b.
       if b then print_string st m (lit '' '' @ 39 # lit ''%s'' @ 39 # lit ''\<newline>'') data [] u
       else and_print (value_bytes st m data 0 len u) (xprintf st (lit ''\<newline>'') []))"

partial_function (option) walk :: "dt_strings \<Rightarrow> stack \<Rightarrow> mem \<Rightarrow> u32 \<Rightarrow> u32 \<Rightarrow> u32 \<Rightarrow> uart \<Rightarrow> (ub + uart) option" where
  "walk L st m strtab data indent u =
     (let t = swap (load32 m data); data = data + 4
      in if t = FDT_PADDING \<or> t = FDT_NOP then walk L st m strtab data indent u
         else if t = FDT_BEGIN_NODE
         then Option.bind (strlen m data) (\<lambda>n.
              Option.bind (xindent L m indent u) (\<lambda>u.
              Option.bind (print_string st m (lit ''NODE '' @ 39 # lit ''%s'' @ 39 # lit ''\<newline>'') data [] u) (\<lambda>r.
              case r of Inl e \<Rightarrow> Some (Inl e)
              | Inr u \<Rightarrow> walk L st m strtab (data + 4 * drop_bit 2 (n + 1 + 3)) (indent + 1) u)))
         else if t = FDT_END_NODE then walk L st m strtab data (indent - 1) u
         else if t = FDT_PROP
         then let len = swap (load32 m data); name = swap (load32 m (data + 4)); data = data + 8
              in Option.bind (xindent L m indent u) (\<lambda>u.
                 Option.bind (print_string st m (lit ''PROP '' @ 39 # lit ''%s'' @ 39 # lit '' %u:'') (strtab + name) [Word len] u) (\<lambda>r.
                 case r of Inl e \<Rightarrow> Some (Inl e)
                 | Inr u \<Rightarrow> Option.bind (print_value L st m (strtab + name) data len u) (\<lambda>r.
                     case r of Inl e \<Rightarrow> Some (Inl e)
                     | Inr u \<Rightarrow> walk L st m strtab (data + 4 * drop_bit 2 (len + 3)) indent u)))
         else if t = FDT_END then xprintf st (lit ''END\<newline>'') [] u
         else xprintf st (lit ''HUH %08x\<newline>'') [Word (swap (load32 m (data - 4)))] u)"

definition fdt_walk :: "dt_strings \<Rightarrow> stack \<Rightarrow> mem \<Rightarrow> u32 \<Rightarrow> uart \<Rightarrow> (ub + uart) option" where
  "fdt_walk L st m fdt u =
     walk L st m (fdt + swap (load32 m (fdt + off_dt_strings))) (fdt + swap (load32 m (fdt + off_dt_struct))) 0 u"

function device_words :: "stack \<Rightarrow> mem \<Rightarrow> u32 \<Rightarrow> uart \<Rightarrow> (ub + uart) option" where
  "device_words st m n u =
     (if n < 0x10009000
      then and_print (xprintf st (lit ''%08x: %08x %08x %08x %08x\<newline>'')
             [Word n, Word (load32 m n), Word (load32 m (n + 4)), Word (load32 m (n + 8)), Word (load32 m (n + 12))] u)
           (device_words st m (n + 0x1000))
      else Some (Inr u))"
  by pat_completeness auto
termination
  by (relation "measure (\<lambda>(st, m, n, u). 0x10009000 - unat n)") (auto simp: word_less_nat_alt unat_add32)

declare device_words.simps [simp del]

definition start_devicetree :: "dt_strings \<Rightarrow> stack \<Rightarrow> mem \<Rightarrow> u32 \<Rightarrow> uart \<Rightarrow> (ub + uart) option" where
  "start_devicetree L st m fdt u =
     (let field = (\<lambda>off. Word (swap (load32 m (fdt + off))))
      in and_print (xprintfs st
           [(lit ''fdt         %p\<newline>'', [Word fdt]),
            (lit ''fdt.magic   %08x\<newline>'', [field fdt_magic]),
            (lit ''fdt.version %08x\<newline>'', [field fdt_version]),
            (lit ''fdt.struct  %08x %08x\<newline>'', [field off_dt_struct, field size_dt_struct]),
            (lit ''fdt.strings %08x %08x\<newline>'', [field off_dt_strings, field size_dt_strings])] u) (\<lambda>u.
         and_print (fdt_walk L st m fdt u) (device_words st m 0x10001000)))"

section \<open>Trees\<close>

datatype item = Node "u8 list" "item list" | Prop "u8 list" "u8 list" | Nop | Padding

definition be32 :: "u32 \<Rightarrow> u8 list" where
  "be32 v = [ucast (drop_bit 24 v), ucast (drop_bit 16 v), ucast (drop_bit 8 v), ucast v]"

definition padded :: "u8 list \<Rightarrow> u8 list" where
  "padded bs = bs @ replicate (4 * ((length bs + 3) div 4) - length bs) 0"

text \<open>The encoding; the offsets of the names of properties in the table of strings are given.\<close>

fun encode :: "(u8 list \<Rightarrow> u32) \<Rightarrow> item \<Rightarrow> u8 list" where
  "encode off (Node name its) =
     be32 FDT_BEGIN_NODE @ padded (name @ [0]) @ concat (map (encode off) its) @ be32 FDT_END_NODE"
| "encode off (Prop name v) = be32 FDT_PROP @ be32 (of_nat (length v)) @ be32 (off name) @ padded v"
| "encode off Nop = be32 FDT_NOP"
| "encode off Padding = be32 FDT_PADDING"

text \<open>The names of the properties that are shown as text.\<close>

definition text_names :: "u8 list list" where
  "text_names = map lit [''bootargs'', ''compatible'', ''device_type'', ''model'', ''mmu-type'', ''riscv.isa'']"

definition hex2 :: "u8 \<Rightarrow> u8 list" where
  "hex2 b = replicate (2 - length (hexadecimal hextable (unat b))) 48 @ hexadecimal hextable (unat b)"

definition indented :: "u32 \<Rightarrow> u8 list" where
  "indented d = replicate (2 * unat d) 32"

text \<open>What is printed of an item; a line of more than 127 characters is cut.\<close>

fun printed :: "u32 \<Rightarrow> item \<Rightarrow> u8 list" where
  "printed d (Node name its) =
     indented d @ take 127 (lit ''NODE '' @ 39 # name @ 39 # [10]) @ concat (map (printed (d + 1)) its)"
| "printed d (Prop name v) =
     indented d @ take 127 (lit ''PROP '' @ 39 # name @ 39 # lit '' '' @ decimal (length v) @ lit '':'') @
     (if name \<in> set text_names then take 127 (lit '' '' @ 39 # takeWhile (\<lambda>b. b \<noteq> 0) v @ 39 # [10])
      else concat (map (\<lambda>b. 32 # hex2 b) v) @ [10])"
| "printed d Nop = []"
| "printed d Padding = []"

text \<open>
  A tree that can be encoded: its names are strings, those of properties are in the table, and a
  value to be shown as text has an end; nothing is as long as a gigabyte.
\<close>

fun item_ok :: "mem \<Rightarrow> u32 \<Rightarrow> (u8 list \<Rightarrow> u32) \<Rightarrow> item \<Rightarrow> bool" where
  "item_ok m strtab off (Node name its) \<longleftrightarrow>
     0 \<notin> set name \<and> length name < 1073741824 \<and> (\<forall>i\<in>set its. item_ok m strtab off i)"
| "item_ok m strtab off (Prop name v) \<longleftrightarrow>
     length name < 1073741824 \<and> length v < 1073741824 \<and> cstr m (strtab + off name) name \<and> strtab + off name \<noteq> 0 \<and> (name \<in> set text_names \<longrightarrow> 0 \<in> set v)"
| "item_ok m strtab off Nop \<longleftrightarrow> True"
| "item_ok m strtab off Padding \<longleftrightarrow> True"

definition dt_linked :: "dt_strings \<Rightarrow> mem \<Rightarrow> bool" where
  "dt_linked L m \<longleftrightarrow> cstr m (indent_str L) (lit ''  '') \<and> cstr m (bootargs_str L) (lit ''bootargs'') \<and>
     cstr m (compatible_str L) (lit ''compatible'') \<and> cstr m (device_type_str L) (lit ''device_type'') \<and>
     cstr m (model_str L) (lit ''model'') \<and> cstr m (mmu_type_str L) (lit ''mmu-type'') \<and>
     cstr m (riscv_isa_str L) (lit ''riscv.isa'')"

section \<open>Reading\<close>

lemma load32_be32:
  assumes "bytes m a 4 = be32 v"
  shows "swap (load32 m a) = v"
proof -
  have b: "m a = ucast (drop_bit 24 v)" "m (a + 1) = ucast (drop_bit 16 v)" "m (a + 2) = ucast (drop_bit 8 v)"
    "m (a + 3) = ucast v" using assms by (simp_all add: bytes_numeral bytes_Suc be32_def add.commute)
  have k: "(0xFF00 :: u32) = push_bit 8 (mask 8)" "(0xFF0000 :: u32) = push_bit 16 (mask 8)"
    by (simp_all add: mask_eq_exp_minus_1)
  show ?thesis
  proof (rule bit_word_eqI)
    fix n assume "n < LENGTH(32)"
    then consider "n < 8" | "8 \<le> n" "n < 16" | "16 \<le> n" "n < 24" | "24 \<le> n" "n < 32" by fastforce
    then show "bit (swap (load32 m a)) n = bit v n"
      by cases (auto simp: swap_def load32_def b k bit_simps)
  qed
qed

lemma length_be32 [simp]: "length (be32 v) = 4"
  by (simp add: be32_def)

lemma length_padded: "length (padded bs) = 4 * ((length bs + 3) div 4)"
  by (simp add: padded_def)

text \<open>Stepping over a padded array as the code does.\<close>

lemma padded_step:
  assumes "length bs + 3 < 4294967296"
  shows "4 * drop_bit 2 (of_nat (length bs) + 3 :: u32) = of_nat (length (padded bs))"
proof -
  have "unat (of_nat (length bs) + 3 :: u32) = length bs + 3"
    using assms unat_of_nat32 [of "length bs + 3"] by (simp add: add.commute)
  then have "unat (drop_bit 2 (of_nat (length bs) + 3 :: u32)) = (length bs + 3) div 4"
    by (simp add: unat_div drop_bit_eq_div)
  moreover have "(length bs + 3) div 4 < 4294967296" using assms by linarith
  ultimately have "drop_bit 2 (of_nat (length bs) + 3 :: u32) = of_nat ((length bs + 3) div 4)"
    unfolding word_unat_eq_iff by (simp only: unat_of_nat32)
  then show ?thesis by (simp add: length_padded)
qed

lemma bytes_split:
  assumes "bytes m a (length (xs @ ys)) = xs @ ys"
  shows "bytes m a (length xs) = xs" "bytes m (a + of_nat (length xs)) (length ys) = ys"
  using assms bytes_add [of m a "length xs" "length ys"] by (simp_all add: append_eq_append_conv)

lemma same_str_eq: "cstr m s name \<Longrightarrow> cstr m t lt \<Longrightarrow> same_str m s t rest = (if name = lt then Some True else rest)"
  using strcmp_zero [of m s name t lt] by (auto simp: same_str_def)

lemma isstring_names:
  assumes "dt_linked L m" "cstr m s name"
  shows "isstring L m s = Some (name \<in> set text_names)"
proof -
  note eq = same_str_eq [OF assms(2)]
  have l: "cstr m (bootargs_str L) (lit ''bootargs'')"
     "cstr m (compatible_str L) (lit ''compatible'')" "cstr m (device_type_str L) (lit ''device_type'')"
     "cstr m (model_str L) (lit ''model'')" "cstr m (mmu_type_str L) (lit ''mmu-type'')"
     "cstr m (riscv_isa_str L) (lit ''riscv.isa'')" using assms(1) unfolding dt_linked_def by blast+
  have c: "m s = (case name of [] \<Rightarrow> 0 | c # _ \<Rightarrow> c)" using assms(2) by (cases name) simp_all
  show ?thesis
    unfolding isstring_def eq [OF l(1)] eq [OF l(2)] eq [OF l(3)] eq [OF l(4)] eq [OF l(5)] eq [OF l(6)] c
    by (cases name) (auto simp: text_names_def of_char_def)
qed

section \<open>Printing\<close>

lemma xindent_sends:
  assumes "dt_linked L m"
  shows "serving u \<Longrightarrow> \<exists>u'. xindent L m d u = Some u' \<and> sends u (crlf (indented d)) u'"
proof (induction "unat d" arbitrary: d u)
  case 0
  then have "d = 0" by (simp add: unat_eq_zero)
  then show ?case by (subst xindent.simps) (simp add: indented_def sends_nil)
next
  case (Suc n)
  have nz: "d \<noteq> 0" using Suc.hyps(2) by auto
  then have d: "0 < d" "unat (d - 1) = n" using Suc.hyps(2) unat_pred [of d] by (simp_all add: word_gt_0)
  have "cstr m (indent_str L) (lit ''  '')" using assms by (simp only: dt_linked_def)
  from xputs_sends [OF this Suc.prems] obtain u1 where
    u1: "xputs m (indent_str L) u = Some u1" "sends u (crlf (lit ''  '')) u1" by blast
  from Suc.hyps(1) [OF d(2) [symmetric] sends_serving [OF u1(2) Suc.prems]] obtain u' where
    u': "xindent L m (d - 1) u1 = Some u'" "sends u1 (crlf (indented (d - 1))) u'" by blast
  have "indented d = lit ''  '' @ indented (d - 1)"
    using Suc.hyps(2) [symmetric] d(2) by (simp add: indented_def of_char_def)
  with sends_trans [OF u1(2) u'(2)] have "sends u (crlf (indented d)) u'" by simp
  moreover have "xindent L m d u = Some u'" using d(1) u1(1) u'(1) by (subst xindent.simps) simp
  ultimately show ?case by blast
qed

lemma render_decimal_field:
  "Printf.render (37 # 117 # rest) (Word n # ap) = map_option ((@) (decimal (unat n))) (Printf.render rest ap)"
  using render_field [of "[]" "117 # rest" 0 0 117 rest "Word n # ap" "decimal (unat n)" ap]
  by (simp add: format_eval decimal_text_def justify_def sign_char_def magnitude_def comp_def append_Nil [abs_def])

lemma render_hex2:
  "Printf.render (37 # 48 # 50 # 120 # rest) (Word (ucast b) # ap) = map_option ((@) (hex2 b)) (Printf.render rest ap)"
proof -
  have "next_format 0 0 (48 # 50 # 120 # rest) = Some (LEADZEROFLAG, 2, 120, rest)" by (simp add: format_eval)
  moreover have "convert_text 120 LEADZEROFLAG 2 (Word (ucast b) # ap) = Some (hex2 b, ap)"
    by (simp add: format_eval hex_text_def justify_def hex_table_def hex2_def)
  ultimately show ?thesis
    using render_field [of "[]" "48 # 50 # 120 # rest"] by (simp add: comp_def append_Nil [abs_def])
qed

lemma render_node:
  "s \<noteq> 0 \<Longrightarrow> 0 \<notin> set name \<Longrightarrow> Printf.render (lit ''NODE '' @ 39 # lit ''%s'' @ 39 # lit ''\<newline>'') [Str s name]
    = Some (lit ''NODE '' @ 39 # name @ 39 # [10])"
  by (simp add: render_plain render_string_field of_char_def render_literal)

lemma render_prop:
  "s \<noteq> 0 \<Longrightarrow> 0 \<notin> set name \<Longrightarrow> Printf.render (lit ''PROP '' @ 39 # lit ''%s'' @ 39 # lit '' %u:'') [Str s name, Word n]
    = Some (lit ''PROP '' @ 39 # name @ 39 # lit '' '' @ decimal (unat n) @ lit '':'')"
  by (simp add: render_plain render_string_field render_decimal_field of_char_def render_literal)

lemma render_text:
  "s \<noteq> 0 \<Longrightarrow> 0 \<notin> set v \<Longrightarrow> Printf.render (lit '' '' @ 39 # lit ''%s'' @ 39 # lit ''\<newline>'') [Str s v]
    = Some (lit '' '' @ 39 # v @ 39 # [10])"
  by (simp add: render_plain render_string_field of_char_def render_literal)

lemma print_string_sends:
  assumes "cstr m s v" "Printf.render fmt (Str s v # ap) = Some t" "length t < 2147483648" "0 \<notin> set t"
    and "num_buffer_ok (num_buf st)" "serving u"
  shows "\<exists>u'. print_string st m fmt s ap u = Some (Inr u') \<and> sends u (crlf (take 127 t)) u'"
proof -
  have "length v < 4294967296" by (rule cstr_length [OF assms(1)])
  then have "unat (of_nat (length v) :: u32) = length v" by (rule unat_of_nat32)
  moreover have "bytes m s (length v) = v" using assms(1) by (simp add: cstr_iff)
  ultimately show ?thesis
    using xprintf_sends [OF assms(2-6)] strlen_cstr [OF assms(1)] by (simp add: print_string_def)
qed

lemma hex2_ok: "0 \<notin> set (hex2 b)" "length (hex2 b) \<le> 10"
proof -
  have "unat (ucast b :: u32) = unat b" by simp
  then have "length (hexadecimal hextable (unat b)) \<le> 8" using hexadecimal_u32 [of hextable "ucast b"] by simp
  then show "length (hex2 b) \<le> 10" by (simp add: hex2_def)
  show "0 \<notin> set (hex2 b)" using hextable_chars [of 0 "unat b"] by (auto simp: hex2_def hex_char_nonzero)
qed

lemma value_bytes_sends:
  assumes "bytes m data (length v) = v" "length v < 1073741824" "num_buffer_ok (num_buf st)"
  shows "n \<le> length v \<Longrightarrow> serving u \<Longrightarrow> \<exists>u'. value_bytes st m data (of_nat n) (of_nat (length v)) u = Some (Inr u') \<and>
    sends u (crlf (concat (map (\<lambda>b. 32 # hex2 b) (drop n v)))) u'"
proof (induction "length v - n" arbitrary: n u)
  case 0
  then show ?case by (subst value_bytes.simps) (simp add: sends_nil)
next
  case (Suc k)
  have n: "n < length v" using Suc.hyps(2) by simp
  then have un: "unat (of_nat n :: u32) = n" "unat (of_nat (length v) :: u32) = length v"
    using assms(2) by (simp_all add: unat_of_nat32)
  then have lt: "(of_nat n :: u32) < of_nat (length v)" using n by (simp add: word_less_nat_alt)
  have b: "m (data + of_nat n) = v ! n" using nth_bytes [OF n, of m data] assms(1) by simp
  let ?t = "32 # hex2 (v ! n)"
  have r: "Printf.render (lit '' %02x'') [Word (ucast (v ! n))] = Some ?t"
    by (simp add: render_plain render_hex2 of_char_def render_literal)
  have z: "0 \<notin> set ?t" "length ?t < 2147483648" "take 127 ?t = ?t" using hex2_ok [of "v ! n"] by auto
  from xprintf_sends [OF r z(2,1) assms(3) Suc.prems(2)] obtain u1 where
    u1: "xprintf st (lit '' %02x'') [Word (ucast (v ! n))] u = Some (Inr u1)" "sends u (crlf ?t) u1"
    unfolding z(3) by blast
  have "k = length v - Suc n" "Suc n \<le> length v" using Suc.hyps(2) by simp_all
  from Suc.hyps(1) [OF this sends_serving [OF u1(2) Suc.prems(2)]] obtain u' where
    u': "value_bytes st m data (of_nat (Suc n)) (of_nat (length v)) u1 = Some (Inr u')"
      "sends u1 (crlf (concat (map (\<lambda>b. 32 # hex2 b) (drop (Suc n) v)))) u'" by blast
  have nxt: "(of_nat n + 1 :: u32) = of_nat (Suc n)" by simp
  have "value_bytes st m data (of_nat n) (of_nat (length v)) u = Some (Inr u')"
    unfolding value_bytes.simps [of st m data "of_nat n"] nxt b using lt u1(1) u'(1)
    by (simp add: and_print_def del: of_nat_Suc)
  moreover have "sends u (crlf (concat (map (\<lambda>b. 32 # hex2 b) (drop n v)))) u'"
    using sends_trans [OF u1(2) u'(2)] Cons_nth_drop_Suc [OF n, symmetric] by simp
  ultimately show ?case by blast
qed

section \<open>Walking\<close>

lemmas tokens = FDT_PADDING_def FDT_BEGIN_NODE_def FDT_END_NODE_def FDT_PROP_def FDT_NOP_def FDT_END_def

lemma walk_skip:
  "swap (load32 m a) = FDT_PADDING \<or> swap (load32 m a) = FDT_NOP \<Longrightarrow> walk L st m strtab a d u = walk L st m strtab (a + 4) d u"
  by (subst walk.simps) (auto simp: Let_def)

lemma walk_end_node:
  "swap (load32 m a) = FDT_END_NODE \<Longrightarrow> walk L st m strtab a d u = walk L st m strtab (a + 4) (d - 1) u"
  by (subst walk.simps) (simp add: Let_def tokens)

lemma walk_unknown:
  assumes "num_buffer_ok (num_buf st)" "serving u" and t: "swap (load32 m a) \<notin> {0, 1, 2, 3, 4, 9}"
  shows "\<exists>u'. walk L st m strtab a d u = Some (Inr u') \<and> sends u (crlf (lit ''HUH '' @ hex8 (swap (load32 m a)) @ [10])) u'"
proof -
  let ?t = "lit ''HUH '' @ hex8 (swap (load32 m a)) @ [10]"
  have r: "Printf.render (lit ''HUH %08x\<newline>'') [Word (swap (load32 m a))] = Some ?t"
    by (simp add: render_plain render_hex8 of_char_def render_literal)
  have z: "0 \<notin> set ?t" "length ?t \<le> 127" using hex8_chars [of 0] by (auto simp: of_char_def length_hex8 hex_char_nonzero)
  have "walk L st m strtab a d u = xprintf st (lit ''HUH %08x\<newline>'') [Word (swap (load32 m a))] u"
    using t by (subst walk.simps) (simp add: Let_def tokens)
  with xprintf_sends [OF r _ z(1) assms(1,2)] z(2) show ?thesis by simp
qed

lemma walk_begin_node:
  assumes "dt_linked L m" "num_buffer_ok (num_buf st)" "serving u"
    and "swap (load32 m a) = FDT_BEGIN_NODE" "cstr m (a + 4) name" "a + 4 \<noteq> 0" "length name < 1073741824"
  shows "\<exists>u'. walk L st m strtab a d u =
      walk L st m strtab (a + 4 + of_nat (length (padded (name @ [0])))) (d + 1) u' \<and>
    sends u (crlf (indented d @ take 127 (lit ''NODE '' @ 39 # name @ 39 # [10]))) u'"
proof -
  let ?t = "lit ''NODE '' @ 39 # name @ 39 # [10]"
  have nz: "0 \<notin> set name" using assms(5) by (simp add: cstr_iff)
  have t: "length ?t < 2147483648" "0 \<notin> set ?t" using assms(7) nz by (simp_all add: of_char_def)
  from xindent_sends [OF assms(1,3)] obtain u1 where
    u1: "xindent L m d u = Some u1" "sends u (crlf (indented d)) u1" by blast
  from print_string_sends [OF assms(5) render_node [OF assms(6) nz] t assms(2) sends_serving [OF u1(2) assms(3)]] obtain u2 where
    u2: "print_string st m (lit ''NODE '' @ 39 # lit ''%s'' @ 39 # lit ''\<newline>'') (a + 4) [] u1 = Some (Inr u2)"
      "sends u1 (crlf (take 127 ?t)) u2" by blast
  have len: "4 * drop_bit 2 (of_nat (length name) + 1 + 3) = (of_nat (length (padded (name @ [0]))) :: u32)"
    using padded_step [of "name @ [0]"] assms(7) by (simp add: add.commute add.left_commute)
  have "walk L st m strtab a d u = walk L st m strtab (a + 4 + of_nat (length (padded (name @ [0])))) (d + 1) u2"
    unfolding walk.simps [of L st m strtab a] assms(4) Let_def strlen_cstr [OF assms(5)] u1(1)
    by (simp add: tokens u2(1) [simplified] len [simplified])
  with sends_trans [OF u1(2) u2(2)] show ?thesis by (auto simp only: crlf_simps(2))
qed

lemma cstr_takeWhile:
  assumes "bytes m a (length v) = v" "0 \<in> set v"
  shows "cstr m a (takeWhile (\<lambda>b. b \<noteq> 0) v)"
proof -
  let ?s = "takeWhile (\<lambda>b. b \<noteq> 0) v"
  have lt: "length ?s < length v" using assms(2) by (induction v) auto
  have at: "m (a + of_nat i) = v ! i" if "i < length v" for i using nth_bytes [OF that, of m a] assms(1) by simp
  have "bytes m a (length ?s) = ?s"
    by (rule nth_equalityI) (use at lt in \<open>simp_all add: nth_bytes takeWhile_nth\<close>)
  moreover have "m (a + of_nat (length ?s)) = 0" using at [OF lt] nth_length_takeWhile [OF lt] by simp
  ultimately show ?thesis by (auto simp: cstr_iff dest: set_takeWhileD)
qed

lemma print_value_sends:
  assumes "dt_linked L m" "num_buffer_ok (num_buf st)" "serving u" "cstr m name_at name"
    and "bytes m a (length v) = v" "length v < 1073741824" "a \<noteq> 0" "name \<in> set text_names \<longrightarrow> 0 \<in> set v"
  shows "\<exists>u'. print_value L st m name_at a (of_nat (length v)) u = Some (Inr u') \<and> sends u (crlf
    (if name \<in> set text_names then take 127 (lit '' '' @ 39 # takeWhile (\<lambda>b. b \<noteq> 0) v @ 39 # [10])
     else concat (map (\<lambda>b. 32 # hex2 b) v) @ [10])) u'"
proof (cases "name \<in> set text_names")
  case True
  let ?s = "takeWhile (\<lambda>b. b \<noteq> 0) v" and ?t = "lit '' '' @ 39 # takeWhile (\<lambda>b. b \<noteq> 0) v @ 39 # [10]"
  have nz: "0 \<notin> set ?s" by (auto dest: set_takeWhileD)
  have t: "length ?t < 2147483648" "0 \<notin> set ?t"
    using assms(6) length_takeWhile_le [of "\<lambda>b. b \<noteq> 0" v] nz by (simp_all add: of_char_def)
  have "cstr m a ?s" using assms(5,8) True by (intro cstr_takeWhile) simp_all
  from print_string_sends [OF this render_text [OF assms(7) nz] t assms(2,3)] True show ?thesis
    unfolding print_value_def isstring_names [OF assms(1,4)] by simp
next
  case False
  from value_bytes_sends [OF assms(5,6,2), of 0, OF _ assms(3)] obtain u1 where
    u1: "value_bytes st m a 0 (of_nat (length v)) u = Some (Inr u1)" "sends u (crlf (concat (map (\<lambda>b. 32 # hex2 b) v))) u1"
    by auto
  have "Printf.render (lit ''\<newline>'') [] = Some [10]" by (simp add: render_literal of_char_def)
  from xprintf_sends [OF this _ _ assms(2) sends_serving [OF u1(2) assms(3)]] obtain u2 where
    u2: "xprintf st (lit ''\<newline>'') [] u1 = Some (Inr u2)" "sends u1 (crlf [10]) u2" by auto
  show ?thesis
    unfolding print_value_def isstring_names [OF assms(1,4)]
    using False u1(1) u2(1) sends_trans [OF u1(2) u2(2)] by (simp add: and_print_def)
qed

lemma walk_prop:
  assumes "dt_linked L m" "num_buffer_ok (num_buf st)" "serving u"
    and w: "swap (load32 m a) = FDT_PROP" "swap (load32 m (a + 4)) = of_nat (length v)" "swap (load32 m (a + 8)) = off"
    and n: "cstr m (strtab + off) name" "strtab + off \<noteq> 0" "length name < 1073741824"
    and v: "bytes m (a + 12) (length v) = v" "length v < 1073741824" "a + 12 \<noteq> 0" "name \<in> set text_names \<longrightarrow> 0 \<in> set v"
  shows "\<exists>u'. walk L st m strtab a d u = walk L st m strtab (a + 12 + of_nat (length (padded v))) d u' \<and>
    sends u (crlf (printed d (Prop name v))) u'"
proof -
  have lv: "unat (of_nat (length v) :: u32) = length v" using v(2) by (simp add: unat_of_nat32)
  let ?t = "lit ''PROP '' @ 39 # name @ 39 # lit '' '' @ decimal (unat (of_nat (length v) :: u32)) @ lit '':''"
  have nz: "0 \<notin> set name" using n(1) by (simp add: cstr_iff)
  have t: "length ?t < 2147483648" "0 \<notin> set ?t"
    using n(3) nz decimal_u32 [of "of_nat (length v)"] decimal_nonzero by (simp_all add: of_char_def)
  from xindent_sends [OF assms(1,3)] obtain u1 where
    u1: "xindent L m d u = Some u1" "sends u (crlf (indented d)) u1" by blast
  note s1 = sends_serving [OF u1(2) assms(3)]
  from print_string_sends [OF n(1) render_prop [OF n(2) nz] t assms(2) s1] obtain u2 where
    u2: "print_string st m (lit ''PROP '' @ 39 # lit ''%s'' @ 39 # lit '' %u:'') (strtab + off) [Word (of_nat (length v))] u1 = Some (Inr u2)"
      "sends u1 (crlf (take 127 ?t)) u2" by blast
  from print_value_sends [OF assms(1,2) sends_serving [OF u2(2) s1] n(1) v] obtain u3 where
    u3: "print_value L st m (strtab + off) (a + 12) (of_nat (length v)) u2 = Some (Inr u3)"
      "sends u2 (crlf (if name \<in> set text_names then take 127 (lit '' '' @ 39 # takeWhile (\<lambda>b. b \<noteq> 0) v @ 39 # [10])
        else concat (map (\<lambda>b. 32 # hex2 b) v) @ [10])) u3" by blast
  have len: "4 * drop_bit 2 (of_nat (length v) + 3) = (of_nat (length (padded v)) :: u32)"
    by (rule padded_step) (use v(2) in simp)
  have e: "a + 4 + 4 = a + 8" "a + 4 + 8 = a + 12" by simp_all
  have k: "FDT_PROP \<noteq> FDT_PADDING" "FDT_PROP \<noteq> FDT_NOP" "FDT_PROP \<noteq> FDT_BEGIN_NODE" "FDT_PROP \<noteq> FDT_END_NODE"
    by (simp_all add: tokens)
  have "walk L st m strtab a d u = walk L st m strtab (a + 12 + of_nat (length (padded v))) d u3"
    unfolding walk.simps [of L st m strtab a] Let_def w(1) e w(2,3) u1(1)
    by (simp only: k if_False if_True simp_thms option.simps bind.simps u2(1) sum.case u3(1) len)
  with sends_trans [OF sends_trans [OF u1(2) u2(2)] u3(2)] show ?thesis
    unfolding lv by (auto simp only: crlf_simps(2) printed.simps append_assoc)
qed

text \<open>The bytes of an encoding are at an address; the reader walks over them and prints the text.\<close>

definition lies :: "mem \<Rightarrow> u32 \<Rightarrow> u8 list \<Rightarrow> bool" where
  "lies m a bs \<longleftrightarrow> bytes m a (length bs) = bs \<and> 0 < unat a \<and> unat a + length bs < 4294967296"

definition walks_over :: "dt_strings \<Rightarrow> stack \<Rightarrow> mem \<Rightarrow> u32 \<Rightarrow> u8 list \<Rightarrow> (u32 \<Rightarrow> u8 list) \<Rightarrow> bool" where
  "walks_over L st m strtab bs out \<longleftrightarrow> (\<forall>a d u. lies m a bs \<longrightarrow> serving u \<longrightarrow>
     (\<exists>u'. walk L st m strtab a d u = walk L st m strtab (a + of_nat (length bs)) d u' \<and> sends u (crlf (out d)) u'))"

lemma lies_append: "lies m a (xs @ ys) \<Longrightarrow> lies m a xs \<and> lies m (a + of_nat (length xs)) ys"
proof -
  assume l: "lies m a (xs @ ys)"
  then have b: "bytes m a (length (xs @ ys)) = xs @ ys" and u: "0 < unat a" "unat a + (length xs + length ys) < 4294967296"
    by (simp_all add: lies_def)
  have "unat (a + of_nat (length xs)) = unat a + length xs" using u by (simp add: unat_add32 unat_of_nat32)
  with bytes_split [OF b] u show ?thesis by (simp add: lies_def)
qed

lemma lies_word: "lies m a (be32 v) \<Longrightarrow> swap (load32 m a) = v"
  by (rule load32_be32) (simp add: lies_def del: bytes_numeral)

lemma walks_over_concat:
  "\<forall>i\<in>set its. walks_over L st m strtab (f i) (\<lambda>d. g d i) \<Longrightarrow>
    walks_over L st m strtab (concat (map f its)) (\<lambda>d. concat (map (g d) its))"
proof (induction its)
  case Nil
  then show ?case by (auto simp: walks_over_def intro: sends_nil)
next
  case (Cons i its)
  show ?case
    unfolding walks_over_def
  proof (intro allI impI)
    fix a d u
    assume l: "lies m a (concat (map f (i # its)))" and s: "serving u"
    then have l2: "lies m a (f i)" "lies m (a + of_nat (length (f i))) (concat (map f its))"
      using lies_append [of m a "f i"] by simp_all
    from Cons.prems l2(1) s obtain u1 where
      u1: "walk L st m strtab a d u = walk L st m strtab (a + of_nat (length (f i))) d u1" "sends u (crlf (g d i)) u1"
      by (force simp: walks_over_def)
    from Cons.IH Cons.prems l2(2) sends_serving [OF u1(2) s] obtain u2 where
      u2: "walk L st m strtab (a + of_nat (length (f i))) d u1 =
          walk L st m strtab (a + of_nat (length (f i)) + of_nat (length (concat (map f its)))) d u2"
        "sends u1 (crlf (concat (map (g d) its))) u2" by (force simp: walks_over_def)
    show "\<exists>u'. walk L st m strtab a d u =
        walk L st m strtab (a + of_nat (length (concat (map f (i # its))))) d u' \<and>
      sends u (crlf (concat (map (g d) (i # its)))) u'"
      using u1(1) u2(1) sends_trans [OF u1(2) u2(2)] by (auto simp: add.assoc)
  qed
qed

lemma lies_name:
  assumes "lies m a (padded (name @ [0]))" "0 \<notin> set name"
  shows "cstr m a name"
proof -
  obtain z where "padded (name @ [0]) = name @ [0] @ z" by (simp add: padded_def)
  then have l: "lies m a name" "lies m (a + of_nat (length name)) [0]"
    using assms(1) lies_append [of m a name "[0] @ z"] lies_append [of m "a + of_nat (length name)" "[0]" z] by simp_all
  then show ?thesis using assms(2) by (simp add: cstr_iff lies_def bytes_1)
qed

lemma lies_not_0: "lies m a bs \<Longrightarrow> a \<noteq> 0"
  by (auto simp: lies_def)

lemma walks_over_node:
  assumes "dt_linked L m" "num_buffer_ok (num_buf st)" "0 \<notin> set name" "length name < 1073741824"
    and items: "walks_over L st m strtab (concat (map (encode off) its)) (\<lambda>d. concat (map (printed d) its))"
  shows "walks_over L st m strtab (encode off (Node name its)) (\<lambda>d. printed d (Node name its))"
  unfolding walks_over_def
proof (intro allI impI)
  fix a :: u32 and d u
  let ?pad = "padded (name @ [0])" and ?its = "concat (map (encode off) its)"
  let ?b = "a + 4 + of_nat (length ?pad)"
  let ?c = "?b + of_nat (length ?its)"
  assume l: "lies m a (encode off (Node name its))" and s: "serving u"
  have l1: "lies m a (be32 FDT_BEGIN_NODE)" "lies m (a + 4) (?pad @ ?its @ be32 FDT_END_NODE)"
    using lies_append [of m a "be32 FDT_BEGIN_NODE"] l by simp_all
  have l2: "lies m (a + 4) ?pad" "lies m ?b (?its @ be32 FDT_END_NODE)" using lies_append [OF l1(2)] by simp_all
  have l3: "lies m ?b ?its" "lies m ?c (be32 FDT_END_NODE)" using lies_append [OF l2(2)] by simp_all
  from walk_begin_node [OF assms(1,2) s lies_word [OF l1(1)] lies_name [OF l2(1) assms(3)] lies_not_0 [OF l2(1)] assms(4)]
  obtain u1 where u1: "walk L st m strtab a d u = walk L st m strtab ?b (d + 1) u1"
    "sends u (crlf (indented d @ take 127 (lit ''NODE '' @ 39 # name @ 39 # [10]))) u1" by blast
  from items [unfolded walks_over_def, rule_format, OF l3(1) sends_serving [OF u1(2) s]] obtain u2 where
    u2: "walk L st m strtab ?b (d + 1) u1 = walk L st m strtab ?c (d + 1) u2"
      "sends u1 (crlf (concat (map (printed (d + 1)) its))) u2" by blast
  have w: "walk L st m strtab a d u = walk L st m strtab (?c + 4) d u2"
    using u1(1) u2(1) walk_end_node [OF lies_word [OF l3(2)]] by simp
  have e: "?c + 4 = a + of_nat (length (encode off (Node name its)))" by (simp add: add.commute add.left_commute)
  have "sends u (crlf (printed d (Node name its))) u2"
    using sends_trans [OF u1(2) u2(2)] by (simp only: crlf_simps(2) printed.simps append_assoc)
  with w e show "\<exists>u'. walk L st m strtab a d u = walk L st m strtab (a + of_nat (length (encode off (Node name its)))) d u' \<and>
    sends u (crlf (printed d (Node name its))) u'" by metis
qed

lemma walks_over_prop:
  assumes "dt_linked L m" "num_buffer_ok (num_buf st)" "item_ok m strtab off (Prop name v)"
  shows "walks_over L st m strtab (encode off (Prop name v)) (\<lambda>d. printed d (Prop name v))"
  unfolding walks_over_def
proof (intro allI impI)
  fix a d u
  assume l: "lies m a (encode off (Prop name v))" and s: "serving u"
  have l1: "lies m a (be32 FDT_PROP)" "lies m (a + 4) (be32 (of_nat (length v)) @ be32 (off name) @ padded v)"
    using lies_append [of m a "be32 FDT_PROP"] l by simp_all
  have l2: "lies m (a + 4) (be32 (of_nat (length v)))" "lies m (a + 8) (be32 (off name) @ padded v)"
    using lies_append [OF l1(2)] by (simp_all add: add.commute)
  have l3: "lies m (a + 8) (be32 (off name))" "lies m (a + 12) (padded v)"
    using lies_append [OF l2(2)] by (simp_all add: add.commute)
  have "lies m (a + 12) v" using l3(2) unfolding padded_def by (blast dest: lies_append)
  then have v: "bytes m (a + 12) (length v) = v" by (simp add: lies_def)
  have ok: "cstr m (strtab + off name) name" "strtab + off name \<noteq> 0" "length name < 1073741824" "length v < 1073741824"
    "name \<in> set text_names \<longrightarrow> 0 \<in> set v" using assms(3) by simp_all
  from walk_prop [OF assms(1,2) s lies_word [OF l1(1)] lies_word [OF l2(1)] lies_word [OF l3(1)] ok(1-3) v ok(4)
      lies_not_0 [OF l3(2)] ok(5)]
  show "\<exists>u'. walk L st m strtab a d u = walk L st m strtab (a + of_nat (length (encode off (Prop name v)))) d u' \<and>
    sends u (crlf (printed d (Prop name v))) u'" by (simp add: add.assoc)
qed

lemma walks_over_skip:
  "v = FDT_PADDING \<or> v = FDT_NOP \<Longrightarrow> walks_over L st m strtab (be32 v) (\<lambda>d. [])"
  by (auto simp: walks_over_def walk_skip dest!: lies_word intro: sends_nil)

lemma walks_over_item:
  assumes "dt_linked L m" "num_buffer_ok (num_buf st)"
  shows "item_ok m strtab off i \<Longrightarrow> walks_over L st m strtab (encode off i) (\<lambda>d. printed d i)"
proof (induction i)
  case (Node name its)
  then show ?case using walks_over_concat [of its L st m strtab "encode off" printed]
    by (intro walks_over_node [OF assms]) simp_all
next
  case (Prop name v)
  then show ?case by (rule walks_over_prop [OF assms])
qed (use walks_over_skip [of FDT_NOP] walks_over_skip [of FDT_PADDING] in simp_all)

lemma walk_tree:
  assumes "dt_linked L m" "num_buffer_ok (num_buf st)" "serving u" "\<forall>i\<in>set its. item_ok m strtab off i"
    and l: "lies m a (concat (map (encode off) its) @ be32 FDT_END)"
  shows "\<exists>u'. walk L st m strtab a 0 u = Some (Inr u') \<and>
    sends u (crlf (concat (map (printed 0) its) @ lit ''END\<newline>'')) u'"
proof -
  let ?its = "concat (map (encode off) its)"
  have "walks_over L st m strtab ?its (\<lambda>d. concat (map (printed d) its))"
    using walks_over_item [OF assms(1,2)] assms(4) by (intro walks_over_concat) blast
  from this [unfolded walks_over_def, rule_format, OF conjunct1 [OF lies_append [OF l]] assms(3)] obtain u1 where
    u1: "walk L st m strtab a 0 u = walk L st m strtab (a + of_nat (length ?its)) 0 u1"
      "sends u (crlf (concat (map (printed 0) its))) u1" by blast
  have "Printf.render (lit ''END\<newline>'') [] = Some (lit ''END\<newline>'')" by (simp add: render_literal of_char_def)
  from xprintf_sends [OF this _ _ assms(2) sends_serving [OF u1(2) assms(3)]] obtain u2 where
    u2: "xprintf st (lit ''END\<newline>'') [] u1 = Some (Inr u2)" "sends u1 (crlf (lit ''END\<newline>'')) u2" by (auto simp: of_char_def)
  have "swap (load32 m (a + of_nat (length ?its))) = FDT_END"
    using lies_append [OF l] by (intro lies_word) simp
  then have "walk L st m strtab (a + of_nat (length ?its)) 0 u1 = Some (Inr u2)"
    by (subst walk.simps) (simp add: Let_def tokens u2(1) [simplified])
  with u1(1) sends_trans [OF u1(2) u2(2)] show ?thesis by (auto simp only: crlf_simps(2))
qed

section \<open>The program\<close>

definition hexp :: "u32 \<Rightarrow> u8 list" where
  "hexp w = [48, 120] @ hexadecimal hextable (unat w)"

definition header_lines :: "mem \<Rightarrow> u32 \<Rightarrow> u8 list list" where
  "header_lines m fdt =
     (let field = (\<lambda>off. hex8 (swap (load32 m (fdt + off))))
      in [lit ''fdt         '' @ hexp fdt @ [10],
          lit ''fdt.magic   '' @ field fdt_magic @ [10],
          lit ''fdt.version '' @ field fdt_version @ [10],
          lit ''fdt.struct  '' @ field off_dt_struct @ [32] @ field size_dt_struct @ [10],
          lit ''fdt.strings '' @ field off_dt_strings @ [32] @ field size_dt_strings @ [10]])"

definition device_line :: "mem \<Rightarrow> u32 \<Rightarrow> u8 list" where
  "device_line m n = hex8 n @ lit '': '' @ hex8 (load32 m n) @ [32] @ hex8 (load32 m (n + 4)) @ [32] @
     hex8 (load32 m (n + 8)) @ [32] @ hex8 (load32 m (n + 12)) @ [10]"

lemma render_pointer_field:
  "Printf.render (37 # 112 # rest) (Word w # ap) = map_option ((@) (hexp w)) (Printf.render rest ap)"
proof -
  have "next_format 0 0 (112 # rest) = Some (0, 0, 112, rest)" by (simp add: format_eval)
  moreover have "convert_text 112 0 0 (Word w # ap) = Some (hexp w, ap)"
    by (simp add: format_eval hex_text_def justify_def hex_table_def hexp_def)
  ultimately show ?thesis
    using render_field [of "[]" "112 # rest"] by (simp add: comp_def append_Nil [abs_def])
qed

lemma hex_texts_ok: "0 \<notin> set (hex8 w)" "0 \<notin> set (hexp w)" "length (hexp w) \<le> 10"
  using hex8_chars [of 0 w] hextable_chars [of 0 "unat w"] hexadecimal_u32 [of hextable w]
  by (auto simp: hexp_def hex_char_nonzero)

lemma xprintf_whole:
  assumes "Printf.render fmt ap = Some t" "0 \<notin> set t" "length t < 128" "num_buffer_ok (num_buf st)" "serving u"
  shows "\<exists>u'. xprintf st fmt ap u = Some (Inr u') \<and> sends u (crlf t) u'"
  using xprintf_sends [OF assms(1) _ assms(2,4,5)] assms(3) by simp

lemma device_words_sends:
  assumes "num_buffer_ok (num_buf st)"
  shows "k \<le> 8 \<Longrightarrow> serving u \<Longrightarrow> \<exists>u'. device_words st m (0x10001000 + 0x1000 * of_nat k) u = Some (Inr u') \<and>
    sends u (crlf (concat (map (\<lambda>k. device_line m (0x10001000 + 0x1000 * of_nat k)) [k..<8]))) u'"
proof (induction "8 - k" arbitrary: k u)
  case 0
  then show ?case by (subst device_words.simps) (simp add: sends_nil)
next
  case (Suc j)
  let ?n = "0x10001000 + 0x1000 * of_nat k :: u32"
  have k: "k < 8" using Suc.hyps(2) by simp
  have "unat (0x1000 * of_nat k :: u32) = 0x1000 * k" using k by (simp add: unat_word_ariths unat_of_nat32)
  then have lt: "?n < 0x10009000" using k by (simp add: word_less_nat_alt unat_add32)
  let ?fmt = "lit ''%08x: %08x %08x %08x %08x\<newline>''"
    and ?ap = "[Word ?n, Word (load32 m ?n), Word (load32 m (?n + 4)), Word (load32 m (?n + 8)), Word (load32 m (?n + 12))]"
  have "Printf.render ?fmt ?ap = Some (device_line m ?n)"
    by (simp add: render_plain render_hex8 of_char_def render_literal device_line_def)
  moreover have "0 \<notin> set (device_line m ?n)" "length (device_line m ?n) < 128"
    using hex_texts_ok(1) by (auto simp: device_line_def of_char_def length_hex8)
  ultimately obtain u1 where u1: "xprintf st ?fmt ?ap u = Some (Inr u1)" "sends u (crlf (device_line m ?n)) u1"
    using xprintf_whole [OF _ _ _ assms Suc.prems(2)] by blast
  have "j = 8 - Suc k" "Suc k \<le> 8" using Suc.hyps(2) by simp_all
  from Suc.hyps(1) [OF this sends_serving [OF u1(2) Suc.prems(2)]] obtain u' where
    u': "device_words st m (0x10001000 + 0x1000 * of_nat (Suc k)) u1 = Some (Inr u')"
      "sends u1 (crlf (concat (map (\<lambda>k. device_line m (0x10001000 + 0x1000 * of_nat k)) [Suc k..<8]))) u'" by blast
  have nxt: "?n + 0x1000 = 0x10001000 + 0x1000 * of_nat (Suc k)" by (simp add: algebra_simps)
  have "device_words st m ?n u = Some (Inr u')"
    unfolding device_words.simps [of st m ?n] if_P [OF lt] and_print_def u1(1) nxt by (simp add: u'(1) del: of_nat_Suc)
  moreover have "[k..<8] = k # [Suc k..<8]" using k by (simp add: upt_conv_Cons del: upt_rec_numeral)
  ultimately show ?case using sends_trans [OF u1(2) u'(2)] by (auto simp del: upt_rec_numeral)
qed

lemma header_lines_sends:
  assumes "num_buffer_ok (num_buf st)" "serving u"
  shows "\<exists>u'. xprintfs st
      [(lit ''fdt         %p\<newline>'', [Word fdt]),
       (lit ''fdt.magic   %08x\<newline>'', [Word (swap (load32 m (fdt + fdt_magic)))]),
       (lit ''fdt.version %08x\<newline>'', [Word (swap (load32 m (fdt + fdt_version)))]),
       (lit ''fdt.struct  %08x %08x\<newline>'',
          [Word (swap (load32 m (fdt + off_dt_struct))), Word (swap (load32 m (fdt + size_dt_struct)))]),
       (lit ''fdt.strings %08x %08x\<newline>'',
          [Word (swap (load32 m (fdt + off_dt_strings))), Word (swap (load32 m (fdt + size_dt_strings)))])] u = Some (Inr u') \<and>
    sends u (crlf (concat (header_lines m fdt))) u'"
  by (rule xprintfs_sends [OF _ assms])
    (use hex_texts_ok(1,2) hex_texts_ok(3) [of fdt] in \<open>auto simp: header_lines_def Let_def render_plain render_hex8 render_pointer_field of_char_def
      render_literal length_hex8\<close>)

text \<open>All that the program prints of a tree.\<close>

definition devicetree_text :: "mem \<Rightarrow> u32 \<Rightarrow> item list \<Rightarrow> u8 list" where
  "devicetree_text m fdt its =
     concat (header_lines m fdt) @ (concat (map (printed 0) its) @ lit ''END\<newline>'') @
     concat (map (\<lambda>k. device_line m (0x10001000 + 0x1000 * of_nat k)) [0..<8])"

text \<open>A flattened tree in memory.\<close>

definition flattened :: "mem \<Rightarrow> u32 \<Rightarrow> (u8 list \<Rightarrow> u32) \<Rightarrow> item list \<Rightarrow> bool" where
  "flattened m fdt off its \<longleftrightarrow>
     (\<forall>i\<in>set its. item_ok m (fdt + swap (load32 m (fdt + off_dt_strings))) off i) \<and>
     lies m (fdt + swap (load32 m (fdt + off_dt_struct))) (concat (map (encode off) its) @ be32 FDT_END)"

text \<open>
  C36: the program prints the device tree that is encoded in memory: for every node and every
  property, at every depth and in the order of the tree, its line, and nothing else but its own
  header, the end mark and the words of the eight devices; it always returns.
\<close>

theorem devicetree_printed:
  assumes "dt_linked L m" "num_buffer_ok (num_buf st)" "serving u" "flattened m fdt off its"
  shows "\<exists>u'. start_devicetree L st m fdt u = Some (Inr u') \<and> sends u (crlf (devicetree_text m fdt its)) u'"
proof -
  from header_lines_sends [OF assms(2,3), of fdt m] obtain u1 where
    u1: "xprintfs st
      [(lit ''fdt         %p\<newline>'', [Word fdt]),
       (lit ''fdt.magic   %08x\<newline>'', [Word (swap (load32 m (fdt + fdt_magic)))]),
       (lit ''fdt.version %08x\<newline>'', [Word (swap (load32 m (fdt + fdt_version)))]),
       (lit ''fdt.struct  %08x %08x\<newline>'',
          [Word (swap (load32 m (fdt + off_dt_struct))), Word (swap (load32 m (fdt + size_dt_struct)))]),
       (lit ''fdt.strings %08x %08x\<newline>'',
          [Word (swap (load32 m (fdt + off_dt_strings))), Word (swap (load32 m (fdt + size_dt_strings)))])] u = Some (Inr u1)"
      "sends u (crlf (concat (header_lines m fdt))) u1" by blast
  note s1 = sends_serving [OF u1(2) assms(3)]
  from walk_tree [OF assms(1,2) s1] assms(4) obtain u2 where
    u2: "fdt_walk L st m fdt u1 = Some (Inr u2)" "sends u1 (crlf (concat (map (printed 0) its) @ lit ''END\<newline>'')) u2"
    unfolding flattened_def fdt_walk_def by blast
  from device_words_sends [OF assms(2), of 0, OF _ sends_serving [OF u2(2) s1], of m] obtain u3 where
    u3: "device_words st m 0x10001000 u2 = Some (Inr u3)"
      "sends u2 (crlf (concat (map (\<lambda>k. device_line m (0x10001000 + 0x1000 * of_nat k)) [0..<8]))) u3"
    by (auto simp del: upt_rec_numeral)
  have "start_devicetree L st m fdt u = Some (Inr u3)"
    unfolding start_devicetree_def Let_def u1(1) and_print_def by (simp add: u2(1) u3(1))
  moreover have "sends u (crlf (devicetree_text m fdt its)) u3"
    using sends_trans [OF u1(2) sends_trans [OF u2(2) u3(2)]] unfolding devicetree_text_def by (simp only: crlf_simps(2))
  ultimately show ?thesis by blast
qed

text \<open>A tree of one node with two properties, behind the string literals of the program.\<close>

definition example_off :: "u8 list \<Rightarrow> u32" where
  "example_off name = (if name = lit ''model'' then 0 else 6)"

definition example_tree :: "item list" where
  "example_tree = [Node [] [Prop (lit ''model'') (lit ''ok'' @ [0]), Nop, Prop (lit ''reg'') [0x12, 0xAB]]]"

definition example_literals :: "u8 list" where
  "example_literals = concat (map (\<lambda>s. lit s @ [0])
     [''  '', ''bootargs'', ''compatible'', ''device_type'', ''model'', ''mmu-type'', ''riscv.isa''])"

definition example_header :: "u8 list" where
  "example_header = concat (map be32 [0xD00DFEED, 102, 40, 92, 0, 17, 16, 0, 10, 52])"

definition example_dtb :: mem where
  "example_dtb = put_bytes (\<lambda>_. 0) 0x1000
     (example_literals @ example_header @ (concat (map (encode example_off) example_tree) @ be32 FDT_END) @
      lit ''model'' @ [0] @ lit ''reg'' @ [0])"

definition example_strings :: dt_strings where
  "example_strings = \<lparr>indent_str = 0x1000, bootargs_str = 0x1003, compatible_str = 0x100C, device_type_str = 0x1017,
     model_str = 0x1023, mmu_type_str = 0x1029, riscv_isa_str = 0x1032\<rparr>"

lemma length_example:
  "length example_literals = 60" "length example_header = 40" "length (concat (map (encode example_off) example_tree)) = 48"
  by (simp_all add: example_literals_def example_header_def example_tree_def length_padded tokens)

lemma example_lies:
  "lies example_dtb 0x1000 example_literals" "lies example_dtb 0x103C example_header"
  "lies example_dtb 0x1064 (concat (map (encode example_off) example_tree) @ be32 FDT_END)"
  "lies example_dtb 0x1098 (lit ''model'' @ [0] @ lit ''reg'' @ [0])"
proof -
  let ?s = "concat (map (encode example_off) example_tree) @ be32 FDT_END" and ?n = "lit ''model'' @ [0] @ lit ''reg'' @ [0]"
  let ?all = "example_literals @ example_header @ ?s @ ?n"
  have n: "length ?n = 10" "length ?s = 52" using length_example by simp_all
  then have "length ?all = 162" using length_example by (simp only: length_append)
  then have all: "lies example_dtb 0x1000 ?all"
    unfolding lies_def example_dtb_def using bytes_put_bytes [of ?all "\<lambda>_. 0" "0x1000"] by simp
  have h: "lies example_dtb 0x1000 example_literals" "lies example_dtb 0x103C (example_header @ ?s @ ?n)"
    using lies_append [OF all] by (simp_all only: length_example) simp_all
  have t: "lies example_dtb 0x103C example_header" "lies example_dtb 0x1064 (?s @ ?n)"
    using lies_append [OF h(2)] by (simp_all only: length_example) simp_all
  show "lies example_dtb 0x1000 example_literals" "lies example_dtb 0x103C example_header" by (fact h t)+
  show "lies example_dtb 0x1064 ?s" "lies example_dtb 0x1098 ?n"
    using lies_append [OF t(2)] by (simp_all only: n) simp_all
qed

lemma lies_words: "lies m a (concat (map be32 ws)) \<Longrightarrow> i < length ws \<Longrightarrow> swap (load32 m (a + 4 * of_nat i)) = ws ! i"
proof (induction ws arbitrary: a i)
  case (Cons w ws)
  have l: "lies m a (be32 w)" "lies m (a + 4) (concat (map be32 ws))"
    using lies_append [of m a "be32 w"] Cons.prems(1) by simp_all
  show ?case
  proof (cases i)
    case 0
    then show ?thesis using lies_word [OF l(1)] by simp
  next
    case (Suc j)
    then show ?thesis using Cons.IH [OF l(2), of j] Cons.prems(2) by (simp add: algebra_simps)
  qed
qed simp

lemma example_dt_linked: "dt_linked example_strings example_dtb"
  using example_lies(1) unfolding lies_def length_example
  by (simp add: example_literals_def dt_linked_def example_strings_def of_char_def)

lemma example_flattened: "flattened example_dtb 0x103C example_off example_tree"
proof -
  have w: "swap (load32 example_dtb (0x103C + off_dt_struct)) = 40" "swap (load32 example_dtb (0x103C + off_dt_strings)) = 92"
    using lies_words [OF example_lies(2) [unfolded example_header_def], of 2] lies_words [OF example_lies(2) [unfolded example_header_def], of 3]
    by (simp_all add: off_dt_struct_def off_dt_strings_def)
  have "cstr example_dtb 0x1098 (lit ''model'')" "cstr example_dtb 0x109E (lit ''reg'')"
    using example_lies(4) by (simp_all add: lies_def of_char_def bytes_Suc)
  then have "\<forall>i\<in>set example_tree. item_ok example_dtb 0x1098 example_off i"
    by (simp add: example_tree_def example_off_def of_char_def text_names_def)
  then show ?thesis unfolding flattened_def w using example_lies(3) by simp
qed

theorem devicetree_printed_witness:
  "\<exists>u'. start_devicetree example_strings example_stack example_dtb 0x103C example_uart = Some (Inr u') \<and>
     sent u' = crlf (concat (header_lines example_dtb 0x103C) @
       lit ''NODE '' @ 39 # 39 # 10 # lit ''  PROP '' @ 39 # lit ''model'' @ 39 # lit '' 3: '' @ 39 # lit ''ok'' @ 39 # 10 #
       lit ''  PROP '' @ 39 # lit ''reg'' @ 39 # lit '' 2: 12 ab'' @ 10 # lit ''END'' @ 10 #
       concat (map (\<lambda>k. device_line example_dtb (0x10001000 + 0x1000 * of_nat k)) [0..<8]))"
proof -
  have nb: "num_buffer_ok (num_buf example_stack)" by (simp add: example_stack_def num_buffer_ok_def)
  have "concat (map (printed 0) example_tree) =
       lit ''NODE '' @ 39 # 39 # 10 # lit ''  PROP '' @ 39 # lit ''model'' @ 39 # lit '' 3: '' @ 39 # lit ''ok'' @ 39 # 10 #
       lit ''  PROP '' @ 39 # lit ''reg'' @ 39 # lit '' 2: 12 ab'' @ [10]"
    by (simp add: example_tree_def indented_def of_char_def text_names_def hex2_def decimal.simps hexadecimal.simps hextable_def
        replicate_numeral)
  with devicetree_printed [OF example_dt_linked nb example_uart_serving example_flattened] show ?thesis
    unfolding devicetree_text_def by (auto simp: sends_def example_uart_def of_char_def simp del: upt_rec_numeral)
qed

end
