(* ===== verification/Coop.thy ===== *)
theory Coop
  imports ThreadRing Drawing
begin

text \<open>
  Cooperative threads: \<^verbatim>\<open>example/ex10-threads-cooperative.c\<close>.  A thread runs until it calls
  \<open>yield\<close> or \<open>thread_exit\<close>.  The operations are a scheduler in the sense of \<^verbatim>\<open>ThreadRing\<close>.
\<close>

section \<open>Code\<close>

text \<open>Addresses chosen by the linker.\<close>

record coop_linkage =
  thread0 :: u32
  context_entry :: u32
  trap_entry :: u32
  fn_t1 :: u32
  fn_t2 :: u32
  fn_t3 :: u32
  fn_t4 :: u32

definition alloc_stack :: "'a machine_scheme \<Rightarrow> u32 \<times> 'a machine_scheme" where
  "alloc_stack st =
     (let s = next_stack st;
          st = st\<lparr>next_stack := next_stack st - 8192\<rparr>;
          st = st\<lparr>tmem := memset (tmem st) (next_stack st) 0xee 4096\<rparr>
      in (s, st))"

definition thread_create :: "coop_linkage \<Rightarrow> u32 \<Rightarrow> u32 \<Rightarrow> 'a machine_scheme \<Rightarrow> u32 \<times> 'a machine_scheme" where
  "thread_create L fn arg st =
     (let current = threadptr_get st;
          (t, st) = alloc 80 st;
          st = store t MAGIC THREAD_MAGIC st;
          st = store t ID (next_thread_id st) st;
          st = st\<lparr>next_thread_id := next_thread_id st + 1\<rparr>;
          st = store t NEXT current st;
          st = store t PREV (get_field (tmem st) current PREV) st;
          st = store (get_field (tmem st) t PREV) NEXT t st;
          st = store (get_field (tmem st) t NEXT) PREV t st;
          st = store t (CTXT + 3) t st;
          (sp, st) = alloc_stack st;
          st = store t (CTXT + 1) sp st;
          st = store t (CTXT + 4) arg st;
          st = store t (CTXT + 5) 0 st;
          st = store t (CTXT + 6) fn st;
          st = store t CTXT (context_entry L) st;
          m = tmem st;
          st = print (Printf (lit ''[ created thread %p id=%u sp=%08x pc=%08x ]\<newline>'')
            (map Word [t, get_field m t ID, get_field m t (CTXT + 1), get_field m t (CTXT + 6)])) st
      in (t, st))"

definition thread_exit :: "u32 \<Rightarrow> 'a machine_scheme \<Rightarrow> 'a machine_scheme ended" where
  "thread_exit status st =
     (let current = threadptr_get st;
          nxt = get_field (tmem st) current NEXT;
          prev = get_field (tmem st) current PREV;
          st = print (Printf (lit ''[ thread %p id=%u exited status=%d ]\<newline>'')
            (map Word [current, get_field (tmem st) current ID, status])) st
      in if nxt = current then Stopped (print (Printf (lit ''[ all threads have exited ]\<newline>'') []) st)
         else let st = store nxt PREV prev st;
                  st = store prev NEXT nxt st;
                  st = store current PREV 0 st;
                  st = store current NEXT 0 st
              in Switched (context_switch current nxt st))"

definition yield :: "'a machine_scheme \<Rightarrow> 'a machine_scheme" where
  "yield st =
     (let current = threadptr_get st
      in context_switch current (get_field (tmem st) current NEXT) st)"

text \<open>
  The program up to the first switch.  The surface object at \<open>gs\<close> (48 bytes) is the record
  \<open>screen\<close>; a linkage names the entry points.
\<close>

record coop = machine +
  screen :: gfx_surface

definition start10 :: "coop_linkage \<Rightarrow> coop \<Rightarrow> coop ended" where
  "start10 L st =
     (let st = print (Printf (lit ''Example 10 - Threads Cooperative\<newline>\<newline>'') []) st;
          st = csr_wr CSR_STVEC (trap_entry L) st;
          st = thread_init (thread0 L) st;
          (gs, st) = alloc 48 st;
          st = st\<lparr>screen := gfx_init_display (screen st)\<rparr>;
          scr = screen st;
          st = st\<lparr>tmem := memset (tmem st) (gpixels scr) 0 (gwidth scr * gheight scr * 2)\<rparr>;
          (_, st) = thread_create L (fn_t1 L) gs st;
          (_, st) = thread_create L (fn_t2 L) gs st;
          (_, st) = thread_create L (fn_t3 L) gs st;
          (_, st) = thread_create L (fn_t4 L) gs st
      in thread_exit 0 st)"

section \<open>The scheduler\<close>

interpretation cooperative: scheduler represents yield
  by unfold_locales (simp add: yield_def threadptr_get_def switch_represents Let_def)

text \<open>The registers of a new thread: \<open>context_entry\<close> calls \<open>s2\<close> with \<open>s0\<close> and \<open>s1\<close>.\<close>

definition fresh :: "coop_linkage \<Rightarrow> u32 \<Rightarrow> u32 \<Rightarrow> u32 \<Rightarrow> u32 \<Rightarrow> cframe" where
  "fresh L t sp fn arg = \<lparr>cf_pc = context_entry L, cf_sp = sp, cf_gp = 0, cf_tp = t, cf_s0 = arg, cf_s1 = 0,
     cf_s2 = fn, cf_s3 = 0, cf_s4 = 0, cf_s5 = 0, cf_s6 = 0, cf_s7 = 0, cf_s8 = 0, cf_s9 = 0, cf_s10 = 0, cf_s11 = 0\<rparr>"

lemma thread_create_extends:
  assumes rep: "represents st q" and room: "room (Suc n) 8192 st (map fst q)"
    and t: "t = next_heap st" and st': "st' = snd (thread_create L fn arg st)"
    and y: "y = fresh L t (next_stack st) fn arg"
  shows "fst (thread_create L fn arg st) = t" "represents st' (q @ [(t, y)])"
    "room n 8192 st' (map fst q @ [t])"
proof -
  have can: "can_create n 8192 st q" using rep room by (simp add: can_create_def)
  note links = created_links [OF can, folded t] and zero = created_zero [OF can, folded t]
    and fields = created_fields [OF can, folded t]
  show "fst (thread_create L fn arg st) = t"
    by (simp add: thread_create_def alloc_def alloc_stack_def Let_def t)
  define m3 where "m3 = filled (linked_in (tmem st) t (next_thread_id st) (cf_tp (cpu st))) (next_stack st - 8192) 4096 0xee"
  have m3: "get_field m3 u j = get_field (linked_in (tmem st) t (next_thread_id st) (cf_tp (cpu st))) u j"
    if "u \<in> set (t # map fst q)" "j < 20" for u j
  proof -
    have "separate (next_stack st - 8192) 8192 u 80"
      using room_stack(1) [of n 8192 st "map fst q" u] room that(1) t by simp
    then have "separate (next_stack st - 8192) 4096 u 80"
      by (rule separate_inside) (simp_all add: inside_def)
    then show ?thesis unfolding m3_def by (rule filled_outside [OF _ that(2)])
  qed
  have mem: "tmem st' = set_field (set_field (set_field (set_field (set_field m3 t (CTXT + 1) (next_stack st))
    t (CTXT + 4) arg) t (CTXT + 5) 0) t (CTXT + 6) fn) t CTXT (context_entry L)"
    unfolding st' thread_create_def alloc_def alloc_stack_def m3_def linked_in_def
    using links links(4) [OF links(1), symmetric] zero by (simp add: Let_def memset_filled store_def print_def threadptr_get_def t [symmetric]
       get_set_field get_field_same)
  have "cpu st' = cpu st" "next_heap st' = t + 96" "next_stack st' = next_stack st - 8192"
    by (simp_all add: st' t thread_create_def alloc_def alloc_stack_def Let_def store_def print_def)
  moreover have "get_field (tmem st') u j = get_field (linked_in (tmem st) t (next_thread_id st) (cf_tp (cpu st))) u j"
    if "u \<in> set (t # map fst q)" "j < 20" "u \<noteq> t \<or> j < CTXT" for u j
    using that links(2,4) [of u] by (cases "u = t") (simp_all add: mem m3 get_set_field get_field_same)
  moreover have "load_context (tmem st') t = y" "cf_tp y = t"
    by (simp_all add: y load_context_def fresh_def Let_def mem m3 get_field_same fields)
  ultimately show "represents st' (q @ [(t, y)])" "room n 8192 st' (map fst q @ [t])"
    using created_represents [OF can, of st' t _ y] by (simp_all add: t)
qed

lemma thread_exit_leaves:
  assumes "represents st ((c, x) # (n, y) # r)"
  shows "\<exists>st'. thread_exit status st = Switched st' \<and> represents st' ((n, y) # r)"
proof -
  have "n \<noteq> c" "get_field (tmem st) c NEXT = n" "cf_tp (cpu st) = c"
    using assms by (auto simp: represents_def linked_to_def separate_def)
  then show ?thesis
    by (simp add: thread_exit_def threadptr_get_def Let_def print_def)
      (rule represents_leave [OF assms refl], simp add: store_def)
qed

lemma thread_exit_last:
  assumes "represents st [(c, x)]"
  shows "\<exists>st'. thread_exit status st = Stopped st'"
  using assms by (auto simp: represents_def linked_to_def thread_exit_def threadptr_get_def Let_def print_def)

section \<open>Properties\<close>

text \<open>Where the first thread object and the first stack are.\<close>

definition heap0 :: u32 where "heap0 = 0x40100040"
definition stack0 :: u32 where "stack0 = 0x41FFF000"

lemma thread_create_step:
  assumes "represents st q" "room (Suc n) 8192 st (map fst q)"
  shows "\<exists>st'. thread_create L fn arg st = (next_heap st, st') \<and>
    represents st' (q @ [(next_heap st, fresh L (next_heap st) (next_stack st) fn arg)]) \<and>
    room n 8192 st' (map fst q @ [next_heap st]) \<and>
    next_heap st' = next_heap st + 96 \<and> next_stack st' = next_stack st - 8192"
proof -
  let ?st' = "snd (thread_create L fn arg st)"
  have "next_heap ?st' = next_heap st + 96" "next_stack ?st' = next_stack st - 8192"
    by (simp_all add: thread_create_def alloc_def alloc_stack_def Let_def store_def print_def)
  with thread_create_extends [OF assms refl refl refl, of L fn arg] show ?thesis
    by (intro exI [of _ ?st']) (simp add: prod_eq_iff)
qed

lemma start10_setup:
  assumes "unat (thread0 L) + 80 \<le> 0x40100000"
  shows "\<exists>s2 x. start10 L (load_statics (thread0 L) st) =
      (let (_, st) = thread_create L (fn_t1 L) 0x40100000 s2;
           (_, st) = thread_create L (fn_t2 L) 0x40100000 st;
           (_, st) = thread_create L (fn_t3 L) 0x40100000 st;
           (_, st) = thread_create L (fn_t4 L) 0x40100000 st
       in thread_exit 0 st) \<and>
    represents s2 [(thread0 L, x)] \<and> room 4 8192 s2 [thread0 L] \<and> next_heap s2 = heap0 \<and> next_stack s2 = stack0"
proof -
  let ?t0 = "thread0 L" 
  define s0 where "s0 = thread_init ?t0 (csr_wr CSR_STVEC (trap_entry L)
    (print (Printf (lit ''Example 10 - Threads Cooperative\<newline>\<newline>'') []) (load_statics ?t0 st)))"
  have tp: "cf_tp (cpu s0) = ?t0" by (simp add: s0_def thread_init_def threadptr_set_def)
  have "represents s0 [(?t0, cpu s0)]" 
    by (rule represents_statics [OF tp, of "tmem st"])
      (simp add: s0_def thread_init_def threadptr_set_def csr_wr_def print_def load_statics_def)
  have h0: "next_heap s0 = 0x40100000" "next_stack s0 = stack0"
    by (simp_all add: s0_def thread_init_def threadptr_set_def csr_wr_def print_def load_statics_def DRAM_BASE_def
       DRAM_SIZE_def MEMORY_TOP_def stack0_def)
  obtain s1 where s1: "alloc 48 s0 = (0x40100000, s1)" "next_heap s1 = heap0" "next_stack s1 = stack0"
     "tmem s1 = filled (tmem s0) 0x40100000 64 0" "cpu s1 = cpu s0" "screen s1 = screen s0"
    by (simp add: alloc_def h0 Let_def memset_filled heap0_def)
  define s2 where "s2 = s1\<lparr>screen := gfx_init_display (screen s1), tmem := filled (tmem s1) FRAMEBUFFER_BASE 614400 0\<rparr>"
  have s2: "next_heap s2 = heap0" "next_stack s2 = stack0" "cpu s2 = cpu s0" by (simp_all add: s2_def s1)
  have "represents s1 [(?t0, cpu s0)]" 
    by (rule represents_filled [OF \<open>represents s0 _\<close> _ s1(4,5)])
      (use assms in \<open>auto intro!: separate_below simp: separate_commute [of _ 64]\<close>)
  then have r2: "represents s2 [(?t0, cpu s0)]"
    by (rule represents_filled [where n = 614400 and b = 0 and a = FRAMEBUFFER_BASE])
      (use assms in \<open>auto intro!: separate_below simp: separate_commute [of _ 614400] s2_def FRAMEBUFFER_BASE_def s1(5)\<close>)
  have room: "room 4 8192 s2 [?t0]"
    using assms by (simp add: room_def s2 heap0_def stack0_def)
  have "s1\<lparr>screen := gfx_init_display (screen s1), tmem := memset (tmem s1) (gpixels (gfx_init_display (screen s1))) 0
      (gwidth (gfx_init_display (screen s1)) * gheight (gfx_init_display (screen s1)) * 2)\<rparr> = s2"
    by (simp add: s2_def memset_filled gfx_init_display_def gfx_init_def Let_def)
  then have "start10 L (load_statics ?t0 st) =
      (let (_, st) = thread_create L (fn_t1 L) 0x40100000 s2; (_, st) = thread_create L (fn_t2 L) 0x40100000 st;
           (_, st) = thread_create L (fn_t3 L) 0x40100000 st; (_, st) = thread_create L (fn_t4 L) 0x40100000 st
       in thread_exit 0 st)"
    unfolding start10_def Let_def s0_def [symmetric] s1(1) prod.case by simp
  with r2 room s2 show ?thesis by blast
qed

text \<open>
  C31: when the main thread of example 10 has exited, the four worker threads are the ring, in the
  order of their creation, with their stacks 8 kB apart and the registers that make
  \<open>context_entry\<close> call their functions on the surface at 0x40100000; the first of them runs.
\<close>

theorem start10_threads:
  assumes "unat (thread0 L) + 80 \<le> 0x40100000"
  shows "\<exists>st'. start10 L (load_statics (thread0 L) st) = Switched st' \<and>
    represents st'
      [(heap0, fresh L heap0 stack0 (fn_t1 L) 0x40100000),
       (heap0 + 96, fresh L (heap0 + 96) (stack0 - 8192) (fn_t2 L) 0x40100000),
       (heap0 + 192, fresh L (heap0 + 192) (stack0 - 16384) (fn_t3 L) 0x40100000),
       (heap0 + 288, fresh L (heap0 + 288) (stack0 - 24576) (fn_t4 L) 0x40100000)]"
proof -
  let ?t0 = "thread0 L"
  from start10_setup [OF assms, of st] obtain s2 x where start: "start10 L (load_statics ?t0 st) =
      (let (_, st) = thread_create L (fn_t1 L) 0x40100000 s2; (_, st) = thread_create L (fn_t2 L) 0x40100000 st;
           (_, st) = thread_create L (fn_t3 L) 0x40100000 st; (_, st) = thread_create L (fn_t4 L) 0x40100000 st
       in thread_exit 0 st)"
    and r2: "represents s2 [(?t0, x)]" and room: "room 4 8192 s2 [?t0]" and s2: "next_heap s2 = heap0" "next_stack s2 = stack0"
    by blast
  let ?gs = "0x40100000 :: u32"
  let ?q1 = "[(?t0, x), (heap0, fresh L heap0 stack0 (fn_t1 L) ?gs)]"
  let ?q2 = "?q1 @ [(heap0 + 96, fresh L (heap0 + 96) (stack0 - 8192) (fn_t2 L) ?gs)]"
  let ?q3 = "?q2 @ [(heap0 + 192, fresh L (heap0 + 192) (stack0 - 16384) (fn_t3 L) ?gs)]"
  let ?q4 = "?q3 @ [(heap0 + 288, fresh L (heap0 + 288) (stack0 - 24576) (fn_t4 L) ?gs)]"
  obtain s3 where s3: "thread_create L (fn_t1 L) ?gs s2 = (heap0, s3)" "represents s3 ?q1"
    "room 3 8192 s3 (map fst ?q1)" "next_heap s3 = heap0 + 96" "next_stack s3 = stack0 - 8192"
    using thread_create_step [OF r2, of 3 L "fn_t1 L" ?gs] room by (auto simp: s2)
  obtain s4 where s4: "thread_create L (fn_t2 L) ?gs s3 = (heap0 + 96, s4)" "represents s4 ?q2"
    "room 2 8192 s4 (map fst ?q2)" "next_heap s4 = heap0 + 192" "next_stack s4 = stack0 - 16384"
    using thread_create_step [OF s3(2), of 2 L "fn_t2 L" ?gs] s3(3-) by (auto simp: algebra_simps)
  obtain s5 where s5: "thread_create L (fn_t3 L) ?gs s4 = (heap0 + 192, s5)" "represents s5 ?q3"
    "room 1 8192 s5 (map fst ?q3)" "next_heap s5 = heap0 + 288" "next_stack s5 = stack0 - 24576"
    using thread_create_step [OF s4(2), of 1 L "fn_t3 L" ?gs] s4(3-) by (auto simp: algebra_simps numeral_2_eq_2)
  obtain s6 where s6: "thread_create L (fn_t4 L) ?gs s5 = (heap0 + 288, s6)" "represents s6 ?q4"
    using thread_create_step [OF s5(2), of 0 L "fn_t4 L" ?gs] s5(3-) by (auto simp: algebra_simps)
  have "\<exists>st'. thread_exit 0 s6 = Switched st' \<and> represents st' (tl ?q4)"
    using thread_exit_leaves [of s6 ?t0 "x"] s6(2) by simp
  then show ?thesis using start by (auto simp: s3(1) s4(1) s5(1) s6(1))
qed

definition linkage10 :: coop_linkage where
  "linkage10 = \<lparr>thread0 = 0x40008000, context_entry = 0x40001000, trap_entry = 0x40001100,
     fn_t1 = 0x40002000, fn_t2 = 0x40002100, fn_t3 = 0x40002200, fn_t4 = 0x40002300\<rparr>"

definition blank10 :: coop where
  "blank10 = machine.extend blank_machine \<lparr>screen = blank_surface\<rparr>"

theorem start10_threads_witness:
  "\<exists>st'. start10 linkage10 (load_statics 0x40008000 blank10) = Switched st' \<and> cf_s2 (cpu st') = 0x40002000 \<and>
     cf_sp (cpu st') = 0x41FFF000"
proof -
  obtain st' q where "start10 linkage10 (load_statics 0x40008000 blank10) = Switched st'"
    "represents st' ((heap0, fresh linkage10 heap0 stack0 0x40002000 0x40100000) # q)"
    using start10_threads [of linkage10 blank10] by (auto simp: linkage10_def)
  then show ?thesis by (auto dest!: represents_running simp: fresh_def stack0_def)
qed

text \<open>
  C32: threads that yield run in turn: after \<open>i\<close> calls of \<open>yield\<close> the \<open>i\<close>-th thread of the ring
  runs, with the registers it had when it gave up the processor, and after as many calls as there
  are threads everything is as before.  The thread objects remain a ring throughout.
\<close>

theorem yield_round_robin:
  assumes "represents st q" "i < length q"
  shows "represents ((yield ^^ i) st) (rotate i q) \<and> cpu ((yield ^^ i) st) = snd (q ! i) \<and>
    represents ((yield ^^ length q) st) q"
proof (intro conjI)
  obtain q' where "represents ((yield ^^ i) st) (q ! i # q')"
    using cooperative.nobody_starves [OF assms] by blast
  then show "cpu ((yield ^^ i) st) = snd (q ! i)" by (simp add: represents_def)
qed (fact cooperative.switches [OF assms(1)] cooperative.whole_round [OF assms(1)])+

text \<open>Two threads.\<close>

definition pair10 :: machine where
  "pair10 = snd (thread_create linkage10 0x40002000 7 (thread_init 0x40008000 (load_statics 0x40008000 blank_machine)))"

lemma pair10:
  "represents pair10 [(0x40008000, no_registers\<lparr>cf_tp := 0x40008000\<rparr>),
     (0x40100000, fresh linkage10 0x40100000 0x41FFF000 0x40002000 7)]"
proof -
  let ?st = "thread_init 0x40008000 (load_statics 0x40008000 blank_machine)"
  have "next_heap ?st = 0x40100000" "next_stack ?st = 0x41FFF000"
    by (simp_all add: thread_init_def threadptr_set_def load_statics_def DRAM_BASE_def DRAM_SIZE_def MEMORY_TOP_def)
  with thread_create_extends(2) [OF represents_blank [of "0x40008000" blank_machine] _ refl refl refl,
    where n = 0 and L = linkage10 and fn = "0x40002000" and arg = 7]
  show ?thesis by (simp add: room_def pair10_def blank_machine_def)
qed

theorem yield_round_robin_witness:
  "cf_s0 (cpu ((yield ^^ 1) pair10)) = 7 \<and> cpu ((yield ^^ 2) pair10) = no_registers\<lparr>cf_tp := 0x40008000\<rparr>"
  using yield_round_robin [OF pair10, of 1] represents_running [of "(yield ^^ 2) pair10"]
  by (auto simp: fresh_def numeral_2_eq_2)

text \<open>
  C33: a thread that exits is taken out of the ring and the next one runs; the others keep their
  order and registers.  When it was the only one, the machine stops.
\<close>

theorem thread_exit_ring:
  assumes "represents st ((c, x) # q)"
  shows "case thread_exit status st of
    Switched st' \<Rightarrow> q \<noteq> [] \<and> represents st' q
  | Stopped st' \<Rightarrow> q = []"
proof (cases q)
  case Nil
  with thread_exit_last [of st c x status] assms show ?thesis by auto
next
  case (Cons n r)
  with thread_exit_leaves [of st c x "fst n" "snd n" r status] assms show ?thesis by auto
qed

theorem thread_exit_ring_witness:
  "case thread_exit 0 pair10 of Switched st' \<Rightarrow> cf_s0 (cpu st') = 7 | Stopped st' \<Rightarrow> False"
  using thread_exit_ring [OF pair10, of 0] by (auto simp: fresh_def dest: represents_running split: ended.splits)

end
