(* ===== verification/Preempt.thy ===== *)
theory Preempt
  imports ThreadRing Drawing
begin

text \<open>
  Preemptive threads: \<^verbatim>\<open>example/ex11-threads-preemptive.c\<close>.  The timer interrupt switches to the
  next thread.  Definitions that \<^verbatim>\<open>Coop\<close> has in another form carry the number of the example.
\<close>

section \<open>Code\<close>

record preempt_linkage =
  thread0 :: u32
  trap_entry :: u32
  trap_exit :: u32
  thread_exit_entry :: u32
  fn_t1 :: u32
  fn_t2 :: u32
  fn_t3 :: u32
  fn_t4 :: u32

text \<open>
  The timer: its pending events (a write clears the bits written) and the other registers as
  last written.
\<close>

record preempt = machine +
  screen :: gfx_surface
  ev_pending :: u32
  timer :: "u32 \<Rightarrow> u32"

definition LX_TIMER_LOAD :: u32 where "LX_TIMER_LOAD = 0"
definition LX_TIMER_RELOAD :: u32 where "LX_TIMER_RELOAD = 4"
definition LX_TIMER_EN :: u32 where "LX_TIMER_EN = 8"
definition LX_TIMER_EV_PENDING :: u32 where "LX_TIMER_EV_PENDING = 0x18"
definition LX_TIMER_EV_ENABLE :: u32 where "LX_TIMER_EV_ENABLE = 0x1C"
definition LX_TIMER_EVb_ZERO :: u32 where "LX_TIMER_EVb_ZERO = 1"
definition TIMER0_IRQb :: u32 where "TIMER0_IRQb = push_bit 0 1"
definition INTb_SVC_EXTERN :: u32 where "INTb_SVC_EXTERN = push_bit 9 1"

lemmas timer_registers = LX_TIMER_LOAD_def LX_TIMER_RELOAD_def LX_TIMER_EN_def LX_TIMER_EV_PENDING_def
  LX_TIMER_EV_ENABLE_def LX_TIMER_EVb_ZERO_def TIMER0_IRQb_def INTb_SVC_EXTERN_def

definition timer_rd :: "u32 \<Rightarrow> preempt \<Rightarrow> u32" where
  "timer_rd a st = (if a = LX_TIMER_EV_PENDING then ev_pending st else timer st a)"

definition timer_wr :: "u32 \<Rightarrow> u32 \<Rightarrow> preempt \<Rightarrow> preempt" where
  "timer_wr a v st =
     (if a = LX_TIMER_EV_PENDING then st\<lparr>ev_pending := ev_pending st AND NOT v\<rparr>
      else st\<lparr>timer := (timer st)(a := v)\<rparr>)"

definition alloc_stack11 :: "'a machine_scheme \<Rightarrow> u32 \<times> 'a machine_scheme" where
  "alloc_stack11 st =
     (let s = next_stack st;
          st = st\<lparr>next_stack := next_stack st - 4096\<rparr>;
          st = st\<lparr>tmem := memset (tmem st) (next_stack st) 0xee 4096\<rparr>
      in (s, st))"

text \<open>A trap frame has 20 words too: \<open>ra\<close> is word 0, \<open>a0\<close> word 8 and \<open>pc\<close> word 16.\<close>

definition thread_create11 :: "preempt_linkage \<Rightarrow> u32 \<Rightarrow> u32 \<Rightarrow> 'a machine_scheme \<Rightarrow> u32 \<times> 'a machine_scheme" where
  "thread_create11 L fn arg st =
     (let st = irq_disable st;
          current = threadptr_get st;
          (t, st) = alloc 80 st;
          st = store t MAGIC THREAD_MAGIC st;
          st = store t ID (next_thread_id st) st;
          st = st\<lparr>next_thread_id := next_thread_id st + 1\<rparr>;
          st = store t NEXT current st;
          st = store t PREV (get_field (tmem st) current PREV) st;
          st = store (get_field (tmem st) t PREV) NEXT t st;
          st = store (get_field (tmem st) t NEXT) PREV t st;
          st = store t (CTXT + 3) t st;
          (sp, st) = alloc_stack11 st;
          st = store t (CTXT + 1) sp st;
          st = store t CTXT (trap_exit L) st;
          st = store t (CTXT + 1) (get_field (tmem st) t (CTXT + 1) - 32 * 4) st;
          frame = get_field (tmem st) t (CTXT + 1);
          st = st\<lparr>tmem := memset (tmem st) frame 0 80\<rparr>;
          st = store frame 0 (thread_exit_entry L) st;
          st = store frame 8 arg st;
          st = store frame 16 fn st;
          m = tmem st;
          st = print (Printf (lit ''[ created thread %p id=%u sp=%08x pc=%08x ]\<newline>'')
            (map Word [t, get_field m t ID, get_field m t (CTXT + 1), get_field m frame 16])) st;
          st = irq_enable st
      in (t, st))"

definition thread_exit11 :: "u32 \<Rightarrow> 'a machine_scheme \<Rightarrow> 'a machine_scheme ended" where
  "thread_exit11 status st =
     (let st = irq_disable st;
          st = csr_on CSR_SSTATUS (SSTATUS_SPP OR SSTATUS_SPIE) st;
          current = threadptr_get st;
          nxt = get_field (tmem st) current NEXT;
          prev = get_field (tmem st) current PREV;
          st = print (Printf (lit ''[ thread %p id=%u exited status=%d ]\<newline>'')
            (map Word [current, get_field (tmem st) current ID, status])) st
      in if nxt = current then Stopped (print (Printf (lit ''[ all threads have exited ]\<newline>'') []) st)
         else let st = store nxt PREV prev st;
                  st = store prev NEXT nxt st;
                  st = store current PREV 0 st;
                  st = store current NEXT 0 st
              in Switched (context_switch current nxt st))"

definition timer_init :: "preempt \<Rightarrow> preempt" where
  "timer_init st =
     (let st = csr_on CSR_S_INTC_ENABLE TIMER0_IRQb st;
          st = csr_on CSR_SIE INTb_SVC_EXTERN st;
          st = timer_wr LX_TIMER_EN 0 st;
          st = timer_wr LX_TIMER_EV_PENDING LX_TIMER_EVb_ZERO st;
          st = timer_wr LX_TIMER_LOAD 0 st;
          st = timer_wr LX_TIMER_RELOAD (50000000 div 100) st;
          st = timer_wr LX_TIMER_EN 1 st
      in timer_wr LX_TIMER_EV_ENABLE LX_TIMER_EVb_ZERO st)"

definition interrupt_handler :: "preempt \<Rightarrow> preempt" where
  "interrupt_handler st =
     (if timer_rd LX_TIMER_EV_PENDING st \<noteq> 0
      then let st = timer_wr LX_TIMER_EV_PENDING LX_TIMER_EVb_ZERO st;
               current = threadptr_get st
           in context_switch current (get_field (tmem st) current NEXT) st
      else st)"

definition start11 :: "preempt_linkage \<Rightarrow> preempt \<Rightarrow> preempt ended" where
  "start11 L st =
     (let st = print (Printf (lit ''Example 11 - Threads Preemptive\<newline>\<newline>'') []) st;
          st = csr_wr CSR_STVEC (trap_entry L) st;
          st = thread_init (thread0 L) st;
          (gs, st) = alloc 48 st;
          st = st\<lparr>screen := gfx_init_display (screen st)\<rparr>;
          scr = screen st;
          st = st\<lparr>tmem := memset (tmem st) (gpixels scr) 0 (gwidth scr * gheight scr * 2)\<rparr>;
          (_, st) = thread_create11 L (fn_t1 L) gs st;
          (_, st) = thread_create11 L (fn_t2 L) gs st;
          (_, st) = thread_create11 L (fn_t3 L) gs st;
          (_, st) = thread_create11 L (fn_t4 L) gs st;
          st = timer_init st
      in thread_exit11 0 st)"

section \<open>The scheduler\<close>

text \<open>The hardware part of a tick: the timer reaches zero.\<close>

definition timer_zero :: "preempt \<Rightarrow> preempt" where
  "timer_zero st = st\<lparr>ev_pending := ev_pending st OR LX_TIMER_EVb_ZERO\<rparr>"

definition tick :: "preempt \<Rightarrow> preempt" where
  "tick st = interrupt_handler (timer_zero st)"

text \<open>What a queue depends on.\<close>

lemma represents_same:
  "represents st q \<Longrightarrow> tmem st' = tmem st \<Longrightarrow> cpu st' = cpu st \<Longrightarrow> represents st' q"
  by (simp add: represents_def)

lemma interrupt_switches:
  assumes "represents st q" "ev_pending st \<noteq> 0"
  shows "represents (interrupt_handler st) (rotate1 q)"
proof -
  have "represents (timer_wr LX_TIMER_EV_PENDING LX_TIMER_EVb_ZERO st) q"
    by (rule represents_same [OF assms(1)]) (simp_all add: timer_wr_def)
  from switch_represents [OF this] assms(2) show ?thesis
    by (simp add: interrupt_handler_def timer_rd_def threadptr_get_def Let_def)
qed

lemma tick_switches:
  assumes "represents st q"
  shows "represents (tick st) (rotate1 q)"
  unfolding tick_def
proof (rule interrupt_switches)
  show "represents (timer_zero st) q"
    by (rule represents_same [OF assms]) (simp_all add: timer_zero_def)
  have "bit (ev_pending (timer_zero st)) 0"
    by (simp add: timer_zero_def timer_registers bit_or_iff)
  then show "ev_pending (timer_zero st) \<noteq> 0" by auto
qed

interpretation preemptive: scheduler represents tick
  by unfold_locales (rule tick_switches)

section \<open>Threads come and go\<close>

text \<open>
  The registers of a new thread: \<open>trap_exit\<close> restores the frame below the top of its stack.
\<close>

definition fresh11 :: "preempt_linkage \<Rightarrow> u32 \<Rightarrow> u32 \<Rightarrow> cframe" where
  "fresh11 L t s = \<lparr>cf_pc = trap_exit L, cf_sp = s - 128, cf_gp = 0, cf_tp = t, cf_s0 = 0, cf_s1 = 0,
     cf_s2 = 0, cf_s3 = 0, cf_s4 = 0, cf_s5 = 0, cf_s6 = 0, cf_s7 = 0, cf_s8 = 0, cf_s9 = 0, cf_s10 = 0, cf_s11 = 0\<rparr>"

text \<open>The frame makes the thread run \<open>fn\<close> on \<open>arg\<close> and return to \<open>thread_exit\<close>.\<close>

definition frame_for :: "preempt_linkage \<Rightarrow> mem \<Rightarrow> u32 \<Rightarrow> u32 \<Rightarrow> u32 \<Rightarrow> bool" where
  "frame_for L m frame fn arg \<longleftrightarrow>
     get_field m frame 0 = thread_exit_entry L \<and> get_field m frame 8 = arg \<and> get_field m frame 16 = fn"

lemma alloc_irq:
  "tmem (irq_disable st) = tmem st" "cpu (irq_disable st) = cpu st" "next_heap (irq_disable st) = next_heap st"
  "next_stack (irq_disable st) = next_stack st" "next_thread_id (irq_disable st) = next_thread_id st"
  "tmem (irq_enable st) = tmem st" "cpu (irq_enable st) = cpu st" "next_heap (irq_enable st) = next_heap st"
  "next_stack (irq_enable st) = next_stack st" "next_thread_id (irq_enable st) = next_thread_id st"
  by (simp_all add: irq_disable_def irq_enable_def csr_on_def csr_off_def)

text \<open>
  The bytes that \<open>thread_create\<close> may write: the new object, the new stack and the links of the
  threads between which the new one is put.
\<close>

definition created_bytes :: "'a machine_scheme \<Rightarrow> u32 \<Rightarrow> bool" where
  "created_bytes st a \<longleftrightarrow>
     unat (a - next_heap st) < 96 \<or> unat (a - (next_stack st - 4096)) < 4096 \<or>
     unat (a - (get_field (tmem st) (cf_tp (cpu st)) PREV + 8)) < 4 \<or> unat (a - (cf_tp (cpu st) + 12)) < 4"

lemma frame_in_page:
  assumes "4096 \<le> unat (a - (s - 4096 :: u32))"
  shows "128 \<le> unat (a - (s - 128))"
proof -
  have le: "(3968 :: u32) \<le> a - (s - 4096)" using assms by (simp add: word_le_nat_alt)
  have "a - (s - 128) = (a - (s - 4096)) - 3968" by simp
  then have "unat (a - (s - 128)) = unat (a - (s - 4096)) - 3968" by (simp only: unat_sub [OF le]) simp
  then show ?thesis using assms by linarith
qed

text \<open>A word that is written inside of a region leaves the bytes outside of it.\<close>

lemma set_field_outside: "4 \<le> unat (a - (u + of_nat (4 * j))) \<Longrightarrow> set_field m u j v a = m a"
  by (simp add: set_field_def store32_outside)

lemma set_field_region:
  assumes "n \<le> unat (a - u)" "4 * j + 4 \<le> n"
  shows "set_field m u j v a = m a"
proof (rule set_field_outside)
  have le: "(of_nat (4 * j) :: u32) \<le> a - u"
    using assms unat_lt_pow32 [of "a - u"] unat_of_nat32 [of "4 * j"] unfolding word_le_nat_alt by linarith
  have "a - (u + of_nat (4 * j)) = (a - u) - of_nat (4 * j)" by simp
  then have "unat (a - (u + of_nat (4 * j))) = unat (a - u) - 4 * j"
    using assms unat_lt_pow32 [of "a - u"] unat_of_nat32 [of "4 * j"] by (simp only: unat_sub [OF le])
  then show "4 \<le> unat (a - (u + of_nat (4 * j)))" using assms by linarith
qed

lemma linked_in_outside:
  assumes "96 \<le> unat (a - t)" "4 \<le> unat (a - (get_field m c PREV + 8))" "4 \<le> unat (a - (c + 12))"
  shows "linked_in m t i c a = m a"
  using assms set_field_outside [of a "get_field m c PREV" NEXT] set_field_outside [of a c PREV]
  by (simp add: linked_in_def Let_def set_field_region [OF assms(1)]) (simp add: filled_def)

lemma thread_create11_extends:
  assumes rep: "represents st q" and room: "room (Suc n) 4096 st (map fst q)"
    and t: "t = next_heap st" and st': "st' = snd (thread_create11 L fn arg st)"
    and y: "y = fresh11 L t (next_stack st)"
  shows "fst (thread_create11 L fn arg st) = t" "represents st' (q @ [(t, y)])"
    "room n 4096 st' (map fst q @ [t])" "frame_for L (tmem st') (cf_sp y) fn arg"
    "next_heap st' = t + 96" "next_stack st' = next_stack st - 4096"
    "created_bytes st a \<or> tmem st' a = tmem st a"
proof -
  have can: "can_create n 4096 st q" using rep room by (simp add: can_create_def)
  note links = created_links [OF can, folded t] and zero = created_zero [OF can, folded t]
    and fields = created_fields [OF can, folded t]
  let ?f = "next_stack st - 128"
  show "fst (thread_create11 L fn arg st) = t"
    by (simp add: thread_create11_def alloc_def alloc_stack11_def Let_def t alloc_irq)
  define m3 where "m3 = filled (linked_in (tmem st) t (next_thread_id st) (cf_tp (cpu st))) (next_stack st - 4096) 4096 0xee"
  define m4 where "m4 = set_field (set_field (set_field m3 t (CTXT + 1) (next_stack st)) t CTXT (trap_exit L)) t (CTXT + 1) ?f"
  define m5 where "m5 = filled m4 ?f 80 0"
  have stack: "separate (next_stack st - 4096) 4096 u 80" if "u \<in> set (t # map fst q)" for u
    using room_stack(1) [of n 4096 st "map fst q" u] room that t by simp
  have frame: "separate ?f 80 u 80" if "u \<in> set (t # map fst q)" for u
    by (rule separate_inside [OF stack [OF that]]) (simp_all add: inside_def)
  have fother: "other_thread ?f u" "other_thread u ?f" "?f \<noteq> u" if "u \<in> set (t # map fst q)" for u
    using frame [OF that] by (auto simp: other_thread_def separate_def)
  have m3: "get_field m3 u j = get_field (linked_in (tmem st) t (next_thread_id st) (cf_tp (cpu st))) u j"
    if "u \<in> set (t # map fst q)" "j < 20" for u j
    unfolding m3_def by (rule filled_outside [OF stack that(2)]) (fact that(1))
  have m5: "get_field m5 u j = get_field m4 u j" if "u \<in> set (t # map fst q)" "j < 20" for u j
    unfolding m5_def by (rule filled_outside [OF frame that(2)]) (fact that(1))
  have mem: "tmem st' = set_field (set_field (set_field m5 ?f 0 (thread_exit_entry L)) ?f 8 arg) ?f 16 fn"
    unfolding st' thread_create11_def alloc_def alloc_stack11_def m3_def linked_in_def m4_def m5_def
    using links links(4) [OF links(1), symmetric] zero by (simp add: Let_def memset_filled store_def print_def threadptr_get_def t [symmetric]
       get_set_field get_field_same alloc_irq)
  have regs: "cpu st' = cpu st" "next_heap st' = t + 96" "next_stack st' = next_stack st - 4096"
    by (simp_all add: st' t thread_create11_def alloc_def alloc_stack11_def Let_def store_def print_def alloc_irq)
  then show "next_heap st' = t + 96" "next_stack st' = next_stack st - 4096" by simp_all
  note regs
  moreover have "get_field (tmem st') u j = get_field (linked_in (tmem st) t (next_thread_id st) (cf_tp (cpu st))) u j"
    if "u \<in> set (t # map fst q)" "j < 20" "u \<noteq> t \<or> j < CTXT" for u j
    using that links(2,4) [of u] fother [OF that(1)]
    by (cases "u = t") (simp_all add: mem m5 m4_def m3 get_set_field get_field_same)
  moreover have "load_context (tmem st') t = y" "cf_tp y = t"
    using fother [of t] by (simp_all add: y load_context_def fresh11_def Let_def mem m5 m4_def m3 get_field_same get_set_field fields)
  ultimately show "represents st' (q @ [(t, y)])" "room n 4096 st' (map fst q @ [t])"
    using created_represents [OF can, of st' t _ y] by (simp_all add: t)
  show "frame_for L (tmem st') (cf_sp y) fn arg"
    by (simp add: y fresh11_def frame_for_def mem get_field_same)
  show "created_bytes st a \<or> tmem st' a = tmem st a"
  proof (cases "created_bytes st a")
    case False
    then have far: "96 \<le> unat (a - t)" "4096 \<le> unat (a - (next_stack st - 4096))"
      "4 \<le> unat (a - (get_field (tmem st) (cf_tp (cpu st)) PREV + 8))" "4 \<le> unat (a - (cf_tp (cpu st) + 12))"
      by (simp_all add: created_bytes_def t not_less)
    have page: "128 \<le> unat (a - ?f)" using frame_in_page [OF far(2)] .
    have "tmem st' a = m3 a"
      by (simp add: mem m5_def m4_def set_field_region [OF far(1)] set_field_region [OF page])
        (use page in \<open>simp add: filled_def set_field_region [OF far(1)]\<close>)
    also have "m3 a = tmem st a"
      using far(2) linked_in_outside [OF far(1,3,4)] by (simp add: m3_def filled_def)
    finally show ?thesis ..
  qed simp
qed

lemma stacks_not_created:
  assumes room: "room (Suc n) 4096 st ts" and old: "next_stack st \<le> a"
    and ts: "cf_tp (cpu st) \<in> set ts" "get_field (tmem st) (cf_tp (cpu st)) PREV \<in> set ts"
  shows "\<not> created_bytes st a"
proof -
  let ?s = "next_stack st"
  have r: "unat (next_heap st) + 4192 \<le> unat ?s" "unat ?s \<le> unat a" using room old by (simp_all add: room_def word_le_nat_alt)
  have diff: "unat (a - w) = unat a - unat w" if "unat w \<le> unat a" for w
    using that by (simp add: unat_sub word_le_nat_alt)
  have s: "unat (?s - 4096) = unat ?s - 4096" using r by (simp add: unat_sub word_le_nat_alt)
  have field: "4 \<le> unat (a - (u + k))" if "u \<in> set ts" "unat k \<le> 12" for u k
  proof -
    have u: "unat u + 80 \<le> unat (next_heap st)" using room that(1) by (simp add: room_def)
    then have "unat (u + k) = unat u + unat k"
      using r that(2) unat_lt_pow32 [of a] unat_add32 [of u k] by simp
    then show ?thesis using diff [of "u + k"] u r that(2) by simp
  qed
  have "unat (a - next_heap st) = unat a - unat (next_heap st)" "unat (a - (?s - 4096)) = unat a - unat (?s - 4096)"
    using r s by (intro diff; linarith)+
  then have "96 \<le> unat (a - next_heap st)" "4096 \<le> unat (a - (?s - 4096))" using r s by linarith+
  then show ?thesis
    using field [OF ts(2), of 8] field [OF ts(1), of 12]
    by (simp add: created_bytes_def not_less)
qed

lemma thread_exit11_leaves:
  assumes "represents st ((c, x) # (n, y) # r)"
  shows "\<exists>st'. thread_exit11 status st = Switched st' \<and> represents st' ((n, y) # r) \<and>
    csr_file st' CSR_SSTATUS = (csr_file st CSR_SSTATUS AND NOT SSTATUS_SIE) OR SSTATUS_SPP OR SSTATUS_SPIE"
proof -
  have "n \<noteq> c" "get_field (tmem st) c NEXT = n" "cf_tp (cpu st) = c"
    using assms by (auto simp: represents_def linked_to_def separate_def)
  then show ?thesis
    apply (simp add: thread_exit11_def threadptr_get_def Let_def print_def csr_on_def irq_disable_def csr_off_def)
    apply (intro conjI represents_leave [OF assms refl])
    apply (simp add: store_def)
    apply (simp add: store_def context_switch_def Let_def or.assoc)
    done
qed

section \<open>Properties\<close>

lemma irq_enabled: "bit (csr_file (irq_enable st) CSR_SSTATUS) 1"
  by (simp add: irq_enable_def csr_on_def bit_or_iff SSTATUS_SIE_def)

text \<open>
  C34: \<open>thread_create\<close> of example 11 puts the new thread last in the ring, with registers and a
  trap frame below the top of its stack that make \<open>trap_exit\<close> start its function and return to
  \<open>thread_exit\<close>; the other threads keep their registers.  It takes 96 bytes of heap and one page of
  stack, and writes nothing else but the links to the new thread: no byte of a stack that was given
  out before changes.  Heap and stacks do not meet as long as there is room, and interrupts are
  enabled afterwards.
\<close>

theorem thread_create11_joins:
  assumes "represents st q" "room (Suc n) 4096 st (map fst q)"
  shows "case thread_create11 L fn arg st of (t, st') \<Rightarrow>
    t = next_heap st \<and> represents st' (q @ [(t, fresh11 L t (next_stack st))]) \<and> room n 4096 st' (map fst q @ [t]) \<and>
    frame_for L (tmem st') (next_stack st - 128) fn arg \<and> bit (csr_file st' CSR_SSTATUS) 1 \<and>
    next_heap st' = next_heap st + 96 \<and> next_stack st' = next_stack st - 4096 \<and>
    (\<forall>a. created_bytes st a \<or> tmem st' a = tmem st a) \<and>
    (\<forall>a\<ge>next_stack st. tmem st' a = tmem st a)"
proof -
  have "bit (csr_file (snd (thread_create11 L fn arg st)) CSR_SSTATUS) 1"
    unfolding thread_create11_def Let_def case_prod_beta snd_conv by (rule irq_enabled)
  moreover have "can_create n 4096 st q" using assms by (simp add: can_create_def)
  with stacks_not_created [OF assms(2)] have "\<not> created_bytes st a" if "next_stack st \<le> a" for a
    using that created_links(1,6) by blast
  ultimately show ?thesis using thread_create11_extends [OF assms refl refl refl, where L = L and fn = fn and arg = arg]
    by (auto simp: case_prod_beta fresh11_def)
qed

definition linkage11 :: preempt_linkage where
  "linkage11 = \<lparr>thread0 = 0x40008000, trap_entry = 0x40001100, trap_exit = 0x40001180,
     thread_exit_entry = 0x40001800, fn_t1 = 0x40002000, fn_t2 = 0x40002100, fn_t3 = 0x40002200, fn_t4 = 0x40002300\<rparr>"

definition blank11 :: preempt where
  "blank11 = machine.extend blank_machine \<lparr>screen = blank_surface, ev_pending = 0, timer = (\<lambda>_. 0)\<rparr>"

definition single11 :: preempt where
  "single11 = thread_init 0x40008000 (load_statics 0x40008000 blank11)"

lemma single11: "represents single11 [(0x40008000, no_registers\<lparr>cf_tp := 0x40008000\<rparr>)]"
  "next_heap single11 = 0x40100000" "next_stack single11 = 0x41FFF000"
  using represents_blank [of "0x40008000" blank11]
  by (simp_all add: single11_def blank11_def machine.extend_def blank_machine_def thread_init_def threadptr_set_def
     load_statics_def DRAM_BASE_def DRAM_SIZE_def MEMORY_TOP_def)

theorem thread_create11_joins_witness:
  "case thread_create11 linkage11 0x40002000 7 single11 of (t, st') \<Rightarrow>
     t = 0x40100000 \<and> get_field (tmem st') 0x41FFEF80 8 = 7 \<and> next_stack st' = 0x41FFE000 \<and>
     tmem st' 0x41FFF000 = tmem single11 0x41FFF000"
  using thread_create11_joins [OF single11(1), where n = 5 and L = linkage11 and fn = "0x40002000" and arg = 7]
  by (simp add: room_def single11 frame_for_def case_prod_beta)

text \<open>
  C35: every tick of the timer runs the next thread of the ring: after \<open>i\<close> ticks the \<open>i\<close>-th thread
  runs with the registers it was interrupted with, and after as many ticks as there are threads
  the ring is as before.
\<close>

theorem tick_round_robin:
  assumes "represents st q" "i < length q"
  shows "represents ((tick ^^ i) st) (rotate i q) \<and> cpu ((tick ^^ i) st) = snd (q ! i) \<and>
    represents ((tick ^^ length q) st) q"
proof (intro conjI)
  obtain q' where "represents ((tick ^^ i) st) (q ! i # q')"
    using preemptive.nobody_starves [OF assms] by blast
  then show "cpu ((tick ^^ i) st) = snd (q ! i)" by (simp add: represents_def)
qed (fact preemptive.switches [OF assms(1)] preemptive.whole_round [OF assms(1)])+

definition pair11 :: preempt where
  "pair11 = snd (thread_create11 linkage11 0x40002000 7 single11)"

lemma pair11:
  "represents pair11 [(0x40008000, no_registers\<lparr>cf_tp := 0x40008000\<rparr>),
     (0x40100000, fresh11 linkage11 0x40100000 0x41FFF000)]"
  using thread_create11_extends(2) [OF single11(1) _ refl refl refl, where n = 0 and L = linkage11 and fn = "0x40002000" and arg = 7]
  by (simp add: room_def single11 pair11_def)

theorem tick_round_robin_witness:
  "cf_tp (cpu ((tick ^^ 1) pair11)) = 0x40100000 \<and> cpu ((tick ^^ 2) pair11) = no_registers\<lparr>cf_tp := 0x40008000\<rparr>"
  using tick_round_robin [OF pair11, of 1] represents_running [of "(tick ^^ 2) pair11"]
  by (auto simp: fresh11_def numeral_2_eq_2)

end
