(* ===== verification/Host.thy ===== *)
theory Host
  imports Loader
begin

text \<open>
  The host's side of network boot, \<^verbatim>\<open>tools/netboot.c\<close>: it finds a node, sends it images in
  messages of up to 1024 bytes, each until it is acknowledged, and tells it to run the first.
  The operating system is a record of functions on a world; a file descriptor or a result of
  type \<open>int\<close> is an integer.  The host is little-endian, as the node.
\<close>

section \<open>Code\<close>

record sockaddr =
  sin6_addr :: "u8 list"
  sin6_port :: u16
  sin6_scope_id :: int

record 'w os =
  sys_clock :: "'w \<Rightarrow> (u64 \<times> u64) option \<times> 'w"
  sys_socket :: "'w \<Rightarrow> int \<times> 'w"
  sys_setsockopt :: "int \<Rightarrow> string \<Rightarrow> 'w \<Rightarrow> int \<times> 'w"
  sys_set_nonblock :: "int \<Rightarrow> 'w \<Rightarrow> int \<times> 'w"
  sys_connect :: "int \<Rightarrow> sockaddr \<Rightarrow> 'w \<Rightarrow> int \<times> 'w"
  sys_bind :: "int \<Rightarrow> sockaddr \<Rightarrow> 'w \<Rightarrow> int \<times> 'w"
  sys_close :: "int \<Rightarrow> 'w \<Rightarrow> 'w"
  sys_sendto :: "int \<Rightarrow> u8 list \<Rightarrow> sockaddr \<Rightarrow> 'w \<Rightarrow> int \<times> 'w"
  sys_recvfrom :: "int \<Rightarrow> nat \<Rightarrow> int \<Rightarrow> 'w \<Rightarrow> (int \<times> u8 list \<times> sockaddr) \<times> 'w"
  sys_poll :: "int \<Rightarrow> u64 \<Rightarrow> 'w \<Rightarrow> int \<times> 'w"
  sys_write :: "int \<Rightarrow> u8 list \<Rightarrow> 'w \<Rightarrow> int \<times> 'w"
  sys_read :: "int \<Rightarrow> nat \<Rightarrow> 'w \<Rightarrow> (int \<times> u8 list) \<times> 'w"
  sys_open :: "u8 list \<Rightarrow> 'w \<Rightarrow> int \<times> 'w"
  sys_if_nametoindex :: "u8 list \<Rightarrow> 'w \<Rightarrow> int \<times> 'w"
  lib_strtoul16 :: "u8 list \<Rightarrow> u64"

text \<open>The program's own state: the sequence number, and what it prints.\<close>

datatype earg = Text "u8 list" | Number u32

record 'w host =
  seq :: u32
  err :: "(u8 list \<times> earg list) list"
  world :: 'w

definition sys :: "('w \<Rightarrow> 'a \<times> 'w) \<Rightarrow> 'w host \<Rightarrow> 'a \<times> 'w host" where
  "sys f h = (case f (world h) of (x, w) \<Rightarrow> (x, h\<lparr>world := w\<rparr>))"

definition shut :: "'w os \<Rightarrow> int \<Rightarrow> 'w host \<Rightarrow> 'w host" where
  "shut os s h = h\<lparr>world := sys_close os s (world h)\<rparr>"

definition eprint :: "string \<Rightarrow> earg list \<Rightarrow> 'w host \<Rightarrow> 'w host" where
  "eprint fmt args h = h\<lparr>err := err h @ [(lit fmt, args)]\<rparr>"

text \<open>How a call ends: the process exits, memory is overrun, or it returns a result.\<close>

datatype 'a ending = Exits int | Overrun | Returns 'a

definition get_time_ms :: "'w os \<Rightarrow> 'w host \<Rightarrow> u64 ending \<times> 'w host" where
  "get_time_ms os h =
     (let (ts, h) = sys (sys_clock os) h
      in (case ts of None \<Rightarrow> Exits (- 1)
          | Some (sec, nsec) \<Rightarrow> Returns (nsec div 1000000 + sec * 1000), h))"

definition open_udp6_socket :: "'w os \<Rightarrow> sockaddr \<Rightarrow> bool \<Rightarrow> 'w host \<Rightarrow> int \<times> 'w host" where
  "open_udp6_socket os addr con h =
     (let (s, h) = sys (sys_socket os) h
      in if s < 0 then (- 1, eprint ''open_udp6_socket: open socket'' [] h)
         else let (r, h) = sys (sys_setsockopt os s ''SO_REUSEPORT'') h
         in if r < 0 then (- 1, shut os s (eprint ''open_udp6_socket: SO_REUSEPORT'' [] h))
         else let (r, h) = sys (sys_setsockopt os s ''SO_REUSEADDR'') h
         in if r < 0 then (- 1, shut os s (eprint ''open_udp6_socket: SO_REUSEADDR'' [] h))
         else let (r, h) = sys (sys_set_nonblock os s) h
         in if r < 0 then (- 1, shut os s (eprint ''open_ud6_socket: set O_NONBLOCK'' [] h))
         else if con
         then let (r, h) = sys (sys_connect os s addr) h
              in if r < 0 then (- 1, shut os s (eprint ''open_udp6_socket: connect'' [] h)) else (s, h)
         else let (r, h) = sys (sys_bind os s addr) h
              in if r < 0 then (- 1, shut os s (eprint ''open_udp6_socket: bind'' [] h)) else (s, h))"

subsection \<open>Messages\<close>

record netboot_msg =
  msg_magic :: u32
  msg_cmd :: u32
  msg_seq :: u32
  msg_arg :: u32
  msg_db :: "u8 list"

definition wire :: "netboot_msg \<Rightarrow> u32 \<Rightarrow> u8 list" where
  "wire m len = take (unat len)
     (le32 (msg_magic m) @ le32 (msg_cmd m) @ le32 (msg_seq m) @ le32 (msg_arg m) @ msg_db m)"

text \<open>
  Sending a message, with the number of attempts left.  The sequence number that is stored in
  the caller's message is not returned: it is overwritten before it is used again.
\<close>

fun send_tries :: "'w os \<Rightarrow> int \<Rightarrow> netboot_msg \<Rightarrow> u32 \<Rightarrow> nat \<Rightarrow> 'w host \<Rightarrow> int \<times> 'w host" where
  "send_tries os s msg len 0 h = (- 1, h)"
| "send_tries os s msg len (Suc retry) h =
     (let h = h\<lparr>seq := seq h + 1\<rparr>;
          msg = msg\<lparr>msg_seq := seq h\<rparr>;
          (r, h) = sys (sys_write os s (wire msg len)) h
      in if word_of_int r \<noteq> len then (- 1, h)
         else let (p, h) = sys (sys_poll os s 250) h
         in if p \<noteq> 1 then send_tries os s msg len retry (eprint ''T'' [] h)
         else let ((r, rsp), h) = sys (sys_read os s 1040) h
         in if r < 16 \<or> le_word rsp 0 \<noteq> NB_MAGIC \<or> le_word rsp 4 \<noteq> NB_CMD_STATUS
            then send_tries os s msg len retry (eprint ''X'' [] h)
         else if le_word rsp 8 \<noteq> seq h then send_tries os s msg len retry (eprint ''S'' [] h)
         else if le_word rsp 12 \<noteq> NB_OK then (- 1, eprint ''E'' [] h)
         else (0, eprint ''.'' [] h))"

definition send_msg :: "'w os \<Rightarrow> int \<Rightarrow> netboot_msg \<Rightarrow> u32 \<Rightarrow> 'w host \<Rightarrow> int \<times> 'w host" where
  "send_msg os s msg len h = send_tries os s msg len 5 h"

partial_function (option) send_blocks ::
  "'w os \<Rightarrow> int \<Rightarrow> int \<Rightarrow> netboot_msg \<Rightarrow> u32 \<Rightarrow> 'w host \<Rightarrow> (int \<times> 'w host) option" where
  "send_blocks os s fd msg addr h =
     (let ((r, b), h) = sys (sys_read os fd 1024) h
      in if r \<le> 0 then Some (r, shut os fd h)
         else let msg = msg\<lparr>msg_db := b @ drop (length b) (msg_db msg)\<rparr>;
                  msg = msg\<lparr>msg_arg := addr\<rparr>;
                  addr = addr + word_of_int r;
                  (q, h) = send_msg os s msg (word_of_int (r + 16)) h
         in if q \<noteq> 0 then Some (- 1, shut os fd h) else send_blocks os s fd msg addr h)"

text \<open>\<open>stack\<close> is what the message's memory holds before it is filled in.\<close>

definition send_file :: "'w os \<Rightarrow> netboot_msg \<Rightarrow> int \<Rightarrow> u8 list \<Rightarrow> u32 \<Rightarrow> 'w host \<Rightarrow> (int \<times> 'w host) option" where
  "send_file os stack s fn addr h =
     (let msg = stack\<lparr>msg_magic := NB_MAGIC\<rparr>;
          msg = msg\<lparr>msg_cmd := NB_CMD_WRITE\<rparr>;
          (fd, h) = sys (sys_open os fn) h
      in if fd < 0 then Some (- 1, eprint ''error: cannot open '%s'\<newline>'' [Text fn] h)
         else send_blocks os s fd msg addr (eprint ''\<newline>[ sending '%s' to 0x%08x ]\<newline>'' [Text fn, Number addr] h))"

subsection \<open>Finding the node\<close>

definition all_nodes :: "u8 list" where
  "all_nodes = [0xFF, 0x02, 0, 0, 0, 0, 0, 0, 0, 0, 0, 0, 0, 0, 0, 1]"

text \<open>The loop of \<open>open_node\<close>; \<open>ntoh\<close> is \<open>inet_ntop\<close>.\<close>

partial_function (option) node_loop ::
  "'w os \<Rightarrow> int \<Rightarrow> u8 list \<Rightarrow> sockaddr \<Rightarrow> netboot_msg \<Rightarrow> u32 \<Rightarrow> u64 \<Rightarrow> 'w host \<Rightarrow> (int ending \<times> 'w host) option" where
  "node_loop os s node mcast msg msglen nxt h =
     (case get_time_ms os h of
        (Exits n, h) \<Rightarrow> Some (Exits n, h)
      | (Overrun, h) \<Rightarrow> Some (Overrun, h)
      | (Returns now, h) \<Rightarrow>
          let due = now \<ge> nxt;
              nxt = (if due then now + 500 else nxt);
              h = (if due then h\<lparr>seq := seq h + 1\<rparr> else h);
              msg = (if due then msg\<lparr>msg_seq := seq h\<rparr> else msg);
              (r, h) = (if due then sys (sys_sendto os s (wire msg msglen) mcast) h else (uint msglen, h))
          in if word_of_int r \<noteq> msglen then Some (Returns (- 1), eprint ''write'' [] h)
             else let (p, h) = sys (sys_poll os s (nxt - now)) h
             in if p \<noteq> 1 then node_loop os s node mcast msg msglen nxt h
                else let ((r, rxb, rxaddr), h) = sys (sys_recvfrom os s 2048 1) h
                in if r \<le> 0 \<or> r < 16 \<or> le_word rxb 0 \<noteq> NB_MAGIC \<or> le_word rxb 4 \<noteq> NB_CMD_STATUS \<or> le_word rxb 8 \<noteq> seq h
                   then node_loop os s node mcast msg msglen nxt h
                   else let h = eprint ''\<newline>[ located '%s' at %s/%u ]\<newline>''
                                  [Text node, Text (sin6_addr rxaddr), Number (word_of_int (sin6_scope_id rxaddr))] h;
                            (s0, h) = open_udp6_socket os rxaddr True h
                        in if s0 \<ge> 0 then Some (Returns s0, shut os s h)
                           else node_loop os s node mcast msg msglen nxt h)"

text \<open>
  The message is initialized with zeros.  The name is checked against the length of a whole
  message: a name of more than 1024 bytes overruns the data, as far as 1040 are let through.
\<close>

definition open_node :: "'w os \<Rightarrow> int \<Rightarrow> u8 list \<Rightarrow> 'w host \<Rightarrow> (int ending \<times> 'w host) option" where
  "open_node os idx node h =
     (let addr = \<lparr>sin6_addr = replicate 16 0, sin6_port = 0, sin6_scope_id = idx\<rparr>;
          (s, h) = open_udp6_socket os addr False h
      in if s < 0 then Some (Returns (- 1), h)
         else let mcast = \<lparr>sin6_addr = all_nodes, sin6_port = htons (ucast NB_PORT_QUERY), sin6_scope_id = idx\<rparr>;
                  msg = \<lparr>msg_magic = NB_MAGIC, msg_cmd = NB_CMD_QUERY, msg_seq = 0, msg_arg = 0, msg_db = replicate 1024 0\<rparr>;
                  msglen = of_nat (length node) :: u32
              in if msglen > NB_MSG_MAX then Some (Returns (- 1), h)
                 else if length node > 1024 then Some (Overrun, h)
                 else let msg = msg\<lparr>msg_db := node @ drop (length node) (msg_db msg)\<rparr>;
                          msglen = msglen + NB_MSG_MIN
                      in case get_time_ms os h of
                           (Exits n, h) \<Rightarrow> Some (Exits n, h)
                         | (Overrun, h) \<Rightarrow> Some (Overrun, h)
                         | (Returns now, h) \<Rightarrow> node_loop os s node mcast msg msglen (now + 500) h)"

subsection \<open>The command line\<close>

type_synonym image = "u8 list \<times> u32"

record options =
  do_exit :: bool
  ifname :: "u8 list"
  imagelist :: "image list"

text \<open>
  The arguments from \<open>argv[1]\<close> on, and what is printed when the process ends here.  The name given
  with \<open>-n\<close> is only printed.
\<close>

fun parse_args ::
  "(u8 list \<Rightarrow> u64) \<Rightarrow> u8 list list \<Rightarrow> options \<Rightarrow> u8 list \<Rightarrow> (int \<times> string \<times> earg list) + options \<times> u8 list" where
  "parse_args strtoul16 [] opt node = Inr (opt, node)"
| "parse_args strtoul16 (a # args) opt node =
     (if 64 \<in> set a
      then if length (imagelist opt) = 8 then Inl (- 1, ''error: too many images\<newline>'', [])
           else parse_args strtoul16 args
             (opt\<lparr>imagelist := imagelist opt @ [(takeWhile (\<lambda>c. c \<noteq> 64) a, ucast (strtoul16 (tl (dropWhile (\<lambda>c. c \<noteq> 64) a))))]\<rparr>) node
      else if a = lit ''-i''
      then (case args of [] \<Rightarrow> Inl (- 1, ''error: missing argument\<newline>'', [])
            | b # args \<Rightarrow> parse_args strtoul16 args (opt\<lparr>ifname := b\<rparr>) node)
      else if a = lit ''-n''
      then (case args of [] \<Rightarrow> Inl (- 1, ''error: missing argument\<newline>'', [])
            | b # args \<Rightarrow> parse_args strtoul16 args opt b)
      else if a = lit ''-h'' then Inl (0, ''usage'', [])
      else if a = lit ''-x'' then parse_args strtoul16 args (opt\<lparr>do_exit := True\<rparr>) node
      else Inl (- 1, ''error: unknown argument '%s'\<newline>'', [Text a]))"

fun send_images :: "'w os \<Rightarrow> netboot_msg \<Rightarrow> int \<Rightarrow> image list \<Rightarrow> 'w host \<Rightarrow> (int \<times> 'w host) option" where
  "send_images os stack s [] h = Some (0, h)"
| "send_images os stack s ((fn, addr) # images) h =
     Option.bind (send_file os stack s fn addr h) (\<lambda>(q, h).
       if q \<noteq> 0 then Some (- 1, shut os s (eprint ''\<newline>[ send failure ]\<newline>'' [] h))
       else send_images os stack s images h)"

text \<open>One round of the loop: \<open>True\<close> when the node was told to run.\<close>

definition boot_round :: "'w os \<Rightarrow> netboot_msg \<Rightarrow> int \<Rightarrow> image list \<Rightarrow> 'w host \<Rightarrow> (bool ending \<times> 'w host) option" where
  "boot_round os stack idx images h =
     Option.bind (open_node os idx (lit ''device'') h) (\<lambda>r. case r of
       (Exits n, h) \<Rightarrow> Some (Exits n, h)
     | (Overrun, h) \<Rightarrow> Some (Overrun, h)
     | (Returns s, h) \<Rightarrow>
         if s < 0 then Some (Exits (- 1), h)
         else Option.bind (send_images os stack s images h) (\<lambda>(q, h).
           if q \<noteq> 0 then Some (Returns False, h)
           else let addr = snd (hd images);
                    h = eprint ''\<newline>[ start execution at 0x%08x ]\<newline>'' [Number addr] h;
                    h = h\<lparr>seq := seq h + 1\<rparr>;
                    msg = stack\<lparr>msg_magic := NB_MAGIC, msg_cmd := NB_CMD_EXEC, msg_seq := seq h, msg_arg := addr\<rparr>;
                    (_, h) = send_msg os s msg NB_MSG_MIN h
                in Some (Returns True, shut os s (eprint ''\<newline>'' [] h))))"

partial_function (option) boot_rounds ::
  "'w os \<Rightarrow> netboot_msg \<Rightarrow> int \<Rightarrow> options \<Rightarrow> 'w host \<Rightarrow> (int ending \<times> 'w host) option" where
  "boot_rounds os stack idx opt h =
     Option.bind (boot_round os stack idx (imagelist opt) h) (\<lambda>r. case r of
       (Exits n, h) \<Rightarrow> Some (Exits n, h)
     | (Overrun, h) \<Rightarrow> Some (Overrun, h)
     | (Returns done, h) \<Rightarrow> if done \<and> do_exit opt then Some (Returns 0, h) else boot_rounds os stack idx opt h)"

definition main :: "'w os \<Rightarrow> netboot_msg \<Rightarrow> u8 list list \<Rightarrow> 'w host \<Rightarrow> (int ending \<times> 'w host) option" where
  "main os stack args h =
     (case parse_args (lib_strtoul16 os) args \<lparr>do_exit = False, ifname = lit ''qemu0'', imagelist = []\<rparr> (lit ''device'') of
        Inl (n, fmt, as) \<Rightarrow> Some (Returns n, eprint fmt as h)
      | Inr (opt, node) \<Rightarrow>
          if imagelist opt = [] then Some (Returns (- 1), eprint ''error: no files to send?\<newline>'' [] h)
          else let (idx, h) = sys (sys_if_nametoindex os (ifname opt)) h
          in if idx = 0 then Some (Returns (- 1), eprint ''unknown network interface: '%s'\<newline>'' [] h)
             else let h = eprint ''\<newline>[ netboot v0.1 ]\<newline>'' [] h;
                      h = eprint ''[ netifc '%s' ]\<newline>'' [Text (ifname opt)] h;
                      h = eprint ''[ nodename '%s' ]\<newline>'' [Text node] h
                  in boot_rounds os stack idx opt h)"

end
