(* ===== verification/HostSend.thy ===== *)
theory HostSend
  imports Host
begin

text \<open>
  What a successful transfer means.  The locale \<open>boot_channel\<close> is what the host relies on of the
  operating system, the network and the node: nothing is accepted that was not sent, and a status
  message with a sequence number answers an accepted message with that number.  Messages may be
  lost, delayed, duplicated and reordered.
\<close>

section \<open>The node's memory\<close>

text \<open>What accepted messages do to the memory of the node.\<close>

definition node_does :: "u8 list \<Rightarrow> mem \<Rightarrow> mem" where
  "node_does p m = (case reaction [] NB_PORT_CTRL p of Store a d \<Rightarrow> put_bytes m a d | _ \<Rightarrow> m)"

definition node_memory :: "u8 list list \<Rightarrow> mem \<Rightarrow> mem" where
  "node_memory ps m = fold node_does ps m"

text \<open>
  A plan says what the images want to have where.  A message conforms when it stores nothing else
  there.
\<close>

type_synonym plan = "u32 \<Rightarrow> u8 option"

definition conforms :: "plan \<Rightarrow> u8 list \<Rightarrow> bool" where
  "conforms want p \<longleftrightarrow> (\<forall>a d. reaction [] NB_PORT_CTRL p = Store a d \<longrightarrow>
     (\<forall>x v. want x = Some v \<longrightarrow> unat (x - a) < length d \<longrightarrow> d ! unat (x - a) = v))"

definition stores_at :: "u32 \<Rightarrow> u8 list \<Rightarrow> bool" where
  "stores_at x p \<longleftrightarrow> (\<exists>a d. reaction [] NB_PORT_CTRL p = Store a d \<and> unat (x - a) < length d)"

lemma reaction_store_length: "reaction name port p = Store a d \<Longrightarrow> length d \<le> 1024"
  by (auto simp: reaction_def Let_def split: if_splits)

lemma node_does_wanted:
  assumes "conforms want p" "want x = Some v"
  shows "node_does p m x = (if stores_at x p then v else m x)"
  using assms reaction_store_length [of "[]" NB_PORT_CTRL p]
  by (auto simp: node_does_def conforms_def stores_at_def put_bytes_inside put_bytes_outside not_less
    split: reaction.splits)

lemma node_memory_wanted:
  assumes "\<forall>p\<in>set ps. conforms want p" "want x = Some v"
  shows "node_memory ps m x = (if \<exists>p\<in>set ps. stores_at x p then v else m x)"
  using assms(1)
proof (induction ps arbitrary: m)
  case (Cons p ps)
  then show ?case using node_does_wanted [where want = want and p = p and m = m and x = x and v = v] assms(2) by (simp add: node_memory_def)
qed (simp add: node_memory_def)

section \<open>Messages\<close>

text \<open>The messages that the host sends to the node's control port.\<close>

definition write_msg :: "u32 \<Rightarrow> u32 \<Rightarrow> u8 list \<Rightarrow> u8 list" where
  "write_msg q a d = boot_message NB_CMD_WRITE q a d"

lemma wire_boot_message:
  assumes "msg_magic m = NB_MAGIC" "unat len = 16 + n" "n \<le> length (msg_db m)"
  shows "wire m len = boot_message (msg_cmd m) (msg_seq m) (msg_arg m) (take n (msg_db m))"
  using assms by (simp add: wire_def boot_message_def)

lemma reaction_write:
  assumes "length d \<le> 1024"
  shows "reaction name NB_PORT_CTRL (boot_message NB_CMD_WRITE q a d) = Store a d"
  using assms by (simp add: reaction_def boot_message_words nb_ports nb_commands Let_def)

text \<open>The messages that carry pieces of a file.\<close>

definition pieces :: "u32 \<Rightarrow> u8 list \<Rightarrow> u8 list set" where
  "pieces addr file = {boot_message NB_CMD_WRITE n (addr + of_nat i) (take k (drop i file)) | n i k.
     i + k \<le> length file \<and> k \<le> 1024}"

lemma pieces_drop:
  assumes "k \<le> length file"
  shows "pieces (addr + of_nat k) (drop k file) \<subseteq> pieces addr file"
proof
  fix p assume "p \<in> pieces (addr + of_nat k) (drop k file)"
  then obtain n i l where p: "p = boot_message NB_CMD_WRITE n (addr + of_nat (i + k)) (take l (drop (i + k) file))"
    "i + l \<le> length file - k" "l \<le> 1024" by (auto simp: pieces_def ac_simps)
  then have "(i + k) + l \<le> length file" using assms by linarith
  with p show "p \<in> pieces addr file" unfolding pieces_def by blast
qed

lemma stores_at_piece:
  assumes "d = take k (drop i file)" "i \<le> j" "j < i + k" "i + k \<le> length file" "k \<le> 1024"
  shows "stores_at (addr + of_nat j) (boot_message NB_CMD_WRITE n (addr + of_nat i) d)"
proof -
  have "unat (addr + of_nat j - (addr + of_nat i)) = j - i"
    using assms unat_of_nat32 [of "j - i"] by (simp add: of_nat_diff [symmetric] del: of_nat_diff)
  then show ?thesis using assms by (auto simp: stores_at_def reaction_write)
qed

lemma pieces_conform:
  assumes "p \<in> pieces addr file" "length file \<le> 4294967296" 
    and want: "\<And>i. i < length file \<Longrightarrow> want (addr + of_nat i) = Some (file ! i)"
  shows "conforms want p"
proof -
  obtain n i k where p: "p = boot_message NB_CMD_WRITE n (addr + of_nat i) (take k (drop i file))"
    "i + k \<le> length file" "k \<le> 1024" using assms(1) by (auto simp: pieces_def)
  have "take k (drop i file) ! unat (x - (addr + of_nat i)) = v"
    if "want x = Some v" "unat (x - (addr + of_nat i)) < k" for x v
  proof -
    have "x = addr + of_nat (i + unat (x - (addr + of_nat i)))" by simp
    with want [of "i + unat (x - (addr + of_nat i))"] that p(2) show ?thesis by simp
  qed
  then show ?thesis using p by (simp add: conforms_def reaction_write)
qed

section \<open>The channel\<close>

text \<open>A status message with the sequence number \<open>q\<close> that says the message was accepted.\<close>

definition acknowledges :: "u8 list \<Rightarrow> u32 \<Rightarrow> bool" where
  "acknowledges b q \<longleftrightarrow> le_word b 0 = NB_MAGIC \<and> le_word b 4 = NB_CMD_STATUS \<and> le_word b 8 = q \<and> le_word b 12 = NB_OK"

definition extends :: "'a list \<Rightarrow> 'a list \<Rightarrow> bool" where
  "extends xs ys \<longleftrightarrow> (\<exists>zs. ys = xs @ zs)"

lemma extends_refl [simp]: "extends xs xs" "extends xs (xs @ ys)"
  by (simp_all add: extends_def)

lemma extends_trans: "extends xs ys \<Longrightarrow> extends ys zs \<Longrightarrow> extends xs zs"
  by (auto simp: extends_def)

lemma extends_set: "extends xs ys \<Longrightarrow> x \<in> set xs \<Longrightarrow> x \<in> set ys"
  by (auto simp: extends_def)

locale boot_channel =
  fixes os :: "'w os" and s :: int
    and fine :: "'w \<Rightarrow> bool" and sent accepted :: "'w \<Rightarrow> u8 list list"
    and rest :: "'w \<Rightarrow> int \<Rightarrow> u8 list" and contents :: "u8 list \<Rightarrow> u8 list"
  assumes accepted_sent: "fine w \<Longrightarrow> set (accepted w) \<subseteq> set (sent w)"
    and write_sends: "fine w \<Longrightarrow> sys_write os s p w = (r, w') \<Longrightarrow>
      fine w' \<and> extends (accepted w) (accepted w') \<and> rest w' = rest w \<and>
      (sent w' = sent w @ [p] \<or> sent w' = sent w \<and> word_of_int r \<noteq> (of_nat (length p) :: u32))"
    and poll_waits: "fine w \<Longrightarrow> sys_poll os s t w = (r, w') \<Longrightarrow>
      fine w' \<and> extends (accepted w) (accepted w') \<and> rest w' = rest w \<and> sent w' = sent w"
    and read_answer: "fine w \<Longrightarrow> sys_read os s n w = ((r, b), w') \<Longrightarrow>
      fine w' \<and> extends (accepted w) (accepted w') \<and> rest w' = rest w \<and> sent w' = sent w \<and>
      (16 \<le> r \<longrightarrow> acknowledges b q \<longrightarrow> (\<exists>p\<in>set (accepted w'). le_word p 8 = q))"
    and open_file: "fine w \<Longrightarrow> sys_open os fn w = (fd, w') \<Longrightarrow>
      fine w' \<and> accepted w' = accepted w \<and> sent w' = sent w \<and> (0 \<le> fd \<longrightarrow> fd \<noteq> s \<and> rest w' fd = contents fn)"
    and read_file: "fine w \<Longrightarrow> fd \<noteq> s \<Longrightarrow> 0 < n \<Longrightarrow> sys_read os fd n w = ((r, b), w') \<Longrightarrow>
      fine w' \<and> accepted w' = accepted w \<and> sent w' = sent w \<and>
      (0 < r \<longrightarrow> r = int (length b) \<and> length b \<le> n \<and> rest w fd = b @ rest w' fd) \<and> (r = 0 \<longrightarrow> rest w fd = [])"
    and close_file: "fine w \<Longrightarrow> fd \<noteq> s \<Longrightarrow> fine (sys_close os fd w) \<and> accepted (sys_close os fd w) = accepted w \<and>
      sent (sys_close os fd w) = sent w"
begin

text \<open>Sequence numbers have not come round yet.\<close>

definition numbered :: "'w host \<Rightarrow> bool" where
  "numbered h \<longleftrightarrow> fine (world h) \<and> (\<forall>p\<in>set (sent (world h)). unat (le_word p 8) \<le> unat (seq h))"

text \<open>Sending keeps what was accepted, and sends copies of one message under new numbers.\<close>

definition sends :: "u8 list set \<Rightarrow> nat \<Rightarrow> 'w host \<Rightarrow> 'w host \<Rightarrow> bool" where
  "sends F k h h' \<longleftrightarrow> numbered h' \<and> extends (accepted (world h)) (accepted (world h')) \<and>
     set (sent (world h')) \<subseteq> set (sent (world h)) \<union> F \<and> unat (seq h') \<le> unat (seq h) + k"

lemma sends_then: "sends F k h h' \<Longrightarrow> sends F l h' h'' \<Longrightarrow> sends F (k + l) h h''"
  by (auto simp: sends_def intro: extends_trans)

lemma sends_weak: "sends F k h h' \<Longrightarrow> F \<subseteq> G \<Longrightarrow> k \<le> l \<Longrightarrow> sends G l h h'"
  by (auto simp: sends_def)

lemma sends_eprint [simp]:
  "sends F k h (eprint x y h') = sends F k h h'" "numbered (eprint x y h) = numbered h"
  "world (eprint x y h) = world h" "seq (eprint x y h) = seq h"
  by (simp_all add: sends_def numbered_def eprint_def)

lemma sys_poll_keeps:
  assumes "sys (sys_poll os s t) h = (r, h')" "numbered h"
  shows "sends F 0 h h' \<and> rest (world h') = rest (world h) \<and> seq h' = seq h \<and> sent (world h') = sent (world h)"
  using assms poll_waits [of "world h" t] by (auto simp: sys_def sends_def numbered_def split: prod.splits)

lemma sys_read_keeps:
  assumes "sys (sys_read os s n) h = ((r, b), h')" "numbered h"
  shows "sends F 0 h h' \<and> rest (world h') = rest (world h) \<and> seq h' = seq h \<and> sent (world h') = sent (world h) \<and>
    (16 \<le> r \<longrightarrow> acknowledges b q \<longrightarrow> (\<exists>p\<in>set (accepted (world h')). le_word p 8 = q))"
  using assms read_answer [of "world h" n] by (auto simp: sys_def sends_def numbered_def split: prod.splits)

text \<open>Only the message just sent has the newest number.\<close>

lemma answered_message:
  assumes "sends F k h h'" "numbered h" "sent (world h') = sent (world h) @ [p]"
    and "\<exists>m\<in>set (accepted (world h')). le_word m 8 = n" "unat (seq h) < unat n"
  shows "p \<in> set (accepted (world h'))"
proof -
  obtain m where m: "m \<in> set (accepted (world h'))" "le_word m 8 = n" using assms(4) by blast
  have "fine (world h')" using assms(1) by (simp add: sends_def numbered_def)
  then have "m \<in> set (sent (world h) @ [p])" using accepted_sent [of "world h'"] m(1) assms(3) by auto
  moreover have "m \<notin> set (sent (world h))" using assms(2,5) m(2) by (fastforce simp: numbered_def)
  ultimately show ?thesis using m(1) by simp
qed

lemma send_tries_accepted:
  assumes "send_tries os s msg len k h = (q, h')" "numbered h" "unat (seq h) + k < 4294967296"
    and f: "f = (\<lambda>n. wire (msg\<lparr>msg_seq := n\<rparr>) len)" "\<And>n. le_word (f n) 8 = n" "\<And>n. length (f n) = unat len"
  shows "sends (range f) k h h' \<and> rest (world h') = rest (world h) \<and> (q = 0 \<longrightarrow> (\<exists>n. f n \<in> set (accepted (world h'))))"
  using assms(1-3) f
proof (induction k arbitrary: h msg)
  case 0
  then show ?case by (simp add: sends_def)
next
  case (Suc k)
  define n where "n = seq h + 1"
  have n: "unat n = Suc (unat (seq h))" using Suc.prems(3) by (simp add: n_def unat_add32)
  obtain r w1 where w1: "sys_write os s (f n) (world h) = (r, w1)" by (meson surj_pair)
  define h1 where "h1 = h\<lparr>seq := n, world := w1\<rparr>"
  have wrote: "sys (sys_write os s (wire (msg\<lparr>msg_seq := n\<rparr>) len)) (h\<lparr>seq := n\<rparr>) = (r, h1)"
    using w1 by (simp add: sys_def h1_def Suc.prems(4))
  have fine: "fine (world h)" using Suc.prems(2) by (simp add: numbered_def)
  note wr = write_sends [OF fine w1]
  have s1: "sends (range f) 1 h h1" "rest (world h1) = rest (world h)" "numbered h1" "seq h1 = n"
    using wr Suc.prems(2,5) n by (fastforce simp: sends_def numbered_def h1_def)+
  show ?case
  proof (cases "word_of_int r = len")
    case False
    then have "q = - 1" "h' = h1" using Suc.prems(1) wrote by (simp_all add: Let_def n_def)
    with s1(1,2) show ?thesis by (auto elim: sends_weak)
  next
    case True
    then have sent1: "sent (world h1) = sent (world h) @ [f n]" using wr Suc.prems(6) by (auto simp: h1_def)
    obtain p h2 where p: "sys (sys_poll os s 250) h1 = (p, h2)" by (meson surj_pair)
    have s2: "sends (range f) 0 h1 h2" "rest (world h2) = rest (world h1)" "seq h2 = n" "sent (world h2) = sent (world h1)"
      using sys_poll_keeps [OF p s1(3)] s1(4) by simp_all
    have s12: "sends (range f) 1 h h2" using sends_then [OF s1(1) s2(1)] by simp
    have again: "sends (range f) (Suc k) h h' \<and> rest (world h') = rest (world h) \<and>
        (q = 0 \<longrightarrow> (\<exists>n. f n \<in> set (accepted (world h'))))"
      if "send_tries os s (msg\<lparr>msg_seq := n\<rparr>) len k (eprint fmt [] h0) = (q, h')" "sends (range f) 1 h h0"
        "rest (world h0) = rest (world h)" "seq h0 = n" for fmt h0
      using Suc.IH [OF that(1)] that(2-) n Suc.prems(3-) sends_then [OF that(2), of k h']
      by (simp add: sends_def)
    show ?thesis
    proof (cases "p = 1")
      case False
      then show ?thesis
        using again [of "''T''" h2] Suc.prems(1) wrote True p s12 s1(2) s2 by (simp add: Let_def n_def)
    next
      case poll: True
      obtain a b h3 where r: "sys (sys_read os s 1040) h2 = ((a, b), h3)" by (metis surj_pair)
      have s3: "sends (range f) 0 h2 h3" "rest (world h3) = rest (world h)" "seq h3 = n" "sent (world h3) = sent (world h1)"
        and ans: "16 \<le> a \<Longrightarrow> acknowledges b n \<Longrightarrow> \<exists>p\<in>set (accepted (world h3)). le_word p 8 = n"
        using sys_read_keeps [OF r] s2 s1(2) by (simp_all add: sends_def)
      have s13: "sends (range f) 1 h h3" using sends_then [OF s12 s3(1)] by simp
      note go = wrote True p poll r Let_def
      consider (X) "a < 16 \<or> le_word b 0 \<noteq> NB_MAGIC \<or> le_word b 4 \<noteq> NB_CMD_STATUS"
        | (S) "\<not> (a < 16 \<or> le_word b 0 \<noteq> NB_MAGIC \<or> le_word b 4 \<noteq> NB_CMD_STATUS)" "le_word b 8 \<noteq> n"
        | (E) "\<not> (a < 16 \<or> le_word b 0 \<noteq> NB_MAGIC \<or> le_word b 4 \<noteq> NB_CMD_STATUS)" "le_word b 8 = n" "le_word b 12 \<noteq> NB_OK"
        | (dot) "16 \<le> a" "acknowledges b n"
        using not_less [of a 16] unfolding acknowledges_def by blast
      then show ?thesis
      proof cases
        case X
        then show ?thesis using again [of "''X''" h3] Suc.prems(1) go s13 s3 by (simp add: n_def)
      next
        case S
        then show ?thesis using again [of "''S''" h3] Suc.prems(1) go s13 s3 by (simp add: n_def)
      next
        case E
        then have "q = - 1" "h' = eprint ''E'' [] h3" using Suc.prems(1) go s3(3) by (simp_all add: n_def)
        with s13 s3 show ?thesis by (auto elim: sends_weak)
      next
        case dot
        then have q: "h' = eprint ''.'' [] h3"
          using Suc.prems(1) go s3(3) by (simp add: n_def acknowledges_def)
        have "f n \<in> set (accepted (world h3))"
          using answered_message [OF s13 Suc.prems(2) _ ans [OF dot]] s3(4) sent1 n by simp
        with s13 s3 q show ?thesis by (auto elim: sends_weak)
      qed
    qed
  qed
qed

lemma send_msg_accepted:
  assumes "send_msg os s msg len h = (q, h')" "numbered h" "unat (seq h) + 5 < 4294967296"
    and "msg_magic msg = NB_MAGIC" "unat len = 16 + k" "k \<le> length (msg_db msg)"
  shows "sends {boot_message (msg_cmd msg) n (msg_arg msg) (take k (msg_db msg)) | n. True} 5 h h' \<and>
    rest (world h') = rest (world h) \<and>
    (q = 0 \<longrightarrow> (\<exists>n. boot_message (msg_cmd msg) n (msg_arg msg) (take k (msg_db msg)) \<in> set (accepted (world h'))))"
proof -
  let ?f = "\<lambda>n. wire (msg\<lparr>msg_seq := n\<rparr>) len"
  have eq: "?f n = boot_message (msg_cmd msg) n (msg_arg msg) (take k (msg_db msg))" for n
    using wire_boot_message [of "msg\<lparr>msg_seq := n\<rparr>" len k] assms(4-) by simp
  have "range ?f = {boot_message (msg_cmd msg) n (msg_arg msg) (take k (msg_db msg)) | n. True}"
    unfolding eq by auto
  with send_tries_accepted [OF assms(1) [unfolded send_msg_def] assms(2) assms(3) refl] show ?thesis
    using assms(5,6) by (simp add: eq boot_message_words)
qed

lemma sys_read_block:
  assumes "sys (sys_read os fd n) h = ((r, b), h')" "numbered h" "fd \<noteq> s" "0 < n"
  shows "sends F 0 h h' \<and> seq h' = seq h \<and>
    (0 < r \<longrightarrow> r = int (length b) \<and> length b \<le> n \<and> rest (world h) fd = b @ rest (world h') fd) \<and>
    (r = 0 \<longrightarrow> rest (world h) fd = [])"
  using assms read_file [of "world h" fd n] by (auto simp: sys_def sends_def numbered_def split: prod.splits)

lemma shut_sends: "numbered h \<Longrightarrow> fd \<noteq> s \<Longrightarrow> sends F 0 h (shut os fd h)"
  using close_file [of "world h" fd] by (simp add: sends_def numbered_def shut_def)

lemma send_blocks_accepted:
  assumes "numbered h" "fd \<noteq> s" "unat (seq h) + 5 * length (rest (world h) fd) < 4294967296"
    and "msg_magic msg = NB_MAGIC" "msg_cmd msg = NB_CMD_WRITE" "length (msg_db msg) = 1024"
  shows "\<exists>q h'. send_blocks os s fd msg addr h = Some (q, h') \<and>
    sends (pieces addr (rest (world h) fd)) (5 * length (rest (world h) fd)) h h' \<and>
    (q = 0 \<longrightarrow> (\<forall>j<length (rest (world h) fd). \<exists>p\<in>set (accepted (world h')). stores_at (addr + of_nat j) p))"
  using assms
proof (induction "length (rest (world h) fd)" arbitrary: h msg addr rule: less_induct)
  case less
  let ?file = "rest (world h) fd"
  obtain r b h1 where r: "sys (sys_read os fd 1024) h = ((r, b), h1)" by (metis surj_pair)
  note rd = sys_read_block [OF r less.prems(1,2), simplified]
  show ?case
  proof (cases "r \<le> 0")
    case True
    have "numbered h1" using rd by (simp add: sends_def)
    with rd have "sends F (0 + 0) h (shut os fd h1)" for F
      by (intro sends_then [OF _ shut_sends [OF _ less.prems(2)]]) simp_all
    then have "sends (pieces addr ?file) (5 * length ?file) h (shut os fd h1)" by (rule sends_weak) auto
    moreover have "r = 0 \<longrightarrow> ?file = []" using rd by simp
    ultimately show ?thesis using True r by (subst send_blocks.simps) auto
  next
    case False
    let ?k = "length b" and ?msg = "msg\<lparr>msg_db := b @ drop (length b) (msg_db msg), msg_arg := addr\<rparr>"
    have b: "r = int ?k" "0 < ?k" "?k \<le> 1024" "?file = b @ rest (world h1) fd" using False rd by auto
    obtain q h2 where q: "send_msg os s ?msg (word_of_int (r + 16)) h1 = (q, h2)" by (metis surj_pair)
    have len: "unat (word_of_int (r + 16) :: u32) = 16 + ?k"
      using b unat_of_nat32 [of "16 + ?k"] by (simp add: add.commute)
    have bound: "unat (seq h1) + 5 * ?k + 5 * length (rest (world h1) fd) < 4294967296"
      using rd less.prems(3) b(4) by simp
    have total: "5 * length ?file = 5 * ?k + 5 * length (rest (world h1) fd)" "5 \<le> 5 * ?k"
      using b(4) Suc_leI [OF b(2)] by simp_all
    from bound have bound1: "unat (seq h1) + 5 < 4294967296" using b(2) by linarith
    have "numbered h1" using rd by (simp add: sends_def)
    have piece: "boot_message NB_CMD_WRITE n addr b \<in> pieces addr ?file" for n
    proof -
      have "boot_message NB_CMD_WRITE n addr b = boot_message NB_CMD_WRITE n (addr + of_nat 0) (take ?k (drop 0 ?file))"
        "0 + ?k \<le> length ?file" using b by simp_all
      with b(3) show ?thesis unfolding pieces_def by blast
    qed
    have sm: "sends (pieces addr ?file) 5 h1 h2" "rest (world h2) = rest (world h1)"
      "q = 0 \<Longrightarrow> \<exists>n. boot_message NB_CMD_WRITE n addr b \<in> set (accepted (world h2))"
      using send_msg_accepted [OF q \<open>numbered h1\<close> bound1, of ?k] less.prems(4,5) len piece
      by (auto elim: sends_weak)
    have s2: "sends (pieces addr ?file) 5 h h2" "numbered h2"
      using sends_then [of "pieces addr ?file" 0 h h1 5 h2] rd sm(1) by (simp_all add: sends_def)
    show ?thesis
    proof (cases "q = 0")
      case False
      have "sends (pieces addr ?file) (5 * length ?file) h (shut os fd h2)"
        using sends_then [OF s2(1) shut_sends [OF s2(2) less.prems(2)]] total by (auto elim!: sends_weak)
      then show ?thesis using r q b False by (subst send_blocks.simps) auto
    next
      case True
      let ?rest = "rest (world h1) fd"
      obtain n where n: "boot_message NB_CMD_WRITE n addr b \<in> set (accepted (world h2))" using sm(3) True by blast
      have bound2: "unat (seq h2) + 5 * length ?rest < 4294967296" using bound total(2) sm(1) by (simp add: sends_def)
      obtain q' h' where q': "send_blocks os s fd ?msg (addr + of_nat ?k) h2 = Some (q', h')"
        "sends (pieces (addr + of_nat ?k) ?rest) (5 * length ?rest) h2 h'"
        "q' = 0 \<Longrightarrow> \<forall>j<length ?rest. \<exists>p\<in>set (accepted (world h')). stores_at (addr + of_nat ?k + of_nat j) p"
        using less.hyps [of h2 ?msg "addr + of_nat ?k"] b s2(2) sm(2) bound2 less.prems by auto
      have "pieces (addr + of_nat ?k) ?rest \<subseteq> pieces addr ?file" using pieces_drop [of ?k ?file addr] b(4) by simp
      then have "sends (pieces addr ?file) (5 + 5 * length ?rest) h h'"
        by (rule sends_then [OF s2(1) sends_weak [OF q'(2) _ order_refl]])
      then have "sends (pieces addr ?file) (5 * length ?file) h h'" using total by (auto elim!: sends_weak)
      moreover have "\<exists>p\<in>set (accepted (world h')). stores_at (addr + of_nat j) p" if "q' = 0" "j < length ?file" for j
      proof (cases "j < ?k")
        case True
        then have "stores_at (addr + of_nat j) (boot_message NB_CMD_WRITE n addr b)"
          using stores_at_piece [of b ?k 0 b j addr n] b(3) by simp
        moreover have "boot_message NB_CMD_WRITE n addr b \<in> set (accepted (world h'))"
          using n q'(2) by (auto simp: sends_def intro: extends_set)
        ultimately show ?thesis by blast
      next
        case False
        then have "addr + of_nat ?k + of_nat (j - ?k) = (addr + of_nat j :: u32)" by (simp add: of_nat_diff)
        moreover have "j - ?k < length ?rest" using that(2) False b(4) by (simp add: not_less)
        ultimately show ?thesis using q'(3) [OF that(1)] by metis
      qed
      ultimately show ?thesis
        using r q q'(1) True b by (subst send_blocks.simps) auto
    qed
  qed
qed

lemma send_file_accepted:
  assumes "numbered h" "unat (seq h) + 5 * length (contents fn) < 4294967296" "length (msg_db stack) = 1024"
  shows "\<exists>q h'. send_file os stack s fn addr h = Some (q, h') \<and>
    sends (pieces addr (contents fn)) (5 * length (contents fn)) h h' \<and>
    (q = 0 \<longrightarrow> (\<forall>j<length (contents fn). \<exists>p\<in>set (accepted (world h')). stores_at (addr + of_nat j) p))"
proof -
  obtain fd h1 where fd: "sys (sys_open os fn) h = (fd, h1)" by (metis surj_pair)
  have h1: "sends F 0 h h1" "numbered h1" "seq h1 = seq h" "0 \<le> fd \<longrightarrow> fd \<noteq> s \<and> rest (world h1) fd = contents fn" for F
    using fd assms(1) open_file [of "world h" fn] by (auto simp: sys_def sends_def numbered_def split: prod.splits)
  show ?thesis
  proof (cases "fd < 0")
    case True
    have "sends (pieces addr (contents fn)) (5 * length (contents fn)) h h1" by (rule sends_weak [OF h1(1) order_refl]) simp
    with True fd show ?thesis by (simp add: send_file_def)
  next
    case False
    let ?msg = "stack\<lparr>msg_magic := NB_MAGIC, msg_cmd := NB_CMD_WRITE\<rparr>"
    let ?h = "eprint ''\<newline>[ sending '%s' to 0x%08x ]\<newline>'' [Text fn, Number addr] h1"
    from False h1 have "fd \<noteq> s" "rest (world ?h) fd = contents fn" by simp_all
    with send_blocks_accepted [of ?h fd ?msg addr] assms h1(2,3)
    obtain q h' where q: "send_blocks os s fd ?msg addr ?h = Some (q, h')"
      "sends (pieces addr (contents fn)) (5 * length (contents fn)) ?h h'"
      "q = 0 \<longrightarrow> (\<forall>j<length (contents fn). \<exists>p\<in>set (accepted (world h')). stores_at (addr + of_nat j) p)"
      by auto
    from q(2) have "sends (pieces addr (contents fn)) (5 * length (contents fn)) h1 h'" by (simp add: sends_def)
    then have "sends (pieces addr (contents fn)) (5 * length (contents fn)) h h'"
      using sends_then [OF h1(1)] by simp
    with q(1,3) False fd show ?thesis by (auto simp: send_file_def)
  qed
qed

text \<open>Every byte of the images was stored by an accepted message.\<close>

definition loaded :: "image list \<Rightarrow> 'w \<Rightarrow> bool" where
  "loaded images w \<longleftrightarrow> (\<forall>(fn, addr)\<in>set images. \<forall>j<length (contents fn). \<exists>p\<in>set (accepted w). stores_at (addr + of_nat j) p)"

definition total :: "image list \<Rightarrow> nat" where
  "total images = (\<Sum>(fn, addr)\<leftarrow>images. length (contents fn))"

definition all_pieces :: "image list \<Rightarrow> u8 list set" where
  "all_pieces images = (\<Union>(fn, addr)\<in>set images. pieces addr (contents fn))"

lemma send_images_accepted:
  assumes "numbered h" "unat (seq h) + 5 * total images < 4294967296" "length (msg_db stack) = 1024"
  shows "\<exists>q h'. send_images os stack s images h = Some (q, h') \<and>
    (q = 0 \<longrightarrow> sends (all_pieces images) (5 * total images) h h' \<and> loaded images (world h'))"
  using assms(1,2)
proof (induction images arbitrary: h)
  case Nil
  then show ?case by (simp add: sends_def loaded_def)
next
  case (Cons image images)
  obtain fn addr where im: "image = (fn, addr)" by (cases image)
  have cost: "total (image # images) = length (contents fn) + total images" by (simp add: total_def im)
  then obtain q h1 where q: "send_file os stack s fn addr h = Some (q, h1)"
    "sends (pieces addr (contents fn)) (5 * length (contents fn)) h h1"
    "q = 0 \<longrightarrow> (\<forall>j<length (contents fn). \<exists>p\<in>set (accepted (world h1)). stores_at (addr + of_nat j) p)"
    using send_file_accepted [of h fn stack addr] Cons.prems assms(3) by auto
  show ?case
  proof (cases "q = 0")
    case False
    with q(1) show ?thesis by (simp add: im)
  next
    case True
    have "numbered h1" "unat (seq h1) + 5 * total images < 4294967296"
      using q(2) Cons.prems(2) cost by (auto simp: sends_def)
    with Cons.IH obtain q' h' where q': "send_images os stack s images h1 = Some (q', h')"
      "q' = 0 \<longrightarrow> sends (all_pieces images) (5 * total images) h1 h' \<and> loaded images (world h')" by blast
    have "sends (all_pieces (image # images)) (5 * total (image # images)) h h' \<and> loaded (image # images) (world h')"
      if "q' = 0"
    proof
      have s: "sends (all_pieces images) (5 * total images) h1 h'" "loaded images (world h')" using q'(2) that by auto
      have "pieces addr (contents fn) \<subseteq> all_pieces (image # images)" "all_pieces images \<subseteq> all_pieces (image # images)"
        by (auto simp: all_pieces_def im)
      from sends_then [OF sends_weak [OF q(2) this(1) order_refl] sends_weak [OF s(1) this(2) order_refl]]
      show "sends (all_pieces (image # images)) (5 * total (image # images)) h h'" by (simp add: cost)
      have "set (accepted (world h1)) \<subseteq> set (accepted (world h'))"
        using s(1) extends_set by (auto simp: sends_def)
      then show "loaded (image # images) (world h')" using s(2) q(3) True by (fastforce simp: loaded_def im)
    qed
    with q(1) q'(1) True show ?thesis by (simp add: im)
  qed
qed

lemma loaded_memory:
  assumes "fine w" "loaded images w" "(fn, addr) \<in> set images" "j < length (contents fn)"
    and "\<forall>p\<in>set (sent w). conforms want p" "want (addr + of_nat j) = Some (contents fn ! j)"
  shows "node_memory (accepted w) m (addr + of_nat j) = contents fn ! j"
proof -
  have "\<exists>p\<in>set (accepted w). stores_at (addr + of_nat j) p" using assms(2-4) by (fastforce simp: loaded_def)
  moreover have "\<forall>p\<in>set (accepted w). conforms want p" using accepted_sent [OF assms(1)] assms(5) by blast
  ultimately show ?thesis using node_memory_wanted assms(6) by simp
qed

end

text \<open>Images that do not want different bytes at one place.\<close>

definition fit :: "(u8 list \<Rightarrow> u8 list) \<Rightarrow> plan \<Rightarrow> image list \<Rightarrow> bool" where
  "fit contents want images \<longleftrightarrow>
     (\<forall>(fn, addr)\<in>set images. \<forall>j<length (contents fn). want (addr + of_nat j) = Some (contents fn ! j))"

context boot_channel
begin

lemma send_images_loads:
  assumes "numbered h" "unat (seq h) + 5 * total images < 4294967296" "length (msg_db stack) = 1024"
    and "fit contents want images" "\<forall>p\<in>set (sent (world h)). conforms want p"
  shows "\<exists>q h'. send_images os stack s images h = Some (q, h') \<and>
    (q = 0 \<longrightarrow> (\<forall>(fn, addr)\<in>set images. \<forall>j<length (contents fn).
      node_memory (accepted (world h')) m (addr + of_nat j) = contents fn ! j))"
proof -
  obtain q h' where q: "send_images os stack s images h = Some (q, h')"
    "q = 0 \<longrightarrow> sends (all_pieces images) (5 * total images) h h' \<and> loaded images (world h')"
    using send_images_accepted [OF assms(1-3)] by blast
  have len: "length (contents fn) \<le> total images" if "(fn, addr) \<in> set images" for fn addr
    using that by (force simp: total_def intro: member_le_sum_list)
  have "conforms want p" if "p \<in> all_pieces images" for p
  proof -
    from that obtain fn addr where "(fn, addr) \<in> set images" "p \<in> pieces addr (contents fn)"
      unfolding all_pieces_def by blast
    then show ?thesis using assms(2,4) len [of fn addr] by (intro pieces_conform) (auto simp: fit_def)
  qed
  with q(2) assms(5) have "q = 0 \<Longrightarrow> \<forall>p\<in>set (sent (world h')). conforms want p" by (auto simp: sends_def)
  moreover have "q = 0 \<Longrightarrow> fine (world h')" using q(2) by (simp add: sends_def numbered_def)
  ultimately show ?thesis
    using q assms(4) loaded_memory [of "world h'" images] by (fastforce simp: fit_def)
qed

end

end
