(* ===== verification/HostLink.thy ===== *)
theory HostLink
  imports HostSend LoaderRun
begin

text \<open>
  The host of \<^verbatim>\<open>Host\<close>, a network and the node together.  The network is a schedule of events:
  a message that was sent reaches the node, a reply reaches the host, or the host's wait ends.
  Any message may arrive any number of times, in any order, or never.  The node does what
  \<open>node_does\<close> and \<open>node_answer\<close> say, which is what the boot loader does.
\<close>

section \<open>The node\<close>

definition node_answer :: "u8 list \<Rightarrow> u8 list \<Rightarrow> u8 list option" where
  "node_answer name p =
     (let status = boot_message NB_CMD_STATUS (le_word p 8)
      in case reaction name NB_PORT_CTRL p of
           Ignore \<Rightarrow> None
         | Refuse \<Rightarrow> Some (status NB_ERR_BADCMD [])
         | Identify \<Rightarrow> Some (status NB_OK (lit ''name='' @ name @ [0]))
         | Store a d \<Rightarrow> Some (status NB_OK [])
         | Run a \<Rightarrow> Some (status NB_OK []))"

definition node_accepts :: "u8 list \<Rightarrow> bool" where
  "node_accepts p \<longleftrightarrow> (case reaction [] NB_PORT_CTRL p of Ignore \<Rightarrow> False | Refuse \<Rightarrow> False | _ \<Rightarrow> True)"

lemma reaction_name: "reaction name NB_PORT_CTRL p = reaction [] NB_PORT_CTRL p"
proof -
  have "NB_PORT_CTRL \<noteq> NB_PORT_QUERY" by (simp add: nb_ports)
  then show ?thesis by (simp only: reaction_def Let_def if_False)
qed

lemma put_bytes_local: "m x = m' x \<Longrightarrow> put_bytes m a d x = put_bytes m' a d x"
proof (induction d arbitrary: m m' a)
  case (Cons b d)
  show ?case unfolding put_bytes.simps by (rule Cons.IH) (use Cons.prems in \<open>simp add: fun_upd_def\<close>)
qed simp

text \<open>
  The boot loader is this node: outside its work areas its memory becomes \<open>node_does p\<close> of what
  it was, and the frame it sends decodes to \<open>node_answer\<close>.
\<close>

lemma unchanged_byte:
  assumes "unchanged B m m'" "elsewhere B x 1"
  shows "m' x = m x"
proof -
  have "bytes m' x 1 = bytes m x 1" using assms by (simp add: unchanged_def del: bytes_1)
  then show ?thesis by simp
qed

definition replied :: "u8 list \<Rightarrow> u16 \<Rightarrow> boot \<Rightarrow> u8 list \<Rightarrow> boot \<Rightarrow> bool" where
  "replied peer sport st a st' \<longleftrightarrow> (\<exists>f. bytes (nmem st') (tx_slot_address (txslot st)) (length f) = f \<and>
     eth_log st' = eth_log st @ [(RD_SLOT, txslot st), (RD_LEN, of_nat (length f)), (RD_START, 1)] \<and>
     udp_packet peer f = Some (sport, a))"

lemma answered_replied:
  "answered B peer sport st a st' \<Longrightarrow> txslot st0 = txslot st \<Longrightarrow> eth_log st0 = eth_log st \<Longrightarrow> replied peer sport st0 a st'"
  by (fastforce simp: answered_def sends_frame_def replied_def)

lemma handled_node:
  assumes "handled B name peer sport p (reaction name NB_PORT_CTRL p) st result"
    and "\<And>x. elsewhere B x 1 \<Longrightarrow> nmem st x = nmem st0 x" "txslot st0 = txslot st" "eth_log st0 = eth_log st"
  shows "case result of
      Some (Return st') \<Rightarrow> (\<forall>x. elsewhere B x 1 \<longrightarrow> nmem st' x = node_does p (nmem st0) x) \<and>
        (case node_answer name p of None \<Rightarrow> eth_log st' = eth_log st0 | Some a \<Rightarrow> replied peer sport st0 a st')
    | Some (Jump a st') \<Rightarrow> reaction name NB_PORT_CTRL p = Run a \<and>
        (\<forall>x. elsewhere B x 1 \<longrightarrow> nmem st' x = node_does p (nmem st0) x) \<and>
        (\<forall>b. node_answer name p = Some b \<longrightarrow> replied peer sport st0 b st')
    | _ \<Rightarrow> False"
proof (cases "reaction name NB_PORT_CTRL p")
  case (Store a d)
  then obtain st' where st': "result = Some (Return st')"
    "answered B peer sport (st\<lparr>nmem := put_bytes (nmem st) a d\<rparr>) (boot_message NB_CMD_STATUS (le_word p 8) NB_OK []) st'"
    using assms(1) by (auto simp: handled_def Let_def)
  have mem: "unchanged B (put_bytes (nmem st) a d) (nmem st')" using answered_from [OF st'(2)] .
  have "nmem st' x = put_bytes (nmem st0) a d x" if "elsewhere B x 1" for x
    using unchanged_byte [OF mem that] put_bytes_local [of "nmem st" x "nmem st0", OF assms(2) [OF that]] by simp
  moreover have "replied peer sport st0 (boot_message NB_CMD_STATUS (le_word p 8) NB_OK []) st'"
    by (rule answered_replied [OF st'(2)]) (simp_all add: assms)
  ultimately show ?thesis
    using Store st'(1) by (simp add: node_does_def node_answer_def reaction_name [of name, symmetric])
next
  case Ignore
  with assms show ?thesis by (simp add: handled_def node_does_def node_answer_def reaction_name [of name, symmetric])
next
  case Refuse
  then obtain st' where st': "result = Some (Return st')"
    "answered B peer sport (st\<lparr>nmem := nmem st\<rparr>) (boot_message NB_CMD_STATUS (le_word p 8) NB_ERR_BADCMD []) st'"
    using assms(1) by (auto simp: handled_def Let_def)
  from answered_replied [OF st'(2), of st0] unchanged_byte [OF answered_from [OF st'(2)]] show ?thesis
    using Refuse st'(1) assms(2-) by (simp add: node_does_def node_answer_def reaction_name [of name, symmetric])
next
  case Identify
  then obtain st' where st': "result = Some (Return st')"
    "answered B peer sport (st\<lparr>nmem := nmem st\<rparr>) (boot_message NB_CMD_STATUS (le_word p 8) NB_OK (lit ''name='' @ name @ [0])) st'"
    using assms(1) by (auto simp: handled_def Let_def)
  from answered_replied [OF st'(2), of st0] unchanged_byte [OF answered_from [OF st'(2)]] show ?thesis
    using Identify st'(1) assms(2-) by (simp add: node_does_def node_answer_def reaction_name [of name, symmetric])
next
  case (Run a)
  then obtain st' st'' where st': "result = Some (Jump a st'')" "nmem st'' = nmem st'" "eth_log st'' = eth_log st'"
    "answered B peer sport (st\<lparr>nmem := nmem st\<rparr>) (boot_message NB_CMD_STATUS (le_word p 8) NB_OK []) st'"
    using assms(1) by (auto simp: handled_def Let_def)
  from answered_replied [OF st'(4), of st0] unchanged_byte [OF answered_from [OF st'(4)]] show ?thesis
    using Run st'(1-3) assms(2-) by (simp add: replied_def node_does_def node_answer_def reaction_name [of name, symmetric])
qed

section \<open>The network\<close>

datatype event = Deliver nat | Arrive nat | Wake

record link =
  l_name :: "u8 list"
  l_files :: "u8 list \<Rightarrow> u8 list option"
  l_sent :: "u8 list list"
  l_accepted :: "u8 list list"
  l_replies :: "u8 list list"
  l_inbox :: "u8 list list"
  l_running :: bool
  l_events :: "event list"
  l_open :: "int \<Rightarrow> u8 list"
  l_next :: int

text \<open>A node that runs a program does not listen any more.\<close>

definition deliver :: "u8 list \<Rightarrow> link \<Rightarrow> link" where
  "deliver p w =
     (if l_running w then w
      else (case node_answer (l_name w) p of None \<Rightarrow> w
        | Some a \<Rightarrow> w\<lparr>l_accepted := (if node_accepts p then l_accepted w @ [p] else l_accepted w),
            l_replies := l_replies w @ [a],
            l_running := (case reaction [] NB_PORT_CTRL p of Run _ \<Rightarrow> True | _ \<Rightarrow> False)\<rparr>))"

fun happen :: "event list \<Rightarrow> link \<Rightarrow> link" where
  "happen [] w = w\<lparr>l_events := []\<rparr>"
| "happen (Wake # es) w = w\<lparr>l_events := es\<rparr>"
| "happen (Deliver i # es) w = happen es (if i < length (l_sent w) then deliver (l_sent w ! i) w else w)"
| "happen (Arrive i # es) w =
     happen es (if i < length (l_replies w) then w\<lparr>l_inbox := l_inbox w @ [l_replies w ! i]\<rparr> else w)"

definition socket :: int where "socket = 3"

definition link_os :: "link os" where
  "link_os = \<lparr>
     sys_clock = (\<lambda>w. (None, w)), sys_socket = (\<lambda>w. (socket, w)), sys_setsockopt = (\<lambda>s x w. (0, w)),
     sys_set_nonblock = (\<lambda>s w. (0, w)), sys_connect = (\<lambda>s a w. (0, w)), sys_bind = (\<lambda>s a w. (0, w)),
     sys_close = (\<lambda>s w. w), sys_sendto = (\<lambda>s p a w. (- 1, w)),
     sys_recvfrom = (\<lambda>s n flags w. ((- 1, [], \<lparr>sin6_addr = [], sin6_port = 0, sin6_scope_id = 0\<rparr>), w)),
     sys_poll = (\<lambda>s t w. let w = happen (l_events w) w in (if l_inbox w = [] then 0 else 1, w)),
     sys_write = (\<lambda>s p w. (int (length p), w\<lparr>l_sent := l_sent w @ [p]\<rparr>)),
     sys_read = (\<lambda>s n w.
       if s = socket
       then (case l_inbox w of [] \<Rightarrow> ((- 1, []), w)
             | p # ps \<Rightarrow> ((int (min n (length p)), take n p), w\<lparr>l_inbox := ps\<rparr>))
       else ((int (min n (length (l_open w s))), take n (l_open w s)),
             w\<lparr>l_open := (l_open w)(s := drop n (l_open w s))\<rparr>)),
     sys_open = (\<lambda>fn w. case l_files w fn of None \<Rightarrow> (- 1, w)
       | Some c \<Rightarrow> (l_next w, w\<lparr>l_open := (l_open w)(l_next w := c), l_next := l_next w + 1\<rparr>)),
     sys_if_nametoindex = (\<lambda>n w. (1, w)), lib_strtoul16 = (\<lambda>s. 0)\<rparr>"

definition contents :: "(u8 list \<Rightarrow> u8 list option) \<Rightarrow> u8 list \<Rightarrow> u8 list" where
  "contents files fn = (case files fn of None \<Rightarrow> [] | Some c \<Rightarrow> c)"

definition answers :: "link \<Rightarrow> u8 list \<Rightarrow> bool" where
  "answers w b \<longleftrightarrow> (\<forall>q. acknowledges b q \<longrightarrow> (\<exists>p\<in>set (l_accepted w). le_word p 8 = q))"

definition link_fine :: "(u8 list \<Rightarrow> u8 list option) \<Rightarrow> link \<Rightarrow> bool" where
  "link_fine files w \<longleftrightarrow> l_files w = files \<and> socket < l_next w \<and> set (l_accepted w) \<subseteq> set (l_sent w) \<and>
     (\<forall>b \<in> set (l_replies w) \<union> set (l_inbox w). answers w b)"

lemma le_word_take: "i + 4 \<le> n \<Longrightarrow> n \<le> length p \<Longrightarrow> le_word (take n p) i = le_word p i"
  by (simp add: le_word_def)

lemma node_answer_acknowledges:
  assumes "node_answer name p = Some a" "acknowledges a q"
  shows "node_accepts p \<and> le_word p 8 = q"
  using assms by (auto simp: node_answer_def node_accepts_def acknowledges_def boot_message_words nb_status Let_def
      reaction_name [of name] split: reaction.splits)

lemma deliver_fine:
  assumes "link_fine files w" "p \<in> set (l_sent w)"
  shows "link_fine files (deliver p w) \<and> extends (l_accepted w) (l_accepted (deliver p w)) \<and>
    l_sent (deliver p w) = l_sent w \<and> l_open (deliver p w) = l_open w"
proof (cases "l_running w \<or> node_answer (l_name w) p = None")
  case True
  then show ?thesis using assms by (auto simp: deliver_def)
next
  case False
  then obtain a where a: "node_answer (l_name w) p = Some a" by auto
  have "answers (deliver p w) a" using False a node_answer_acknowledges [OF a] by (auto simp: answers_def deliver_def)
  moreover have "answers w b \<Longrightarrow> answers (deliver p w) b" for b
    using False a by (auto simp: answers_def deliver_def)
  ultimately show ?thesis using assms False a by (auto simp: link_fine_def deliver_def)
qed

lemma happen_fine:
  assumes "link_fine files w"
  shows "link_fine files (happen es w) \<and> extends (l_accepted w) (l_accepted (happen es w)) \<and>
    l_sent (happen es w) = l_sent w \<and> l_open (happen es w) = l_open w"
  using assms
proof (induction es w rule: happen.induct)
  case (3 i es w)
  then show ?case using deliver_fine [of files w "l_sent w ! i"] by (auto intro: extends_trans)
next
  case (4 i es w)
  have "link_fine files (if i < length (l_replies w) then w\<lparr>l_inbox := l_inbox w @ [l_replies w ! i]\<rparr> else w)"
    using 4(2) by (auto simp: link_fine_def answers_def)
  from 4(1) [OF this] show ?case by (cases "i < length (l_replies w)") simp_all
qed (auto simp: link_fine_def answers_def)

interpretation link: boot_channel link_os socket "link_fine files" l_sent l_accepted l_open "contents files" for files
proof (unfold_locales, goal_cases)
  case (3 w t r w')
  then show ?case using happen_fine [of files w "l_events w"] by (auto simp: link_os_def Let_def)
next
  case (4 w n r b w' q)
  note w = 4
  show ?case
  proof (cases "l_inbox w")
    case (Cons p ps)
    with w have r: "r = int (min n (length p))" "b = take n p" "w' = w\<lparr>l_inbox := ps\<rparr>" by (auto simp: link_os_def)
    have "acknowledges p q" if "16 \<le> r" "acknowledges b q"
      using that by (simp add: acknowledges_def r le_word_take min_def split: if_splits)
    with w(1) Cons r(3) show ?thesis by (auto simp: link_fine_def answers_def)
  qed (use w in \<open>auto simp: link_os_def\<close>)
next
  case (6 w fd n r b w')
  then show ?case by (cases "l_open w fd") (auto simp: link_os_def link_fine_def answers_def ball_Un)
qed (auto simp: link_os_def link_fine_def answers_def contents_def split: option.splits)

section \<open>Properties\<close>

definition image_bytes :: "(u8 list \<Rightarrow> u8 list option) \<Rightarrow> image list \<Rightarrow> nat" where
  "image_bytes files images = (\<Sum>(fn, addr)\<leftarrow>images. length (contents files fn))"

text \<open>
  C7: the boot loader is the node that the host talks to.  For a frame with a datagram to the
  control port the memory outside the loader's work areas changes as \<open>node_does\<close> says, and the
  frame handed to the controller decodes to the answer of \<open>node_answer\<close>.
\<close>

theorem loader_is_node:
  assumes "boot_linked B name" and "boot_ready B name mac st"
    and "bytes (nmem st) rxb (unat rxlen) = f" and "unat rxlen \<le> 1534"
    and "unat rxlen \<le> unat (rxbuf B + 2 - rxb)"
    and "segment 6 6 f = peer" and "segment 22 16 f = lla peer"
    and "udp_packet mac f = Some (ucast NB_PORT_CTRL, p)" and "safe_frame B name mac f"
  shows "case eth_rx B rxb rxlen st of
      Some (Return st') \<Rightarrow> (\<forall>x. elsewhere B x 1 \<longrightarrow> nmem st' x = node_does p (nmem st) x) \<and>
        (case node_answer name p of None \<Rightarrow> eth_log st' = eth_log st | Some a \<Rightarrow> replied peer (be_word f 54) st a st')
    | Some (Jump a st') \<Rightarrow> reaction name NB_PORT_CTRL p = Run a \<and>
        (\<forall>x. elsewhere B x 1 \<longrightarrow> nmem st' x = node_does p (nmem st) x) \<and>
        (\<forall>b. node_answer name p = Some b \<longrightarrow> replied peer (be_word f 54) st b st')
    | _ \<Rightarrow> False"
proof (rule handled_node)
  let ?st = "st\<lparr>nmem := put_bytes (nmem st) (rxbuf B + 2) f\<rparr>"
  have port: "ucast (ucast NB_PORT_CTRL :: u16) = NB_PORT_CTRL" by (simp add: nb_ports)
  show "handled B name peer (be_word f 54) p (reaction name NB_PORT_CTRL p) ?st (eth_rx B rxb rxlen st)"
    using eth_rx_udp [OF assms] by (simp only: port)
  have "length f \<le> 1534" using assms(3,4) by auto
  then have mem: "unchanged B (nmem st) (put_bytes (nmem st) (rxbuf B + 2) f)"
    by (intro unchanged_put [of "rxbuf B + 2" 1534]) (simp_all add: work_areas_def inside_def)
  show "nmem ?st x = nmem st x" if "elsewhere B x 1" for x
    using unchanged_byte [OF mem that] by simp
qed simp_all

text \<open>An example: three bytes are stored.\<close>

definition store_message :: "u8 list" where
  "store_message = boot_message NB_CMD_WRITE 9 0x40010000 [1, 2, 3]"

lemma store_frame:
  "length (boot_frame store_message) = 81"
  "udp_packet boot_mac (boot_frame store_message) = Some (ucast NB_PORT_CTRL, store_message)"
  "segment 6 6 (boot_frame store_message) = example_peer" "segment 22 16 (boot_frame store_message) = lla example_peer"
  "good_frame example_boot example_name boot_mac (boot_frame store_message)"
proof -
  show "length (boot_frame store_message) = 81"
    by (simp add: boot_frame_def ip6_frame_def boot_mac_def example_peer_def store_message_def boot_message_words)
  show udp: "udp_packet boot_mac (boot_frame store_message) = Some (ucast NB_PORT_CTRL, store_message)"
    using udp_packet_frame [of boot_mac example_peer "lla example_peer" "be16 58572" store_message 1000 1]
    by (simp add: boot_frame_def boot_mac_def example_peer_def be_word_def word_cat_be16 store_message_def
        boot_message_words nb_ports)
  show peer: "segment 6 6 (boot_frame store_message) = example_peer"
    "segment 22 16 (boot_frame store_message) = lla example_peer"
    by (simp_all add: segment_def boot_frame_def ip6_frame_def boot_mac_def example_peer_def be16_def lla_def)
  have "store_ok example_boot example_name 0x40010000 (length [1 :: u8, 2, 3])"
    by (simp add: store_ok_def privates_def work_areas_def objects_def example_boot_def example_linkage_def
        example_name_def separate_def ETHMAC_SRAM_BASE_def)
  then show "good_frame example_boot example_name boot_mac (boot_frame store_message)"
    using udp peer by (auto simp: good_frame_def safe_frame_def store_message_def nb_ports reaction_def
        boot_message_words nb_commands Let_def)
qed

theorem loader_is_node_witness:
  "\<exists>st'. eth_rx example_boot ETHMAC_SRAM_BASE 81 (first_poll (boot_frame store_message)) = Some (Return st') \<and>
     nmem st' 0x40010001 = 2"
proof -
  let ?f = "boot_frame store_message"
  have f: "length ?f \<le> 1534" by (simp add: store_frame)
  have frame: "bytes (nmem (first_poll ?f)) ETHMAC_SRAM_BASE (unat (81 :: u32)) = ?f"
    using first_poll_ready(2) [OF f store_frame(5)] by (simp add: store_frame del: bytes_numeral)
  have safe: "safe_frame example_boot example_name boot_mac ?f" using store_frame(5) by (simp add: good_frame_def)
  have apart: "unat (81 :: u32) \<le> unat (rxbuf example_boot + 2 - ETHMAC_SRAM_BASE)"
    by (simp add: example_boot_def ETHMAC_SRAM_BASE_def)
  have x: "elsewhere example_boot 0x40010001 1"
    by (simp add: elsewhere_def work_areas_def example_boot_def example_linkage_def separate_def ETHMAC_SRAM_BASE_def)
  have r: "reaction name NB_PORT_CTRL store_message = Store 0x40010000 [1, 2, 3]" for name
    by (simp add: store_message_def reaction_write)
  then have does: "node_does store_message m 0x40010001 = 2" for m by (simp add: node_does_def)
  show ?thesis
    using loader_is_node [OF example_boot_linked first_poll_ready(1) [OF f store_frame(5)] frame _ apart
        store_frame(3,4,2) safe] x does r by (auto split: option.splits outcome.splits)
qed

text \<open>
  C6: whatever the network does with the messages (losing, delaying, duplicating and reordering
  them and the replies), sending the images returns; and when it returns success, all images are
  in the node's memory at their addresses.
\<close>

theorem link_loads_images:
  assumes "link_fine files (world h)" "l_sent (world h) = []" "length (msg_db stack) = 1024"
    and "unat (seq h) + 5 * image_bytes files images < 4294967296" "fit (contents files) want images"
  shows "\<exists>q h'. send_images link_os stack socket images h = Some (q, h') \<and>
    (q = 0 \<longrightarrow> (\<forall>(fn, addr)\<in>set images.
      bytes (node_memory (l_accepted (world h')) m) addr (length (contents files fn)) = contents files fn))"
proof -
  have "link.numbered files h" using assms(1,2) by (simp add: link.numbered_def)
  moreover have "link.total files images = image_bytes files images"
    by (simp add: link.total_def image_bytes_def)
  ultimately obtain q h' where "send_images link_os stack socket images h = Some (q, h')"
    "q = 0 \<longrightarrow> (\<forall>(fn, addr)\<in>set images. \<forall>j<length (contents files fn).
      node_memory (l_accepted (world h')) m (addr + of_nat j) = contents files fn ! j)"
    using link.send_images_loads [of files h images stack want m] assms(2-) by auto
  then show ?thesis by (auto simp: list_eq_iff_nth_eq split: prod.splits)
qed

definition demo_files :: "u8 list \<Rightarrow> u8 list option" where
  "demo_files = [lit ''a'' \<mapsto> [1, 2, 3], lit ''b'' \<mapsto> [9]]"

definition demo_images :: "image list" where
  "demo_images = [(lit ''a'', 0x40010000), (lit ''b'', 0x40020000)]"

definition demo_link :: link where
  "demo_link = \<lparr>l_name = lit ''device'', l_files = demo_files, l_sent = [], l_accepted = [], l_replies = [], l_inbox = [],
     l_running = False,
     l_events = [Wake, Deliver 1, Deliver 0, Arrive 0, Wake, Deliver 2, Deliver 0, Arrive 2, Wake],
     l_open = (\<lambda>_. []), l_next = 4\<rparr>"

definition demo_host :: "link host" where
  "demo_host = \<lparr>seq = 1, err = [], world = demo_link\<rparr>"

definition demo_stack :: netboot_msg where
  "demo_stack = \<lparr>msg_magic = 0, msg_cmd = 0, msg_seq = 0, msg_arg = 0, msg_db = replicate 1024 0\<rparr>"

lemma try_timeout:
  assumes "wire (msg\<lparr>msg_seq := n + 1\<rparr>) len = p" "of_nat (length p) = len"
    and "happen (l_events w) (w\<lparr>l_sent := l_sent w @ [p]\<rparr>) = w'" "l_inbox w' = []"
  shows "send_tries link_os socket msg len (Suc k) \<lparr>seq = n, err = e, world = w\<rparr> =
    send_tries link_os socket (msg\<lparr>msg_seq := n + 1\<rparr>) len k \<lparr>seq = n + 1, err = e @ [(lit ''T'', [])], world = w'\<rparr>"
  using assms by (simp add: sys_def link_os_def Let_def eprint_def)

lemma try_answered:
  assumes "wire (msg\<lparr>msg_seq := n + 1\<rparr>) len = p" "of_nat (length p) = len"
    and "happen (l_events w) (w\<lparr>l_sent := l_sent w @ [p]\<rparr>) = w'"
    and "l_inbox w' = boot_message NB_CMD_STATUS (n + 1) NB_OK [] # rs"
  shows "send_tries link_os socket msg len (Suc k) \<lparr>seq = n, err = e, world = w\<rparr> =
    (0, \<lparr>seq = n + 1, err = e @ [(lit ''.'', [])], world = w'\<lparr>l_inbox := rs\<rparr>\<rparr>)"
  using assms by (simp add: sys_def link_os_def Let_def eprint_def boot_message_words)

lemma send_msg_tries: "send_msg os s msg len h = send_tries os s msg len (Suc (Suc (Suc (Suc (Suc 0))))) h"
  by (simp add: send_msg_def numeral_eq_Suc)

lemma deliver_write:
  "length d \<le> 1024 \<Longrightarrow> \<not> l_running w \<Longrightarrow> deliver (boot_message NB_CMD_WRITE q a d) w =
     w\<lparr>l_accepted := l_accepted w @ [boot_message NB_CMD_WRITE q a d],
       l_replies := l_replies w @ [boot_message NB_CMD_STATUS q NB_OK []], l_running := False\<rparr>"
  by (simp add: deliver_def node_answer_def node_accepts_def reaction_write boot_message_words)

lemma wire_write:
  "msg_magic m = NB_MAGIC \<Longrightarrow> msg_cmd m = NB_CMD_WRITE \<Longrightarrow> msg_db m = b @ d \<Longrightarrow> unat l = 16 + length b \<Longrightarrow>
   wire (m\<lparr>msg_seq := q\<rparr>) l = boot_message NB_CMD_WRITE q (msg_arg m) b"
  by (subst wire_boot_message [where n = "length b"]) simp_all

text \<open>
  The first message is lost in time: the node gets it after the second one, whose reply the host
  sees.  The third message reaches the node along with another copy of the first.
\<close>

lemma demo_first:
  assumes "msg_magic m = NB_MAGIC" "msg_cmd m = NB_CMD_WRITE" "msg_db m = [1, 2, 3] @ d" "msg_arg m = a"
    and "l_events w = l_events demo_link" "l_sent w = []" "l_replies w = []" "l_inbox w = []" "\<not> l_running w"
  shows "\<exists>e' w'. send_msg link_os socket m 19 \<lparr>seq = 1, err = e, world = w\<rparr> = (0, \<lparr>seq = 3, err = e', world = w'\<rparr>) \<and>
    l_events w' = [Deliver 2, Deliver 0, Arrive 2, Wake] \<and> length (l_sent w') = 2 \<and> length (l_replies w') = 2 \<and>
    (\<exists>q. l_sent w' ! 0 = boot_message NB_CMD_WRITE q a [1, 2, 3]) \<and>
    l_inbox w' = [] \<and> \<not> l_running w' \<and> l_open w' = l_open w \<and> l_next w' = l_next w \<and> l_files w' = l_files w"
proof -
  let ?p = "\<lambda>q. boot_message NB_CMD_WRITE q a [1, 2, 3]"
  let ?later = "[Deliver 1, Deliver 0, Arrive 0, Wake, Deliver 2, Deliver 0, Arrive 2, Wake]"
  define w1 where "w1 = w\<lparr>l_sent := [?p 2], l_events := ?later\<rparr>"
  define w2 where "w2 = happen ?later (w1\<lparr>l_sent := [?p 2, ?p 3]\<rparr>)"
  have p: "wire (m\<lparr>msg_seq := q\<rparr>) 19 = ?p q" for q using wire_write [of m "[1, 2, 3]" d 19 q] assms by simp
  have w2: "l_inbox w2 = boot_message NB_CMD_STATUS 3 NB_OK [] # []"
    "l_events w2 = [Deliver 2, Deliver 0, Arrive 2, Wake]" "l_sent w2 = [?p 2, ?p 3]" "length (l_replies w2) = 2"
    "\<not> l_running w2" "l_open w2 = l_open w" "l_next w2 = l_next w" "l_files w2 = l_files w"
    using assms by (simp_all add: w2_def w1_def deliver_write)
  have "send_tries link_os socket m 19 (Suc 4) \<lparr>seq = 1, err = e, world = w\<rparr> =
    send_tries link_os socket (m\<lparr>msg_seq := 2\<rparr>) 19 (Suc 3) \<lparr>seq = 2, err = e @ [(lit ''T'', [])], world = w1\<rparr>"
    using try_timeout [where msg = m and n = 1 and len = 19 and p = "?p 2" and w = w and w' = w1 and k = 4 and e = e] p [of 2] assms
    by (simp add: boot_message_words demo_link_def w1_def del: send_tries.simps)
  also have "\<dots> = (0, \<lparr>seq = 3, err = (e @ [(lit ''T'', [])]) @ [(lit ''.'', [])], world = w2\<lparr>l_inbox := []\<rparr>\<rparr>)"
    using try_answered [where msg = "m\<lparr>msg_seq := 2\<rparr>" and n = 2 and len = 19 and p = "?p 3" and w = w1 and w' = w2 and k = 3
        and rs = "[]" and e = "e @ [(lit ''T'', [])]"] p [of 3] w2(1)
    by (simp add: boot_message_words w2_def w1_def del: send_tries.simps)
  finally show ?thesis using w2 by (auto simp: send_msg_def)
qed

lemma demo_second:
  assumes "msg_magic m = NB_MAGIC" "msg_cmd m = NB_CMD_WRITE" "msg_db m = [9] @ d" "msg_arg m = a"
    and "l_events w = [Deliver 2, Deliver 0, Arrive 2, Wake]" "length (l_sent w) = 2" "length (l_replies w) = 2"
    and "l_sent w ! 0 = boot_message NB_CMD_WRITE q a' [1, 2, 3]" "l_inbox w = []" "\<not> l_running w"
  shows "\<exists>e' w'. send_msg link_os socket m 17 \<lparr>seq = 3, err = e, world = w\<rparr> = (0, \<lparr>seq = 4, err = e', world = w'\<rparr>) \<and>
    l_open w' = l_open w"
proof -
  let ?p = "boot_message NB_CMD_WRITE 4 a [9]"
  define w1 where "w1 = happen (l_events w) (w\<lparr>l_sent := l_sent w @ [?p]\<rparr>)"
  have p: "wire (m\<lparr>msg_seq := 4\<rparr>) 17 = ?p" using wire_write [of m "[9]" d 17 4] assms by simp
  have w1: "l_inbox w1 = boot_message NB_CMD_STATUS 4 NB_OK [] # []" "l_open w1 = l_open w"
    using assms by (simp_all add: w1_def deliver_write nth_append)
  have "send_tries link_os socket m 17 (Suc 4) \<lparr>seq = 3, err = e, world = w\<rparr> =
      (0, \<lparr>seq = 4, err = e @ [(lit ''.'', [])], world = w1\<lparr>l_inbox := []\<rparr>\<rparr>)"
    using try_answered [where msg = m and n = 3 and len = 17 and p = ?p and w = w and w' = w1 and k = 4
        and rs = "[]" and e = e] p w1(1)
    by (simp add: boot_message_words w1_def del: send_tries.simps)
  then show ?thesis using w1(2) by (simp add: send_msg_def)
qed

lemma link_block:
  assumes "fd \<noteq> socket" "l_open (world h) fd = b" "b \<noteq> []" "length b \<le> 1024"
    and "send_msg link_os socket (msg\<lparr>msg_db := b @ drop (length b) (msg_db msg), msg_arg := addr\<rparr>) (of_nat (length b + 16))
      (h\<lparr>world := (world h)\<lparr>l_open := (l_open (world h))(fd := [])\<rparr>\<rparr>) = (0, h')" "l_open (world h') fd = []"
  shows "send_blocks link_os socket fd msg addr h = Some (0, h')"
proof -
  have eof: "send_blocks link_os socket fd msg addr h' = Some (0, h')" for msg addr
    using assms(1,6) by (subst send_blocks.simps) (simp add: sys_def link_os_def shut_def Let_def fun_upd_idem)
  have "sys (sys_read link_os fd 1024) h =
      ((int (length b), b), h\<lparr>world := (world h)\<lparr>l_open := (l_open (world h))(fd := [])\<rparr>\<rparr>)"
    using assms(1,2,4) by (simp add: sys_def link_os_def)
  with assms(3,5) eof show ?thesis by (subst send_blocks.simps) (simp add: Let_def add.commute)
qed

text \<open>The state in which the message of a short file is sent.\<close>

definition file_read :: "u8 list \<Rightarrow> u32 \<Rightarrow> link host \<Rightarrow> link host" where
  "file_read fn addr h =
     (let h = eprint ''\<newline>[ sending '%s' to 0x%08x ]\<newline>'' [Text fn, Number addr] h; w = world h
      in h\<lparr>world := w\<lparr>l_next := l_next w + 1, l_open := (l_open w)(l_next w := [])\<rparr>\<rparr>)"

lemma link_file:
  assumes "l_files (world h) fn = Some b" "socket < l_next (world h)" "b \<noteq> []" "length b \<le> 1024"
    and "send_msg link_os socket (stack\<lparr>msg_magic := NB_MAGIC, msg_cmd := NB_CMD_WRITE,
        msg_db := b @ drop (length b) (msg_db stack), msg_arg := addr\<rparr>) (of_nat (length b + 16)) (file_read fn addr h) = (0, h')"
    and "l_open (world h') (l_next (world h)) = []"
  shows "send_file link_os stack socket fn addr h = Some (0, h')"
proof -
  let ?w = "world h"
  let ?h = "eprint ''\<newline>[ sending '%s' to 0x%08x ]\<newline>'' [Text fn, Number addr]
     (h\<lparr>world := ?w\<lparr>l_open := (l_open ?w)(l_next ?w := b), l_next := l_next ?w + 1\<rparr>\<rparr>)"
  have "send_file link_os stack socket fn addr h =
    send_blocks link_os socket (l_next ?w) (stack\<lparr>msg_magic := NB_MAGIC, msg_cmd := NB_CMD_WRITE\<rparr>) addr ?h"
    using assms(1,2) by (simp add: send_file_def sys_def link_os_def socket_def eprint_def)
  also have "\<dots> = Some (0, h')"
    using assms by (intro link_block [where b = b]) (simp_all add: file_read_def eprint_def Let_def)
  finally show ?thesis .
qed

definition demo_plan :: plan where
  "demo_plan x = (if unat (x - 0x40010000) < 3 then Some ([1, 2, 3] ! unat (x - 0x40010000))
     else if x = 0x40020000 then Some 9 else None)"

theorem link_loads_images_witness:
  "\<exists>h'. send_images link_os demo_stack socket demo_images demo_host = Some (0, h') \<and>
     bytes (node_memory (l_accepted (world h')) (\<lambda>_. 0)) 0x40010000 3 = [1, 2, 3]"
proof -
  let ?msg = "\<lambda>b a. demo_stack\<lparr>msg_magic := NB_MAGIC, msg_cmd := NB_CMD_WRITE,
        msg_db := b @ drop (length b) (msg_db demo_stack), msg_arg := a\<rparr>"
  define h1 where "h1 = file_read (lit ''a'') 0x40010000 demo_host"
  have h1: "seq h1 = 1" "l_events (world h1) = l_events demo_link" "l_sent (world h1) = []" "l_replies (world h1) = []"
    "l_inbox (world h1) = []" "\<not> l_running (world h1)" "l_open (world h1) = (\<lambda>_. [])" "l_next (world h1) = 5"
    "l_files (world h1) = demo_files"
    by (auto simp: h1_def file_read_def demo_host_def demo_link_def Let_def eprint_def)
  obtain e w where 1: "send_msg link_os socket (?msg [1, 2, 3] 0x40010000) 19 h1 = (0, \<lparr>seq = 3, err = e, world = w\<rparr>)"
    "l_events w = [Deliver 2, Deliver 0, Arrive 2, Wake]" "length (l_sent w) = 2" "length (l_replies w) = 2"
    "\<exists>q. l_sent w ! 0 = boot_message NB_CMD_WRITE q 0x40010000 [1, 2, 3]"
    "l_inbox w = []" "\<not> l_running w" "l_open w = (\<lambda>_. [])" "l_next w = 5" "l_files w = demo_files"
    using demo_first [of "?msg [1, 2, 3] 0x40010000" "drop (length [1 :: u8, 2, 3]) (msg_db demo_stack)" "0x40010000" "world h1" "err h1"] h1
    by (cases h1) auto
  have "send_file link_os demo_stack socket (lit ''a'') 0x40010000 demo_host = Some (0, \<lparr>seq = 3, err = e, world = w\<rparr>)"
    by (rule link_file [where b = "[1, 2, 3]"])
      (use 1 in \<open>simp_all add: demo_host_def demo_link_def demo_files_def socket_def h1_def\<close>)
  moreover define h2 where "h2 = file_read (lit ''b'') 0x40020000 \<lparr>seq = 3, err = e, world = w\<rparr>"
  have h2: "seq h2 = 3" "l_events (world h2) = l_events w" "l_sent (world h2) = l_sent w" "l_replies (world h2) = l_replies w"
    "l_inbox (world h2) = []" "\<not> l_running (world h2)" "l_open (world h2) = (\<lambda>_. [])"
    using 1 by (auto simp: h2_def file_read_def Let_def eprint_def)
  obtain q where q: "l_sent w ! 0 = boot_message NB_CMD_WRITE q 0x40010000 [1, 2, 3]" using 1(5) by blast
  obtain e' w' where 2: "send_msg link_os socket (?msg [9] 0x40020000) 17 h2 = (0, \<lparr>seq = 4, err = e', world = w'\<rparr>)"
    "l_open w' = (\<lambda>_. [])"
    using demo_second [of "?msg [9] 0x40020000" "drop (length [9 :: u8]) (msg_db demo_stack)" "0x40020000" "world h2" q "0x40010000" "err h2"] h2 1 q
    by (cases h2) auto
  have "send_file link_os demo_stack socket (lit ''b'') 0x40020000 \<lparr>seq = 3, err = e, world = w\<rparr> =
      Some (0, \<lparr>seq = 4, err = e', world = w'\<rparr>)"
    by (rule link_file [where b = "[9]"])
      (use 1 2 in \<open>simp_all add: demo_files_def socket_def h2_def\<close>)
  ultimately have sent: "send_images link_os demo_stack socket demo_images demo_host = Some (0, \<lparr>seq = 4, err = e', world = w'\<rparr>)"
    by (simp add: demo_images_def)
  have "fit (contents demo_files) demo_plan demo_images"
    by (auto simp: fit_def demo_images_def contents_def demo_files_def demo_plan_def unat_of_nat32 less_Suc_eq nth_Cons')
  then have "\<exists>q h'. send_images link_os demo_stack socket demo_images demo_host = Some (q, h') \<and>
    (q = 0 \<longrightarrow> (\<forall>(fn, addr)\<in>set demo_images.
      bytes (node_memory (l_accepted (world h')) (\<lambda>_. 0)) addr (length (contents demo_files fn)) = contents demo_files fn))"
    by (intro link_loads_images) (simp_all add: demo_host_def demo_link_def link_fine_def socket_def demo_stack_def
        image_bytes_def demo_images_def contents_def demo_files_def)
  with sent show ?thesis by (auto simp: demo_images_def contents_def demo_files_def numeral_3_eq_3 simp del: bytes_numeral)
qed

end
