(* ===== verification/Spec2Isabelle.thy ===== *)
theory Spec2Isabelle
  imports Kernel25 LoaderRun MonitorLines FractalText FractalThreads Devtree Coop Preempt HostLink
begin

text \<open>
  This is a verification development for the os-workshop repository: bare-metal programs and a
  small operating system for a 32-bit RISC-V system on a chip (a LiteX FPGA design or qemu), with
  the C library, console, graphics and network code that they share.  It models the C code of the
  repository as functions and states properties that make the code correct.

  \<^bold>\<open>The program and its parts.\<close>  The boot monitor (\<^verbatim>\<open>boot/boot.c\<close>, \<^verbatim>\<open>boot/console.c\<close>) runs first
  on the board.  The network boot loader (\<^verbatim>\<open>boot/netboot.c\<close>) drives the ethernet controller, uses
  the IPv6 stack (\<^verbatim>\<open>net/ipv6.c\<close>) and receives images from the host tool (\<^verbatim>\<open>tools/netboot.c\<close>).
  The images are examples (\<^verbatim>\<open>example/\<close>, \<^verbatim>\<open>misc/\<close>) or the X/OS kernel (\<^verbatim>\<open>xos/src\<close>), which sets up
  virtual memory and starts a user program (\<^verbatim>\<open>xos/usr\<close>).  All of them use the C library
  (\<^verbatim>\<open>libc/src\<close>) and the serial console (\<^verbatim>\<open>hw/src\<close>), some the graphics library (\<^verbatim>\<open>libgfx/src\<close>).

  \<^bold>\<open>How code becomes definitions.\<close>  A C function is a HOL function of its arguments and of the
  state it uses, which it returns changed; a loop is a recursive function.  Unsigned integers and
  pointers are words of their width.  Signed arithmetic that may overflow is done on \<open>int\<close> with
  the overflow as an error value where a property depends on it.  Memory is one function from
  32-bit addresses to bytes, so that aliasing and alignment are those of the program.  A loop that
  need not end is a \<open>partial_function (option)\<close>: \<open>None\<close> is a call that does not return, and every
  claim that such a call returns says \<open>Some\<close>.  A panic, a fault, undefined behaviour and a jump
  to another program are values of a sum type.  Devices are records with the sequence of values
  that their registers return and the list of what was written.  Addresses chosen by the linker
  are fields of a record, and what the linker script or the stack layout guarantees of them is a
  named hypothesis (\<open>linked\<close>, \<open>boot_linked\<close>, \<open>monitor_linked\<close>, \<open>dt_linked\<close>, \<open>layout_ok\<close>),
  which is shown to hold for concrete addresses in the witnesses.

  \<^bold>\<open>Theories.\<close>
  \<^item> \<^verbatim>\<open>Prelude\<close>, \<^verbatim>\<open>Regions\<close>: words, memory, regions of memory and their algebra.
  \<^item> \<^verbatim>\<open>LibcMem\<close>, \<^verbatim>\<open>LibcStr\<close>, \<^verbatim>\<open>LibcNum\<close>: \<^verbatim>\<open>libc/src/string/*.c\<close>, \<^verbatim>\<open>ctype.c\<close>, \<^verbatim>\<open>atoi.c\<close>.  Every
    function against a specification on lists of bytes; the locale \<open>block_copy\<close> is the contract
    of a copying routine, with \<open>memcpy\<close> and \<open>memmove\<close> as its instances.
  \<^item> \<^verbatim>\<open>Printf\<close>: \<^verbatim>\<open>libc/src/printf.c\<close>.  \<open>Printf.render\<close> is the text that a format stands for; the
    locale \<open>printf_sink\<close> is the contract between the engine and the callback that takes its
    output.
  \<^item> \<^verbatim>\<open>Debug\<close>: \<^verbatim>\<open>hw/src/debug-io.c\<close>, \<^verbatim>\<open>debug-printf.c\<close>, \<^verbatim>\<open>print-exception.c\<close> on a UART.  The
    specification of the trap report, \<open>report_text\<close>, lists the registers by number.
  \<^item> \<^verbatim>\<open>Net\<close>, \<^verbatim>\<open>Packets\<close>: \<^verbatim>\<open>net/ipv6.c\<close>.  \<^verbatim>\<open>Packets\<close> has the frames as lists of bytes, with the
    decoder of a receiver, and the claims about what is delivered and sent.
  \<^item> \<^verbatim>\<open>Netboot\<close>, \<^verbatim>\<open>Loader\<close>, \<^verbatim>\<open>LoaderRun\<close>: \<^verbatim>\<open>boot/netboot.c\<close>.  \<open>reaction\<close> is the specification of
    the node, \<open>boot_ready\<close> the invariant of the loader's memory.
  \<^item> \<^verbatim>\<open>Host\<close>, \<^verbatim>\<open>HostSend\<close>, \<^verbatim>\<open>HostLink\<close>: \<^verbatim>\<open>tools/netboot.c\<close>.  The locale \<open>boot_channel\<close> is what
    the host relies on of system, network and node; it is interpreted on a network that loses,
    delays, repeats and reorders messages, with a node that is refined by the loader's code.
  \<^item> \<^verbatim>\<open>Monitor\<close>, \<^verbatim>\<open>MonitorLines\<close>: \<^verbatim>\<open>boot/boot.c\<close> and \<^verbatim>\<open>boot/console.c\<close>: line editing and commands.
  \<^item> \<^verbatim>\<open>Gfx\<close>, \<^verbatim>\<open>Drawing\<close>: \<^verbatim>\<open>libgfx/src/gfx.c\<close> and \<^verbatim>\<open>txt.c\<close>.  \<open>painted\<close> says which pixels an
    operation changes and that it changes no other byte.
  \<^item> \<^verbatim>\<open>ThreadRing\<close>, \<^verbatim>\<open>Coop\<close>, \<^verbatim>\<open>Preempt\<close>: the threads of \<^verbatim>\<open>example/ex10-threads-cooperative.c\<close> and
    \<^verbatim>\<open>ex11-threads-preemptive.c\<close> with the context switch of \<^verbatim>\<open>hw/src/context-switch.S\<close>.  The
    locale \<open>scheduler\<close> is a step that turns a ring of threads by one; \<open>yield\<close> and the timer tick
    are its instances.  \<open>represents\<close> relates memory to the ring.
  \<^item> \<^verbatim>\<open>Fractal\<close>, \<^verbatim>\<open>FractalText\<close>: what these threads, \<^verbatim>\<open>xos/usr/mandelbrot.c\<close> and
    \<^verbatim>\<open>misc/mandelbrot.c\<close> draw and print.
  \<^item> \<^verbatim>\<open>FractalThreads\<close>: \<open>render\<close> as a machine of small steps (\<open>painter_step\<close>) with the thread's local
    variables, its own copy of the surface and its place in the code; \<open>preempted\<close> lets any thread
    take the next step.
  \<^item> \<^verbatim>\<open>Devtree\<close>: \<^verbatim>\<open>misc/devicetree.c\<close>, against the encoding of trees.
  \<^item> \<^verbatim>\<open>Vmm\<close>, \<^verbatim>\<open>Tables\<close>: \<^verbatim>\<open>xos/src/vmm.c\<close> and the Sv32 page walk \<open>translate\<close>.  The locale
    \<open>page_allocator\<close> is the contract of the allocators of X/OS and of example 25; \<open>tables_ok\<close> and
    \<open>space\<close> are the invariants of the page tables.
  \<^item> \<^verbatim>\<open>Kernel\<close>, \<^verbatim>\<open>KernelMap\<close>, \<^verbatim>\<open>KernelUser\<close>: \<^verbatim>\<open>xos/src/kernel.c\<close>: the address space of the kernel, the
    start of the user program and its isolation.
  \<^item> \<^verbatim>\<open>Kernel25\<close>: \<^verbatim>\<open>example/ex25-kernel.c\<close>, by simulation with the kernel of X/OS.

  \<^bold>\<open>What the claims show.\<close>  Memory: the page tables that the kernels build translate exactly the
  layout of the linker script, they stay well formed under any mapping, and user mode reaches no
  page of the kernel.  Network boot: whatever the network does, when the host reports success the
  images are in the node's memory, and the node of that statement is implemented by the loader,
  down to the frames.  Network: frames are decoded and encoded as the protocols say.  Console:
  formatted output is the specified text, what is printed is read back, lines and commands are
  taken apart as typed, a device tree is printed as it is encoded.  Threads: the scheduler turns
  the ring and keeps every register, and threads that draw at the same time draw the same picture
  as one after the other.  Library: the functions do what their specification on lists says, with
  the cases in which the code does something else stated as they are.

  \<^bold>\<open>Bounds.\<close>  \<open>send_tries\<close> makes the five attempts of the code, so it needs no fuel.  The loops
  of the kernel over pages are partial functions; with \<open>layout_ok\<close> (the image below the frame
  buffer, so at most 3072 pages of 4 kB) they are shown to end and the allocator not to run out of
  pages.  A user program has the 16 kB that the kernel maps for it; a larger one makes the kernel
  fault, which is a claim.  \<open>render\<close> makes at most 500 rounds for a pixel (the text version 1000),
  as the code does, so a thread that renders ends within \<open>step_bound\<close> steps of its own however it is
  interrupted; surfaces have up to a million pixels a side.  Text that is formatted is shorter
  than 2 GB, the range of \<open>int\<close>, and the names and values of a device tree shorter than 1 GB.

  \<^bold>\<open>Not modelled.\<close>  The font of \<^verbatim>\<open>external/vgafonts.c\<close> is data, and \<^verbatim>\<open>external/sha256.c\<close> is
  third-party code that no modelled part calls.  Assembly is modelled only where C relies on what
  it does (\<^verbatim>\<open>context-switch.S\<close>, the safe reads of \<^verbatim>\<open>boot/helpers.S\<close>); the entry and trap code is
  not, and so nothing is said of what follows a fault inside the kernel.  The remaining examples
  (\<^verbatim>\<open>ex00-hello.c\<close>, \<^verbatim>\<open>ex01-timer.c\<close>, \<^verbatim>\<open>ex05-ethernet.c\<close>, \<^verbatim>\<open>ex20-mmu.c\<close>, \<^verbatim>\<open>ex25-user.c\<close>,
  \<^verbatim>\<open>misc/info.c\<close>, \<^verbatim>\<open>misc/mandelbrot-fb.c\<close>) show features of the processor or repeat code that is
  modelled.  Timing, caches and the translation look-aside buffer, beyond its flush, are outside
  the model; a thread switch happens between two of the modelled steps.
\<close>

end
